(* ===== verification/Prelude.thy ===== *)
theory Prelude
  imports Main "HOL-Library.Word"
begin

unbundle bit_operations_syntax

text \<open>
  Shared vocabulary of the development: the fixed-width integers of the C sources, the ways
  a C statement can fail, the result type the models return, the pieces of the C library
  that copy memory (\<open>malloc\<close>, \<open>memcpy\<close>, \<open>strncpy\<close>), and the generic lemmas on lists and
  words that the component theories use.
\<close>

section \<open>Machine types and failures\<close>

type_synonym byte = "8 word"
type_synonym u16 = "16 word"
type_synonym u32 = "32 word"
type_synonym u64 = "64 word"

text \<open>
  What the code can do instead of returning: touch memory outside a block, follow a null
  pointer or a pointer to a freed object, divide by zero, end the process with an exit code, or stay in a call that the
  environment never answers.
\<close>

datatype c_error = Out_Of_Bounds | Null_Deref | Use_After_Free | Div_By_Zero | Exit int | Blocked

type_synonym 'a res = "c_error + 'a"

text \<open>Sequencing of fallible statements; the first failure ends the computation.\<close>

definition bind_res :: "'a res \<Rightarrow> ('a \<Rightarrow> 'b res) \<Rightarrow> 'b res" where
  "bind_res m f = (case m of Inl e \<Rightarrow> Inl e | Inr x \<Rightarrow> f x)"

lemma bind_res_simps [simp]:
  "bind_res (Inl e) f = Inl e"
  "bind_res (Inr x) f = f x"
  by (simp_all add: bind_res_def)

lemma bind_res_Inr_iff:
  "bind_res m f = Inr y \<longleftrightarrow> (\<exists>x. m = Inr x \<and> f x = Inr y)"
  by (cases m) auto

lemma bind_res_Inl_iff:
  "bind_res m f = Inl e \<longleftrightarrow> m = Inl e \<or> (\<exists>x. m = Inr x \<and> f x = Inl e)"
  by (cases m) auto

lemma bind_res_assoc: "bind_res (bind_res m f) g = bind_res m (\<lambda>x. bind_res (f x) g)"
  by (cases m) auto

section \<open>Memory blocks\<close>

text \<open>
  A block is the list of its bytes, a pointer to the start of a block is the block or
  \<^const>\<open>None\<close> for \<open>NULL\<close>. The bytes of a fresh block are whatever the allocator left
  there: the models take them as an argument \<open>junk\<close>, so a theorem that holds for every
  \<open>junk\<close> says that no uninitialised byte is read. \<open>malloc\<close> is taken to succeed.
\<close>

type_synonym ptr = "byte list option"

definition malloc :: "(nat \<Rightarrow> byte) \<Rightarrow> nat \<Rightarrow> byte list" where
  "malloc junk n = map junk [0..<n]"

lemma length_malloc [simp]: "length (malloc junk n) = n"
  by (simp add: malloc_def)

text \<open>Reading \<open>n\<close> bytes through a pointer, as the source operand of \<open>memcpy\<close>.\<close>

definition read_ptr :: "ptr \<Rightarrow> nat \<Rightarrow> byte list res" where
  "read_ptr p n =
     (if n = 0 then Inr []
      else case p of
        None \<Rightarrow> Inl Null_Deref
      | Some b \<Rightarrow> (if n \<le> length b then Inr (take n b) else Inl Out_Of_Bounds))"

text \<open>Storing a run of bytes at an offset of a block, as the target of \<open>memcpy\<close>.\<close>

definition store_at :: "byte list \<Rightarrow> nat \<Rightarrow> byte list \<Rightarrow> byte list res" where
  "store_at buf off src =
     (if off + length src \<le> length buf
      then Inr (take off buf @ src @ drop (off + length src) buf)
      else Inl Out_Of_Bounds)"

text \<open>\<open>b[i]\<close> on a block.\<close>

definition byte_at :: "byte list \<Rightarrow> nat \<Rightarrow> byte res" where
  "byte_at b i = (if i < length b then Inr (b ! i) else Inl Out_Of_Bounds)"

text \<open>
  \<open>strncpy(dst, src, n)\<close> as the C library documents it: bytes of \<open>src\<close> up to its first
  NUL, then NULs until \<open>n\<close> bytes are written. The source is read only up to its NUL or
  to \<open>n\<close> bytes, whichever is first.
\<close>

fun strncpy_bytes :: "byte list \<Rightarrow> nat \<Rightarrow> byte list res" where
  "strncpy_bytes src 0 = Inr []"
| "strncpy_bytes [] (Suc n) = Inl Out_Of_Bounds"
| "strncpy_bytes (b # bs) (Suc n) =
     (if b = 0 then Inr (replicate (Suc n) 0)
      else bind_res (strncpy_bytes bs n) (\<lambda>r. Inr (b # r)))"

definition strncpy_ptr :: "ptr \<Rightarrow> nat \<Rightarrow> byte list res" where
  "strncpy_ptr p n =
     (if n = 0 then Inr []
      else case p of None \<Rightarrow> Inl Null_Deref | Some b \<Rightarrow> strncpy_bytes b n)"

lemma read_ptr_Some [simp]:
  "n \<le> length b \<Longrightarrow> read_ptr (Some b) n = Inr (take n b)"
  by (simp add: read_ptr_def)

lemma read_ptr_0 [simp]: "read_ptr p 0 = Inr []"
  by (simp add: read_ptr_def)

lemma byte_at_in [simp]: "i < length b \<Longrightarrow> byte_at b i = Inr (b ! i)"
  by (simp add: byte_at_def)

lemma byte_at_out [simp]: "length b \<le> i \<Longrightarrow> byte_at b i = Inl Out_Of_Bounds"
  by (simp add: byte_at_def)

lemma store_at_length: "store_at buf off src = Inr buf' \<Longrightarrow> length buf' = length buf"
  by (auto simp: store_at_def split: if_splits)

text \<open>On a string without NUL \<open>strncpy\<close> is an exact copy; a NUL cuts it short.\<close>

lemma strncpy_bytes_no_nul:
  "0 \<notin> set (take n b) \<Longrightarrow> n \<le> length b \<Longrightarrow> strncpy_bytes b n = Inr (take n b)"
  by (induction b n rule: strncpy_bytes.induct) auto

lemma strncpy_bytes_nul:
  "0 \<notin> set pre \<Longrightarrow> length pre < n \<Longrightarrow>
   strncpy_bytes (pre @ 0 # post) n = Inr (pre @ replicate (n - length pre) 0)"
proof (induction pre arbitrary: n)
  case Nil
  then show ?case by (cases n) auto
next
  case (Cons b pre)
  then show ?case by (cases n) auto
qed

lemma strncpy_ptr_no_nul:
  assumes "0 \<notin> set b" "length b = n"
  shows "strncpy_ptr (Some b) n = Inr b"
  using assms strncpy_bytes_no_nul [of n b] by (auto simp: strncpy_ptr_def)

section \<open>Big-endian byte strings of words\<close>

named_theorems codec \<open>splitting a word into bytes and joining it again\<close>

lemma join_u16 [codec]:
  fixes w :: u16
  shows "ucast (push_bit 8 (ucast (ucast (drop_bit 8 w) :: byte) :: u32)
           OR ucast (ucast w :: byte)) = w"
  by (rule bit_word_eqI) (auto simp: bit_simps not_less)

lemma join_u32 [codec]:
  fixes w :: u32
  shows "push_bit 24 (ucast (ucast (drop_bit 24 w) :: byte))
           OR push_bit 16 (ucast (ucast (drop_bit 16 w) :: byte))
           OR push_bit 8 (ucast (ucast (drop_bit 8 w) :: byte))
           OR ucast (ucast w :: byte) = w"
proof (rule bit_word_eqI)
  fix n assume "n < LENGTH(32)"
  then consider "n < 8" | "8 \<le> n" "n < 16" | "16 \<le> n" "n < 24" | "24 \<le> n" "n < 32"
    by fastforce
  then show "bit (push_bit 24 (ucast (ucast (drop_bit 24 w) :: byte))
       OR push_bit 16 (ucast (ucast (drop_bit 16 w) :: byte))
       OR push_bit 8 (ucast (ucast (drop_bit 8 w) :: byte))
       OR ucast (ucast w :: byte) :: u32) n = bit w n"
    by cases (auto simp: bit_simps)
qed

lemma mask_byte [codec]: "(b :: byte) AND 255 = b"
proof -
  have "(255 :: byte) = - 1" by simp
  then show ?thesis by (simp only: and.right_neutral)
qed

lemma unat_ucast_up [simp]:
  "LENGTH('a::len) \<le> LENGTH('b::len) \<Longrightarrow> unat (ucast (w :: 'a word) :: 'b word) = unat w"
  by (simp add: unsigned_ucast_eq take_bit_nat_eq_self_iff)
     (meson order_less_le_trans power_increasing unsigned_less one_le_numeral)

lemma unat_bound: "unat w < 2 ^ LENGTH('a)" for w :: "'a::len word"
  by (rule unsigned_less)

lemma unat_Suc_less:
  fixes i n :: "'a::len word"
  assumes "i < n"
  shows "unat (i + 1) = Suc (unat i)"
proof -
  have "unat i < unat n" using assms by (simp add: word_less_nat_alt)
  with unat_bound [of n] have "Suc (unat i) < 2 ^ LENGTH('a)" by linarith
  then show ?thesis by (simp add: unat_word_ariths)
qed

lemma unat_join_u16 [codec]:
  fixes x y :: byte
  shows "unat (ucast (push_bit 8 (ucast x) OR ucast y :: u32) :: u16) = 256 * unat x + unat y"
proof -
  let ?v = "push_bit 8 (ucast x) OR ucast y :: u32"
  have xy: "unat x < 256" "unat y < 256" using unat_bound [of x] unat_bound [of y] by simp_all
  have "?v = push_bit 8 (ucast x) + ucast y"
    by (rule disjunctive_add_eq_or [symmetric])
       (auto simp: bit_eq_iff bit_simps dest: bit_imp_le_length)
  then have "?v = ucast x * 256 + ucast y" by (simp add: push_bit_eq_mult)
  then have "unat ?v = 256 * unat x + unat y"
    using xy by (simp add: unat_word_ariths)
  then show ?thesis
    using xy by (simp add: unsigned_ucast_eq take_bit_eq_mod)
qed

section \<open>Histories of operations\<close>

text \<open>A list of operations run one after the other; the first failure ends the run.\<close>

fun run_res :: "('s \<Rightarrow> 'op \<Rightarrow> 's res) \<Rightarrow> 's \<Rightarrow> 'op list \<Rightarrow> 's res" where
  "run_res f s [] = Inr s"
| "run_res f s (x # xs) = bind_res (f s x) (\<lambda>s. run_res f s xs)"

text \<open>
  The refinement contract shared by the stores of the program: an operation on a good state
  succeeds, keeps the state good and acts on the abstract value as its specification says;
  or the program exits with -1, which can only happen once a resource that the operations
  use up (\<open>level\<close>) would exceed its limit.
\<close>

locale op_refinement =
  fixes invar :: "'s \<Rightarrow> bool" and alpha :: "'s \<Rightarrow> 'm" and level :: "'s \<Rightarrow> nat" and limit :: nat
    and step_op :: "'s \<Rightarrow> 'op \<Rightarrow> 's res" and spec_op :: "'op \<Rightarrow> 'm \<Rightarrow> 'm"
    and op_ok :: "'op \<Rightarrow> bool" and cost :: "'op \<Rightarrow> nat"
  assumes step_law: "invar s \<Longrightarrow> op_ok x \<Longrightarrow>
    (\<exists>s'. step_op s x = Inr s' \<and> invar s' \<and> alpha s' = spec_op x (alpha s) \<and> level s' \<le> level s + cost x) \<or>
    step_op s x = Inl (Exit (-1)) \<and> limit < level s + cost x"
begin

lemma history_total:
  assumes "invar s" "list_all op_ok xs"
  shows "(\<exists>s'. run_res step_op s xs = Inr s' \<and> invar s' \<and> alpha s' = fold spec_op xs (alpha s)) \<or>
    run_res step_op s xs = Inl (Exit (-1)) \<and> limit < level s + sum_list (map cost xs)"
  using assms
proof (induction xs arbitrary: s)
  case (Cons x xs)
  consider s1 where "step_op s x = Inr s1" "invar s1" "alpha s1 = spec_op x (alpha s)"
      "level s1 \<le> level s + cost x"
    | "step_op s x = Inl (Exit (-1))" "limit < level s + cost x"
    using step_law [of s x] Cons.prems by auto
  then show ?case
  proof cases
    case (1 s1)
    with Cons.IH [OF 1(2)] Cons.prems show ?thesis by auto
  qed simp
qed simp

lemma history:
  assumes "invar s" "list_all op_ok xs" "level s + sum_list (map cost xs) \<le> limit"
  shows "\<exists>s'. run_res step_op s xs = Inr s' \<and> invar s' \<and> alpha s' = fold spec_op xs (alpha s)"
  using history_total [OF assms(1,2)] assms(3) by auto

end

end
