(* ===== verification/Uthash.thy ===== *)
theory Uthash
  imports Prelude "HOL-Library.Multiset"
begin

unbundle bit_operations_syntax

text \<open>
  The hash table macros of \<open>praxis2/include/uthash.h\<close> that the sources use: \<open>HASH_FIND\<close>,
  \<open>HASH_ADD\<close>, \<open>HASH_ADD_KEYPTR\<close>, \<open>HASH_DEL\<close>, with the Jenkins hash, the bucket chains
  and the doubling of the bucket array. Elements live in a heap indexed by addresses; the
  two doubly linked lists of the macros (the chain of a bucket, the application order) are
  lists of addresses. The theory shows that the structure is a finite map from byte strings
  to elements, whatever the hash function does, as the interpretation of the locale
  \<open>kv_store\<close>. The theory \<open>Uthash_Links\<close> has the same macros on the pointers themselves and
  shows that they refine the operations given here.
\<close>

section \<open>The Jenkins hash\<close>

definition HASH_JEN_MIX :: "u32 \<Rightarrow> u32 \<Rightarrow> u32 \<Rightarrow> u32 \<times> u32 \<times> u32" where
  "HASH_JEN_MIX a b c =
    (let a = a - b; a = a - c; a = a XOR drop_bit 13 c;
         b = b - c; b = b - a; b = b XOR push_bit 8 a;
         c = c - a; c = c - b; c = c XOR drop_bit 13 b;
         a = a - b; a = a - c; a = a XOR drop_bit 12 c;
         b = b - c; b = b - a; b = b XOR push_bit 16 a;
         c = c - a; c = c - b; c = c XOR drop_bit 5 b;
         a = a - b; a = a - c; a = a XOR drop_bit 3 c;
         b = b - c; b = b - a; b = b XOR push_bit 10 a;
         c = c - a; c = c - b; c = c XOR drop_bit 15 b
     in (a, b, c))"

text \<open>Four key bytes as a little-endian word.\<close>

definition le32 :: "byte list \<Rightarrow> nat \<Rightarrow> u32" where
  "le32 k i = ucast (k ! i) + push_bit 8 (ucast (k ! (i + 1)))
     + push_bit 16 (ucast (k ! (i + 2))) + push_bit 24 (ucast (k ! (i + 3)))"

text \<open>The loop over blocks of twelve bytes; it leaves the unread rest of the key.\<close>

function jen_blocks :: "u32 \<Rightarrow> u32 \<Rightarrow> u32 \<Rightarrow> byte list \<Rightarrow> u32 \<times> u32 \<times> u32 \<times> byte list" where
  "jen_blocks i j h k =
     (if 12 \<le> length k then
        (case HASH_JEN_MIX (i + le32 k 0) (j + le32 k 4) (h + le32 k 8) of
           (i, j, h) \<Rightarrow> jen_blocks i j h (drop 12 k))
      else (i, j, h, k))"
  by pat_completeness auto
termination by (relation "measure (\<lambda>(i, j, h, k). length k)") auto

declare jen_blocks.simps [simp del]

text \<open>One label of the \<open>switch\<close> with fall-through: it runs when the rest has \<open>n\<close> bytes or more.\<close>

definition tail_byte :: "byte list \<Rightarrow> nat \<Rightarrow> nat \<Rightarrow> u32" where
  "tail_byte k n sh = (if n \<le> length k then push_bit sh (ucast (k ! (n - 1))) else 0)"

definition HASH_JEN :: "byte list \<Rightarrow> u32" where
  "HASH_JEN key =
    (case jen_blocks 0x9e3779b9 0x9e3779b9 0xfeedbeef key of (i, j, h, k) \<Rightarrow>
      let h = h + of_nat (length key);
          h = h + tail_byte k 11 24 + tail_byte k 10 16 + tail_byte k 9 8;
          j = j + tail_byte k 8 24 + tail_byte k 7 16 + tail_byte k 6 8 + tail_byte k 5 0;
          i = i + tail_byte k 4 24 + tail_byte k 3 16 + tail_byte k 2 8 + tail_byte k 1 0
      in snd (snd (HASH_JEN_MIX i j h)))"

section \<open>Tables\<close>

type_synonym addr = nat

record 'd elmt =
  e_data :: 'd
  hh_key :: "byte list"
  hh_keylen :: u32
  hh_hashv :: u32

record ut_bucket =
  chain :: "addr list"
  bcount :: u32
  expand_mult :: u32

record ut_table =
  buckets :: "ut_bucket list"
  num_buckets :: u32
  log2_num_buckets :: u32
  num_items :: u32
  ideal_chain_maxlen :: u32
  nonideal_items :: u32
  ineff_expands :: u32
  noexpand :: bool
  app_order :: "addr list"

text \<open>\<open>head\<close> is \<^const>\<open>None\<close> when the head pointer is \<open>NULL\<close>.\<close>

record 'd ut_hash =
  heap :: "addr \<Rightarrow> 'd elmt option"
  next_addr :: addr
  head :: "ut_table option"

definition HASH_TO_BKT :: "u32 \<Rightarrow> u32 \<Rightarrow> nat" where
  "HASH_TO_BKT hashv num_bkts = unat (hashv AND (num_bkts - 1))"

definition empty_bucket :: ut_bucket where
  "empty_bucket = \<lparr>chain = [], bcount = 0, expand_mult = 0\<rparr>"

definition HASH_MAKE_TABLE :: "addr \<Rightarrow> ut_table" where
  "HASH_MAKE_TABLE a = \<lparr>buckets = replicate 32 empty_bucket, num_buckets = 32,
     log2_num_buckets = 5, num_items = 0, ideal_chain_maxlen = 0, nonideal_items = 0,
     ineff_expands = 0, noexpand = False, app_order = [a]\<rparr>"

text \<open>Following a pointer to an element.\<close>

definition deref :: "(addr \<Rightarrow> 'd elmt option) \<Rightarrow> addr \<Rightarrow> 'd elmt res" where
  "deref hp a = (case hp a of None \<Rightarrow> Inl Use_After_Free | Some e \<Rightarrow> Inr e)"

definition bucket_at :: "ut_bucket list \<Rightarrow> nat \<Rightarrow> ut_bucket res" where
  "bucket_at bs i = (if i < length bs then Inr (bs ! i) else Inl Out_Of_Bounds)"

fun HASH_FIND_IN_BKT ::
  "(addr \<Rightarrow> 'd elmt option) \<Rightarrow> addr list \<Rightarrow> byte list \<Rightarrow> u32 \<Rightarrow> addr option res" where
  "HASH_FIND_IN_BKT hp [] key hashval = Inr None"
| "HASH_FIND_IN_BKT hp (a # as) key hashval =
     bind_res (deref hp a) (\<lambda>e.
     if hh_hashv e = hashval \<and> unat (hh_keylen e) = length key \<and> hh_key e = key
     then Inr (Some a)
     else HASH_FIND_IN_BKT hp as key hashval)"

definition HASH_FIND :: "'d ut_hash \<Rightarrow> byte list \<Rightarrow> addr option res" where
  "HASH_FIND h key =
     (case head h of None \<Rightarrow> Inr None
      | Some t \<Rightarrow>
          let hashv = HASH_JEN key in
          bind_res (bucket_at (buckets t) (HASH_TO_BKT hashv (num_buckets t))) (\<lambda>b.
          HASH_FIND_IN_BKT (heap h) (chain b) key hashv))"

text \<open>Moving one element into the doubled bucket array.\<close>

definition expand_one ::
  "(addr \<Rightarrow> 'd elmt option) \<Rightarrow> u32 \<Rightarrow> u32 \<Rightarrow> addr \<Rightarrow> ut_bucket list \<times> u32 \<Rightarrow> (ut_bucket list \<times> u32) res"
  where
  "expand_one hp new_num ideal a = (\<lambda>(bs, nonideal).
     bind_res (deref hp a) (\<lambda>e.
     let i = HASH_TO_BKT (hh_hashv e) new_num in
     bind_res (bucket_at bs i) (\<lambda>b.
     let b = b\<lparr>bcount := bcount b + 1\<rparr>;
         over = bcount b > ideal;
         nonideal = (if over then nonideal + 1 else nonideal);
         b = (if over \<and> bcount b > expand_mult b * ideal
              then b\<lparr>expand_mult := expand_mult b + 1\<rparr> else b);
         b = b\<lparr>chain := a # chain b\<rparr>
     in Inr (bs[i := b], nonideal))))"

fun expand_all ::
  "(addr \<Rightarrow> 'd elmt option) \<Rightarrow> u32 \<Rightarrow> u32 \<Rightarrow> addr list \<Rightarrow> ut_bucket list \<times> u32 \<Rightarrow> (ut_bucket list \<times> u32) res"
  where
  "expand_all hp new_num ideal [] st = Inr st"
| "expand_all hp new_num ideal (a # as) st =
     bind_res (expand_one hp new_num ideal a st) (expand_all hp new_num ideal as)"

text \<open>
  A table of 2^31 buckets cannot double: the allocator refuses the 2^32 buckets (64 GiB),
  which the macros answer with \<open>exit(-1)\<close>.
\<close>

definition HASH_EXPAND_BUCKETS ::
  "(addr \<Rightarrow> 'd elmt option) \<Rightarrow> ut_table \<Rightarrow> ut_table res" where
  "HASH_EXPAND_BUCKETS hp t =
    (if unat (log2_num_buckets t) \<ge> 31 then Inl (Exit (-1)) else
     let new_num = num_buckets t * 2;
         ideal = drop_bit (unat (log2_num_buckets t + 1)) (num_items t)
           + (if num_items t AND (new_num - 1) \<noteq> 0 then 1 else 0)
     in bind_res (expand_all hp new_num ideal (concat (map chain (buckets t)))
          (replicate (2 * unat (num_buckets t)) empty_bucket, 0)) (\<lambda>(bs, nonideal).
        let ineff = (if nonideal > drop_bit 1 (num_items t) then ineff_expands t + 1 else 0)
        in Inr (t\<lparr>buckets := bs, num_buckets := new_num,
             log2_num_buckets := log2_num_buckets t + 1, ideal_chain_maxlen := ideal,
             nonideal_items := nonideal, ineff_expands := ineff,
             noexpand := (noexpand t \<or> ineff > 1)\<rparr>)))"

definition HASH_ADD_TO_BKT ::
  "(addr \<Rightarrow> 'd elmt option) \<Rightarrow> ut_table \<Rightarrow> nat \<Rightarrow> addr \<Rightarrow> ut_table res" where
  "HASH_ADD_TO_BKT hp t i a =
     bind_res (bucket_at (buckets t) i) (\<lambda>b.
     let b = b\<lparr>bcount := bcount b + 1, chain := a # chain b\<rparr>;
         t = t\<lparr>buckets := (buckets t)[i := b]\<rparr>
     in if bcount b \<ge> (expand_mult b + 1) * 10 \<and> \<not> noexpand t
        then HASH_EXPAND_BUCKETS hp t else Inr t)"

definition HASH_ADD_TO_TABLE ::
  "(addr \<Rightarrow> 'd elmt option) \<Rightarrow> ut_table \<Rightarrow> u32 \<Rightarrow> addr \<Rightarrow> ut_table res" where
  "HASH_ADD_TO_TABLE hp t hashval a =
     (let t = t\<lparr>num_items := num_items t + 1\<rparr>
      in HASH_ADD_TO_BKT hp t (HASH_TO_BKT hashval (num_buckets t)) a)"

text \<open>\<open>HASH_ADD_KEYPTR\<close> (and \<open>HASH_ADD\<close>): the element at \<open>a\<close> gets its handle filled in and
  is linked at the end of the application order and at the front of its bucket.\<close>

definition HASH_ADD_KEYPTR :: "'d ut_hash \<Rightarrow> byte list \<Rightarrow> addr \<Rightarrow> 'd ut_hash res" where
  "HASH_ADD_KEYPTR h key a =
     bind_res (deref (heap h) a) (\<lambda>e.
     let hashv = HASH_JEN key;
         hp = (heap h)(a \<mapsto> e\<lparr>hh_hashv := hashv, hh_key := key, hh_keylen := of_nat (length key)\<rparr>);
         t = (case head h of None \<Rightarrow> HASH_MAKE_TABLE a
              | Some t \<Rightarrow> t\<lparr>app_order := app_order t @ [a]\<rparr>)
     in bind_res (HASH_ADD_TO_TABLE hp t hashv a) (\<lambda>t.
        Inr (h\<lparr>heap := hp, head := Some t\<rparr>)))"

definition HASH_DEL_IN_BKT :: "ut_table \<Rightarrow> nat \<Rightarrow> addr \<Rightarrow> ut_table res" where
  "HASH_DEL_IN_BKT t i a =
     bind_res (bucket_at (buckets t) i) (\<lambda>b.
     Inr (t\<lparr>buckets := (buckets t)[i := b\<lparr>bcount := bcount b - 1, chain := remove1 a (chain b)\<rparr>]\<rparr>))"

text \<open>\<open>HASH_DELETE\<close>: deleting the only element frees the table.\<close>

definition HASH_DELETE :: "'d ut_hash \<Rightarrow> addr \<Rightarrow> 'd ut_hash res" where
  "HASH_DELETE h a =
     (case head h of None \<Rightarrow> Inl Null_Deref
      | Some t \<Rightarrow>
          if app_order t = [a] then Inr (h\<lparr>head := None\<rparr>)
          else bind_res (deref (heap h) a) (\<lambda>e.
            bind_res (HASH_DEL_IN_BKT (t\<lparr>app_order := remove1 a (app_order t)\<rparr>)
                (HASH_TO_BKT (hh_hashv e) (num_buckets t)) a) (\<lambda>t.
            Inr (h\<lparr>head := Some (t\<lparr>num_items := num_items t - 1\<rparr>)\<rparr>))))"

text \<open>Allocating an element, writing its fields, freeing it.\<close>

definition ut_malloc :: "'d ut_hash \<Rightarrow> 'd \<Rightarrow> addr \<times> 'd ut_hash" where
  "ut_malloc h d = (next_addr h, h\<lparr>next_addr := Suc (next_addr h),
     heap := (heap h)(next_addr h \<mapsto> \<lparr>e_data = d, hh_key = [], hh_keylen = 0, hh_hashv = 0\<rparr>)\<rparr>)"

definition ut_write :: "'d ut_hash \<Rightarrow> addr \<Rightarrow> 'd \<Rightarrow> 'd ut_hash res" where
  "ut_write h a d = bind_res (deref (heap h) a) (\<lambda>e.
     Inr (h\<lparr>heap := (heap h)(a \<mapsto> e\<lparr>e_data := d\<rparr>)\<rparr>))"

definition ut_free :: "'d ut_hash \<Rightarrow> addr \<Rightarrow> 'd ut_hash" where
  "ut_free h a = h\<lparr>heap := (heap h)(a := None)\<rparr>"

definition ut_empty :: "'d ut_hash" where
  "ut_empty = \<lparr>heap = (\<lambda>_. None), next_addr = 0, head = None\<rparr>"

text \<open>
  The counters that the integrity test \<open>HASH_FSCK\<close> compares: of the buckets, of the items, the
  length of the order. The test itself, with its checks of the links, is in \<open>Uthash_Links\<close>.
\<close>

definition fsck_counts :: "'d ut_hash \<Rightarrow> bool" where
  "fsck_counts h = (case head h of None \<Rightarrow> True
     | Some t \<Rightarrow> (\<forall>b \<in> set (buckets t). bcount b = of_nat (length (chain b))) \<and>
         num_items t = of_nat (length (concat (map chain (buckets t)))) \<and>
         num_items t = of_nat (length (app_order t)))"


section \<open>Invariant and abstraction\<close>

definition items :: "ut_bucket list \<Rightarrow> addr list" where
  "items bs = concat (map chain bs)"

definition bkts_ok :: "(addr \<Rightarrow> 'd elmt option) \<Rightarrow> nat \<Rightarrow> ut_bucket list \<Rightarrow> bool" where
  "bkts_ok hp l bs \<longleftrightarrow> length bs = 2 ^ l \<and>
     (\<forall>i < 2 ^ l. \<forall>a \<in> set (chain (bs ! i)). \<exists>e. hp a = Some e \<and> unat (hh_hashv e) mod 2 ^ l = i) \<and>
     (\<forall>b \<in> set bs. bcount b = of_nat (length (chain b)))"

definition elmt_ok :: "'d elmt \<Rightarrow> bool" where
  "elmt_ok e \<longleftrightarrow> hh_hashv e = HASH_JEN (hh_key e) \<and> unat (hh_keylen e) = length (hh_key e)"

definition table_ok :: "(addr \<Rightarrow> 'd elmt option) \<Rightarrow> ut_table \<Rightarrow> bool" where
  "table_ok hp t \<longleftrightarrow> unat (log2_num_buckets t) < 32 \<and>
     num_buckets t = 2 ^ unat (log2_num_buckets t) \<and>
     bkts_ok hp (unat (log2_num_buckets t)) (buckets t) \<and>
     mset (items (buckets t)) = mset (app_order t) \<and>
     num_items t = of_nat (length (app_order t)) \<and>
     distinct (app_order t)"

definition elmts_ok :: "(addr \<Rightarrow> 'd elmt option) \<Rightarrow> addr list \<Rightarrow> bool" where
  "elmts_ok hp as \<longleftrightarrow> (\<forall>a \<in> set as. \<exists>e. hp a = Some e \<and> elmt_ok e) \<and>
     inj_on (\<lambda>a. hh_key (the (hp a))) (set as)"

definition order_of :: "'d ut_hash \<Rightarrow> addr list" where
  "order_of h = (case head h of None \<Rightarrow> [] | Some t \<Rightarrow> app_order t)"

definition ut_wf :: "'d ut_hash \<Rightarrow> bool" where
  "ut_wf h \<longleftrightarrow> (\<forall>t. head h = Some t \<longrightarrow> table_ok (heap h) t) \<and>
     elmts_ok (heap h) (order_of h) \<and> (\<forall>a. heap h a \<noteq> None \<longrightarrow> a < next_addr h)"

text \<open>There is room for another doubling of the bucket array below 2^32 buckets.\<close>

definition ut_room :: "'d ut_hash \<Rightarrow> bool" where
  "ut_room h \<longleftrightarrow> (case head h of None \<Rightarrow> True | Some t \<Rightarrow> unat (log2_num_buckets t) < 31)"

definition ut_map :: "'d ut_hash \<Rightarrow> byte list \<Rightarrow> 'd option" where
  "ut_map h = map_of (map (\<lambda>a. (hh_key (the (heap h a)), e_data (the (heap h a)))) (order_of h))"

section \<open>Buckets\<close>

lemma unat_pow2: "l < 32 \<Longrightarrow> unat (2 ^ l :: u32) = 2 ^ l"
proof -
  assume "l < 32"
  then have "(2::nat) ^ l < 2 ^ 32" by (rule power_strict_increasing) simp
  moreover have "(2 ^ l :: u32) = of_nat (2 ^ l)" by simp
  ultimately show ?thesis by (simp only: unat_of_nat) simp
qed

lemma HASH_TO_BKT_mod: "l < 32 \<Longrightarrow> HASH_TO_BKT hv (2 ^ l) = unat hv mod 2 ^ l"
  by (simp add: HASH_TO_BKT_def mask_eq_exp_minus_1 [symmetric] take_bit_eq_mask [symmetric]
      take_bit_eq_mod unat_mod unat_pow2)

lemma mset_items_update:
  "i < length bs \<Longrightarrow> mset (items (bs[i := b])) + mset (chain (bs ! i)) = mset (items bs) + mset (chain b)"
proof (induction bs arbitrary: i)
  case (Cons c bs)
  then show ?case by (cases i) (auto simp: items_def ac_simps)
qed simp

lemma bkts_ok_nth_in: "bkts_ok hp l bs \<Longrightarrow> i < 2 ^ l \<Longrightarrow> bcount (bs ! i) = of_nat (length (chain (bs ! i)))"
  by (simp add: bkts_ok_def)

text \<open>Replacing one bucket by a consistent one keeps the array consistent.\<close>

lemma bkts_ok_update:
  assumes "bkts_ok hp l bs" "i < 2 ^ l" "bcount b = of_nat (length (chain b))"
    "\<forall>a \<in> set (chain b). \<exists>e. hp a = Some e \<and> unat (hh_hashv e) mod 2 ^ l = i"
  shows "bkts_ok hp l (bs[i := b])"
  using assms by (auto simp: bkts_ok_def nth_list_update dest!: set_update_subset_insert [THEN subsetD])

lemma bucket_at_ok: "bkts_ok hp l bs \<Longrightarrow> i < 2 ^ l \<Longrightarrow> bucket_at bs i = Inr (bs ! i)"
  by (simp add: bkts_ok_def bucket_at_def)

lemma deref_Some [simp]: "hp a = Some e \<Longrightarrow> deref hp a = Inr e"
  by (simp add: deref_def)

lemma push_chain_ok:
  assumes ok: "bkts_ok hp l bs" and e: "hp a = Some e" and i: "i = unat (hh_hashv e) mod 2 ^ l"
    and b: "chain b = a # chain (bs ! i)" "bcount b = bcount (bs ! i) + 1"
  shows "bkts_ok hp l (bs[i := b]) \<and> mset (items (bs[i := b])) = add_mset a (mset (items bs))"
proof -
  have lt: "i < 2 ^ l" by (simp add: i)
  have "bkts_ok hp l (bs[i := b])"
  proof (rule bkts_ok_update [OF ok lt])
    show "bcount b = of_nat (length (chain b))"
      using bkts_ok_nth_in [OF ok lt] by (simp add: b)
    show "\<forall>x \<in> set (chain b). \<exists>e. hp x = Some e \<and> unat (hh_hashv e) mod 2 ^ l = i"
      using ok lt e i by (auto simp: b bkts_ok_def)
  qed
  moreover have "i < length bs" using ok lt by (simp add: bkts_ok_def)
  ultimately show ?thesis
    using mset_items_update [of i bs b] by (simp add: b)
qed

lemma expand_one_ok:
  assumes "bkts_ok hp l bs" "hp a = Some e" "l < 32"
  shows "\<exists>bs' m'. expand_one hp (2 ^ l) ideal a (bs, m) = Inr (bs', m') \<and> bkts_ok hp l bs' \<and>
     mset (items bs') = add_mset a (mset (items bs))"
proof -
  define i where "i = unat (hh_hashv e) mod 2 ^ l"
  have lt: "i < 2 ^ l" by (simp add: i_def)
  show ?thesis
    using push_chain_ok [OF assms(1,2) i_def] bucket_at_ok [OF assms(1) lt] assms(2)
    by (auto simp: expand_one_def HASH_TO_BKT_mod [OF assms(3)] Let_def i_def [symmetric])
qed

lemma expand_all_ok:
  assumes "bkts_ok hp l bs" "\<forall>a \<in> set as. hp a \<noteq> None" "l < 32"
  shows "\<exists>bs' m'. expand_all hp (2 ^ l) ideal as (bs, m) = Inr (bs', m') \<and> bkts_ok hp l bs' \<and>
     mset (items bs') = mset as + mset (items bs)"
  using assms
proof (induction as arbitrary: bs m)
  case (Cons a as)
  then obtain e where "hp a = Some e" by auto
  then obtain bs1 m1 where step: "expand_one hp (2 ^ l) ideal a (bs, m) = Inr (bs1, m1)"
    "bkts_ok hp l bs1" "mset (items bs1) = add_mset a (mset (items bs))"
    using expand_one_ok [OF Cons.prems(1)] Cons.prems(3) by blast
  then show ?case using Cons.IH [OF step(2), of m1] Cons.prems by auto
qed simp

lemma bkts_ok_replicate: "bkts_ok hp l (replicate (2 ^ l) empty_bucket)"
  by (simp add: bkts_ok_def empty_bucket_def)

lemma items_replicate: "items (replicate n empty_bucket) = []"
  by (induction n) (simp_all add: items_def empty_bucket_def)

lemma items_in_heap:
  assumes "bkts_ok hp l bs"
  shows "\<forall>a \<in> set (items bs). hp a \<noteq> None"
proof
  fix a assume "a \<in> set (items bs)"
  then obtain i where "i < length bs" "a \<in> set (chain (bs ! i))"
    by (auto simp: items_def in_set_conv_nth [of _ bs])
  with assms show "hp a \<noteq> None" unfolding bkts_ok_def by fastforce
qed

text \<open>Doubling keeps every element, each in the bucket of its hash.\<close>

lemma HASH_EXPAND_BUCKETS_keeps:
  assumes room: "unat (log2_num_buckets t) < 31" and nb: "num_buckets t = 2 ^ unat (log2_num_buckets t)"
    and ok: "bkts_ok hp (unat (log2_num_buckets t)) (buckets t)"
  shows "\<exists>t'. HASH_EXPAND_BUCKETS hp t = Inr t' \<and> app_order t' = app_order t \<and> num_items t' = num_items t \<and>
     unat (log2_num_buckets t') = Suc (unat (log2_num_buckets t)) \<and>
     num_buckets t' = 2 ^ Suc (unat (log2_num_buckets t)) \<and>
     bkts_ok hp (Suc (unat (log2_num_buckets t))) (buckets t') \<and>
     mset (items (buckets t')) = mset (items (buckets t))"
proof -
  let ?l = "unat (log2_num_buckets t)"
  have l: "unat (log2_num_buckets t + 1) = Suc ?l"
    using room by (simp add: unat_word_ariths)
  have sz: "2 * unat (num_buckets t) = 2 ^ Suc ?l" using room by (simp add: nb unat_pow2)
  have l2: "Suc ?l < 32" using room by simp
  have ex: "\<exists>bs m. expand_all hp (2 ^ Suc ?l) ideal (concat (map chain (buckets t)))
      (replicate (2 ^ Suc ?l) empty_bucket, 0) = Inr (bs, m) \<and> bkts_ok hp (Suc ?l) bs \<and>
      mset (items bs) = mset (items (buckets t))" for ideal
    using expand_all_ok [OF bkts_ok_replicate items_in_heap [OF ok] l2, of ideal 0]
    by (simp only: items_replicate mset.simps add_0_right items_def [of "buckets t", symmetric])
  show ?thesis
    using ex [of "drop_bit (Suc ?l) (num_items t) + (if num_items t AND (2 ^ Suc ?l - 1) \<noteq> 0 then 1 else 0)"]
    unfolding HASH_EXPAND_BUCKETS_def Let_def sz l
    using room by (auto simp: nb mult.commute l)
qed

lemma HASH_EXPAND_BUCKETS_ok:
  assumes "table_ok hp t" "unat (log2_num_buckets t) < 31"
  shows "\<exists>t'. HASH_EXPAND_BUCKETS hp t = Inr t' \<and> table_ok hp t' \<and> app_order t' = app_order t"
  using HASH_EXPAND_BUCKETS_keeps [of t hp] assms by (auto simp: table_ok_def)

section \<open>Finding\<close>

definition key_at :: "(addr \<Rightarrow> 'd elmt option) \<Rightarrow> addr \<Rightarrow> byte list" where
  "key_at hp a = hh_key (the (hp a))"

lemma HASH_FIND_IN_BKT_find:
  assumes "\<forall>a \<in> set ch. \<exists>e. hp a = Some e \<and> elmt_ok e"
  shows "HASH_FIND_IN_BKT hp ch key (HASH_JEN key) = Inr (find (\<lambda>a. key_at hp a = key) ch)"
  using assms
proof (induction ch)
  case (Cons a ch)
  then obtain e where e: "hp a = Some e" "elmt_ok e" by auto
  have "hh_hashv e = HASH_JEN key \<and> unat (hh_keylen e) = length key \<and> hh_key e = key
      \<longleftrightarrow> hh_key e = key"
    using e(2) by (auto simp: elmt_ok_def)
  with e Cons show ?case by (simp add: key_at_def)
qed simp

lemma find_unique:
  assumes "\<forall>x \<in> set xs. P x \<longrightarrow> x = a"
  shows "find P xs = (if a \<in> set xs \<and> P a then Some a else None)"
  using assms
proof (induction xs)
  case (Cons x xs)
  then have IH: "find P xs = (if a \<in> set xs \<and> P a then Some a else None)" by simp
  show ?case
  proof (cases "P x")
    case True
    then have "x = a" using Cons.prems by simp
    with True show ?thesis by simp
  next
    case False
    then show ?thesis by (auto simp: IH)
  qed
qed simp

lemma in_items_iff: "a \<in> set (items bs) \<longleftrightarrow> (\<exists>i < length bs. a \<in> set (chain (bs ! i)))"
  by (simp add: items_def) (metis in_set_conv_nth)

lemma table_items: "table_ok hp t \<Longrightarrow> set (items (buckets t)) = set (app_order t)"
  by (metis set_mset_mset table_ok_def)

lemma in_bucket:
  assumes "table_ok hp t" "a \<in> set (app_order t)" "hp a = Some e"
  shows "a \<in> set (chain (buckets t ! (unat (hh_hashv e) mod 2 ^ unat (log2_num_buckets t))))"
proof -
  have ok: "bkts_ok hp (unat (log2_num_buckets t)) (buckets t)" using assms(1) by (simp add: table_ok_def)
  from assms(2) table_items [OF assms(1)] obtain i where
    "i < length (buckets t)" "a \<in> set (chain (buckets t ! i))"
    using in_items_iff [of a "buckets t"] by auto
  moreover from this ok assms(3) have "unat (hh_hashv e) mod 2 ^ unat (log2_num_buckets t) = i"
    unfolding bkts_ok_def by fastforce
  ultimately show ?thesis by simp
qed

lemma chain_in_order:
  assumes "table_ok hp t" "i < 2 ^ unat (log2_num_buckets t)"
  shows "set (chain (buckets t ! i)) \<subseteq> set (app_order t)"
proof -
  have "i < length (buckets t)" using assms by (simp add: table_ok_def bkts_ok_def)
  then have "set (chain (buckets t ! i)) \<subseteq> set (items (buckets t))"
    by (auto simp: in_items_iff)
  with table_items [OF assms(1)] show ?thesis by simp
qed

lemma HASH_FIND_find:
  assumes wf: "ut_wf h"
  shows "HASH_FIND h key = Inr (find (\<lambda>a. key_at (heap h) a = key) (order_of h))"
proof (cases "head h")
  case (Some t)
  let ?l = "unat (log2_num_buckets t)" and ?P = "\<lambda>a. key_at (heap h) a = key"
  let ?i = "unat (HASH_JEN key) mod 2 ^ ?l"
  have t: "table_ok (heap h) t" and el: "elmts_ok (heap h) (app_order t)"
    using wf Some by (auto simp: ut_wf_def order_of_def)
  have ok: "bkts_ok (heap h) ?l (buckets t)" "num_buckets t = 2 ^ ?l" "?l < 32"
    using t by (simp_all add: table_ok_def)
  have sub: "set (chain (buckets t ! ?i)) \<subseteq> set (app_order t)"
    using chain_in_order [OF t] by simp
  have "HASH_FIND h key = Inr (find ?P (chain (buckets t ! ?i)))"
    using Some bucket_at_ok [OF ok(1), of ?i] HASH_FIND_IN_BKT_find [of "chain (buckets t ! ?i)" "heap h" key]
      sub el
    by (simp add: HASH_FIND_def Let_def ok(2) HASH_TO_BKT_mod [OF ok(3)] elmts_ok_def subset_iff)
  also have "find ?P (chain (buckets t ! ?i)) = find ?P (app_order t)"
  proof (cases "\<exists>a \<in> set (app_order t). ?P a")
    case False
    then have "find ?P (app_order t) = None" "find ?P (chain (buckets t ! ?i)) = None"
      using sub by (auto simp: find_None_iff)
    then show ?thesis by simp
  next
    case True
    then obtain a where a: "a \<in> set (app_order t)" "?P a" by blast
    then have uniq: "\<forall>x \<in> set (app_order t). ?P x \<longrightarrow> x = a"
      using el by (auto simp: elmts_ok_def key_at_def inj_on_def)
    obtain e where e: "heap h a = Some e" "elmt_ok e" using el a by (auto simp: elmts_ok_def)
    then have ch: "a \<in> set (chain (buckets t ! ?i))"
      using in_bucket [OF t a(1) e(1)] a(2) by (simp add: elmt_ok_def key_at_def)
    have "\<forall>x \<in> set (chain (buckets t ! ?i)). ?P x \<longrightarrow> x = a" using uniq sub by blast
    from find_unique [OF this] find_unique [OF uniq] show ?thesis
      by (simp only: ch a simp_thms if_True)
  qed
  finally show ?thesis by (simp add: order_of_def Some)
qed (simp add: HASH_FIND_def order_of_def)

lemma ut_map_find:
  "ut_map h k = map_option (\<lambda>a. e_data (the (heap h a)))
     (find (\<lambda>a. key_at (heap h) a = k) (order_of h))"
proof -
  have "map_of (map (\<lambda>a. (hh_key (the (heap h a)), e_data (the (heap h a)))) as) k =
      map_option (\<lambda>a. e_data (the (heap h a))) (find (\<lambda>a. key_at (heap h) a = k) as)" for as
    by (induction as) (auto simp: key_at_def)
  then show ?thesis by (simp add: ut_map_def)
qed

section \<open>Adding\<close>

lemma bkts_ok_heap_cong:
  assumes "bkts_ok hp l bs" "\<forall>a \<in> set (items bs). hp' a = hp a"
  shows "bkts_ok hp' l bs"
proof -
  have "hp' a = hp a" if "i < 2 ^ l" "a \<in> set (chain (bs ! i))" for i a
  proof -
    have "i < length bs" using assms(1) that(1) by (simp add: bkts_ok_def)
    then have "a \<in> set (items bs)" using that(2) by (auto simp: in_items_iff)
    then show ?thesis using assms(2) by blast
  qed
  then show ?thesis using assms(1) unfolding bkts_ok_def by metis
qed

lemma HASH_ADD_TO_BKT_ok:
  assumes l: "unat (log2_num_buckets t) = l" "l < 32" and nb: "num_buckets t = 2 ^ l"
    and ok: "bkts_ok hp l (buckets t)" and e: "hp a = Some e"
  shows "(\<exists>t' l'. HASH_ADD_TO_BKT hp t (HASH_TO_BKT (hh_hashv e) (num_buckets t)) a = Inr t' \<and>
       app_order t' = app_order t \<and> num_items t' = num_items t \<and>
       unat (log2_num_buckets t') = l' \<and> l' < 32 \<and> num_buckets t' = 2 ^ l' \<and> bkts_ok hp l' (buckets t') \<and>
       mset (items (buckets t')) = add_mset a (mset (items (buckets t)))) \<or>
     HASH_ADD_TO_BKT hp t (HASH_TO_BKT (hh_hashv e) (num_buckets t)) a = Inl (Exit (-1)) \<and> \<not> l < 31"
proof -
  define i where "i = unat (hh_hashv e) mod 2 ^ l"
  let ?b = "buckets t ! i"
  define b where "b = ?b\<lparr>bcount := bcount ?b + 1, chain := a # chain ?b\<rparr>"
  define t1 where "t1 = t\<lparr>buckets := (buckets t)[i := b]\<rparr>"
  have lt: "i < 2 ^ l" by (simp add: i_def)
  have push: "bkts_ok hp l ((buckets t)[i := b])"
    "mset (items ((buckets t)[i := b])) = add_mset a (mset (items (buckets t)))"
    using push_chain_ok [OF ok e i_def, of b] by (simp_all add: b_def)
  have t1: "unat (log2_num_buckets t1) = l" "num_buckets t1 = 2 ^ l" "bkts_ok hp l (buckets t1)"
    "app_order t1 = app_order t" "num_items t1 = num_items t" "items (buckets t1) = items ((buckets t)[i := b])"
    using l nb push by (simp_all add: t1_def)
  have run: "HASH_ADD_TO_BKT hp t (HASH_TO_BKT (hh_hashv e) (num_buckets t)) a =
      (if bcount b \<ge> (expand_mult b + 1) * 10 \<and> \<not> noexpand t1 then HASH_EXPAND_BUCKETS hp t1 else Inr t1)"
    using bucket_at_ok [OF ok lt] l
    by (auto simp: HASH_ADD_TO_BKT_def Let_def nb HASH_TO_BKT_mod i_def [symmetric] b_def t1_def)
  show ?thesis
  proof (cases "l < 31")
    case True
    then show ?thesis
      unfolding run using HASH_EXPAND_BUCKETS_keeps [of t1 hp] t1 push(2) l(2) by auto
  next
    case False
    then have "HASH_EXPAND_BUCKETS hp t1 = Inl (Exit (-1))" using t1(1) by (simp add: HASH_EXPAND_BUCKETS_def)
    then show ?thesis unfolding run using t1 push(2) l(2) False by auto
  qed
qed

lemma HASH_ADD_TO_TABLE_ok:
  assumes l: "unat (log2_num_buckets t) = l" "l < 32" and nb: "num_buckets t = 2 ^ l"
    and ok: "bkts_ok hp l (buckets t)" and its: "mset (items (buckets t)) = mset as"
    and n: "num_items t = of_nat (length as)" and ord: "app_order t = as @ [a]" "distinct (as @ [a])"
    and e: "hp a = Some e"
  shows "(\<exists>t'. HASH_ADD_TO_TABLE hp t (hh_hashv e) a = Inr t' \<and> table_ok hp t' \<and> app_order t' = as @ [a]) \<or>
     HASH_ADD_TO_TABLE hp t (hh_hashv e) a = Inl (Exit (-1)) \<and> \<not> l < 31"
  using HASH_ADD_TO_BKT_ok [of "t\<lparr>num_items := num_items t + 1\<rparr>" l hp a e] assms
  by (auto simp: HASH_ADD_TO_TABLE_def Let_def table_ok_def add.commute)

definition ut_add :: "'d ut_hash \<Rightarrow> byte list \<Rightarrow> 'd \<Rightarrow> 'd ut_hash res" where
  "ut_add h key d = (case ut_malloc h d of (a, h) \<Rightarrow> HASH_ADD_KEYPTR h key a)"

lemma find_append: "find P (xs @ ys) = (case find P xs of None \<Rightarrow> find P ys | Some x \<Rightarrow> Some x)"
  by (induction xs) auto

lemma find_SomeD: "find P xs = Some x \<Longrightarrow> x \<in> set xs \<and> P x"
  by (auto simp: find_Some_iff)

text \<open>A freshly allocated element is linked nowhere.\<close>

lemma fresh_not_linked: "ut_wf h \<Longrightarrow> next_addr h \<notin> set (order_of h)"
  by (fastforce simp: ut_wf_def elmts_ok_def)

lemma ut_map_None_iff: "ut_map h k = None \<longleftrightarrow> (\<forall>a \<in> set (order_of h). key_at (heap h) a \<noteq> k)"
  by (auto simp: ut_map_find find_None_iff)

lemma table_ok_cong:
  assumes "table_ok hp t" "\<forall>a \<in> set (app_order t). hp' a = hp a"
  shows "bkts_ok hp' (unat (log2_num_buckets t)) (buckets t)"
proof (rule bkts_ok_heap_cong)
  show "bkts_ok hp (unat (log2_num_buckets t)) (buckets t)" using assms(1) by (simp add: table_ok_def)
  show "\<forall>a \<in> set (items (buckets t)). hp' a = hp a" using assms table_items by blast
qed

lemma elmts_ok_snoc:
  assumes "elmts_ok hp as" "\<forall>x \<in> set as. hp' x = hp x" "hp' a = Some e" "elmt_ok e"
    "\<forall>x \<in> set as. key_at hp x \<noteq> hh_key e"
  shows "elmts_ok hp' (as @ [a])"
  using assms by (auto simp: elmts_ok_def inj_on_def key_at_def)

lemma HASH_ADD_KEYPTR_table:
  assumes wf: "ut_wf h" and a: "a \<notin> set (order_of h)"
    and same: "\<forall>x \<in> set (order_of h). hp x = heap h x" and e: "hp a = Some e"
  shows "(\<exists>t. HASH_ADD_TO_TABLE hp (case head h of None \<Rightarrow> HASH_MAKE_TABLE a
              | Some t \<Rightarrow> t\<lparr>app_order := app_order t @ [a]\<rparr>) (hh_hashv e) a = Inr t \<and>
            table_ok hp t \<and> app_order t = order_of h @ [a]) \<or>
     HASH_ADD_TO_TABLE hp (case head h of None \<Rightarrow> HASH_MAKE_TABLE a
              | Some t \<Rightarrow> t\<lparr>app_order := app_order t @ [a]\<rparr>) (hh_hashv e) a = Inl (Exit (-1)) \<and> \<not> ut_room h"
proof (cases "head h")
  case None
  have "bkts_ok hp 5 (replicate 32 empty_bucket)" using bkts_ok_replicate [of hp 5] by simp
  moreover have "unat (5 :: u32) = 5" by simp
  ultimately show ?thesis
    using None HASH_ADD_TO_TABLE_ok [of "HASH_MAKE_TABLE a" 5 hp "[]" a e] e
    by (simp add: HASH_MAKE_TABLE_def items_replicate order_of_def)
next
  case (Some t)
  let ?t = "t\<lparr>app_order := app_order t @ [a]\<rparr>"
  have t: "table_ok (heap h) t" using wf Some by (simp add: ut_wf_def)
  have "bkts_ok hp (unat (log2_num_buckets t)) (buckets t)"
    using table_ok_cong [OF t, of hp] same Some by (simp add: order_of_def)
  then show ?thesis
    using Some t a e
      HASH_ADD_TO_TABLE_ok [of ?t "unat (log2_num_buckets t)" hp "app_order t" a e]
    by (simp add: table_ok_def ut_room_def order_of_def)
qed

text \<open>The same table and order over a heap that differs only off the order.\<close>

lemma ut_heap_cong:
  assumes wf: "ut_wf h" and hd: "head h' = head h"
    and same: "\<forall>x \<in> set (order_of h). heap h' x = heap h x"
    and lt: "\<forall>a. heap h' a \<noteq> None \<longrightarrow> a < next_addr h'"
  shows "ut_wf h' \<and> ut_map h' = ut_map h \<and> ut_room h' = ut_room h \<and> order_of h' = order_of h"
proof -
  have ord: "order_of h' = order_of h" by (simp add: hd order_of_def)
  have "table_ok (heap h') t" if "head h = Some t" for t
  proof -
    have "table_ok (heap h) t" using wf that by (simp add: ut_wf_def)
    from table_ok_cong [OF this, of "heap h'"] this show ?thesis
      using same that by (simp add: table_ok_def order_of_def)
  qed
  moreover have "elmts_ok (heap h') (order_of h)"
    using wf same by (simp add: ut_wf_def elmts_ok_def inj_on_def)
  ultimately have "ut_wf h'" using lt ord hd by (simp add: ut_wf_def)
  moreover have "ut_map h' = ut_map h"
    unfolding ut_map_def ord using same by (metis (mono_tags, lifting) map_eq_conv)
  ultimately show ?thesis by (simp add: ut_room_def hd ord)
qed

text \<open>The element as the handle fields are filled in.\<close>

definition keyed :: "byte list \<Rightarrow> 'd elmt \<Rightarrow> 'd elmt" where
  "keyed key e = e\<lparr>hh_hashv := HASH_JEN key, hh_key := key, hh_keylen := of_nat (length key)\<rparr>"

lemma HASH_ADD_KEYPTR_cases:
  assumes wf: "ut_wf h" and fresh: "a \<notin> set (order_of h)" and e0: "heap h a = Some e0"
    and len: "length key < 2 ^ 32" and new: "ut_map h key = None"
  shows "(\<exists>h'. HASH_ADD_KEYPTR h key a = Inr h' \<and> ut_wf h' \<and> ut_map h' = (ut_map h)(key \<mapsto> e_data e0) \<and>
       order_of h' = order_of h @ [a] \<and> heap h' = (heap h)(a \<mapsto> keyed key e0) \<and> next_addr h' = next_addr h) \<or>
     HASH_ADD_KEYPTR h key a = Inl (Exit (-1)) \<and> \<not> ut_room h"
proof -
  define e where "e = keyed key e0"
  define hp where "hp = (heap h)(a \<mapsto> e)"
  have same: "\<forall>x \<in> set (order_of h). hp x = heap h x" using fresh by (auto simp: hp_def)
  have e: "hp a = Some e" "elmt_ok e" "hh_key e = key" "hh_hashv e = HASH_JEN key" "e_data e = e_data e0"
    using len by (simp_all add: hp_def e_def keyed_def elmt_ok_def unat_of_nat)
  define t0 where "t0 = (case head h of None \<Rightarrow> HASH_MAKE_TABLE a
        | Some t \<Rightarrow> t\<lparr>app_order := app_order t @ [a]\<rparr>)"
  have add0: "HASH_ADD_KEYPTR h key a = bind_res (HASH_ADD_TO_TABLE hp t0 (HASH_JEN key) a)
      (\<lambda>t. Inr (h\<lparr>heap := hp, head := Some t\<rparr>))"
    using e0 by (simp add: HASH_ADD_KEYPTR_def Let_def hp_def e_def keyed_def t0_def)
  note table = HASH_ADD_KEYPTR_table [OF wf fresh same e(1), unfolded e(4) t0_def [symmetric]]
  show ?thesis
  proof (cases "HASH_ADD_TO_TABLE hp t0 (HASH_JEN key) a")
    case (Inl err)
    then show ?thesis using add0 table by simp
  next
    case (Inr t)
    then have t: "table_ok hp t" "app_order t = order_of h @ [a]" using table by simp_all
    define h' where "h' = h\<lparr>heap := hp, head := Some t\<rparr>"
    have add: "HASH_ADD_KEYPTR h key a = Inr h'" using Inr add0 by (simp add: h'_def)
    have ord: "order_of h' = order_of h @ [a]" "heap h' = hp" using t(2) by (simp_all add: h'_def order_of_def)
    have "elmts_ok hp (order_of h @ [a])"
      using elmts_ok_snoc [OF _ same e(1,2)] wf new e(3) by (simp add: ut_wf_def ut_map_None_iff)
    then have wf': "ut_wf h'"
      using t(1) wf ord e0 by (auto simp: ut_wf_def h'_def hp_def)
    have "find (\<lambda>x. key_at hp x = k) (order_of h) = find (\<lambda>x. key_at (heap h) x = k) (order_of h)" for k
      by (rule find_cong) (use same in \<open>simp_all add: key_at_def\<close>)
    moreover have "hp x = heap h x" if "find P (order_of h) = Some x" for P x
      using same find_SomeD [OF that] by blast
    ultimately have "ut_map h' k = ((ut_map h)(key \<mapsto> e_data e0)) k" for k
      using new e by (auto simp: ut_map_find ord find_append key_at_def split: option.splits)
    then have "ut_map h' = (ut_map h)(key \<mapsto> e_data e0)" by blast
    moreover have "heap h' = (heap h)(a \<mapsto> keyed key e0)" by (simp add: h'_def hp_def e_def)
    ultimately show ?thesis using add wf' ord(1) by (simp add: h'_def)
  qed
qed

lemma ut_malloc_ok:
  assumes "ut_wf h" "ut_malloc h d = (a, h1)"
  shows "ut_wf h1 \<and> ut_map h1 = ut_map h \<and> ut_room h1 = ut_room h \<and> order_of h1 = order_of h \<and>
     a \<notin> set (order_of h1) \<and> (\<exists>e. heap h1 a = Some e \<and> e_data e = d)"
proof -
  have "a = next_addr h" using assms(2) by (simp add: ut_malloc_def)
  moreover from this have a: "a \<notin> set (order_of h)" using fresh_not_linked [OF assms(1)] by simp
  moreover have "\<forall>x. heap h x \<noteq> None \<longrightarrow> x < next_addr h" using assms(1) by (simp add: ut_wf_def)
  then have "ut_wf h1 \<and> ut_map h1 = ut_map h \<and> ut_room h1 = ut_room h \<and> order_of h1 = order_of h"
    using assms(2) a \<open>a = next_addr h\<close>
    by (intro ut_heap_cong [OF assms(1)]) (auto simp: ut_malloc_def less_Suc_eq)
  moreover have "\<exists>e. heap h1 a = Some e \<and> e_data e = d" using assms(2) by (auto simp: ut_malloc_def)
  ultimately show ?thesis by simp
qed

lemma ut_add_cases:
  assumes wf: "ut_wf h" and len: "length key < 2 ^ 32" and new: "ut_map h key = None"
  shows "(\<exists>h'. ut_add h key d = Inr h' \<and> ut_wf h' \<and> ut_map h' = (ut_map h)(key \<mapsto> d)) \<or>
     ut_add h key d = Inl (Exit (-1)) \<and> \<not> ut_room h"
proof -
  obtain a h1 where m: "ut_malloc h d = (a, h1)" by fastforce
  note ok = ut_malloc_ok [OF wf m]
  then obtain e where "heap h1 a = Some e" "e_data e = d" by blast
  then show ?thesis
    using HASH_ADD_KEYPTR_cases [of h1 a e key] ok len new by (auto simp: ut_add_def m)
qed

lemma ut_add_ok:
  assumes "ut_wf h" "ut_room h" "length key < 2 ^ 32" "ut_map h key = None"
  shows "\<exists>h'. ut_add h key d = Inr h' \<and> ut_wf h' \<and> ut_map h' = (ut_map h)(key \<mapsto> d)"
  using ut_add_cases [OF assms(1,3,4)] assms(2) by blast

section \<open>Deleting, writing, freeing\<close>

lemma mset_items_remove:
  assumes "i < length bs" "a \<in> set (chain (bs ! i))" "chain b = remove1 a (chain (bs ! i))"
  shows "mset (items (bs[i := b])) = mset (items bs) - {#a#}"
proof -
  have "mset (chain (bs ! i)) = add_mset a (mset (chain b))" using assms(2,3) by simp
  then have "add_mset a (mset (items (bs[i := b]))) = mset (items bs)"
    using mset_items_update [OF assms(1), of b] by simp
  then show ?thesis by (metis add_mset_remove_trivial)
qed

lemma of_nat_pred: "0 < n \<Longrightarrow> of_nat n - 1 = (of_nat (n - 1) :: u32)"
  by (cases n) simp_all

lemma HASH_DEL_IN_BKT_ok:
  assumes t: "table_ok hp t" and a: "a \<in> set (app_order t)" and e: "hp a = Some e"
  shows "\<exists>t'. HASH_DEL_IN_BKT (t\<lparr>app_order := remove1 a (app_order t)\<rparr>)
        (HASH_TO_BKT (hh_hashv e) (num_buckets t)) a = Inr t' \<and>
      table_ok hp (t'\<lparr>num_items := num_items t' - 1\<rparr>) \<and>
      app_order t' = remove1 a (app_order t) \<and> log2_num_buckets t' = log2_num_buckets t"
proof -
  let ?l = "unat (log2_num_buckets t)"
  define i where "i = unat (hh_hashv e) mod 2 ^ ?l"
  let ?b = "buckets t ! i"
  define b where "b = ?b\<lparr>bcount := bcount ?b - 1, chain := remove1 a (chain ?b)\<rparr>"
  have ok: "bkts_ok hp ?l (buckets t)" "num_buckets t = 2 ^ ?l" "?l < 32"
    using t by (simp_all add: table_ok_def)
  have lt: "i < 2 ^ ?l" by (simp add: i_def)
  then have len: "i < length (buckets t)" using ok(1) by (simp add: bkts_ok_def)
  have ch: "a \<in> set (chain ?b)" using in_bucket [OF t a e] by (simp add: i_def)
  then have pos: "0 < length (chain ?b)" by (cases "chain ?b") auto
  have b: "bkts_ok hp ?l ((buckets t)[i := b])"
  proof (rule bkts_ok_update [OF ok(1) lt])
    show "bcount b = of_nat (length (chain b))"
      using bkts_ok_nth_in [OF ok(1) lt] ch of_nat_pred [OF pos] by (simp add: b_def length_remove1)
    show "\<forall>x \<in> set (chain b). \<exists>e. hp x = Some e \<and> unat (hh_hashv e) mod 2 ^ ?l = i"
      using ok(1) lt by (auto simp: b_def bkts_ok_def dest: set_remove1_subset [THEN subsetD])
  qed
  have its: "mset (items ((buckets t)[i := b])) = mset (app_order t) - {#a#}"
    using mset_items_remove [OF len ch, of b] t by (simp add: b_def table_ok_def)
  have pos': "0 < length (app_order t)" using a by (cases "app_order t") auto
  have n: "num_items t - 1 = of_nat (length (remove1 a (app_order t)))"
    using t a of_nat_pred [OF pos'] by (simp add: table_ok_def length_remove1)
  have "HASH_DEL_IN_BKT (t\<lparr>app_order := remove1 a (app_order t)\<rparr>) (HASH_TO_BKT (hh_hashv e) (num_buckets t)) a
      = Inr (t\<lparr>app_order := remove1 a (app_order t), buckets := (buckets t)[i := b]\<rparr>)"
    using bucket_at_ok [OF ok(1) lt]
    by (simp add: HASH_DEL_IN_BKT_def ok(2) HASH_TO_BKT_mod [OF ok(3)] i_def [symmetric] b_def)
  then show ?thesis
    using t b its n by (simp add: table_ok_def distinct_remove1)
qed

lemma elmts_ok_subset: "elmts_ok hp as \<Longrightarrow> set bs \<subseteq> set as \<Longrightarrow> elmts_ok hp bs"
  by (auto simp: elmts_ok_def intro: inj_on_subset)

text \<open>Unlinking keeps every other element; the element itself stays allocated.\<close>

lemma HASH_DELETE_ok:
  assumes wf: "ut_wf h" and a: "a \<in> set (order_of h)"
  shows "\<exists>h'. HASH_DELETE h a = Inr h' \<and> ut_wf h' \<and> heap h' = heap h \<and>
      order_of h' = remove1 a (order_of h) \<and> (ut_room h \<longrightarrow> ut_room h')"
proof -
  obtain t where hd: "head h = Some t" using a by (cases "head h") (auto simp: order_of_def)
  have t: "table_ok (heap h) t" using wf hd by (simp add: ut_wf_def)
  have at: "a \<in> set (app_order t)" using a hd by (simp add: order_of_def)
  obtain e where e: "heap h a = Some e" using wf a by (auto simp: ut_wf_def elmts_ok_def)
  have sub: "elmts_ok (heap h) (remove1 a (order_of h))"
    using wf elmts_ok_subset [OF _ set_remove1_subset] by (auto simp: ut_wf_def)
  show ?thesis
  proof (cases "app_order t = [a]")
    case True
    then show ?thesis using wf hd by (auto simp: HASH_DELETE_def ut_wf_def order_of_def ut_room_def elmts_ok_def)
  next
    case False
    obtain t' where t': "HASH_DEL_IN_BKT (t\<lparr>app_order := remove1 a (app_order t)\<rparr>)
        (HASH_TO_BKT (hh_hashv e) (num_buckets t)) a = Inr t'"
      "table_ok (heap h) (t'\<lparr>num_items := num_items t' - 1\<rparr>)"
      "app_order t' = remove1 a (app_order t)" "log2_num_buckets t' = log2_num_buckets t"
      using HASH_DEL_IN_BKT_ok [OF t at e] by blast
    then show ?thesis
      using False wf hd sub e
      by (simp add: HASH_DELETE_def ut_wf_def order_of_def ut_room_def)
  qed
qed

text \<open>The element at \<open>a\<close> is in the table, under the key \<open>k\<close>.\<close>

definition linked :: "'d ut_hash \<Rightarrow> addr \<Rightarrow> byte list \<Rightarrow> bool" where
  "linked h a k \<longleftrightarrow> a \<in> set (order_of h) \<and> key_at (heap h) a = k"

lemma ut_wf_distinct: "ut_wf h \<Longrightarrow> distinct (order_of h)"
  by (cases "head h") (auto simp: ut_wf_def table_ok_def order_of_def)

lemma find_linked:
  assumes "ut_wf h" "linked h a k"
  shows "find (\<lambda>x. key_at (heap h) x = k) (order_of h) = Some a"
proof -
  have "\<forall>x \<in> set (order_of h). key_at (heap h) x = k \<longrightarrow> x = a"
    using assms by (auto simp: ut_wf_def elmts_ok_def inj_on_def key_at_def linked_def)
  from find_unique [OF this] show ?thesis using assms(2) by (auto simp: linked_def)
qed

lemma linked_map: "ut_wf h \<Longrightarrow> linked h a k \<Longrightarrow> ut_map h k = Some (e_data (the (heap h a)))"
  by (simp add: ut_map_find find_linked)

lemma linked_heap: "ut_wf h \<Longrightarrow> linked h a k \<Longrightarrow> \<exists>e. heap h a = Some e \<and> elmt_ok e \<and> hh_key e = k"
  by (force simp: linked_def ut_wf_def elmts_ok_def key_at_def)

lemma find_remove1:
  assumes "\<not> P a"
  shows "find P (remove1 a xs) = find P xs"
  using assms by (induction xs) auto

lemma ut_map_unlink:
  assumes wf: "ut_wf h" and l: "linked h a k" and h': "heap h' = heap h" "order_of h' = remove1 a (order_of h)"
  shows "ut_map h' = (ut_map h)(k := None)"
proof
  fix k'
  show "ut_map h' k' = ((ut_map h)(k := None)) k'"
  proof (cases "k' = k")
    case True
    have "\<forall>x \<in> set (remove1 a (order_of h)). key_at (heap h) x \<noteq> k"
      using wf l ut_wf_distinct [OF wf]
      by (auto simp: ut_wf_def elmts_ok_def inj_on_def key_at_def linked_def)
    then show ?thesis using True by (simp add: ut_map_None_iff h')
  next
    case False
    then show ?thesis using l by (simp add: ut_map_find h' find_remove1 linked_def)
  qed
qed

lemma ut_write_ok:
  assumes wf: "ut_wf h" and l: "linked h a k"
  shows "\<exists>h'. ut_write h a d = Inr h' \<and> ut_wf h' \<and> ut_map h' = (ut_map h)(k \<mapsto> d) \<and>
      (ut_room h \<longrightarrow> ut_room h')"
proof -
  obtain e where e: "heap h a = Some e" "elmt_ok e" "hh_key e = k" using linked_heap [OF wf l] by blast
  define h' where "h' = h\<lparr>heap := (heap h)(a \<mapsto> e\<lparr>e_data := d\<rparr>)\<rparr>"
  have same: "key_at (heap h') x = key_at (heap h) x" for x using e by (simp add: h'_def key_at_def)
  have ord: "order_of h' = order_of h" by (simp add: h'_def order_of_def)
  have bk: "bkts_ok (heap h') n bs" if "bkts_ok (heap h) n bs" for n bs
    using that e unfolding bkts_ok_def h'_def by fastforce
  have keys: "(\<lambda>x. hh_key (the (heap h' x))) = (\<lambda>x. hh_key (the (heap h x)))"
    using same by (simp add: key_at_def fun_eq_iff)
  have el: "\<exists>e'. heap h' x = Some e' \<and> elmt_ok e'" if "x \<in> set (order_of h)" for x
  proof (cases "x = a")
    case True
    then show ?thesis using e(2) by (simp add: h'_def elmt_ok_def)
  next
    case False
    then show ?thesis using that wf by (auto simp: h'_def ut_wf_def elmts_ok_def)
  qed
  then have "elmts_ok (heap h') (order_of h)"
    using wf unfolding elmts_ok_def keys by (simp add: ut_wf_def elmts_ok_def)
  then have wf': "ut_wf h'"
    using wf bk e ord by (auto simp: ut_wf_def table_ok_def h'_def)
  have "ut_map h' k' = ((ut_map h)(k \<mapsto> d)) k'" for k'
  proof (cases "k' = k")
    case True
    have "linked h' a k" using l by (simp add: linked_def ord same)
    from linked_map [OF wf' this] True show ?thesis by (simp add: h'_def)
  next
    case False
    have "x \<noteq> a" if "find (\<lambda>x. key_at (heap h) x = k') (order_of h) = Some x" for x
      using find_SomeD [OF that] False l by (auto simp: linked_def)
    then have "heap h' x = heap h x" if "find (\<lambda>x. key_at (heap h) x = k') (order_of h) = Some x" for x
      using that by (simp add: h'_def)
    then show ?thesis using False
      by (cases "find (\<lambda>x. key_at (heap h) x = k') (order_of h)") (simp_all add: ut_map_find ord same)
  qed
  then have "ut_map h' = (ut_map h)(k \<mapsto> d)" by blast
  moreover have "ut_room h' = ut_room h" by (simp add: ut_room_def h'_def)
  moreover have "ut_write h a d = Inr h'" using e by (simp add: ut_write_def h'_def)
  ultimately show ?thesis using wf' by blast
qed

lemma ut_free_ok:
  assumes wf: "ut_wf h" and a: "a \<notin> set (order_of h)"
  shows "ut_wf (ut_free h a) \<and> ut_map (ut_free h a) = ut_map h \<and> ut_room (ut_free h a) = ut_room h"
proof -
  have "\<forall>x. heap h x \<noteq> None \<longrightarrow> x < next_addr h" using wf by (simp add: ut_wf_def)
  then show ?thesis using a ut_heap_cong [OF wf, of "ut_free h a"] by (auto simp: ut_free_def)
qed

section \<open>The interface\<close>

text \<open>
  What the client code relies on: a store of values under byte-string keys, with elements
  that are found by key, linked, unlinked, written through a pointer, and released.
\<close>

locale kv_store =
  fixes invar :: "'s \<Rightarrow> bool" and room :: "'s \<Rightarrow> bool" and alpha :: "'s \<Rightarrow> byte list \<Rightarrow> 'd option"
    and member :: "'s \<Rightarrow> 'a \<Rightarrow> byte list \<Rightarrow> bool"
    and find_key :: "'s \<Rightarrow> byte list \<Rightarrow> 'a option res"
    and data_at :: "'s \<Rightarrow> 'a \<Rightarrow> 'd res"
    and link :: "'s \<Rightarrow> byte list \<Rightarrow> 'd \<Rightarrow> 's res"
    and unlink :: "'s \<Rightarrow> 'a \<Rightarrow> 's res"
    and store :: "'s \<Rightarrow> 'a \<Rightarrow> 'd \<Rightarrow> 's res"
    and release :: "'s \<Rightarrow> 'a \<Rightarrow> 's"
  assumes find_miss: "invar s \<Longrightarrow> alpha s k = None \<Longrightarrow> find_key s k = Inr None"
    and find_hit: "invar s \<Longrightarrow> alpha s k = Some d \<Longrightarrow>
      \<exists>a. find_key s k = Inr (Some a) \<and> member s a k \<and> data_at s a = Inr d"
    and link_law: "invar s \<Longrightarrow> length k < 2 ^ 32 \<Longrightarrow> alpha s k = None \<Longrightarrow>
      (\<exists>s'. link s k d = Inr s' \<and> invar s' \<and> alpha s' = (alpha s)(k \<mapsto> d)) \<or>
      link s k d = Inl (Exit (-1)) \<and> \<not> room s"
    and unlink_law: "invar s \<Longrightarrow> member s a k \<Longrightarrow>
      \<exists>s'. unlink s a = Inr s' \<and> invar s' \<and> alpha s' = (alpha s)(k := None) \<and>
        (room s \<longrightarrow> room s') \<and> (\<forall>k'. \<not> member s' a k')"
    and store_law: "invar s \<Longrightarrow> member s a k \<Longrightarrow>
      \<exists>s'. store s a d = Inr s' \<and> invar s' \<and> alpha s' = (alpha s)(k \<mapsto> d) \<and> (room s \<longrightarrow> room s')"
    and release_law: "invar s \<Longrightarrow> (\<forall>k. \<not> member s a k) \<Longrightarrow>
      invar (release s a) \<and> alpha (release s a) = alpha s \<and> (room s \<longrightarrow> room (release s a))"
begin

text \<open>Find, unlink, release: removing a key.\<close>

lemma remove_key:
  assumes "invar s"
  shows "\<exists>s'. bind_res (find_key s k) (\<lambda>r. case r of None \<Rightarrow> Inr s
      | Some a \<Rightarrow> bind_res (unlink s a) (\<lambda>s. Inr (release s a))) = Inr s' \<and> invar s' \<and>
      alpha s' = (alpha s)(k := None) \<and> (room s \<longrightarrow> room s')"
proof (cases "alpha s k")
  case None
  then show ?thesis using assms find_miss by (auto simp: fun_upd_idem)
next
  case (Some d)
  then obtain a where a: "find_key s k = Inr (Some a)" "member s a k" using assms find_hit by blast
  obtain s1 where s1: "unlink s a = Inr s1" "invar s1" "alpha s1 = (alpha s)(k := None)"
    "room s \<longrightarrow> room s1" "\<forall>k'. \<not> member s1 a k'"
    using unlink_law [OF assms a(2)] by blast
  with a release_law [OF s1(2,5)] show ?thesis by auto
qed

text \<open>The same followed by a link: setting a key.\<close>

lemma set_key:
  assumes "invar s" "length k < 2 ^ 32"
    and r: "r = bind_res (find_key s k) (\<lambda>r. bind_res (case r of None \<Rightarrow> Inr s
      | Some a \<Rightarrow> bind_res (unlink s a) (\<lambda>s. Inr (release s a))) (\<lambda>s. link s k d))"
  shows "(\<exists>s'. r = Inr s' \<and> invar s' \<and> alpha s' = (alpha s)(k \<mapsto> d)) \<or> r = Inl (Exit (-1)) \<and> \<not> room s"
proof -
  obtain s1 where s1: "bind_res (find_key s k) (\<lambda>r. case r of None \<Rightarrow> Inr s
      | Some a \<Rightarrow> bind_res (unlink s a) (\<lambda>s. Inr (release s a))) = Inr s1" "invar s1"
      "alpha s1 = (alpha s)(k := None)" "room s \<longrightarrow> room s1"
    using remove_key [OF assms(1)] by blast
  then have "r = link s1 k d" unfolding r by (simp add: bind_res_assoc [symmetric])
  with link_law [OF s1(2) assms(2), of d] s1 show ?thesis by auto
qed

text \<open>Updating the value of a key in place, or linking a first value for it.\<close>

lemma update_key:
  assumes "invar s" "length k < 2 ^ 32"
    and r: "r = bind_res (find_key s k) (\<lambda>r. case r of None \<Rightarrow> link s k d0
      | Some a \<Rightarrow> bind_res (data_at s a) (\<lambda>d. bind_res (f d) (store s a)))"
    and f: "\<And>d. alpha s k = Some d \<Longrightarrow> f d = Inr (g d)"
  shows "(\<exists>s'. r = Inr s' \<and> invar s' \<and>
      alpha s' = (alpha s)(k \<mapsto> (case alpha s k of None \<Rightarrow> d0 | Some d \<Rightarrow> g d))) \<or>
      r = Inl (Exit (-1)) \<and> \<not> room s"
proof (cases "alpha s k")
  case None
  then show ?thesis unfolding r using assms(1) find_miss link_law [OF assms(1,2) None, of d0] by auto
next
  case (Some d)
  then obtain a where a: "find_key s k = Inr (Some a)" "member s a k" "data_at s a = Inr d"
    using assms find_hit by blast
  with Some store_law [OF assms(1) a(2), of "g d"] f [OF Some] show ?thesis unfolding r by auto
qed

lemma read_key:
  assumes "invar s"
  shows "bind_res (find_key s k) (\<lambda>r. case r of None \<Rightarrow> Inr None
      | Some a \<Rightarrow> bind_res (data_at s a) (\<lambda>d. Inr (Some d))) = Inr (alpha s k)"
proof (cases "alpha s k")
  case None
  then show ?thesis using assms find_miss by simp
next
  case (Some d)
  then obtain a where "find_key s k = Inr (Some a)" "data_at s a = Inr d" using assms find_hit by blast
  with Some show ?thesis by simp
qed

end

definition ut_read :: "'d ut_hash \<Rightarrow> addr \<Rightarrow> 'd res" where
  "ut_read h a = bind_res (deref (heap h) a) (\<lambda>e. Inr (e_data e))"

interpretation ut: kv_store ut_wf ut_room ut_map linked HASH_FIND ut_read ut_add HASH_DELETE ut_write ut_free
proof (unfold_locales, goal_cases)
  case (1 s k)
  then show ?case by (simp add: HASH_FIND_find ut_map_find)
next
  case (2 s k d)
  then obtain a where a: "find (\<lambda>a. key_at (heap s) a = k) (order_of s) = Some a" "d = e_data (the (heap s a))"
    by (auto simp: ut_map_find)
  have l: "linked s a k" using find_SomeD [OF a(1)] by (simp add: linked_def)
  obtain e where "heap s a = Some e" using linked_heap [OF 2(1) l] by blast
  then have "ut_read s a = Inr d" using a(2) by (simp add: ut_read_def)
  with l a(1) 2(1) show ?case by (auto simp: HASH_FIND_find)
next
  case (3 s k d)
  then show ?case by (rule ut_add_cases)
next
  case (4 s a k)
  then obtain s' where s': "HASH_DELETE s a = Inr s'" "ut_wf s'" "heap s' = heap s"
      "order_of s' = remove1 a (order_of s)" "ut_room s \<longrightarrow> ut_room s'"
    using HASH_DELETE_ok [of s a] by (auto simp: linked_def)
  moreover have "\<not> linked s' a k'" for k'
    using s'(4) ut_wf_distinct [OF 4(1)] by (simp add: linked_def)
  ultimately show ?case using ut_map_unlink [OF 4 s'(3,4)] by blast
next
  case (5 s a k d)
  then show ?case by (rule ut_write_ok)
next
  case (6 s a)
  then show ?case using ut_free_ok [of s a] by (auto simp: linked_def)
qed

section \<open>How fast the bucket array grows\<close>

text \<open>One addition doubles the array at most once, the other operations never do.\<close>

definition ut_level :: "'d ut_hash \<Rightarrow> nat" where
  "ut_level h = (case head h of None \<Rightarrow> 5 | Some t \<Rightarrow> max 5 (unat (log2_num_buckets t)))"

lemma ut_level_room: "ut_level h < 31 \<Longrightarrow> ut_room h"
  by (auto simp: ut_level_def ut_room_def split: option.splits)

lemma unat_add_1_le: "unat (x + 1 :: u32) \<le> Suc (unat x)"
  by (simp add: unat_word_ariths)

lemma HASH_ADD_TO_TABLE_level:
  assumes "HASH_ADD_TO_TABLE hp t hv a = Inr t'"
  shows "unat (log2_num_buckets t') \<le> Suc (unat (log2_num_buckets t))"
  using assms unat_add_1_le [of "log2_num_buckets t"]
  by (auto simp: HASH_ADD_TO_TABLE_def HASH_ADD_TO_BKT_def HASH_EXPAND_BUCKETS_def Let_def
      bind_res_Inr_iff split: if_splits)

lemma ut_add_level:
  assumes "ut_add h key d = Inr h'"
  shows "ut_level h' \<le> Suc (ut_level h)"
  using assms HASH_ADD_TO_TABLE_level
  by (fastforce simp: ut_add_def ut_malloc_def HASH_ADD_KEYPTR_def Let_def bind_res_Inr_iff
      ut_level_def HASH_MAKE_TABLE_def split: option.splits)

lemma HASH_DELETE_level: "HASH_DELETE h a = Inr h' \<Longrightarrow> ut_level h' \<le> ut_level h"
  by (auto simp: HASH_DELETE_def HASH_DEL_IN_BKT_def bind_res_Inr_iff ut_level_def
      split: option.splits if_splits)

lemma ut_free_level [simp]: "ut_level (ut_free h a) = ut_level h"
  by (simp add: ut_level_def ut_free_def)

section \<open>Properties\<close>

lemma ut_empty_ok [simp]: "ut_wf ut_empty" "ut_room ut_empty" "ut_map ut_empty = Map.empty"
  by (simp_all add: ut_empty_def ut_wf_def elmts_ok_def order_of_def ut_room_def ut_map_def)

lemma ut_wf_counts:
  assumes "ut_wf h"
  shows "fsck_counts h"
proof (cases "head h")
  case (Some t)
  then have t: "table_ok (heap h) t" using assms by (simp add: ut_wf_def)
  then have "length (concat (map chain (buckets t))) = length (app_order t)"
    unfolding table_ok_def items_def by (metis size_mset)
  then show ?thesis using t Some by (simp add: fsck_counts_def table_ok_def bkts_ok_def)
qed (simp add: fsck_counts_def)

text \<open>
  C22: searching a well-formed table never follows a dangling pointer and never misses: for
  every key, whatever its hash collides with, the search through the one bucket chain of
  the key's Jenkins hash returns an element with that key, holding the value the table
  maps the key to, and returns \<open>NULL\<close> exactly when the table has no such key.
\<close>

theorem uthash_find_exact:
  fixes h :: "'d ut_hash"
  assumes "ut_wf h"
  shows "(\<exists>r. HASH_FIND h k = Inr r \<and> (r = None \<longleftrightarrow> ut_map h k = None) \<and>
      (\<forall>a. r = Some a \<longrightarrow> linked h a k \<and> (\<exists>d. ut_read h a = Inr d \<and> ut_map h k = Some d)))"
proof (cases "ut_map h k")
  case None
  then show ?thesis using ut.find_miss [OF assms] by simp
next
  case (Some d)
  then show ?thesis using ut.find_hit [OF assms Some] by force
qed

text \<open>The table in the middle of an addition: the element is linked into the order.\<close>

definition add_table :: "'d ut_hash \<Rightarrow> addr \<Rightarrow> ut_table" where
  "add_table h a = (case head h of None \<Rightarrow> HASH_MAKE_TABLE a
     | Some t \<Rightarrow> t\<lparr>app_order := app_order t @ [a]\<rparr>)"

section \<open>Witnesses\<close>

theorem uthash_find_exact_witness:
  "\<exists>h r. ut_add (ut_empty :: nat ut_hash) [1, 2] 7 = Inr h \<and> HASH_FIND h [1, 2] = Inr (Some r) \<and>
     ut_read h r = Inr 7 \<and> HASH_FIND h [3] = Inr None"
proof -
  obtain h where h: "ut_add (ut_empty :: nat ut_hash) [1, 2] 7 = Inr h" "ut_wf h" "ut_map h = [[1, 2] \<mapsto> 7]"
    using ut_add_ok [of ut_empty "[1, 2]" 7] by auto
  from uthash_find_exact [OF h(2), of "[1, 2]"] uthash_find_exact [OF h(2), of "[3]"] h
  show ?thesis by (auto simp: h(3))
qed

end
