(* ===== verification/Hash_Table.thy ===== *)
theory Hash_Table
  imports Uthash
begin

text \<open>
  The storage of a peer: \<open>praxis2/src/hash_table.c\<close> with its header, and the entry
  constructor of \<open>praxis2/include/scratch1.c\<close>. A table is a \<open>uthash\<close> table whose elements
  are \<open>htable\<close> structures. The operations refine a map from keys to values: this is the
  interpretation of the locale \<open>op_refinement\<close>, which also gives the meaning of any
  history of operations.
\<close>

section \<open>Entries and operations\<close>

record htable =
  ht_key :: ptr
  ht_key_len :: u64
  ht_value :: ptr
  ht_value_len :: u64

text \<open>\<open>HASH_FIND\<close> on a key given as pointer and length: the key is read only if there is a table.\<close>

definition find_ptr :: "'d ut_hash \<Rightarrow> ptr \<Rightarrow> u64 \<Rightarrow> addr option res" where
  "find_ptr ht k klen =
     (case head ht of None \<Rightarrow> Inr None
      | Some _ \<Rightarrow> bind_res (read_ptr k (unat klen)) (HASH_FIND ht))"

text \<open>\<open>free\<close> of the key block, the value block and the element.\<close>

definition remove_entry :: "htable ut_hash \<Rightarrow> addr \<Rightarrow> htable ut_hash res" where
  "remove_entry ht a = bind_res (HASH_DELETE ht a) (\<lambda>ht. Inr (ut_free ht a))"

definition htable_set :: "htable ut_hash \<Rightarrow> ptr \<Rightarrow> u64 \<Rightarrow> ptr \<Rightarrow> u64 \<Rightarrow> htable ut_hash res" where
  "htable_set ht k klen v vlen =
     bind_res (find_ptr ht k klen) (\<lambda>entry.
     bind_res (case entry of None \<Rightarrow> Inr ht | Some a \<Rightarrow> remove_entry ht a) (\<lambda>ht.
     bind_res (read_ptr k (unat klen)) (\<lambda>kb.
     bind_res (read_ptr v (unat vlen)) (\<lambda>vb.
     case ut_malloc ht \<lparr>ht_key = Some kb, ht_key_len = klen, ht_value = Some vb, ht_value_len = vlen\<rparr> of
       (a, ht) \<Rightarrow> HASH_ADD_KEYPTR ht kb a))))"

definition htable_get :: "htable ut_hash \<Rightarrow> ptr \<Rightarrow> u64 \<Rightarrow> addr option res" where
  "htable_get ht k klen = find_ptr ht k klen"

definition htable_delete :: "htable ut_hash \<Rightarrow> ptr \<Rightarrow> u64 \<Rightarrow> (int \<times> htable ut_hash) res" where
  "htable_delete ht k klen =
     bind_res (find_ptr ht k klen) (\<lambda>toDelete.
     bind_res (case toDelete of None \<Rightarrow> Inr ht | Some a \<Rightarrow> remove_entry ht a) (\<lambda>ht.
     Inr (0, ht)))"

text \<open>
  The two entry constructors. They differ in the size they pass to \<open>malloc\<close>: the size of a
  pointer (8 bytes) in \<open>create_entry2\<close>, that of the structure (four 8-byte fields and the
  56-byte hash handle) in \<open>create_entry\<close>. Each field is stored at its offset in the block.
\<close>

definition store_field :: "nat \<Rightarrow> nat \<Rightarrow> unit res" where
  "store_field sz off = (if off + 8 \<le> sz then Inr () else Inl Out_Of_Bounds)"

definition fill_entry :: "nat \<Rightarrow> ptr \<Rightarrow> u16 \<Rightarrow> ptr \<Rightarrow> u32 \<Rightarrow> htable res" where
  "fill_entry sz k klen v vlen =
     bind_res (store_field sz 0) (\<lambda>_.
     bind_res (read_ptr k (unat klen)) (\<lambda>kb.
     bind_res (store_field sz 8) (\<lambda>_.
     bind_res (store_field sz 16) (\<lambda>_.
     bind_res (read_ptr v (unat vlen)) (\<lambda>vb.
     bind_res (store_field sz 24) (\<lambda>_.
     Inr \<lparr>ht_key = Some kb, ht_key_len = ucast klen, ht_value = Some vb, ht_value_len = ucast vlen\<rparr>))))))"

definition create_entry2 :: "ptr \<Rightarrow> u16 \<Rightarrow> ptr \<Rightarrow> u32 \<Rightarrow> htable res" where
  "create_entry2 k klen v vlen = fill_entry 8 k klen v vlen"

definition create_entry :: "ptr \<Rightarrow> u16 \<Rightarrow> ptr \<Rightarrow> u32 \<Rightarrow> htable res" where
  "create_entry k klen v vlen = fill_entry 88 k klen v vlen"

section \<open>Invariant and abstraction\<close>

definition entry_ok :: "byte list \<Rightarrow> htable \<Rightarrow> bool" where
  "entry_ok k d \<longleftrightarrow> ht_key d = Some k \<and> unat (ht_key_len d) = length k \<and>
     (\<exists>v. ht_value d = Some v \<and> unat (ht_value_len d) = length v)"

definition ht_wf :: "htable ut_hash \<Rightarrow> bool" where
  "ht_wf ht \<longleftrightarrow> ut_wf ht \<and> (\<forall>k d. ut_map ht k = Some d \<longrightarrow> entry_ok k d)"

definition ht_map :: "htable ut_hash \<Rightarrow> byte list \<Rightarrow> byte list option" where
  "ht_map ht k = Option.bind (ut_map ht k) ht_value"

text \<open>A key or value argument: a pointer from which that many bytes can be read.\<close>

definition arg :: "ptr \<Rightarrow> u64 \<Rightarrow> byte list \<Rightarrow> bool" where
  "arg p n bs \<longleftrightarrow> read_ptr p (unat n) = Inr bs"

lemma arg_read: "arg p n bs \<Longrightarrow> read_ptr p (unat n) = Inr bs"
  by (simp add: arg_def)

lemma arg_length: "arg p n bs \<Longrightarrow> unat n = length bs"
  by (auto simp: arg_def read_ptr_def split: option.splits if_splits)

lemma arg_find: "arg p n bs \<Longrightarrow> find_ptr ht p n = HASH_FIND ht bs"
  by (simp add: arg_def find_ptr_def HASH_FIND_def split: option.split)

lemma ht_map_upd:
  "ut_map ht' = (ut_map ht)(k \<mapsto> d) \<Longrightarrow> ht_value d = Some v \<Longrightarrow> ht_map ht' = (ht_map ht)(k \<mapsto> v)"
  by (auto simp: ht_map_def)

lemma ht_map_del: "ut_map ht' = (ut_map ht)(k := None) \<Longrightarrow> ht_map ht' = (ht_map ht)(k := None)"
  by (auto simp: ht_map_def)

lemma htable_set_cases:
  assumes wf: "ht_wf ht" and k: "arg kp klen k" and v: "arg vp vlen v" and len: "length k < 2 ^ 32"
  shows "(\<exists>ht'. htable_set ht kp klen vp vlen = Inr ht' \<and> ht_wf ht' \<and> ht_map ht' = (ht_map ht)(k \<mapsto> v)) \<or>
     htable_set ht kp klen vp vlen = Inl (Exit (-1)) \<and> \<not> ut_room ht"
proof -
  let ?d = "\<lparr>ht_key = Some k, ht_key_len = klen, ht_value = Some v, ht_value_len = vlen\<rparr>"
  have u: "ut_wf ht" using wf by (simp add: ht_wf_def)
  have "htable_set ht kp klen vp vlen = bind_res (HASH_FIND ht k) (\<lambda>r. bind_res (case r of None \<Rightarrow> Inr ht
      | Some a \<Rightarrow> bind_res (HASH_DELETE ht a) (\<lambda>s. Inr (ut_free s a))) (\<lambda>s. ut_add s k ?d))"
    unfolding htable_set_def remove_entry_def ut_add_def
    by (simp add: arg_find [OF k] arg_read [OF k] arg_read [OF v])
  from ut.set_key [OF u len this] show ?thesis
  proof
    assume "\<exists>s'. htable_set ht kp klen vp vlen = Inr s' \<and> ut_wf s' \<and> ut_map s' = (ut_map ht)(k \<mapsto> ?d)"
    then obtain ht' where ht': "htable_set ht kp klen vp vlen = Inr ht'" "ut_wf ht'" "ut_map ht' = (ut_map ht)(k \<mapsto> ?d)"
      by blast
    moreover have "ht_wf ht'"
      using ht' wf arg_length [OF k] arg_length [OF v] by (auto simp: ht_wf_def entry_ok_def)
    ultimately show ?thesis using ht_map_upd [OF ht'(3)] by auto
  qed blast
qed

lemma htable_set_ok:
  assumes "ht_wf ht" "ut_room ht" "arg kp klen k" "arg vp vlen v" "length k < 2 ^ 32"
  shows "\<exists>ht'. htable_set ht kp klen vp vlen = Inr ht' \<and> ht_wf ht' \<and> ht_map ht' = (ht_map ht)(k \<mapsto> v)"
  using htable_set_cases [OF assms(1,3-5)] assms(2) by blast

lemma htable_delete_ok:
  assumes wf: "ht_wf ht" and k: "arg kp klen k"
  shows "\<exists>ht'. htable_delete ht kp klen = Inr (0, ht') \<and> ht_wf ht' \<and> ht_map ht' = (ht_map ht)(k := None) \<and>
     (ut_room ht \<longrightarrow> ut_room ht')"
proof -
  have "ut_wf ht" using wf by (simp add: ht_wf_def)
  from ut.remove_key [OF this, of k] obtain ht' where
    ht': "bind_res (HASH_FIND ht k) (\<lambda>r. case r of None \<Rightarrow> Inr ht
      | Some a \<Rightarrow> bind_res (HASH_DELETE ht a) (\<lambda>s. Inr (ut_free s a))) = Inr ht'" "ut_wf ht'"
      "ut_map ht' = (ut_map ht)(k := None)" "ut_room ht \<longrightarrow> ut_room ht'"
    by blast
  have "htable_delete ht kp klen = Inr (0, ht')"
    using ht'(1) unfolding htable_delete_def remove_entry_def
    by (simp add: arg_find [OF k] bind_res_assoc [symmetric])
  moreover have "ht_wf ht'" using ht' wf by (auto simp: ht_wf_def)
  ultimately show ?thesis using ht_map_del [OF ht'(3)] ht'(4) by blast
qed

text \<open>The entry that \<open>htable_get\<close> returns holds exactly the stored bytes.\<close>

lemma htable_get_hit:
  assumes wf: "ht_wf ht" and k: "arg kp klen k" and v: "ht_map ht k = Some v"
  shows "\<exists>a d. htable_get ht kp klen = Inr (Some a) \<and> ut_read ht a = Inr d \<and>
     ht_key d = Some k \<and> unat (ht_key_len d) = length k \<and> ht_value d = Some v \<and> unat (ht_value_len d) = length v"
proof -
  obtain d where d: "ut_map ht k = Some d" "ht_value d = Some v"
    using v by (auto simp: ht_map_def bind_eq_Some_conv)
  have u: "ut_wf ht" and "entry_ok k d" using wf d(1) by (simp_all add: ht_wf_def)
  obtain a where a: "HASH_FIND ht k = Inr (Some a)" "ut_read ht a = Inr d"
    using ut.find_hit [OF u d(1)] by blast
  show ?thesis
    by (rule exI [of _ a], rule exI [of _ d])
      (use \<open>entry_ok k d\<close> d(2) a in \<open>auto simp: htable_get_def arg_find [OF k] entry_ok_def\<close>)
qed

lemma htable_get_miss:
  assumes wf: "ht_wf ht" and k: "arg kp klen k" and v: "ht_map ht k = None"
  shows "htable_get ht kp klen = Inr None"
proof -
  have u: "ut_wf ht" using wf by (simp add: ht_wf_def)
  have "ut_map ht k = None"
  proof (cases "ut_map ht k")
    case (Some d)
    then have "entry_ok k d" using wf by (simp add: ht_wf_def)
    then show ?thesis using v Some by (auto simp: ht_map_def entry_ok_def)
  qed
  from ut.find_miss [OF u this] show ?thesis by (simp add: htable_get_def arg_find [OF k])
qed

section \<open>Histories\<close>

datatype ht_op = OpSet "byte list" "byte list" | OpDel "byte list"

primrec ht_step :: "htable ut_hash \<Rightarrow> ht_op \<Rightarrow> htable ut_hash res" where
  "ht_step ht (OpSet k v) = htable_set ht (Some k) (of_nat (length k)) (Some v) (of_nat (length v))"
| "ht_step ht (OpDel k) = bind_res (htable_delete ht (Some k) (of_nat (length k))) (\<lambda>r. Inr (snd r))"

primrec ht_spec :: "ht_op \<Rightarrow> (byte list \<Rightarrow> byte list option) \<Rightarrow> byte list \<Rightarrow> byte list option" where
  "ht_spec (OpSet k v) m = m(k \<mapsto> v)"
| "ht_spec (OpDel k) m = m(k := None)"

primrec ht_op_ok :: "ht_op \<Rightarrow> bool" where
  "ht_op_ok (OpSet k v) \<longleftrightarrow> length k < 2 ^ 32 \<and> length v < 2 ^ 64"
| "ht_op_ok (OpDel k) \<longleftrightarrow> length k < 2 ^ 64"

primrec ht_cost :: "ht_op \<Rightarrow> nat" where
  "ht_cost (OpSet k v) = 1"
| "ht_cost (OpDel k) = 0"

lemma arg_Some: "length bs < 2 ^ 64 \<Longrightarrow> arg (Some bs) (of_nat (length bs)) bs"
  by (simp add: arg_def unat_of_nat)

lemma remove_entry_level: "remove_entry ht a = Inr ht' \<Longrightarrow> ut_level ht' \<le> ut_level ht"
  using HASH_DELETE_level by (fastforce simp: remove_entry_def bind_res_Inr_iff)

lemma htable_set_level:
  assumes "htable_set ht k klen v vlen = Inr ht'"
  shows "ut_level ht' \<le> Suc (ut_level ht)"
proof -
  obtain ht1 kb d where "ut_level ht1 \<le> ut_level ht" "ut_add ht1 kb d = Inr ht'"
    using assms remove_entry_level
    by (fastforce simp: htable_set_def bind_res_Inr_iff ut_add_def split: option.splits)
  then show ?thesis using ut_add_level [of ht1 kb d ht'] by simp
qed

lemma htable_delete_level: "htable_delete ht k klen = Inr (r, ht') \<Longrightarrow> ut_level ht' \<le> ut_level ht"
  using remove_entry_level by (fastforce simp: htable_delete_def bind_res_Inr_iff split: option.splits)

interpretation htq: op_refinement ht_wf ht_map ut_level 31 ht_step ht_spec ht_op_ok ht_cost
proof (unfold_locales, goal_cases)
  case (1 ht x)
  show ?case
  proof (cases x)
    case (OpSet k v)
    with 1 have k: "length k < 2 ^ 32" and v: "length v < 2 ^ 64" by simp_all
    from k have k64: "length k < 2 ^ 64" by simp
    show ?thesis
      using htable_set_cases [OF 1(1) arg_Some [OF k64] arg_Some [OF v] k] htable_set_level ut_level_room OpSet
      by fastforce
  next
    case (OpDel k)
    then have k: "length k < 2 ^ 64" using 1(2) by simp
    obtain ht' where ht': "htable_delete ht (Some k) (of_nat (length k)) = Inr (0, ht')" "ht_wf ht'"
      "ht_map ht' = (ht_map ht)(k := None)"
      using htable_delete_ok [OF 1(1) arg_Some [OF k]] by blast
    with htable_delete_level [OF ht'(1)] OpDel show ?thesis by simp
  qed
qed

section \<open>Properties\<close>

lemma ht_wf_empty [simp]: "ht_wf ut_empty" "ht_map ut_empty = Map.empty"
  by (auto simp: ht_wf_def ht_map_def)

lemma ut_level_empty [simp]: "ut_level ut_empty = 5"
  by (simp add: ut_level_def ut_empty_def)

text \<open>
  after \<open>htable_set\<close> the table is well formed again; \<open>htable_get\<close> of the same key
  returns an entry whose key, value and lengths are exactly the bytes that were passed (an
  earlier entry of the key is unlinked and freed first), and every other key keeps its value.
\<close>

theorem htable_set_get:
  assumes "ht_wf ht" "ut_room ht" "arg kp klen k" "arg vp vlen v" "length k < 2 ^ 32"
  shows "\<exists>ht'. htable_set ht kp klen vp vlen = Inr ht' \<and> ht_wf ht' \<and>
     (\<exists>a d. htable_get ht' kp klen = Inr (Some a) \<and> ut_read ht' a = Inr d \<and>
        ht_key d = Some k \<and> unat (ht_key_len d) = length k \<and>
        ht_value d = Some v \<and> unat (ht_value_len d) = length v) \<and>
     (\<forall>k'. k' \<noteq> k \<longrightarrow> ht_map ht' k' = ht_map ht k')"
proof -
  obtain ht' where ht': "htable_set ht kp klen vp vlen = Inr ht'" "ht_wf ht'" "ht_map ht' = (ht_map ht)(k \<mapsto> v)"
    using htable_set_ok [OF assms] by blast
  with htable_get_hit [OF ht'(2) assms(3), of v] show ?thesis by fastforce
qed

text \<open>
  \<open>htable_delete\<close> always returns 0, also for a key that is not there; afterwards
  \<open>htable_get\<close> of that key returns \<open>NULL\<close>, the table is well formed, and every other key
  keeps its value.
\<close>

theorem htable_delete_get:
  assumes "ht_wf ht" "arg kp klen k"
  shows "\<exists>ht'. htable_delete ht kp klen = Inr (0, ht') \<and> ht_wf ht' \<and>
     htable_get ht' kp klen = Inr None \<and> (\<forall>k'. k' \<noteq> k \<longrightarrow> ht_map ht' k' = ht_map ht k')"
proof -
  obtain ht' where ht': "htable_delete ht kp klen = Inr (0, ht')" "ht_wf ht'" "ht_map ht' = (ht_map ht)(k := None)"
    using htable_delete_ok [OF assms] by blast
  with htable_get_miss [OF ht'(2) assms(2)] show ?thesis by simp
qed

text \<open>
  C6: any history of SET and DELETE operations on an empty table, of whatever length, leaves
  a table that maps every key to the value of its last SET, unless a later DELETE removed it.
  The only other outcome is the exit with -1 of \<open>HASH_EXPAND_BUCKETS\<close>, when the allocator
  refuses the array of 2 to the 32 buckets, whose number the 32-bit counter cannot hold (smaller
  arrays are granted); the history then holds more than 26 SETs, for the table starts with 2 to
  the 5 buckets and a SET doubles them once at most. There is no memory error, and no bound on
  the number of operations.
\<close>

theorem htable_history:
  assumes "list_all ht_op_ok ops"
  shows "(\<exists>ht. run_res ht_step ut_empty ops = Inr ht \<and> ht_wf ht \<and> ht_map ht = fold ht_spec ops Map.empty) \<or>
     run_res ht_step ut_empty ops = Inl (Exit (-1)) \<and> 26 < sum_list (map ht_cost ops)"
  using htq.history_total [of ut_empty ops] assms by auto

text \<open>
  the unused constructor \<open>create_entry2\<close> allocates the size of a pointer and always
  writes beyond that block, on every key and value that can be read; \<open>create_entry\<close>, which
  allocates the size of the structure, returns an entry with copies of both.
\<close>

theorem create_entry2_overflows:
  assumes "read_ptr k (unat klen) = Inr kb" "read_ptr v (unat vlen) = Inr vb"
  shows "create_entry2 k klen v vlen = Inl Out_Of_Bounds \<and>
     create_entry k klen v vlen =
       Inr \<lparr>ht_key = Some kb, ht_key_len = ucast klen, ht_value = Some vb, ht_value_len = ucast vlen\<rparr>"
  using assms by (simp add: create_entry2_def create_entry_def fill_entry_def store_field_def)

section \<open>Witnesses\<close>

theorem htable_set_get_witness:
  "\<exists>ht a d. htable_set ut_empty (Some [65, 66]) 2 (Some [0, 7, 8]) 3 = Inr ht \<and>
     htable_get ht (Some [65, 66]) 2 = Inr (Some a) \<and> ut_read ht a = Inr d \<and> ht_value d = Some [0, 7, 8]"
  using htable_set_get [of ut_empty "Some [65, 66]" 2 "[65, 66]" "Some [0, 7, 8]" 3 "[0, 7, 8]"]
  by (auto simp: arg_def)

theorem htable_delete_get_witness:
  "\<exists>ht ht'. htable_set ut_empty (Some [65]) 1 (Some [7]) 1 = Inr ht \<and>
     htable_delete ht (Some [65]) 1 = Inr (0, ht') \<and> htable_get ht' (Some [65]) 1 = Inr None"
proof -
  obtain ht where ht: "htable_set ut_empty (Some [65]) 1 (Some [7]) 1 = Inr ht" "ht_wf ht"
    using htable_set_ok [of ut_empty "Some [65]" 1 "[65]" "Some [7]" 1 "[7]"] by (auto simp: arg_def)
  from htable_delete_get [OF ht(2), of "Some [65]" 1 "[65]"] ht(1) show ?thesis by (auto simp: arg_def)
qed

theorem htable_history_witness:
  "\<exists>ht. run_res ht_step ut_empty [OpSet [1] [2], OpSet [3] [4], OpSet [1] [5], OpDel [3]] = Inr ht \<and>
     ht_map ht [1] = Some [5] \<and> ht_map ht [3] = None"
  using htable_history [of "[OpSet [1] [2], OpSet [3] [4], OpSet [1] [5], OpDel [3]]"] by force

theorem create_entry2_overflows_witness:
  "create_entry2 (Some [65]) 1 (Some [7]) 1 = Inl Out_Of_Bounds \<and>
   create_entry (Some [65]) 1 (Some [7]) 1 =
     Inr \<lparr>ht_key = Some [65], ht_key_len = 1, ht_value = Some [7], ht_value_len = 1\<rparr>"
  using create_entry2_overflows [of "Some [65]" 1 "[65]" "Some [7]" 1 "[7]"] by simp

end
