(* ===== verification/Packet.thy ===== *)
theory Packet
  imports Prelude
begin

unbundle bit_operations_syntax

text \<open>
  The wire format of the hash table protocol: \<open>praxis2/src/packet.c\<close> and
  \<open>praxis2/include/packet.h\<close>. The record \<open>packet\<close> is the struct, with the two heap
  pointers as \<^typ>\<open>ptr\<close>; the operations keep the source's names. The theory shows the exact
  shape of a serialized packet, the two round trips between packets and byte strings, the
  agreement of the header with the size of the body, and where the decoder reads outside
  the buffer it was given.
\<close>

section \<open>Flags and the packet structure\<close>

definition PKT_FLAG_CTRL :: byte where "PKT_FLAG_CTRL = push_bit 7 1"
definition PKT_FLAG_FNGR :: byte where "PKT_FLAG_FNGR = push_bit 6 1"
definition PKT_FLAG_FACK :: byte where "PKT_FLAG_FACK = push_bit 5 1"
definition PKT_FLAG_JOIN :: byte where "PKT_FLAG_JOIN = push_bit 4 1"
definition PKT_FLAG_NTFY :: byte where "PKT_FLAG_NTFY = push_bit 3 1"
definition PKT_FLAG_STAB :: byte where "PKT_FLAG_STAB = push_bit 2 1"
definition PKT_FLAG_RPLY :: byte where "PKT_FLAG_RPLY = push_bit 1 1"
definition PKT_FLAG_LKUP :: byte where "PKT_FLAG_LKUP = push_bit 0 1"
definition PKT_FLAG_ACK :: byte where "PKT_FLAG_ACK = push_bit 3 1"
definition PKT_FLAG_GET :: byte where "PKT_FLAG_GET = push_bit 2 1"
definition PKT_FLAG_SET :: byte where "PKT_FLAG_SET = push_bit 1 1"
definition PKT_FLAG_DEL :: byte where "PKT_FLAG_DEL = push_bit 0 1"

lemmas flag_defs =
  PKT_FLAG_CTRL_def PKT_FLAG_FNGR_def PKT_FLAG_FACK_def PKT_FLAG_JOIN_def
  PKT_FLAG_NTFY_def PKT_FLAG_STAB_def PKT_FLAG_RPLY_def PKT_FLAG_LKUP_def
  PKT_FLAG_ACK_def PKT_FLAG_GET_def PKT_FLAG_SET_def PKT_FLAG_DEL_def

definition PKT_HEADER_LEN :: nat where "PKT_HEADER_LEN = 7"

text \<open>\<open>flags & F\<close> as a C condition.\<close>

definition has_flag :: "byte \<Rightarrow> byte \<Rightarrow> bool" where
  "has_flag fl f \<longleftrightarrow> fl AND f \<noteq> 0"

record packet =
  flags :: byte
  key_len :: u16
  value_len :: u32
  pkey :: ptr
  pvalue :: ptr
  hash_id :: u16
  node_id :: u16
  node_ip :: u32
  node_port :: u16

definition packet_new :: packet where
  "packet_new = \<lparr>flags = 0, key_len = 0, value_len = 0, pkey = None, pvalue = None,
     hash_id = 0, node_id = 0, node_ip = 0, node_port = 0\<rparr>"

text \<open>
  \<open>packet_dup\<close> copies the scalar fields and both blocks; \<open>malloc(0)\<close> gives an empty block.
\<close>

definition packet_dup :: "packet \<Rightarrow> packet res" where
  "packet_dup p =
     bind_res (read_ptr (pkey p) (unat (key_len p))) (\<lambda>k.
     bind_res (read_ptr (pvalue p) (unat (value_len p))) (\<lambda>v.
     Inr (packet_new\<lparr>flags := flags p, key_len := key_len p, value_len := value_len p,
       hash_id := hash_id p, node_id := node_id p, node_port := node_port p,
       node_ip := node_ip p, pkey := Some k, pvalue := Some v\<rparr>)))"

text \<open>
  The sum \<open>key_len + value_len\<close> is a \<open>uint32_t\<close> sum in C (the \<open>uint16_t\<close> operand is
  converted), so it wraps at 2^32 before it is widened to \<open>size_t\<close>.
\<close>

definition body_sum :: "packet \<Rightarrow> u32" where
  "body_sum p = ucast (key_len p) + value_len p"

definition packet_body_size :: "packet \<Rightarrow> nat" where
  "packet_body_size p =
     (if \<not> has_flag (flags p) PKT_FLAG_CTRL then unat (body_sum p) else 4)"

section \<open>Serialization\<close>

text \<open>\<open>(uint8_t)(w >> s) & 0xFF\<close>.\<close>

definition byte_of16 :: "u16 \<Rightarrow> nat \<Rightarrow> byte" where
  "byte_of16 w s = ucast (drop_bit s w) AND 255"

definition byte_of32 :: "u32 \<Rightarrow> nat \<Rightarrow> byte" where
  "byte_of32 w s = ucast (drop_bit s w) AND 255"

definition packet_serialize_data :: "(nat \<Rightarrow> byte) \<Rightarrow> packet \<Rightarrow> byte list res" where
  "packet_serialize_data junk p =
    (let header_len = 7;
         packet_size = header_len + unat (key_len p) + unat (value_len p);
         buffer = (malloc junk packet_size)
           [0 := flags p,
            1 := byte_of16 (key_len p) 8, 2 := byte_of16 (key_len p) 0,
            3 := byte_of32 (value_len p) 24, 4 := byte_of32 (value_len p) 16,
            5 := byte_of32 (value_len p) 8, 6 := byte_of32 (value_len p) 0]
     in bind_res
          (if pkey p \<noteq> None \<and> key_len p \<noteq> 0
           then bind_res (read_ptr (pkey p) (unat (key_len p))) (store_at buffer 7)
           else Inr buffer) (\<lambda>buffer.
        if pvalue p \<noteq> None \<and> value_len p \<noteq> 0
        then bind_res (read_ptr (pvalue p) (unat (value_len p)))
               (store_at buffer (7 + unat (key_len p)))
        else Inr buffer))"

definition packet_serialize_ctrl :: "(nat \<Rightarrow> byte) \<Rightarrow> packet \<Rightarrow> byte list res" where
  "packet_serialize_ctrl junk p =
    (let packet_size = 11;
         buffer = (malloc junk packet_size)
           [0 := flags p,
            1 := byte_of16 (hash_id p) 8, 2 := byte_of16 (hash_id p) 0,
            3 := byte_of16 (node_id p) 8, 4 := byte_of16 (node_id p) 0,
            5 := byte_of32 (node_ip p) 24, 6 := byte_of32 (node_ip p) 16,
            7 := byte_of32 (node_ip p) 8, 8 := byte_of32 (node_ip p) 0,
            9 := byte_of16 (node_port p) 8, 10 := byte_of16 (node_port p) 0]
     in Inr buffer)"

definition packet_serialize :: "(nat \<Rightarrow> byte) \<Rightarrow> packet \<Rightarrow> byte list res" where
  "packet_serialize junk p =
     (if has_flag (flags p) PKT_FLAG_CTRL then packet_serialize_ctrl junk p
      else packet_serialize_data junk p)"

section \<open>Decoding\<close>

text \<open>\<open>(b[i] << 8u) | (b[i+1] << 0u)\<close>, computed in \<open>int\<close> and stored in a \<open>uint16_t\<close>.\<close>

definition read_be16 :: "byte list \<Rightarrow> nat \<Rightarrow> u16 res" where
  "read_be16 b i =
     bind_res (byte_at b i) (\<lambda>hi.
     bind_res (byte_at b (i + 1)) (\<lambda>lo.
     Inr (ucast (push_bit 8 (ucast hi) OR push_bit 0 (ucast lo) :: u32))))"

definition read_be32 :: "byte list \<Rightarrow> nat \<Rightarrow> u32 res" where
  "read_be32 b i =
     bind_res (byte_at b i) (\<lambda>b0.
     bind_res (byte_at b (i + 1)) (\<lambda>b1.
     bind_res (byte_at b (i + 2)) (\<lambda>b2.
     bind_res (byte_at b (i + 3)) (\<lambda>b3.
     Inr (push_bit 24 (ucast b0) OR push_bit 16 (ucast b1) OR push_bit 8 (ucast b2)
          OR push_bit 0 (ucast b3))))))"

text \<open>The upper and the lower half of \<open>node_ip\<close> are in different parts of the packet.\<close>

definition read_ip_hi :: "byte list \<Rightarrow> nat \<Rightarrow> u32 res" where
  "read_ip_hi b i =
     bind_res (byte_at b i) (\<lambda>b0.
     bind_res (byte_at b (i + 1)) (\<lambda>b1.
     Inr (push_bit 24 (ucast b0) OR push_bit 16 (ucast b1))))"

definition read_ip_lo :: "byte list \<Rightarrow> nat \<Rightarrow> u32 res" where
  "read_ip_lo b i =
     bind_res (byte_at b i) (\<lambda>b0.
     bind_res (byte_at b (i + 1)) (\<lambda>b1.
     Inr (push_bit 8 (ucast b0) OR push_bit 0 (ucast b1))))"

definition packet_decode_hdr :: "byte list \<Rightarrow> nat \<Rightarrow> packet option res" where
  "packet_decode_hdr buffer buf_len =
     (if buf_len < PKT_HEADER_LEN then Inr None
      else bind_res (byte_at buffer 0) (\<lambda>fl.
        let p = packet_new\<lparr>flags := fl\<rparr> in
        if \<not> has_flag (flags p) PKT_FLAG_CTRL then
          bind_res (read_be16 buffer 1) (\<lambda>kl.
          bind_res (read_be32 buffer 3) (\<lambda>vl.
          Inr (Some (p\<lparr>key_len := kl, value_len := vl\<rparr>))))
        else
          bind_res (read_be16 buffer 1) (\<lambda>h.
          bind_res (read_be16 buffer 3) (\<lambda>n.
          bind_res (read_ip_hi buffer 5) (\<lambda>ip.
          Inr (Some (p\<lparr>hash_id := h, node_id := n, node_ip := ip\<rparr>)))))))"

definition packet_decode_body :: "packet \<Rightarrow> byte list \<Rightarrow> nat \<Rightarrow> packet option res" where
  "packet_decode_body p buffer buf_len =
     (if has_flag (flags p) PKT_FLAG_CTRL then
        bind_res (read_ip_lo buffer 0) (\<lambda>lo.
        bind_res (read_be16 buffer 2) (\<lambda>port.
        Inr (Some (p\<lparr>node_ip := node_ip p OR lo, node_port := port\<rparr>))))
      else
        let pkt_size = unat (body_sum p) in
        if buf_len < pkt_size then Inr None
        else
          bind_res (if key_len p > 0
                    then bind_res (read_ptr (Some buffer) (unat (key_len p)))
                           (\<lambda>k. Inr (p\<lparr>pkey := Some k\<rparr>))
                    else Inr p) (\<lambda>p.
          bind_res (if value_len p > 0
                    then bind_res (read_ptr (Some (drop (unat (key_len p)) buffer))
                           (unat (value_len p)))
                           (\<lambda>v. Inr (p\<lparr>pvalue := Some v\<rparr>))
                    else Inr p) (\<lambda>p. Inr (Some p))))"

text \<open>The body decoder is called with the length of the whole buffer.\<close>

definition packet_decode :: "byte list \<Rightarrow> nat \<Rightarrow> packet option res" where
  "packet_decode buffer buf_len =
     bind_res (packet_decode_hdr buffer buf_len) (\<lambda>po.
     case po of None \<Rightarrow> Inr None
     | Some p \<Rightarrow> packet_decode_body p (drop PKT_HEADER_LEN buffer) buf_len)"

section \<open>Specification of the format\<close>

text \<open>
  The byte strings the two kinds of packets stand for, the well-formedness of a packet (each
  block has the length its field announces; \<open>NULL\<close> stands for the empty block), and what a
  receiver can know of a packet: the fields of its kind, with empty blocks as \<open>NULL\<close>.
\<close>

definition be16 :: "u16 \<Rightarrow> byte list" where
  "be16 w = [ucast (drop_bit 8 w), ucast w]"

definition be32 :: "u32 \<Rightarrow> byte list" where
  "be32 w = [ucast (drop_bit 24 w), ucast (drop_bit 16 w), ucast (drop_bit 8 w), ucast w]"

definition ptr_bytes :: "ptr \<Rightarrow> byte list" where
  "ptr_bytes p = (case p of None \<Rightarrow> [] | Some b \<Rightarrow> b)"

definition clean_ptr :: "byte list \<Rightarrow> ptr" where
  "clean_ptr b = (if b = [] then None else Some b)"

definition wf_packet :: "packet \<Rightarrow> bool" where
  "wf_packet p \<longleftrightarrow> length (ptr_bytes (pkey p)) = unat (key_len p) \<and>
     length (ptr_bytes (pvalue p)) = unat (value_len p)"

definition fits_u32 :: "packet \<Rightarrow> bool" where
  "fits_u32 p \<longleftrightarrow> unat (key_len p) + unat (value_len p) < 2 ^ 32"

definition data_wire :: "packet \<Rightarrow> byte list" where
  "data_wire p = flags p # be16 (key_len p) @ be32 (value_len p)
     @ ptr_bytes (pkey p) @ ptr_bytes (pvalue p)"

definition ctrl_wire :: "packet \<Rightarrow> byte list" where
  "ctrl_wire p = flags p # be16 (hash_id p) @ be16 (node_id p) @ be32 (node_ip p)
     @ be16 (node_port p)"

definition wire :: "packet \<Rightarrow> byte list" where
  "wire p = (if has_flag (flags p) PKT_FLAG_CTRL then ctrl_wire p else data_wire p)"

definition data_hdr :: "byte \<Rightarrow> u16 \<Rightarrow> u32 \<Rightarrow> packet" where
  "data_hdr fl kl vl = packet_new\<lparr>flags := fl, key_len := kl, value_len := vl\<rparr>"

definition packet_view :: "packet \<Rightarrow> packet" where
  "packet_view p =
     (if has_flag (flags p) PKT_FLAG_CTRL
      then packet_new\<lparr>flags := flags p, hash_id := hash_id p, node_id := node_id p,
        node_ip := node_ip p, node_port := node_port p\<rparr>
      else (data_hdr (flags p) (key_len p) (value_len p))
        \<lparr>pkey := clean_ptr (ptr_bytes (pkey p)), pvalue := clean_ptr (ptr_bytes (pvalue p))\<rparr>)"

section \<open>Shape of a serialized packet\<close>

lemma length_be [simp]: "length (be16 w) = 2" "length (be32 v) = 4"
  by (simp_all add: be16_def be32_def)

lemma malloc_header_data:
  "(malloc junk (7 + n))[0 := a, 1 := b, 2 := c, 3 := d, 4 := e, 5 := f, 6 := g]
   = [a, b, c, d, e, f, g] @ map junk [7..<7 + n]"
  by (simp add: malloc_def upt_conv_Cons numeral_eq_Suc)

lemma malloc_header_ctrl:
  "(malloc junk 11)[0 := a, 1 := b, 2 := c, 3 := d, 4 := e, 5 := f, 6 := g, 7 := h, 8 := i,
     9 := j, 10 := k] = [a, b, c, d, e, f, g, h, i, j, k]"
  by (simp add: malloc_def upt_conv_Cons numeral_eq_Suc)

lemmas byte_of_defs = byte_of16_def byte_of32_def mask_byte

lemma packet_serialize_ctrl_wire: "packet_serialize_ctrl junk p = Inr (ctrl_wire p)"
  by (simp only: packet_serialize_ctrl_def Let_def malloc_header_ctrl)
     (simp add: ctrl_wire_def be16_def be32_def byte_of_defs)

lemma read_ptr_full:
  "length (ptr_bytes q) = n \<Longrightarrow> read_ptr q n = Inr (ptr_bytes q)"
  by (auto simp: read_ptr_def ptr_bytes_def split: option.splits)

lemma store_at_append:
  "length pre = n \<Longrightarrow> length src \<le> length junk \<Longrightarrow>
   store_at (pre @ junk) n src = Inr (pre @ src @ drop (length src) junk)"
  by (simp add: store_at_def)

lemma copy_field:
  fixes len :: "'a::len word"
  assumes "length (ptr_bytes q) = unat len" "length pre = n" "unat len \<le> length rest"
  shows "(if q \<noteq> None \<and> len \<noteq> 0
           then bind_res (read_ptr q (unat len)) (store_at (pre @ rest) n)
           else Inr (pre @ rest)) = Inr ((pre @ ptr_bytes q) @ drop (unat len) rest)"
proof (cases "q \<noteq> None \<and> len \<noteq> 0")
  case True
  then show ?thesis using assms by (simp add: read_ptr_full store_at_append)
next
  case False
  then have "ptr_bytes q = [] \<and> unat len = 0"
    using assms(1) by (auto simp: ptr_bytes_def split: option.splits)
  with False show ?thesis by auto
qed

lemma packet_serialize_data_wire:
  assumes "wf_packet p"
  shows "packet_serialize_data junk p = Inr (data_wire p)"
proof -
  let ?n = "unat (key_len p) + unat (value_len p)"
  let ?h = "[flags p, byte_of16 (key_len p) 8, byte_of16 (key_len p) 0,
    byte_of32 (value_len p) 24, byte_of32 (value_len p) 16, byte_of32 (value_len p) 8,
    byte_of32 (value_len p) 0]"
  have "packet_serialize_data junk p = Inr (((?h @ ptr_bytes (pkey p)) @ ptr_bytes (pvalue p))
      @ drop (unat (value_len p)) (drop (unat (key_len p)) (map junk [7..<7 + ?n])))"
    unfolding packet_serialize_data_def Let_def add.assoc malloc_header_data
    using assms
    by (subst copy_field; (subst bind_res_simps)?; (subst copy_field)?)
       (simp_all add: wf_packet_def)
  then show ?thesis
    by (simp add: data_wire_def be16_def be32_def byte_of_defs)
qed

lemma read_be16_at [codec]:
  "read_be16 (pre @ be16 w @ post) (length pre) = Inr w"
  using join_u16 [of w] by (simp add: read_be16_def be16_def byte_at_def nth_append)

lemma read_be32_at [codec]:
  "read_be32 (pre @ be32 w @ post) (length pre) = Inr w"
  using join_u32 [of w] by (simp add: read_be32_def be32_def byte_at_def nth_append)

text \<open>Both halves of the address, read apart and joined with \<open>|=\<close>.\<close>

lemma read_ip_halves [codec]:
  "read_ip_hi (pre @ be32 w @ post) (length pre)
     = Inr (push_bit 24 (ucast (be32 w ! 0)) OR push_bit 16 (ucast (be32 w ! 1)))"
  "read_ip_lo (drop 2 (be32 w) @ post) 0
     = Inr (push_bit 8 (ucast (be32 w ! 2)) OR ucast (be32 w ! 3))"
  by (simp_all add: read_ip_hi_def read_ip_lo_def be32_def byte_at_def nth_append)

lemma ip_halves_join [codec]:
  "(push_bit 24 (ucast (be32 w ! 0)) OR push_bit 16 (ucast (be32 w ! 1)))
   OR (push_bit 8 (ucast (be32 w ! 2)) OR ucast (be32 w ! 3)) = w"
  using join_u32 [of w] by (simp add: be32_def or.assoc)

lemma packet_decode_hdr_data:
  assumes "\<not> has_flag fl PKT_FLAG_CTRL" "7 \<le> n"
  shows "packet_decode_hdr (fl # be16 kl @ be32 vl @ rest) n = Inr (Some (data_hdr fl kl vl))"
  using assms read_be16_at [of "[fl]" kl "be32 vl @ rest"]
    read_be32_at [of "fl # be16 kl" vl rest]
  by (simp add: packet_decode_hdr_def PKT_HEADER_LEN_def Let_def data_hdr_def)

lemma packet_decode_hdr_short:
  "n < 7 \<Longrightarrow> packet_decode_hdr b n = Inr None"
  by (simp add: packet_decode_hdr_def PKT_HEADER_LEN_def)

lemma packet_decode_hdr_ctrl:
  assumes "has_flag fl PKT_FLAG_CTRL" "7 \<le> n"
  shows "packet_decode_hdr (fl # be16 h @ be16 nd @ be32 ip @ rest) n =
    Inr (Some (packet_new\<lparr>flags := fl, hash_id := h, node_id := nd,
      node_ip := push_bit 24 (ucast (be32 ip ! 0)) OR push_bit 16 (ucast (be32 ip ! 1))\<rparr>))"
  using assms read_be16_at [of "[fl]" h "be16 nd @ be32 ip @ rest"]
    read_be16_at [of "fl # be16 h" nd "be32 ip @ rest"]
    read_ip_halves(1) [of "fl # be16 h @ be16 nd" ip rest]
  by (simp add: packet_decode_hdr_def PKT_HEADER_LEN_def Let_def)

lemma packet_decode_body_data:
  assumes "\<not> has_flag (flags p) PKT_FLAG_CTRL"
    and "length k = unat (key_len p)" "length v = unat (value_len p)"
    and "unat (key_len p) + unat (value_len p) < 2 ^ 32"
    and "length k + length v \<le> n" "pkey p = None" "pvalue p = None"
  shows "packet_decode_body p (k @ v @ rest) n =
    Inr (Some (p\<lparr>pkey := clean_ptr k, pvalue := clean_ptr v\<rparr>))"
proof -
  have s: "unat (body_sum p) = length k + length v"
    using assms(2-4) by (simp add: body_sum_def unat_word_ariths)
  have "key_len p > 0 \<longleftrightarrow> k \<noteq> []" "value_len p > 0 \<longleftrightarrow> v \<noteq> []"
    by (simp_all add: word_less_nat_alt flip: assms(2,3))
  then show ?thesis
    using assms s
    by (cases "k = []"; cases "v = []") (simp_all add: packet_decode_body_def Let_def clean_ptr_def)
qed

lemma packet_decode_body_ctrl:
  assumes "has_flag (flags p) PKT_FLAG_CTRL"
  shows "packet_decode_body p (drop 2 (be32 ip) @ be16 port @ rest) n =
    Inr (Some (p\<lparr>node_ip := node_ip p OR (push_bit 8 (ucast (be32 ip ! 2)) OR ucast (be32 ip ! 3)),
      node_port := port\<rparr>))"
  using assms read_ip_halves(2) [of ip "be16 port @ rest"]
    read_be16_at [of "drop 2 (be32 ip)" port rest]
  by (simp add: packet_decode_body_def be32_def numeral_2_eq_2)

lemma drop_7_data: "drop 7 (fl # be16 kl @ be32 vl @ rest) = rest"
  by (simp add: be16_def be32_def)

lemma drop_7_ctrl:
  "drop 7 (fl # be16 h @ be16 nd @ be32 ip @ rest) = drop 2 (be32 ip) @ rest"
  by (simp add: be16_def be32_def)

lemma packet_decode_ctrl_wire:
  assumes "has_flag fl PKT_FLAG_CTRL" "7 \<le> n"
  shows "packet_decode (fl # be16 h @ be16 nd @ be32 ip @ be16 port @ rest) n =
    Inr (Some (packet_new\<lparr>flags := fl, hash_id := h, node_id := nd, node_ip := ip,
      node_port := port\<rparr>))"
  using assms
  by (simp add: packet_decode_def packet_decode_hdr_ctrl packet_decode_body_ctrl PKT_HEADER_LEN_def
      drop_7_ctrl del: drop_Suc_Cons)
     (use ip_halves_join [of ip] in \<open>simp add: packet_new_def or.assoc\<close>)

text \<open>The decoder's outcome on a data packet, for every length of the body.\<close>

lemma packet_decode_data_outcome:
  assumes "\<not> has_flag fl PKT_FLAG_CTRL"
  shows "packet_decode (fl # be16 kl @ be32 vl @ body) (7 + length body) =
    (if 7 + length body < unat (body_sum (data_hdr fl kl vl)) then Inr None
     else if length body < unat kl + unat vl then Inl Out_Of_Bounds
     else Inr (Some ((data_hdr fl kl vl)\<lparr>pkey := clean_ptr (take (unat kl) body),
       pvalue := clean_ptr (take (unat vl) (drop (unat kl) body))\<rparr>)))"
proof -
  have h: "flags (data_hdr fl kl vl) = fl" "key_len (data_hdr fl kl vl) = kl"
    "value_len (data_hdr fl kl vl) = vl" "pkey (data_hdr fl kl vl) = None"
    "pvalue (data_hdr fl kl vl) = None"
    by (simp_all add: data_hdr_def packet_new_def)
  have z: "kl > 0 \<longleftrightarrow> 0 < unat kl" "vl > 0 \<longleftrightarrow> 0 < unat vl"
    by (simp_all add: word_less_nat_alt)
  show ?thesis
    using assms
    by (auto simp add: packet_decode_def packet_decode_hdr_data PKT_HEADER_LEN_def drop_7_data
        packet_decode_body_def Let_def h z read_ptr_def clean_ptr_def simp del: drop_Suc_Cons)
qed

lemma has_CTRL_bit: "has_flag fl PKT_FLAG_CTRL \<longleftrightarrow> bit fl 7"
  by (simp add: has_flag_def PKT_FLAG_CTRL_def bit_iff_and_push_bit_not_eq_0)

lemma be16_surj: "\<exists>w. be16 w = [a, b]"
proof
  let ?w = "ucast (push_bit 8 (ucast a) OR ucast b :: u32) :: u16"
  have "ucast (drop_bit 8 ?w) = a" "ucast ?w = b"
    by (rule bit_word_eqI, auto simp: bit_simps dest: bit_imp_le_length)+
  then show "be16 ?w = [a, b]" by (simp add: be16_def)
qed

lemma be32_surj: "\<exists>w. be32 w = [a, b, c, d]"
proof
  let ?w = "push_bit 24 (ucast a) OR push_bit 16 (ucast b) OR push_bit 8 (ucast c) OR ucast d :: u32"
  have "ucast (drop_bit 24 ?w) = a" "ucast (drop_bit 16 ?w) = b" "ucast (drop_bit 8 ?w) = c"
    "ucast ?w = d"
    by (rule bit_word_eqI, auto simp: bit_simps dest: bit_imp_le_length)+
  then show "be32 ?w = [a, b, c, d]" by (simp add: be32_def)
qed

lemma header_data_cases:
  assumes "7 \<le> length b"
  obtains fl kl vl body where "b = fl # be16 kl @ be32 vl @ body"
proof -
  obtain x0 x1 x2 x3 x4 x5 x6 r where b: "b = x0 # [x1, x2] @ [x3, x4, x5, x6] @ r"
    using assms by (auto simp: Suc_le_length_iff numeral_eq_Suc)
  with be16_surj [of x1 x2] be32_surj [of x3 x4 x5 x6] that show ?thesis
    by metis
qed

lemma header_ctrl_cases:
  assumes "11 \<le> length b"
  obtains fl h nd ip port rest where "b = fl # be16 h @ be16 nd @ be32 ip @ be16 port @ rest"
proof -
  obtain x0 x1 x2 x3 x4 x5 x6 x7 x8 x9 x10 r
    where b: "b = x0 # [x1, x2] @ [x3, x4] @ [x5, x6, x7, x8] @ [x9, x10] @ r"
    using assms by (auto simp: Suc_le_length_iff numeral_eq_Suc)
  with be16_surj [of x1 x2] be16_surj [of x3 x4] be32_surj [of x5 x6 x7 x8] be16_surj [of x9 x10]
    that show ?thesis
    by metis
qed

section \<open>Properties of the codec\<close>

lemma packet_serialize_wire:
  assumes "has_flag (flags p) PKT_FLAG_CTRL \<or> wf_packet p"
  shows "packet_serialize junk p = Inr (wire p)"
  using assms
  by (auto simp: packet_serialize_def wire_def packet_serialize_ctrl_wire
      packet_serialize_data_wire)

lemma unat_body_sum: "fits_u32 p \<Longrightarrow> unat (body_sum p) = unat (key_len p) + unat (value_len p)"
  by (simp add: fits_u32_def body_sum_def unat_word_ariths)

lemma data_hdr_sel [simp]:
  "flags (data_hdr fl kl vl) = fl" "key_len (data_hdr fl kl vl) = kl"
  "value_len (data_hdr fl kl vl) = vl" "pkey (data_hdr fl kl vl) = None"
  "pvalue (data_hdr fl kl vl) = None"
  by (simp_all add: data_hdr_def packet_new_def)

lemma length_wire:
  assumes "has_flag (flags p) PKT_FLAG_CTRL \<or> wf_packet p \<and> fits_u32 p"
  shows "length (wire p) = 7 + packet_body_size p"
  using assms
  by (auto simp: wire_def packet_body_size_def unat_body_sum ctrl_wire_def data_wire_def
      wf_packet_def)

lemma packet_decode_wire_data:
  assumes "\<not> has_flag (flags p) PKT_FLAG_CTRL" "wf_packet p" "fits_u32 p"
  shows "packet_decode (wire p) (length (wire p)) = Inr (Some (packet_view p))"
proof -
  let ?k = "ptr_bytes (pkey p)" and ?v = "ptr_bytes (pvalue p)"
  have len: "length ?k = unat (key_len p)" "length ?v = unat (value_len p)"
    using assms(2) by (simp_all add: wf_packet_def)
  have "body_sum (data_hdr (flags p) (key_len p) (value_len p)) = body_sum p"
    by (simp add: body_sum_def)
  then show ?thesis
    using packet_decode_data_outcome [OF assms(1), of "key_len p" "value_len p" "?k @ ?v"]
      assms len unat_body_sum [OF assms(3)]
    by (simp add: wire_def data_wire_def packet_view_def)
qed

lemma packet_decode_wire_ctrl:
  assumes "has_flag (flags p) PKT_FLAG_CTRL"
  shows "packet_decode (wire p) (length (wire p)) = Inr (Some (packet_view p))"
  using packet_decode_ctrl_wire [OF assms, of "length (wire p)" "hash_id p" "node_id p" "node_ip p"
      "node_port p" "[]"] assms
  by (simp add: wire_def ctrl_wire_def packet_view_def)

text \<open>C7: Encoding a packet and decoding the bytes gives the packet back, for control packets
  without any condition and for data packets whose blocks have the announced lengths and whose
  body length fits the 32-bit sum; the allocator's junk never reaches the wire.\<close>

theorem packet_roundtrip:
  assumes "has_flag (flags p) PKT_FLAG_CTRL \<or> wf_packet p \<and> fits_u32 p"
  shows "bind_res (packet_serialize junk p) (\<lambda>b. packet_decode b (length b))
    = Inr (Some (packet_view p))"
proof -
  have "packet_serialize junk p = Inr (wire p)"
    using assms by (auto intro: packet_serialize_wire)
  moreover have "packet_decode (wire p) (length (wire p)) = Inr (Some (packet_view p))"
    using assms packet_decode_wire_ctrl packet_decode_wire_data by blast
  ultimately show ?thesis by simp
qed

theorem packet_roundtrip_witness:
  "bind_res (packet_serialize (\<lambda>_. 170)
      (packet_new\<lparr>flags := PKT_FLAG_SET, key_len := 2, value_len := 1, pkey := Some [104, 105],
        pvalue := Some [7]\<rparr>)) (\<lambda>b. packet_decode b (length b))
   = Inr (Some (packet_new\<lparr>flags := PKT_FLAG_SET, key_len := 2, value_len := 1,
        pkey := Some [104, 105], pvalue := Some [7]\<rparr>))"
proof -
  let ?p = "packet_new\<lparr>flags := PKT_FLAG_SET, key_len := 2, value_len := 1, pkey := Some [104, 105],
        pvalue := Some [7]\<rparr>"
  have h: "wf_packet ?p \<and> fits_u32 ?p" and n: "\<not> has_flag (flags ?p) PKT_FLAG_CTRL"
    by (simp_all add: wf_packet_def fits_u32_def ptr_bytes_def has_flag_def flag_defs packet_new_def)
  have v: "packet_view ?p = ?p"
    using n by (simp add: packet_view_def ptr_bytes_def clean_ptr_def data_hdr_def packet_new_def)
  show ?thesis
    using packet_roundtrip [of ?p "\<lambda>_. 170"] h unfolding v by blast
qed

lemma take_7_data:
  "take (7 + n) (fl # be16 kl @ be32 vl @ body) = fl # be16 kl @ be32 vl @ take n body"
  by (simp add: be16_def be32_def numeral_eq_Suc)

lemma ptr_bytes_clean [simp]: "ptr_bytes (clean_ptr x) = x"
  by (simp add: ptr_bytes_def clean_ptr_def)

lemma packet_decode_ctrl_short:
  assumes "has_flag fl PKT_FLAG_CTRL" "length body < 4"
  shows "packet_decode (fl # be16 h @ be32 x @ body) (7 + length body) = Inl Out_Of_Bounds"
proof -
  obtain nd where nd: "be16 nd = take 2 (be32 x)"
    using be16_surj [of "be32 x ! 0" "be32 x ! 1"] by (auto simp: be32_def)
  define hi where "hi = drop 2 (be32 x)"
  have x: "be32 x = be16 nd @ hi" "length hi = 2"
    by (simp_all add: nd hi_def)
  obtain a b where hi: "hi = [a, b]" using x(2) by (auto simp: length_Suc_conv numeral_2_eq_2)
  have h: "\<exists>ip'. packet_decode_hdr (fl # be16 h @ be32 x @ body) (7 + length body)
      = Inr (Some (packet_new\<lparr>flags := fl, hash_id := h, node_id := nd, node_ip := ip'\<rparr>))"
    using read_be16_at [of "[fl]" h "be32 x @ body"]
      read_be16_at [of "fl # be16 h" nd "hi @ body"] assms(1)
    by (simp add: packet_decode_hdr_def PKT_HEADER_LEN_def Let_def x hi read_ip_hi_def byte_at_def
        nth_append) (rule exI, rule refl)
  have "packet_decode_body p body n = Inl Out_Of_Bounds"
    if "has_flag (flags p) PKT_FLAG_CTRL" for p n
    using that assms(2)
    by (auto simp: packet_decode_body_def read_ip_lo_def read_be16_def bind_res_Inl_iff byte_at_def)
  with h assms(1) show ?thesis
    by (auto simp: packet_decode_def PKT_HEADER_LEN_def drop_7_data simp del: drop_Suc_Cons)
qed

lemma packet_decode_Some_length:
  "packet_decode b (length b) = Inr (Some p) \<Longrightarrow> 7 \<le> length b"
  using packet_decode_hdr_short [of "length b" b]
  by (cases "length b < 7") (auto simp: packet_decode_def)

lemma packet_decode_serialize_data:
  assumes "\<not> has_flag fl PKT_FLAG_CTRL" and b: "b = fl # be16 kl @ be32 vl @ body"
    and "packet_decode b (length b) = Inr (Some p)"
  shows "packet_serialize junk p = Inr (wire p)" "wire p = take (length (wire p)) b"
proof -
  let ?k = "take (unat kl) body" and ?v = "take (unat vl) (drop (unat kl) body)"
  have l: "unat kl + unat vl \<le> length body"
    and p: "p = (data_hdr fl kl vl)\<lparr>pkey := clean_ptr ?k, pvalue := clean_ptr ?v\<rparr>"
    using packet_decode_data_outcome [OF assms(1), of kl vl body] assms(3) b
    by (auto split: if_splits)
  have "wf_packet p" using l by (simp add: p wf_packet_def)
  then show "packet_serialize junk p = Inr (wire p)" by (simp add: packet_serialize_wire)
  have w: "wire p = fl # be16 kl @ be32 vl @ take (unat kl + unat vl) body"
    using assms(1) by (simp add: p wire_def data_wire_def take_add)
  have len: "length (wire p) = 7 + (unat kl + unat vl)" using l by (simp add: w)
  show "wire p = take (length (wire p)) b"
    unfolding len b take_7_data by (rule w)
qed

lemma packet_decode_serialize_ctrl:
  assumes "has_flag fl PKT_FLAG_CTRL" and b: "b = fl # be16 h @ be16 nd @ be32 ip @ be16 port @ rest"
    and "packet_decode b (length b) = Inr (Some p)"
  shows "packet_serialize junk p = Inr (wire p)" "wire p = take (length (wire p)) b"
proof -
  have p: "p = packet_new\<lparr>flags := fl, hash_id := h, node_id := nd, node_ip := ip,
      node_port := port\<rparr>"
    using packet_decode_ctrl_wire [OF assms(1), of "length b" h nd ip port rest] assms(3) b
    by simp
  then show "packet_serialize junk p = Inr (wire p)"
    using assms(1) by (simp add: packet_serialize_wire)
  have "wire p = fl # be16 h @ be16 nd @ be32 ip @ be16 port"
    using assms(1) by (simp add: p wire_def ctrl_wire_def)
  then show "wire p = take (length (wire p)) b" by (simp add: b)
qed

text \<open>Whatever the decoder accepts is the encoding of what it returns, followed by bytes it
  ignores: serializing a decoded packet reproduces the prefix of the buffer it was read from.\<close>

theorem packet_decode_serialize:
  assumes dec: "packet_decode b (length b) = Inr (Some p)"
  shows "packet_serialize junk p = Inr (take (length (wire p)) b)"
proof -
  have len: "7 \<le> length b" using dec by (rule packet_decode_Some_length)
  obtain fl kl vl body where b: "b = fl # be16 kl @ be32 vl @ body"
    using header_data_cases [OF len] .
  show ?thesis
  proof (cases "has_flag fl PKT_FLAG_CTRL")
    case False
    then show ?thesis
      using packet_decode_serialize_data [OF False b dec] by simp
  next
    case True
    have "\<not> length body < 4"
      using packet_decode_ctrl_short [OF True, of body kl vl] dec b by auto
    then have "11 \<le> length b" by (simp add: b)
    then obtain fl' h nd ip port rest
      where b': "b = fl' # be16 h @ be16 nd @ be32 ip @ be16 port @ rest"
      by (rule header_ctrl_cases)
    with b have "fl' = fl" by simp
    then show ?thesis
      using packet_decode_serialize_ctrl [OF _ b' dec] True by simp
  qed
qed

theorem packet_decode_serialize_witness:
  "packet_serialize (\<lambda>_. 170) (packet_new\<lparr>flags := 129, hash_id := 258, node_id := 772,
      node_ip := 84281096, node_port := 2314\<rparr>)
   = Inr [129, 1, 2, 3, 4, 5, 6, 7, 8, 9, 10]"
proof -
  let ?b = "[129, 1, 2, 3, 4, 5, 6, 7, 8, 9, 10, 77] :: byte list"
  let ?p = "packet_new\<lparr>flags := 129, hash_id := 258, node_id := 772,
      node_ip := 84281096, node_port := 2314\<rparr>"
  have "packet_decode ?b (length ?b) = Inr (Some ?p)"
    by code_simp
  from packet_decode_serialize [OF this, of "\<lambda>_. 170"] show ?thesis
    by (simp add: wire_def ctrl_wire_def has_flag_def PKT_FLAG_CTRL_def packet_new_def)
qed

text \<open>C39: Exactly when \<open>packet_decode\<close> reads outside its buffer. The body decoder is handed the
  length of header and body together and compares it with a sum that wraps at 2^32, so the
  check lets through bodies that are up to seven bytes short, bodies whose announced length
  overflows the sum, and control packets with fewer than four body bytes.\<close>

theorem packet_decode_out_of_bounds_iff:
  "packet_decode (fl # be16 kl @ be32 vl @ body) (7 + length body) = Inl Out_Of_Bounds \<longleftrightarrow>
     (if has_flag fl PKT_FLAG_CTRL then length body < 4
      else unat (ucast kl + vl) \<le> 7 + length body \<and> length body < unat kl + unat vl)"
proof (cases "has_flag fl PKT_FLAG_CTRL")
  case False
  then show ?thesis
    using packet_decode_data_outcome [OF False, of kl vl body] by (auto simp: body_sum_def)
next
  case True
  show ?thesis
  proof (cases "length body < 4")
    case False
    then have "11 \<le> length (fl # be16 kl @ be32 vl @ body)" by simp
    then obtain fl' h nd ip port rest
      where b': "fl # be16 kl @ be32 vl @ body = fl' # be16 h @ be16 nd @ be32 ip @ be16 port @ rest"
      by (rule header_ctrl_cases)
    then have "fl' = fl" by simp
    with True False show ?thesis
      using packet_decode_ctrl_wire [OF True, of "7 + length body" h nd ip port rest] b' by simp
  qed (use True packet_decode_ctrl_short in auto)
qed

lemma byte_at_take: "i < n \<Longrightarrow> byte_at (take n b) i = byte_at b i"
  by (simp add: byte_at_def)

lemma packet_decode_hdr_take: "packet_decode_hdr (take 7 b) 7 = packet_decode_hdr b 7"
  by (simp add: packet_decode_hdr_def PKT_HEADER_LEN_def read_be16_def read_be32_def
      read_ip_hi_def byte_at_take Let_def cong: if_cong)

lemma packet_framing_ctrl:
  assumes "has_flag (flags p) PKT_FLAG_CTRL"
  shows "\<exists>h. packet_decode_hdr (take 7 (wire p)) 7 = Inr (Some h) \<and>
     length (drop 7 (wire p)) = packet_body_size h \<and>
     packet_decode_body h (drop 7 (wire p)) (packet_body_size h) = Inr (Some (packet_view p))"
proof -
  let ?ip = "be32 (node_ip p)"
  let ?h = "packet_new\<lparr>flags := flags p, hash_id := hash_id p, node_id := node_id p,
     node_ip := push_bit 24 (ucast (?ip ! 0)) OR push_bit 16 (ucast (?ip ! 1))\<rparr>"
  have w: "wire p = flags p # be16 (hash_id p) @ be16 (node_id p) @ ?ip @ be16 (node_port p)"
    using assms by (simp add: wire_def ctrl_wire_def)
  have "packet_decode_hdr (take 7 (wire p)) 7 = Inr (Some ?h)"
    unfolding packet_decode_hdr_take w by (rule packet_decode_hdr_ctrl [OF assms]) simp
  moreover have "packet_decode_body ?h (drop 7 (wire p)) 4 = Inr (Some (packet_view p))"
    using packet_decode_body_ctrl [of ?h "node_ip p" "node_port p" "[]" 4] assms
      ip_halves_join [of "node_ip p"]
    by (simp add: w drop_7_ctrl packet_view_def packet_new_def or.assoc del: drop_Suc_Cons)
  ultimately show ?thesis
    using assms by (intro exI [of _ ?h]) (simp add: packet_body_size_def w)
qed

lemma packet_framing_data:
  assumes "\<not> has_flag (flags p) PKT_FLAG_CTRL" "wf_packet p" "fits_u32 p"
  shows "\<exists>h. packet_decode_hdr (take 7 (wire p)) 7 = Inr (Some h) \<and>
     length (drop 7 (wire p)) = packet_body_size h \<and>
     packet_decode_body h (drop 7 (wire p)) (packet_body_size h) = Inr (Some (packet_view p))"
proof -
  let ?h = "data_hdr (flags p) (key_len p) (value_len p)"
  let ?k = "ptr_bytes (pkey p)" and ?v = "ptr_bytes (pvalue p)"
  have w: "wire p = flags p # be16 (key_len p) @ be32 (value_len p) @ ?k @ ?v"
    using assms by (simp add: wire_def data_wire_def)
  have len: "length ?k = unat (key_len p)" "length ?v = unat (value_len p)"
    using assms(2) by (simp_all add: wf_packet_def)
  have sz: "packet_body_size ?h = length ?k + length ?v"
    using assms(1) unat_body_sum [OF assms(3)] len by (simp add: packet_body_size_def body_sum_def)
  have "packet_decode_hdr (take 7 (wire p)) 7 = Inr (Some ?h)"
    unfolding packet_decode_hdr_take w by (rule packet_decode_hdr_data [OF assms(1)]) simp
  moreover have "packet_decode_body ?h (drop 7 (wire p)) (length ?k + length ?v)
      = Inr (Some (packet_view p))"
    using packet_decode_body_data [of ?h ?k ?v "length ?k + length ?v" "[]"] assms len
    by (simp add: w drop_7_data fits_u32_def packet_view_def del: drop_Suc_Cons)
  ultimately show ?thesis
    using sz by (intro exI [of _ ?h]) (simp add: w)
qed

text \<open>The first seven bytes of an encoded packet are a header that decodes and whose
  \<open>packet_body_size\<close> is the number of bytes still to come; decoding those bytes on top of the
  header gives the packet. This is what a receiver that reads header and body apart relies on.\<close>

theorem packet_framing:
  assumes "has_flag (flags p) PKT_FLAG_CTRL \<or> wf_packet p \<and> fits_u32 p"
  shows "\<exists>b h. packet_serialize junk p = Inr b \<and>
     packet_decode_hdr (take 7 b) 7 = Inr (Some h) \<and>
     length (drop 7 b) = packet_body_size h \<and>
     packet_decode_body h (drop 7 b) (packet_body_size h) = Inr (Some (packet_view p))"
  using assms packet_framing_ctrl packet_framing_data packet_serialize_wire
  by blast

theorem packet_framing_witness:
  "\<exists>b h. packet_serialize (\<lambda>_. 0) (packet_new\<lparr>flags := PKT_FLAG_CTRL\<rparr>) = Inr b \<and>
     packet_decode_hdr (take 7 b) 7 = Inr (Some h) \<and>
     length (drop 7 b) = packet_body_size h \<and>
     packet_decode_body h (drop 7 b) (packet_body_size h)
       = Inr (Some (packet_view (packet_new\<lparr>flags := PKT_FLAG_CTRL\<rparr>)))"
  by (rule packet_framing) (simp add: has_flag_def PKT_FLAG_CTRL_def)

text \<open>\<open>packet_dup\<close> of a well-formed packet succeeds and the copy is indistinguishable from
  the original on the wire.\<close>

theorem packet_dup_faithful:
  assumes "wf_packet p"
  shows "\<exists>q. packet_dup p = Inr q \<and> wf_packet q \<and> packet_view q = packet_view p \<and>
     packet_serialize junk q = packet_serialize junk p"
proof -
  let ?q = "packet_new\<lparr>flags := flags p, key_len := key_len p, value_len := value_len p,
       hash_id := hash_id p, node_id := node_id p, node_port := node_port p,
       node_ip := node_ip p, pkey := Some (ptr_bytes (pkey p)), pvalue := Some (ptr_bytes (pvalue p))\<rparr>"
  have q: "packet_dup p = Inr ?q"
    using assms by (simp add: packet_dup_def read_ptr_full wf_packet_def)
  have s: "ptr_bytes (Some x) = x" for x by (simp add: ptr_bytes_def)
  have wf: "wf_packet ?q" using assms by (simp add: wf_packet_def s)
  moreover have "packet_view ?q = packet_view p" "wire ?q = wire p"
    by (simp_all add: packet_view_def wire_def ctrl_wire_def data_wire_def s)
  ultimately show ?thesis
    using assms q by (simp add: packet_serialize_wire)
qed

theorem packet_dup_faithful_witness:
  "\<exists>q. packet_dup packet_new = Inr q \<and> wf_packet q \<and> packet_view q = packet_view packet_new \<and>
     packet_serialize (\<lambda>_. 0) q = packet_serialize (\<lambda>_. 0) packet_new"
  by (rule packet_dup_faithful) (simp add: wf_packet_def packet_new_def ptr_bytes_def)

end
