(* ===== verification/Requests.thy ===== *)
theory Requests
  imports Uthash Packet
begin

unbundle bit_operations_syntax

text \<open>
  The table of open requests, \<open>praxis2/src/requests.c\<close>: while a peer waits for the answer to
  a lookup it keeps, per hash id, the packets (with the sockets to answer on) in order of
  arrival. The table is a \<open>uthash\<close> table keyed by the two bytes of the hash id; the linked
  list of a table entry is a list of \<open>request\<close> records. The theory shows that the table is a
  family of queues, one per hash id, and what any history of additions and clearings does.
\<close>

section \<open>Structures and operations\<close>

record request =
  r_packet :: packet
  r_socket :: int

record rtable =
  rt_hash_id :: u16
  open_requests :: "request list"

text \<open>The bytes of a \<open>uint16_t\<close> in memory, low byte first.\<close>

definition id_bytes :: "u16 \<Rightarrow> byte list" where
  "id_bytes h = [ucast h, ucast (drop_bit 8 h)]"

text \<open>The loop to the last node and the link behind it; the list has a first node.\<close>

fun append_request :: "request list \<Rightarrow> request \<Rightarrow> request list res" where
  "append_request [] r = Inl Null_Deref"
| "append_request [re] r = Inr [re, r]"
| "append_request (re # nxt # res) r =
     bind_res (append_request (nxt # res) r) (\<lambda>l. Inr (re # l))"

definition add_request ::
  "rtable ut_hash \<Rightarrow> u16 \<Rightarrow> int \<Rightarrow> packet \<Rightarrow> rtable ut_hash res" where
  "add_request table h_id sock p =
     bind_res (packet_dup p) (\<lambda>dup.
     let r = \<lparr>r_packet = dup, r_socket = sock\<rparr> in
     bind_res (HASH_FIND table (id_bytes h_id)) (\<lambda>existing.
     case existing of
       Some a \<Rightarrow>
         bind_res (ut_read table a) (\<lambda>e.
         bind_res (append_request (open_requests e) r) (\<lambda>l.
         ut_write table a (e\<lparr>open_requests := l\<rparr>)))
     | None \<Rightarrow>
         (case ut_malloc table \<lparr>rt_hash_id = h_id, open_requests = [r]\<rparr> of
            (a, table) \<Rightarrow> HASH_ADD_KEYPTR table (id_bytes h_id) a)))"

definition get_requests :: "rtable ut_hash \<Rightarrow> u16 \<Rightarrow> request list res" where
  "get_requests table h_id =
     bind_res (HASH_FIND table (id_bytes h_id)) (\<lambda>existing.
     case existing of
       Some a \<Rightarrow> bind_res (ut_read table a) (\<lambda>e. Inr (open_requests e))
     | None \<Rightarrow> Inr [])"

text \<open>The nodes of the list are freed, the table entry is unlinked but never freed.\<close>

definition clear_requests :: "rtable ut_hash \<Rightarrow> u16 \<Rightarrow> rtable ut_hash res" where
  "clear_requests table h_id =
     bind_res (HASH_FIND table (id_bytes h_id)) (\<lambda>existing.
     case existing of
       Some a \<Rightarrow>
         bind_res (ut_read table a) (\<lambda>e.
         bind_res (ut_write table a (e\<lparr>open_requests := []\<rparr>)) (\<lambda>table.
         HASH_DELETE table a))
     | None \<Rightarrow> Inr table)"

section \<open>Invariant and abstraction\<close>

definition rt_wf :: "rtable ut_hash \<Rightarrow> bool" where
  "rt_wf t \<longleftrightarrow> ut_wf t \<and> (\<forall>k d. ut_map t k = Some d \<longrightarrow> open_requests d \<noteq> [])"

definition rt_queue :: "rtable ut_hash \<Rightarrow> u16 \<Rightarrow> request list" where
  "rt_queue t h = (case ut_map t (id_bytes h) of None \<Rightarrow> [] | Some d \<Rightarrow> open_requests d)"

lemma id_bytes_inj [simp]: "id_bytes h = id_bytes h' \<longleftrightarrow> h = h'"
proof
  assume eq: "id_bytes h = id_bytes h'"
  show "h = h'"
  proof (rule bit_word_eqI)
    fix n assume n: "n < LENGTH(16)"
    have lo: "bit (ucast h :: byte) m = bit (ucast h' :: byte) m"
      and hi: "bit (ucast (drop_bit 8 h) :: byte) m = bit (ucast (drop_bit 8 h') :: byte) m" for m
      using eq by (simp_all add: id_bytes_def)
    have "n - 8 < 8" using n by simp
    then show "bit h n = bit h' n"
      using lo [of n] hi [of "n - 8"] by (cases "n < 8") (simp_all add: bit_simps)
  qed
qed simp

lemma length_id_bytes: "length (id_bytes h) < 2 ^ 32"
  by (simp add: id_bytes_def)

lemma append_request_snoc: "l \<noteq> [] \<Longrightarrow> append_request l r = Inr (l @ [r])"
  by (induction l r rule: append_request.induct) auto

lemma add_request_cases:
  assumes wf: "rt_wf t" and dup: "packet_dup p = Inr q"
  shows "(\<exists>t'. add_request t h s p = Inr t' \<and> rt_wf t' \<and>
       rt_queue t' = (rt_queue t)(h := rt_queue t h @ [\<lparr>r_packet = q, r_socket = s\<rparr>])) \<or>
     add_request t h s p = Inl (Exit (-1)) \<and> \<not> ut_room t"
proof -
  let ?r = "\<lparr>r_packet = q, r_socket = s\<rparr>" and ?k = "id_bytes h"
  let ?d0 = "\<lparr>rt_hash_id = h, open_requests = [?r]\<rparr>"
  let ?g = "\<lambda>d. d\<lparr>open_requests := open_requests d @ [?r]\<rparr>"
  let ?f = "\<lambda>d. bind_res (append_request (open_requests d) ?r) (\<lambda>l. Inr (d\<lparr>open_requests := l\<rparr>))"
  have u: "ut_wf t" using wf by (simp add: rt_wf_def)
  have f: "?f d = Inr (?g d)" if "ut_map t ?k = Some d" for d
    using wf that by (simp add: rt_wf_def append_request_snoc)
  have "add_request t h s p = bind_res (HASH_FIND t ?k) (\<lambda>r. case r of None \<Rightarrow> ut_add t ?k ?d0
      | Some a \<Rightarrow> bind_res (ut_read t a) (\<lambda>d. bind_res (?f d) (ut_write t a)))"
    unfolding add_request_def dup ut_add_def Let_def bind_res_assoc bind_res_simps by (rule refl)
  note cases = ut.update_key [OF u length_id_bytes this, of ?g, OF f]
  then show ?thesis
  proof
    assume "\<exists>t'. add_request t h s p = Inr t' \<and> ut_wf t' \<and>
      ut_map t' = (ut_map t)(?k \<mapsto> (case ut_map t ?k of None \<Rightarrow> ?d0 | Some d \<Rightarrow> ?g d))"
    then obtain t' where t': "add_request t h s p = Inr t'" "ut_wf t'"
      "ut_map t' = (ut_map t)(?k \<mapsto> (case ut_map t ?k of None \<Rightarrow> ?d0 | Some d \<Rightarrow> ?g d))" by blast
    have "rt_wf t'" using t'(2,3) wf by (auto simp: rt_wf_def split: option.splits)
    moreover have "rt_queue t' = (rt_queue t)(h := rt_queue t h @ [?r])"
      using t'(3) by (auto simp: rt_queue_def fun_eq_iff split: option.splits)
    ultimately show ?thesis using t'(1) by blast
  qed auto
qed

lemma add_request_ok:
  assumes "rt_wf t" "ut_room t" "packet_dup p = Inr q"
  shows "\<exists>t'. add_request t h s p = Inr t' \<and> rt_wf t' \<and>
     rt_queue t' = (rt_queue t)(h := rt_queue t h @ [\<lparr>r_packet = q, r_socket = s\<rparr>])"
  using add_request_cases [OF assms(1,3)] assms(2) by blast

lemma get_requests_ok:
  assumes "rt_wf t"
  shows "get_requests t h = Inr (rt_queue t h)"
proof (cases "ut_map t (id_bytes h)")
  case None
  then show ?thesis using assms ut.find_miss [of t] by (simp add: rt_wf_def get_requests_def rt_queue_def)
next
  case (Some d)
  then show ?thesis using assms ut.find_hit [of t "id_bytes h" d]
    by (auto simp: rt_wf_def get_requests_def rt_queue_def)
qed

lemma ut_write_linked: "ut_write t a d = Inr t' \<Longrightarrow> linked t a k \<Longrightarrow> linked t' a k"
  by (auto simp: ut_write_def bind_res_Inr_iff linked_def order_of_def key_at_def deref_def split: option.splits)

lemma clear_requests_ok:
  assumes wf: "rt_wf t"
  shows "\<exists>t'. clear_requests t h = Inr t' \<and> rt_wf t' \<and> rt_queue t' = (rt_queue t)(h := []) \<and>
     (ut_room t \<longrightarrow> ut_room t')"
proof (cases "ut_map t (id_bytes h)")
  case None
  then show ?thesis using wf ut.find_miss [of t]
    by (auto simp: rt_wf_def clear_requests_def rt_queue_def fun_eq_iff)
next
  case (Some d)
  let ?k = "id_bytes h"
  have u: "ut_wf t" using wf by (simp add: rt_wf_def)
  obtain a where a: "HASH_FIND t ?k = Inr (Some a)" "linked t a ?k" "ut_read t a = Inr d"
    using ut.find_hit [OF u Some] by blast
  obtain t1 where t1: "ut_write t a (d\<lparr>open_requests := []\<rparr>) = Inr t1" "ut_wf t1"
    "ut_map t1 = (ut_map t)(?k \<mapsto> d\<lparr>open_requests := []\<rparr>)" "ut_room t \<longrightarrow> ut_room t1"
    using ut.store_law [OF u a(2)] by blast
  obtain t' where t': "HASH_DELETE t1 a = Inr t'" "ut_wf t'" "ut_map t' = (ut_map t1)(?k := None)"
    "ut_room t1 \<longrightarrow> ut_room t'"
    using ut.unlink_law [OF t1(2) ut_write_linked [OF t1(1) a(2)]] by blast
  have "clear_requests t h = Inr t'" using t'(1) t1(1) a by (simp add: clear_requests_def)
  moreover have "rt_wf t'" using t'(2,3) t1(3) wf by (auto simp: rt_wf_def)
  ultimately show ?thesis using t'(3,4) t1(3,4) by (auto simp: rt_queue_def fun_eq_iff)
qed

section \<open>Histories\<close>

datatype rt_op = OpAdd u16 int packet | OpClear u16

primrec rt_step :: "rtable ut_hash \<Rightarrow> rt_op \<Rightarrow> rtable ut_hash res" where
  "rt_step t (OpAdd h s p) = add_request t h s p"
| "rt_step t (OpClear h) = clear_requests t h"

text \<open>The copy that \<open>packet_dup\<close> makes of a well-formed packet.\<close>

definition dup_of :: "packet \<Rightarrow> packet" where
  "dup_of p = p\<lparr>pkey := Some (ptr_bytes (pkey p)), pvalue := Some (ptr_bytes (pvalue p))\<rparr>"

primrec rt_spec :: "rt_op \<Rightarrow> (u16 \<Rightarrow> request list) \<Rightarrow> u16 \<Rightarrow> request list" where
  "rt_spec (OpAdd h s p) q = q(h := q h @ [\<lparr>r_packet = dup_of p, r_socket = s\<rparr>])"
| "rt_spec (OpClear h) q = q(h := [])"

primrec rt_op_ok :: "rt_op \<Rightarrow> bool" where
  "rt_op_ok (OpAdd h s p) = wf_packet p"
| "rt_op_ok (OpClear h) = True"

primrec rt_cost :: "rt_op \<Rightarrow> nat" where
  "rt_cost (OpAdd h s p) = 1"
| "rt_cost (OpClear h) = 0"

lemma packet_dup_of: "wf_packet p \<Longrightarrow> packet_dup p = Inr (dup_of p)"
  by (cases p) (simp add: packet_dup_def dup_of_def read_ptr_full wf_packet_def packet_new_def)

lemma ut_write_level: "ut_write t a d = Inr t' \<Longrightarrow> ut_level t' = ut_level t"
  by (auto simp: ut_write_def bind_res_Inr_iff ut_level_def)

lemma add_request_level: "add_request t h s p = Inr t' \<Longrightarrow> ut_level t' \<le> Suc (ut_level t)"
  by (auto simp: add_request_def Let_def bind_res_Inr_iff ut_add_def
      split: option.splits dest!: ut_write_level ut_add_level [unfolded ut_add_def])

lemma clear_requests_level: "clear_requests t h = Inr t' \<Longrightarrow> ut_level t' \<le> ut_level t"
  by (auto simp: clear_requests_def bind_res_Inr_iff
      split: option.splits dest!: ut_write_level HASH_DELETE_level)

interpretation rtq: op_refinement rt_wf rt_queue ut_level 31 rt_step rt_spec rt_op_ok rt_cost
proof (unfold_locales, goal_cases)
  case (1 t x)
  show ?case
  proof (cases x)
    case (OpAdd h s p)
    with 1 have dup: "packet_dup p = Inr (dup_of p)" by (simp add: packet_dup_of)
    show ?thesis
      using add_request_cases [OF 1(1) dup, of h s] add_request_level [of t h s p] ut_level_room [of t] OpAdd
      by fastforce
  next
    case (OpClear h)
    then show ?thesis using clear_requests_ok [OF 1(1)] clear_requests_level by fastforce
  qed
qed

section \<open>Properties\<close>

lemma rt_wf_empty [simp]: "rt_wf ut_empty" "rt_queue ut_empty = (\<lambda>_. [])"
  by (auto simp: rt_wf_def rt_queue_def)

text \<open>
  the request table is a queue per hash id. Adding a request for a hash id makes
  \<open>get_requests\<close> of that id return the earlier requests, in their order, followed by the new
  one with its socket and a copy of its packet that serializes to the same bytes; the queues
  of all other ids are unchanged, and the loop to the end of the list never meets a null pointer.
\<close>

theorem add_request_fifo:
  assumes "rt_wf t" "ut_room t" "wf_packet p"
  shows "\<exists>t' q. add_request t h s p = Inr t' \<and> rt_wf t' \<and>
     get_requests t' h = Inr (rt_queue t h @ [\<lparr>r_packet = q, r_socket = s\<rparr>]) \<and>
     (\<forall>junk. packet_serialize junk q = packet_serialize junk p) \<and>
     (\<forall>h'. h' \<noteq> h \<longrightarrow> get_requests t' h' = get_requests t h')"
proof -
  have dup: "packet_dup p = Inr (dup_of p)" using assms(3) by (rule packet_dup_of)
  have wf: "wf_packet (dup_of p)" and w: "wire (dup_of p) = wire p"
    using assms(3) by (simp_all add: dup_of_def wf_packet_def wire_def data_wire_def ctrl_wire_def ptr_bytes_def)
  have ser: "packet_serialize junk (dup_of p) = packet_serialize junk p" for junk
    using wf w assms(3) by (simp add: packet_serialize_wire)
  obtain t' where t': "add_request t h s p = Inr t'" "rt_wf t'"
    "rt_queue t' = (rt_queue t)(h := rt_queue t h @ [\<lparr>r_packet = dup_of p, r_socket = s\<rparr>])"
    using add_request_ok [OF assms(1,2) dup] by blast
  show ?thesis
    using t' ser by (intro exI [of _ t'] exI [of _ "dup_of p"])
      (simp add: get_requests_ok [OF t'(2)] get_requests_ok [OF assms(1)])
qed

text \<open>
  C31: after any history of additions and clearings on an empty request table, of whatever
  length, \<open>get_requests\<close> returns for every hash id exactly the requests added for it since
  its last clearing, oldest first. The only other outcome is the exit with -1 of
  \<open>HASH_EXPAND_BUCKETS\<close> when the allocator refuses the array of 2 to the 32 buckets, which
  takes more than 26 additions (smaller arrays are granted); there is no memory error.
\<close>

theorem requests_history:
  assumes "list_all rt_op_ok ops"
  shows "(\<exists>t. run_res rt_step ut_empty ops = Inr t \<and> rt_wf t \<and>
       (\<forall>h. get_requests t h = Inr (fold rt_spec ops (\<lambda>_. []) h))) \<or>
     run_res rt_step ut_empty ops = Inl (Exit (-1)) \<and> 26 < sum_list (map rt_cost ops)"
proof -
  have l: "ut_level (ut_empty :: rtable ut_hash) = 5" by (simp add: ut_level_def ut_empty_def)
  from rtq.history_total [OF rt_wf_empty(1) assms] show ?thesis
    using get_requests_ok by (auto simp: l)
qed

section \<open>Witnesses\<close>

lemma wf_packet_new [simp]: "wf_packet packet_new"
  by (simp add: wf_packet_def packet_new_def ptr_bytes_def)

theorem add_request_fifo_witness:
  "\<exists>t t' q q'. add_request ut_empty 513 4 packet_new = Inr t \<and> add_request t 513 5 packet_new = Inr t' \<and>
     get_requests t' 513 = Inr [\<lparr>r_packet = q, r_socket = 4\<rparr>, \<lparr>r_packet = q', r_socket = 5\<rparr>] \<and>
     get_requests t' 7 = Inr []"
proof -
  obtain t where t: "add_request ut_empty 513 4 packet_new = Inr t" "rt_wf t"
    "rt_queue t = (\<lambda>_. [])(513 := [\<lparr>r_packet = dup_of packet_new, r_socket = 4\<rparr>])"
    using add_request_ok [OF rt_wf_empty(1) _ packet_dup_of [OF wf_packet_new], of 513 4] by auto
  have "ut_level t < 31" using add_request_level [OF t(1)] by (simp add: ut_level_def ut_empty_def)
  from add_request_fifo [OF t(2) ut_level_room [OF this] wf_packet_new, of 513 5] t
  show ?thesis by (auto simp: get_requests_ok [OF t(2)])
qed

theorem requests_history_witness:
  "\<exists>t. run_res rt_step ut_empty
       [OpAdd 3 4 packet_new, OpAdd 9 5 packet_new, OpClear 9, OpAdd 3 6 packet_new] = Inr t \<and>
     get_requests t 3 = Inr [\<lparr>r_packet = dup_of packet_new, r_socket = 4\<rparr>,
        \<lparr>r_packet = dup_of packet_new, r_socket = 6\<rparr>] \<and> get_requests t 9 = Inr []"
  using requests_history [of "[OpAdd 3 4 packet_new, OpAdd 9 5 packet_new, OpClear 9, OpAdd 3 6 packet_new]"]
  by auto

end
