(* ===== verification/Net_IO.thy ===== *)
theory Net_IO
  imports Prelude
begin

unbundle bit_operations_syntax

text \<open>
  The sockets interface as the sources use it, and the transfer helpers of
  \<open>praxis2/src/util.c\<close>: \<open>sendall\<close>, \<open>recvall\<close> and \<open>pseudo_hash\<close>.

  The record \<open>net\<close> is what the kernel will answer: the return values of the coming
  \<open>socket\<close>, \<open>connect\<close> and \<open>send\<close> calls, the data waiting on each descriptor, and the
  resolver; \<open>trace\<close> records what the process did, newest event last. A call for which no
  answer is left does not return (\<^const>\<open>Blocked\<close>). The record is extensible: the state of
  the peer process is built on top of it.
\<close>

section \<open>The kernel's side\<close>

record sockaddr =
  sa_family :: u16
  sin_port :: u16
  s_addr :: u32

record addrinfo =
  ai_family :: int
  ai_socktype :: int
  ai_protocol :: int
  ai_addr :: sockaddr
  ai_addrlen :: nat

text \<open>\<open>RData []\<close> is the end of the stream, \<open>RErr\<close> a failing \<open>recv\<close> (return value -1).\<close>

datatype recv_res = RData "byte list" | RErr

datatype io_event =
  EvConnect int sockaddr
| EvSend int "byte list"
| EvClose int

record net =
  gai :: "string \<Rightarrow> string \<Rightarrow> addrinfo list option"
  socket_res :: "int list"
  connect_res :: "int list"
  send_res :: "int list"
  inq :: "int \<Rightarrow> recv_res list"
  trace :: "io_event list"

definition log_event :: "io_event \<Rightarrow> 'w net_scheme \<Rightarrow> 'w net_scheme" where
  "log_event e w = w\<lparr>trace := trace w @ [e]\<rparr>"

text \<open>\<open>send\<close>: a positive answer is the number of bytes taken, at most the length offered.\<close>

definition sys_send :: "int \<Rightarrow> byte list \<Rightarrow> 'w net_scheme \<Rightarrow> (int \<times> 'w net_scheme) res" where
  "sys_send s data w =
     (case send_res w of
        [] \<Rightarrow> Inl Blocked
      | r # rs \<Rightarrow>
          (let w = w\<lparr>send_res := rs\<rparr> in
           if r < 1 then Inr (r, w)
           else let n = min (nat r) (length data)
                in Inr (int n, log_event (EvSend s (take n data)) w)))"

text \<open>\<open>recv\<close> of at most \<open>len\<close> bytes: what does not fit stays for the next call.\<close>

fun recv_q :: "nat \<Rightarrow> recv_res list \<Rightarrow> (int \<times> byte list \<times> recv_res list) res" where
  "recv_q len [] = Inl Blocked"
| "recv_q len (RErr # q) = Inr (-1, [], q)"
| "recv_q len (RData bs # q) =
     (if length bs \<le> len then Inr (int (length bs), bs, q)
      else Inr (int len, take len bs, RData (drop len bs) # q))"

definition sys_recv ::
  "int \<Rightarrow> nat \<Rightarrow> 'w net_scheme \<Rightarrow> (int \<times> byte list \<times> 'w net_scheme) res" where
  "sys_recv s len w =
     bind_res (recv_q len (inq w s)) (\<lambda>(n, bs, q). Inr (n, bs, w\<lparr>inq := (inq w)(s := q)\<rparr>))"

definition sys_close :: "int \<Rightarrow> 'w net_scheme \<Rightarrow> 'w net_scheme" where
  "sys_close s w = log_event (EvClose s) w"

definition sys_socket :: "'w net_scheme \<Rightarrow> (int \<times> 'w net_scheme) res" where
  "sys_socket w = (case socket_res w of [] \<Rightarrow> Inl Blocked
     | r # rs \<Rightarrow> Inr (r, w\<lparr>socket_res := rs\<rparr>))"

definition sys_connect :: "int \<Rightarrow> sockaddr \<Rightarrow> 'w net_scheme \<Rightarrow> (int \<times> 'w net_scheme) res" where
  "sys_connect s a w = (case connect_res w of [] \<Rightarrow> Inl Blocked
     | r # rs \<Rightarrow> Inr (r, (if r < 0 then id else log_event (EvConnect s a)) (w\<lparr>connect_res := rs\<rparr>)))"

section \<open>Transfer helpers\<close>

definition pseudo_hash :: "ptr \<Rightarrow> nat \<Rightarrow> u16 res" where
  "pseudo_hash buffer buf_len =
     (if buf_len \<ge> 2 then
        bind_res (read_ptr buffer 2) (\<lambda>b.
        Inr (ucast (push_bit 8 (ucast (b ! 0)) OR push_bit 0 (ucast (b ! 1)) :: u32)))
      else if buf_len = 1 then
        bind_res (read_ptr buffer 1) (\<lambda>b. Inr (ucast (b ! 0)))
      else Inr 0)"

text \<open>The loop of \<open>sendall\<close>: \<open>sent\<close> bytes are already gone.\<close>

function sendall_loop ::
  "int \<Rightarrow> byte list \<Rightarrow> nat \<Rightarrow> nat \<Rightarrow> 'w net_scheme \<Rightarrow> (int \<times> 'w net_scheme) res" where
  "sendall_loop s buffer buf_size sent w =
     (if sent < buf_size then
        if length buffer < buf_size then Inl Out_Of_Bounds
        else case sys_send s (take (buf_size - sent) (drop sent buffer)) w of
          Inl e \<Rightarrow> Inl e
        | Inr (n, w) \<Rightarrow>
            if n < 1 then Inr (-1, w)
            else sendall_loop s buffer buf_size (sent + nat n) w
      else Inr (0, w))"
  by pat_completeness auto
termination
  by (relation "measure (\<lambda>(s, buffer, buf_size, sent, w). buf_size - sent)") auto

declare sendall_loop.simps [simp del]

definition sendall ::
  "int \<Rightarrow> byte list \<Rightarrow> nat \<Rightarrow> 'w net_scheme \<Rightarrow> (int \<times> 'w net_scheme) res" where
  "sendall s buffer buf_size w = sendall_loop s buffer buf_size 0 w"

text \<open>
  The loop of \<open>recvall\<close>: the block, the offset of \<open>write_ptr\<close> in it, the data waiting. The
  result of \<open>recv\<close> is stored in a \<open>size_t\<close>: -1 becomes 2^64 - 1, is not below 1, and
  moves \<open>write_ptr\<close> back by one byte.
\<close>

definition grow :: "(nat \<Rightarrow> byte) \<Rightarrow> byte list \<Rightarrow> byte list" where
  "grow junk buf = buf @ malloc junk (length buf)"

definition q_weight :: "recv_res list \<Rightarrow> nat" where
  "q_weight q = sum_list (map (\<lambda>r. case r of RErr \<Rightarrow> 1 | RData bs \<Rightarrow> Suc (length bs)) q)"

function recvall_loop ::
  "(nat \<Rightarrow> byte) \<Rightarrow> byte list \<Rightarrow> int \<Rightarrow> recv_res list \<Rightarrow> (byte list \<times> int \<times> recv_res list) res" where
  "recvall_loop junk buf pos q =
     (let buf = (if int (length buf) - pos < 1 then grow junk buf else buf) in
      case recv_q (nat (int (length buf) - pos)) q of
        Inl e \<Rightarrow> Inl e
      | Inr (n, bs, q') \<Rightarrow>
          if n < 0 then recvall_loop junk buf (pos - 1) q'
          else if n < 1 then Inr (buf, pos, q')
          else if pos < 0 then Inl Out_Of_Bounds
          else case store_at buf (nat pos) bs of
            Inl e \<Rightarrow> Inl e
          | Inr buf \<Rightarrow> recvall_loop junk buf (pos + n) q')"
  by pat_completeness auto
termination
proof -
  have w: "q_weight q' < q_weight q" if "recv_q len q = Inr (n, bs, q')" "n \<noteq> 0" for len q n bs q'
    using that by (induction len q rule: recv_q.induct) (auto simp: q_weight_def split: if_splits)
  show ?thesis
    by (relation "measure (\<lambda>(junk, buf, pos, q). q_weight q)") (auto intro: w)
qed

declare recvall_loop.simps [simp del]

definition recvall ::
  "(nat \<Rightarrow> byte) \<Rightarrow> int \<Rightarrow> 'w net_scheme \<Rightarrow> (byte list \<times> nat \<times> 'w net_scheme) res" where
  "recvall junk s w =
     bind_res (recvall_loop junk (malloc junk 1024) 0 (inq w s)) (\<lambda>(buf, pos, q).
     Inr (buf, nat (pos mod 2 ^ 64), sys_close s (w\<lparr>inq := (inq w)(s := q)\<rparr>)))"


section \<open>What was sent to a descriptor\<close>

fun event_bytes :: "int \<Rightarrow> io_event \<Rightarrow> byte list" where
  "event_bytes s (EvSend t b) = (if t = s then b else [])"
| "event_bytes s (EvConnect t a) = []"
| "event_bytes s (EvClose t) = []"

definition sent_to :: "int \<Rightarrow> io_event list \<Rightarrow> byte list" where
  "sent_to s tr = concat (map (event_bytes s) tr)"

lemma sent_to_simps [simp]:
  "sent_to s [] = []"
  "sent_to s (e # tr) = event_bytes s e @ sent_to s tr"
  "sent_to s (tr @ tr') = sent_to s tr @ sent_to s tr'"
  by (simp_all add: sent_to_def)

text \<open>One call of \<open>send\<close>: the answers shrink by one, the bytes taken are logged.\<close>

lemma sys_send_pos:
  assumes "sys_send s data w = Inr (n, w')" "1 \<le> n"
  shows "w' = w\<lparr>send_res := tl (send_res w), trace := trace w @ [EvSend s (take (nat n) data)]\<rparr>"
    "nat n \<le> length data"
  using assms by (auto simp: sys_send_def log_event_def Let_def split: list.splits if_splits)

lemma sys_send_neg:
  assumes "sys_send s data w = Inr (n, w')" "n < 1" "data \<noteq> []"
  shows "w' = w\<lparr>send_res := tl (send_res w)\<rparr>"
  using assms
  by (auto simp: sys_send_def log_event_def Let_def min_def split: list.splits if_splits)

lemma sendall_loop_sends:
  assumes "sendall_loop s buffer buf_size sent w = Inr (r, w')"
    "sent \<le> buf_size" "buf_size \<le> length buffer"
  shows "\<exists>k rs evs. sent \<le> k \<and> k \<le> buf_size \<and> (r = 0 \<and> k = buf_size \<or> r = -1 \<and> k < buf_size) \<and>
    w' = w\<lparr>send_res := rs, trace := trace w @ evs\<rparr> \<and> set evs \<subseteq> range (EvSend s) \<and>
    sent_to s evs = take (k - sent) (drop sent buffer)"
  using assms
proof (induction s buffer buf_size sent w rule: sendall_loop.induct)
  case (1 s buffer buf_size sent w)
  show ?case
  proof (cases "sent < buf_size")
    case False
    with "1.prems" show ?thesis
      by (intro exI [of _ sent] exI [of _ "send_res w"] exI [of _ "[]"])
         (simp add: sendall_loop.simps)
  next
    case True
    let ?data = "take (buf_size - sent) (drop sent buffer)"
    have ne: "?data \<noteq> []" using True "1.prems"(3) by simp
    from True "1.prems"(1,3) obtain n w1 where send: "sys_send s ?data w = Inr (n, w1)"
      by (subst (asm) sendall_loop.simps) (auto split: sum.splits)
    show ?thesis
    proof (cases "n < 1")
      case True
      have "r = -1 \<and> w' = w1"
        using "1.prems"(1,3) True \<open>sent < buf_size\<close> send by (subst (asm) sendall_loop.simps) simp
      then show ?thesis
        using sys_send_neg [OF send True ne] \<open>sent < buf_size\<close>
        by (intro exI [of _ sent] exI [of _ "tl (send_res w)"] exI [of _ "[]"]) simp
    next
      case False
      have rec: "sendall_loop s buffer buf_size (sent + nat n) w1 = Inr (r, w')"
        using "1.prems"(1,3) False True send by (subst (asm) sendall_loop.simps) simp
      have w1: "w1 = w\<lparr>send_res := tl (send_res w), trace := trace w @ [EvSend s (take (nat n) ?data)]\<rparr>"
        and n: "nat n \<le> buf_size - sent"
        using sys_send_pos [OF send] False "1.prems"(3) by auto
      have "sent + nat n \<le> buf_size" using n True by linarith
      with "1.IH" [OF True _ send refl False rec] "1.prems"(3)
      obtain k rs evs where IH: "sent + nat n \<le> k" "k \<le> buf_size"
        "r = 0 \<and> k = buf_size \<or> r = -1 \<and> k < buf_size"
        "w' = w1\<lparr>send_res := rs, trace := trace w1 @ evs\<rparr>" "set evs \<subseteq> range (EvSend s)"
        "sent_to s evs = take (k - (sent + nat n)) (drop (sent + nat n) buffer)"
        by auto
      have "sent_to s (EvSend s (take (nat n) ?data) # evs) = take (k - sent) (drop sent buffer)"
        using IH(1,2,6) n take_add [of "nat n" "k - (sent + nat n)" "drop sent buffer"]
        by (simp add: min_def add.commute)
      then show ?thesis
        using IH w1
        by (intro exI [of _ k] exI [of _ rs] exI [of _ "EvSend s (take (nat n) ?data) # evs"]) auto
    qed
  qed
qed

lemma sendall_loop_returns:
  assumes "\<forall>r \<in> set (send_res w). 1 \<le> r" "buf_size - sent \<le> length (send_res w)"
    "buf_size \<le> length buffer"
  shows "\<exists>w'. sendall_loop s buffer buf_size sent w = Inr (0, w')"
  using assms
proof (induction s buffer buf_size sent w rule: sendall_loop.induct)
  case (1 s buffer buf_size sent w)
  show ?case
  proof (cases "sent < buf_size")
    case True
    then obtain r rs where rs: "send_res w = r # rs" "1 \<le> r"
      using "1.prems"(1,2) by (cases "send_res w") auto
    let ?data = "take (buf_size - sent) (drop sent buffer)"
    let ?n = "min (nat r) (length ?data)"
    let ?w = "log_event (EvSend s (take ?n ?data)) (w\<lparr>send_res := rs\<rparr>)"
    have send: "sys_send s ?data w = Inr (int ?n, ?w)"
      using rs by (simp add: sys_send_def Let_def)
    have n: "1 \<le> ?n" using rs True "1.prems"(3) by (simp; linarith)
    have "\<exists>w'. sendall_loop s buffer buf_size (sent + nat (int ?n)) ?w = Inr (0, w')"
    proof (rule "1.IH" [OF True _ send refl])
      show "\<not> length buffer < buf_size" "\<not> int ?n < 1" "buf_size \<le> length buffer"
        using "1.prems"(3) n by auto
      show "\<forall>r \<in> set (send_res ?w). 1 \<le> r" using "1.prems"(1) rs by (simp add: log_event_def)
      show "buf_size - (sent + nat (int ?n)) \<le> length (send_res ?w)"
      proof -
        have "buf_size - sent \<le> Suc (length rs)" using "1.prems"(2) rs(1) by simp
        moreover have "length (send_res ?w) = length rs" by (simp add: log_event_def)
        ultimately show ?thesis using n unfolding nat_int by linarith
      qed
    qed
    then show ?thesis
      using True send n "1.prems"(3) by (subst sendall_loop.simps) auto
  qed (simp add: sendall_loop.simps)
qed

section \<open>What \<open>recvall\<close> collects\<close>

lemma recvall_loop_step:
  assumes "buf1 = (if length buf \<le> p then grow junk buf else buf)" "p \<le> length buf" "0 < length buf"
    "bs \<noteq> []" "m = min (length bs) (length buf1 - p)"
  shows "recvall_loop junk buf (int p) (RData bs # q) =
     recvall_loop junk (take p buf1 @ take m bs @ drop (p + m) buf1) (int (p + m))
       (if m < length bs then RData (drop m bs) # q else q)"
    and "0 < m" "p + m \<le> length buf1" "take p buf1 = take p buf" "0 < length buf1"
proof -
  have cond: "int (length buf) - int p < 1 \<longleftrightarrow> length buf \<le> p" by linarith
  show lt: "0 < m" "p + m \<le> length buf1" "take p buf1 = take p buf" "0 < length buf1"
    using assms by (auto simp: grow_def)
  have room: "nat (int (length buf1) - int p) = length buf1 - p" by simp
  have rq: "recv_q (length buf1 - p) (RData bs # q) =
      Inr (int m, take m bs, if m < length bs then RData (drop m bs) # q else q)"
    using assms(5) by (auto simp: min_def)
  have st: "store_at buf1 p (take m bs) = Inr (take p buf1 @ take m bs @ drop (p + m) buf1)"
    using lt(2) assms(5) by (simp add: store_at_def)
  show "recvall_loop junk buf (int p) (RData bs # q) =
     recvall_loop junk (take p buf1 @ take m bs @ drop (p + m) buf1) (int (p + m))
       (if m < length bs then RData (drop m bs) # q else q)"
    using lt(1) st
    by (subst recvall_loop.simps) (simp only: Let_def cond assms(1) [symmetric] room rq, simp)
qed

lemma recvall_loop_eof:
  assumes "p \<le> length buf"
  shows "recvall_loop junk buf (int p) (RData [] # q) =
     Inr (if length buf \<le> p then grow junk buf else buf, int p, q)"
  by (subst recvall_loop.simps) simp

lemma recvall_loop_consumes:
  assumes "\<forall>c \<in> set cs. c \<noteq> []" "p \<le> length buf" "0 < length buf"
  shows "\<exists>buf'. recvall_loop junk buf (int p) (map RData cs @ q) =
       recvall_loop junk buf' (int (p + length (concat cs))) q \<and>
     take (p + length (concat cs)) buf' = take p buf @ concat cs \<and>
     p + length (concat cs) \<le> length buf' \<and> 0 < length buf'"
  using assms
proof (induction "length (concat cs)" arbitrary: cs p buf rule: less_induct)
  case less
  show ?case
  proof (cases cs)
    case Nil
    then show ?thesis using less.prems by auto
  next
    case (Cons c cs')
    define buf1 where "buf1 = (if length buf \<le> p then grow junk buf else buf)"
    define m where "m = min (length c) (length buf1 - p)"
    have c: "c \<noteq> []" using Cons less.prems(1) by simp
    note step = recvall_loop_step(2-) [OF buf1_def less.prems(2,3) c m_def]
    note step1 = recvall_loop_step(1) [OF buf1_def less.prems(2,3) c m_def,
        of "map RData cs' @ q"]
    define buf2 where "buf2 = take p buf1 @ take m c @ drop (p + m) buf1"
    define cs2 where "cs2 = (if m < length c then drop m c # cs' else cs')"
    have m: "m \<le> length c" by (simp add: m_def)
    have cat: "concat cs = take m c @ concat cs2" using Cons m by (auto simp: cs2_def)
    have eq: "recvall_loop junk buf (int p) (map RData cs @ q) =
        recvall_loop junk buf2 (int (p + m)) (map RData cs2 @ q)"
      using step1 Cons by (simp add: buf2_def cs2_def split: if_splits)
    have tk: "take (p + m) buf2 = take p buf @ take m c"
      using step(2,3) m less.prems(2) by (simp add: buf2_def)
    have len: "p + length (concat cs) = (p + m) + length (concat cs2)"
      using cat m by simp
    have "\<exists>buf'. recvall_loop junk buf2 (int (p + m)) (map RData cs2 @ q) =
         recvall_loop junk buf' (int ((p + m) + length (concat cs2))) q \<and>
       take ((p + m) + length (concat cs2)) buf' = take (p + m) buf2 @ concat cs2 \<and>
       (p + m) + length (concat cs2) \<le> length buf' \<and> 0 < length buf'"
    proof (rule less.hyps)
      show "length (concat cs2) < length (concat cs)" using cat step(1) m by simp
      show "\<forall>c \<in> set cs2. c \<noteq> []" using less.prems(1) Cons by (auto simp: cs2_def)
      show "p + m \<le> length buf2" "0 < length buf2" using step(1,2) m by (auto simp: buf2_def)
    qed
    then show ?thesis unfolding eq len tk by (simp only: cat append_assoc)
  qed
qed

lemma recvall_loop_error:
  assumes "0 < length buf" "pos \<le> int (length buf)"
  shows "recvall_loop junk buf pos (RErr # q)
    = recvall_loop junk (if pos = int (length buf) then grow junk buf else buf) (pos - 1) q"
  using assms by (subst recvall_loop.simps) (auto simp: Let_def)

lemma recvall_loop_all_errors:
  "0 < length buf \<Longrightarrow> pos \<le> int (length buf) \<Longrightarrow>
   recvall_loop junk buf pos (replicate k RErr) = Inl Blocked"
proof (induction k arbitrary: buf pos)
  case 0
  then show ?case by (subst recvall_loop.simps) (simp add: Let_def)
next
  case (Suc k)
  then show ?case by (simp add: recvall_loop_error grow_def)
qed

lemma nat_mod_small: "n < 2 ^ 64 \<Longrightarrow> nat (int n mod 2 ^ 64) = n"
  by (simp add: nat_mod_as_int)

lemma recvall_chunks:
  assumes "\<forall>c \<in> set cs. c \<noteq> []" "inq w s = map RData cs @ RData [] # q"
    and "length (concat cs) < 2 ^ 64"
  shows "\<exists>buf. recvall junk s w = Inr (buf, length (concat cs),
      sys_close s (w\<lparr>inq := (inq w)(s := q)\<rparr>)) \<and> take (length (concat cs)) buf = concat cs \<and> length (concat cs) \<le> length buf"
proof -
  have "0 \<le> length (malloc junk 1024)" "0 < length (malloc junk 1024)" by simp_all
  from recvall_loop_consumes [OF assms(1) this, of junk "RData [] # q"] obtain buf where buf:
    "recvall_loop junk (malloc junk 1024) 0 (inq w s)
       = recvall_loop junk buf (int (length (concat cs))) (RData [] # q)"
    "take (length (concat cs)) buf = concat cs" "length (concat cs) \<le> length buf"
    by (auto simp: assms(2))
  moreover have "take (length (concat cs)) (grow junk buf) = concat cs" "length (concat cs) \<le> length (grow junk buf)"
    using buf(2,3) by (simp_all add: grow_def)
  moreover have "nat (int (length (concat cs)) mod 2 ^ 64) = length (concat cs)"
    using assms(3) by (rule nat_mod_small)
  ultimately show ?thesis
    by (simp add: recvall_def recvall_loop_eof del: length_concat)
qed

text \<open>A kernel that takes at least one byte per call, for the coming \<open>n\<close> calls.\<close>

definition send_ready :: "nat \<Rightarrow> 'w net_scheme \<Rightarrow> bool" where
  "send_ready n w \<longleftrightarrow> (\<forall>r \<in> set (send_res w). 1 \<le> r) \<and> n \<le> length (send_res w)"

lemma sendall_loop_ready:
  assumes "sendall_loop s buffer n i w = Inr (0, w')" "\<forall>r \<in> set (send_res w). 1 \<le> r" "n \<le> length buffer"
  shows "\<exists>j \<le> n - i. send_res w' = drop j (send_res w)"
  using assms
proof (induction s buffer n i w rule: sendall_loop.induct)
  case (1 s buffer n i w)
  show ?case
  proof (cases "i < n")
    case False
    then show ?thesis using "1.prems"(1) by (subst (asm) sendall_loop.simps) (auto intro!: exI [of _ 0])
  next
    case True
    let ?d = "take (n - i) (drop i buffer)"
    from True "1.prems"(1,3) obtain m w1 where send: "sys_send s ?d w = Inr (m, w1)"
      by (subst (asm) sendall_loop.simps) (auto split: sum.splits)
    have m: "\<not> m < 1" and rec: "sendall_loop s buffer n (i + nat m) w1 = Inr (0, w')"
      using "1.prems"(1,3) True send by (subst (asm) sendall_loop.simps, simp split: if_splits)+
    have w1: "send_res w1 = drop 1 (send_res w)"
      using sys_send_pos(1) [OF send] m by (simp add: drop_Suc)
    then have "\<forall>r \<in> set (send_res w1). 1 \<le> r" using "1.prems"(2) by (auto dest: in_set_dropD)
    with "1.IH" [OF True _ send refl m rec] "1.prems"(3) obtain j where
      "j \<le> n - (i + nat m)" "send_res w' = drop j (send_res w1)" by auto
    then show ?thesis using w1 m True by (intro exI [of _ "Suc j"]) auto
  qed
qed

lemma sendall_ready:
  assumes "send_ready (n + m) w" "n \<le> length buffer"
  shows "\<exists>rs evs. sendall s buffer n w = Inr (0, w\<lparr>send_res := rs, trace := trace w @ evs\<rparr>) \<and>
     set evs \<subseteq> range (EvSend s) \<and> sent_to s evs = take n buffer \<and>
     send_ready m (w\<lparr>send_res := rs, trace := trace w @ evs\<rparr>)"
proof -
  have r: "\<forall>r \<in> set (send_res w). 1 \<le> r" "n + m \<le> length (send_res w)" using assms(1) by (simp_all add: send_ready_def)
  obtain w' where w': "sendall s buffer n w = Inr (0, w')"
    using sendall_loop_returns [OF r(1), of n 0 buffer s] r(2) assms(2) by (auto simp: sendall_def)
  obtain rs evs where e: "w' = w\<lparr>send_res := rs, trace := trace w @ evs\<rparr>" "set evs \<subseteq> range (EvSend s)"
    "sent_to s evs = take n buffer"
    using sendall_loop_sends [of s buffer n 0 w 0 w'] w' assms(2) by (auto simp: sendall_def)
  obtain j where "j \<le> n" "rs = drop j (send_res w)"
    using sendall_loop_ready [of s buffer n 0 w w'] w' r(1) assms(2) e(1) by (auto simp: sendall_def)
  then have "send_ready m w'" using r e(1) by (auto simp: send_ready_def dest: in_set_dropD)
  then show ?thesis using w' e by blast
qed

section \<open>Properties of the helpers\<close>

text \<open>C35: Whatever the kernel answers, \<open>sendall\<close> hands over a prefix of the buffer, in order,
  to that descriptor only, and touches nothing else; it returns 0 exactly when the prefix is
  the whole buffer, and -1 otherwise.\<close>

theorem sendall_sends_prefix:
  assumes "sendall s buffer (length buffer) w = Inr (r, w')"
  shows "\<exists>k rs evs. k \<le> length buffer \<and> (r = 0 \<and> k = length buffer \<or> r = -1 \<and> k < length buffer) \<and>
    w' = w\<lparr>send_res := rs, trace := trace w @ evs\<rparr> \<and> set evs \<subseteq> range (EvSend s) \<and>
    sent_to s evs = take k buffer"
  using sendall_loop_sends [of s buffer "length buffer" 0 w r w'] assms
  by (auto simp: sendall_def)

definition quiet_net :: net where
  "quiet_net = \<lparr>gai = (\<lambda>_ _. None), socket_res = [], connect_res = [], send_res = [],
     inq = (\<lambda>_. []), trace = []\<rparr>"

text \<open>The kernel takes two of three bytes, then fails.\<close>

theorem sendall_sends_prefix_witness:
  "\<exists>r w' k. sendall 4 [1, 2, 3] (length [1, 2, 3 :: byte]) (quiet_net\<lparr>send_res := [2, -1]\<rparr>) = Inr (r, w') \<and>
     r = -1 \<and> k < 3 \<and> sent_to 4 (trace w') = take k [1, 2, 3] \<and> trace w' = [EvSend 4 [1, 2]]"
proof -
  let ?w = "quiet_net\<lparr>send_res := [2, -1]\<rparr>" and ?w' = "quiet_net\<lparr>send_res := [], trace := [EvSend 4 [1, 2]]\<rparr>"
  have run: "sendall 4 [1, 2, 3] (length [1, 2, 3 :: byte]) ?w = Inr (-1, ?w')"
    by (simp add: sendall_def sendall_loop.simps sys_send_def quiet_net_def log_event_def)
  have "\<exists>k rs evs. k < length [1, 2, 3 :: byte] \<and> ?w' = ?w\<lparr>send_res := rs, trace := trace ?w @ evs\<rparr> \<and>
      sent_to 4 evs = take k [1, 2, 3]"
    using sendall_sends_prefix [OF run] by fastforce
  then obtain k rs evs where k: "k < length [1, 2, 3 :: byte]" "sent_to 4 evs = take k [1, 2, 3]"
    and e: "?w' = ?w\<lparr>send_res := rs, trace := trace ?w @ evs\<rparr>" by (elim exE conjE)
  have "trace ?w' = evs" using arg_cong [OF e, of trace] by (simp add: quiet_net_def)
  with k run show ?thesis
    by (intro exI [of _ "-1"] exI [of _ ?w'] exI [of _ k]) simp
qed

text \<open>If every \<open>send\<close> takes at least one byte, \<open>sendall\<close> returns 0 after at most one call per
  byte, with the whole buffer sent.\<close>

theorem sendall_completes:
  assumes "\<forall>r \<in> set (send_res w). 1 \<le> r" "length buffer \<le> length (send_res w)"
  shows "\<exists>w'. sendall s buffer (length buffer) w = Inr (0, w') \<and>
    sent_to s (trace w') = sent_to s (trace w) @ buffer"
proof -
  obtain w' where w': "sendall s buffer (length buffer) w = Inr (0, w')"
    using sendall_loop_returns [OF assms(1), of "length buffer" 0 buffer s] assms(2)
    by (auto simp: sendall_def)
  then show ?thesis
    using sendall_loop_sends [of s buffer "length buffer" 0 w 0 w'] by (auto simp: sendall_def)
qed

theorem sendall_completes_witness:
  "\<exists>w'. sendall 4 [7, 8] 2 (quiet_net\<lparr>send_res := [1, 5]\<rparr>) = Inr (0, w') \<and> sent_to 4 (trace w') = [7, 8]"
  using sendall_completes [of "quiet_net\<lparr>send_res := [1, 5]\<rparr>" "[7, 8]" 4]
  by (simp add: quiet_net_def numeral_2_eq_2)

text \<open>\<open>recvall\<close> returns the whole stream up to its end, in order, however the kernel divides
  it into chunks and however long it is (the buffer grows as needed), and closes the socket.\<close>

theorem recvall_collects:
  assumes "\<forall>c \<in> set cs. c \<noteq> []" "inq w s = map RData cs @ RData [] # q"
    and "length (concat cs) < 2 ^ 64"
  shows "\<exists>buf. recvall junk s w = Inr (buf, length (concat cs),
      sys_close s (w\<lparr>inq := (inq w)(s := q)\<rparr>)) \<and> take (length (concat cs)) buf = concat cs"
  using recvall_chunks [OF assms, of junk] by blast

theorem recvall_collects_witness:
  "\<exists>buf w. recvall (\<lambda>_. 0) 5 (quiet_net\<lparr>inq := (\<lambda>_. [RData [1], RData [2, 3], RData []])\<rparr>)
     = Inr (buf, 3, w) \<and> take 3 buf = [1, 2, 3]"
proof -
  let ?w = "quiet_net\<lparr>inq := (\<lambda>_. [RData [1], RData [2, 3], RData []])\<rparr>"
  have "inq ?w 5 = map RData [[1], [2, 3]] @ RData [] # []" by simp
  from recvall_collects [OF _ this, of "\<lambda>_. 0"] show ?thesis
    by (simp add: numeral_3_eq_3) blast
qed

text \<open>A failing \<open>recv\<close> is not noticed: its -1, read as a \<open>size_t\<close>, moves the write position
  back. One failure before the end of the stream silently drops the last byte received, and a
  socket whose \<open>recv\<close> keeps failing is never given up: after any number of failures the loop
  is still waiting for an answer.\<close>

theorem recvall_ignores_errors:
  assumes "\<forall>c \<in> set cs. c \<noteq> []" "cs \<noteq> []" "inq w s = map RData cs @ RErr # RData [] # q"
    and "length (concat cs) < 2 ^ 64" "inq w t = replicate k RErr"
  shows "(\<exists>buf w'. recvall junk s w = Inr (buf, length (concat cs) - 1, w') \<and>
      take (length (concat cs) - 1) buf = butlast (concat cs)) \<and> recvall junk t w = Inl Blocked"
proof -
  let ?n = "length (concat cs)"
  have n: "0 < ?n" using assms(1,2) by (cases cs) auto
  have "0 \<le> length (malloc junk 1024)" "0 < length (malloc junk 1024)" by simp_all
  from recvall_loop_consumes [OF assms(1) this, of junk "RErr # RData [] # q"] obtain buf where buf:
    "recvall_loop junk (malloc junk 1024) 0 (inq w s)
       = recvall_loop junk buf (int ?n) (RErr # RData [] # q)"
    "take ?n buf = concat cs" "?n \<le> length buf" "0 < length buf"
    by (auto simp: assms(3))
  define buf1 where "buf1 = (if int ?n = int (length buf) then grow junk buf else buf)"
  have len: "?n - 1 < length buf1" using n buf(3) by (simp add: buf1_def grow_def; linarith)
  have "recvall_loop junk (malloc junk 1024) 0 (inq w s)
      = recvall_loop junk buf1 (int (?n - 1)) (RData [] # q)"
  proof -
    have e: "int (?n - 1) = int ?n - 1" using n by linarith
    show ?thesis
      unfolding buf(1) buf1_def e by (rule recvall_loop_error [OF buf(4)]) (use buf(3) in linarith)
  qed
  also have "\<dots> = Inr (buf1, int (?n - 1), q)"
    using len by (simp add: recvall_loop_eof)
  finally have "recvall junk s w = Inr (buf1, ?n - 1, sys_close s (w\<lparr>inq := (inq w)(s := q)\<rparr>))"
    using assms(4) nat_mod_small [of "?n - 1"]
    by (simp only: recvall_def bind_res_simps prod.case)
  moreover have "take (?n - 1) buf1 = butlast (concat cs)"
  proof -
    have "take (?n - 1) buf1 = take (?n - 1) (take ?n buf)"
      using buf(3) by (simp add: buf1_def grow_def)
    then show ?thesis unfolding buf(2) butlast_conv_take by simp
  qed
  moreover have "recvall junk t w = Inl Blocked"
    by (simp add: recvall_def assms(5) recvall_loop_all_errors)
  ultimately show ?thesis by blast
qed

theorem recvall_ignores_errors_witness:
  "\<exists>w :: net. (\<exists>buf w'. recvall (\<lambda>_. 0) 5 w = Inr (buf, 1, w') \<and> take 1 buf = [1]) \<and>
     recvall (\<lambda>_. 0) 6 w = Inl Blocked"
proof -
  let ?w = "quiet_net\<lparr>inq := (\<lambda>s. if s = 5 then [RData [1, 2], RErr, RData []] else [RErr, RErr])\<rparr>"
  have "inq ?w 5 = map RData [[1, 2]] @ RErr # RData [] # []" "inq ?w 6 = replicate 2 RErr"
    by (simp_all add: numeral_2_eq_2)
  from recvall_ignores_errors [OF _ _ this(1) _ this(2), of "\<lambda>_. 0"]
  have "(\<exists>buf w'. recvall (\<lambda>_. 0) 5 ?w = Inr (buf, 1, w') \<and> take 1 buf = [1]) \<and>
     recvall (\<lambda>_. 0) 6 ?w = Inl Blocked" by simp
  then show ?thesis by blast
qed

text \<open>The ring position of a key: the first two bytes, big-endian, for keys of two bytes or
  more; the single byte itself for one-byte keys; 0 for the empty key.\<close>

theorem pseudo_hash_value:
  "\<exists>h. pseudo_hash (Some b) (length b) = Inr h \<and>
     unat h = (case b of [] \<Rightarrow> 0 | [x] \<Rightarrow> unat x | x # y # _ \<Rightarrow> 256 * unat x + unat y)"
proof (cases b rule: list.exhaust [case_names Nil Cons])
  case (Cons x ys)
  show ?thesis
  proof (cases ys)
    case Nil
    then show ?thesis using Cons by (simp add: pseudo_hash_def)
  next
    case (Cons y zs)
    then show ?thesis
      using \<open>b = x # ys\<close> unat_join_u16 [of x y]
      by (simp add: pseudo_hash_def numeral_2_eq_2)
  qed
qed (simp add: pseudo_hash_def)

end
