(* ===== verification/Neighbour.thy ===== *)
theory Neighbour
  imports Packet Net_IO
begin

unbundle bit_operations_syntax

text \<open>
  The neighbours of a peer in the ring, \<open>praxis2/src/neighbour.c\<close>, with the unit tests of
  \<open>peer_is_responsible\<close> in \<open>praxis2/include/scratch1.c\<close>: construction of \<open>peer\<close> structures
  from the command line and from packets, address lookup, connection set-up, and the test
  whether a peer is responsible for a hash. The theory also holds the parts of the C library
  these functions call: \<open>strtol\<close>, \<open>strtoul\<close>, \<open>htonl\<close>, \<open>inet_ntop\<close> and decimal printing.
\<close>

section \<open>Numbers and strings\<close>

text \<open>\<open>%d\<close> of a number that is not negative.\<close>

definition digit_char :: "nat \<Rightarrow> char" where
  "digit_char d = char_of (48 + d)"

function dec :: "nat \<Rightarrow> string" where
  "dec n = (if n < 10 then [digit_char n] else dec (n div 10) @ [digit_char (n mod 10)])"
  by pat_completeness auto
termination by (relation "measure id") auto

declare dec.simps [simp del]

definition isspace :: "char \<Rightarrow> bool" where
  "isspace c \<longleftrightarrow> (of_char c :: nat) = 32 \<or> 9 \<le> (of_char c :: nat) \<and> (of_char c :: nat) \<le> 13"

definition isdigit :: "char \<Rightarrow> bool" where
  "isdigit c \<longleftrightarrow> 48 \<le> (of_char c :: nat) \<and> (of_char c :: nat) \<le> 57"

fun digits_value :: "nat \<Rightarrow> string \<Rightarrow> nat" where
  "digits_value acc [] = acc"
| "digits_value acc (c # cs) =
     (if isdigit c then digits_value (10 * acc + (of_char c - 48)) cs else acc)"

text \<open>Sign and digits after white space; the text after the digits is ignored.\<close>

definition parse_sign :: "string \<Rightarrow> bool \<times> string" where
  "parse_sign s = (case s of
     c # cs \<Rightarrow> if c = CHR ''-'' then (True, cs) else if c = CHR ''+'' then (False, cs) else (False, s)
   | [] \<Rightarrow> (False, []))"

definition parse_int :: "string \<Rightarrow> int" where
  "parse_int s = (case parse_sign (dropWhile isspace s) of
     (neg, ds) \<Rightarrow> if neg then - int (digits_value 0 ds) else int (digits_value 0 ds))"

definition ERANGE :: int where "ERANGE = 34"

text \<open>\<open>strtol(s, NULL, 10)\<close> with the value of \<open>errno\<close> before and after: on a 64-bit \<open>long\<close> it
  clamps and sets \<open>ERANGE\<close>, otherwise it leaves \<open>errno\<close> alone.\<close>

definition strtol :: "int \<Rightarrow> string \<Rightarrow> int \<times> int" where
  "strtol errno s =
     (let n = parse_int s in
      if n > 2 ^ 63 - 1 then (2 ^ 63 - 1, ERANGE)
      else if n < - (2 ^ 63) then (- (2 ^ 63), ERANGE)
      else (n, errno))"

text \<open>\<open>strtoul(s, NULL, 10)\<close> with \<open>errno\<close>: a minus sign negates the unsigned value; a value that
  does not fit becomes \<open>ULONG_MAX\<close> and sets \<open>ERANGE\<close>.\<close>

definition strtoul :: "int \<Rightarrow> string \<Rightarrow> u64 \<times> int" where
  "strtoul errno s =
     (let n = parse_int s in if \<bar>n\<bar> \<ge> 2 ^ 64 then (- 1, ERANGE) else (of_int n, errno))"

text \<open>Byte order: the bytes of a word in (little-endian) memory, and the swap to network order.\<close>

definition mem_bytes32 :: "u32 \<Rightarrow> byte list" where
  "mem_bytes32 w = [ucast w, ucast (drop_bit 8 w), ucast (drop_bit 16 w), ucast (drop_bit 24 w)]"

definition htonl :: "u32 \<Rightarrow> u32" where
  "htonl w = push_bit 24 (ucast (ucast w :: byte)) OR push_bit 16 (ucast (ucast (drop_bit 8 w) :: byte))
     OR push_bit 8 (ucast (ucast (drop_bit 16 w) :: byte)) OR ucast (ucast (drop_bit 24 w) :: byte)"

definition ntohl :: "u32 \<Rightarrow> u32" where
  "ntohl w = htonl w"

text \<open>\<open>inet_ntop(AF_INET, ...)\<close>: the four bytes in memory order, in decimal, with dots.\<close>

fun dotted :: "byte list \<Rightarrow> string" where
  "dotted [] = []"
| "dotted [b] = dec (unat b)"
| "dotted (b # c # bs) = dec (unat b) @ ''.'' @ dotted (c # bs)"

definition inet_ntop :: "u32 \<Rightarrow> string" where
  "inet_ntop addr = dotted (mem_bytes32 addr)"

section \<open>Peers\<close>

record peer =
  p_node_id :: u16
  hostname :: string
  port :: u16
  p_socket :: int
  p_addr :: sockaddr
  p_addr_len :: nat

definition zero_addr :: sockaddr where
  "zero_addr = \<lparr>sa_family = 0, sin_port = 0, s_addr = 0\<rparr>"

text \<open>\<open>memset(p, 0, sizeof(peer))\<close>; the null host name is overwritten before it is read.\<close>

definition zero_peer :: peer where
  "zero_peer = \<lparr>p_node_id = 0, hostname = [], port = 0, p_socket = 0, p_addr = zero_addr, p_addr_len = 0\<rparr>"

definition peer_init :: "int \<Rightarrow> u16 \<Rightarrow> string \<Rightarrow> string \<Rightarrow> peer option \<times> int" where
  "peer_init errno ident host portstr =
     (let p = zero_peer\<lparr>p_node_id := ident, hostname := host\<rparr>
      in case strtol errno portstr of (tmp, errno) \<Rightarrow>
        if errno \<noteq> 0 \<or> tmp > 65535 then (None, errno)
        else (Some (p\<lparr>port := of_int tmp, p_socket := -1\<rparr>), errno))"

definition peer_from_packet :: "packet \<Rightarrow> peer" where
  "peer_from_packet pack =
     (let pack_addr = htonl (node_ip pack)
      in zero_peer\<lparr>hostname := inet_ntop pack_addr, port := node_port pack\<rparr>)"

text \<open>\<open>NULL\<close> is the empty list of results.\<close>

definition peer_lookup :: "peer \<Rightarrow> 'w net_scheme \<Rightarrow> addrinfo list" where
  "peer_lookup p w = (case gai w (hostname p) (dec (unat (port p))) of None \<Rightarrow> [] | Some res \<Rightarrow> res)"

text \<open>
  The loop of \<open>peer_connect\<close>: it runs once per result but uses the first result throughout;
  the \<open>memcpy\<close> copies \<open>p->addr\<close> over the address of the first result.
\<close>

fun connect_loop ::
  "addrinfo \<Rightarrow> addrinfo list \<Rightarrow> peer \<Rightarrow> bool \<Rightarrow> 'w net_scheme \<Rightarrow> (bool \<times> peer \<times> 'w net_scheme) res" where
  "connect_loop res [] p connected w = Inr (connected, p, w)"
| "connect_loop res (pa # pas) p connected w =
     bind_res (sys_socket w) (\<lambda>(s, w).
     let p = p\<lparr>p_socket := s\<rparr> in
     if s < 0 then connect_loop res pas p connected w
     else bind_res (sys_connect s (ai_addr res) w) (\<lambda>(status, w).
       if status < 0 then connect_loop res pas p connected w
       else connect_loop (res\<lparr>ai_addr := p_addr p\<rparr>) pas (p\<lparr>p_addr_len := ai_addrlen res\<rparr>) True w))"

definition peer_connect :: "peer \<Rightarrow> 'w net_scheme \<Rightarrow> (int \<times> peer \<times> 'w net_scheme) res" where
  "peer_connect p w = (case peer_lookup p w of
     [] \<Rightarrow> Inr (-1, p, w)
   | res # rest \<Rightarrow>
       bind_res (connect_loop res (res # rest) p False w) (\<lambda>(connected, p, w).
       Inr (if \<not> connected then -1 else 0, p, w)))"

definition peer_get_ip :: "peer \<Rightarrow> 'w net_scheme \<Rightarrow> u32" where
  "peer_get_ip p w = (case peer_lookup p w of
     [] \<Rightarrow> 0 | res # _ \<Rightarrow> ntohl (s_addr (ai_addr res)))"

definition peer_is_responsible :: "u16 \<Rightarrow> u16 \<Rightarrow> u16 \<Rightarrow> int" where
  "peer_is_responsible pred_id peer_id h_id =
     (if pred_id > peer_id \<and> h_id > pred_id then 1
      else if h_id \<le> peer_id \<and> h_id > pred_id then 1
      else 0)"

definition peer_disconnect :: "peer \<Rightarrow> 'w net_scheme \<Rightarrow> peer \<times> 'w net_scheme" where
  "peer_disconnect p w =
     (p\<lparr>p_socket := -1, p_addr := (if p_addr_len p = 0 then p_addr p else zero_addr), p_addr_len := 0\<rparr>,
      sys_close (p_socket p) w)"

section \<open>The unit tests\<close>

definition test_peer_is_responsible :: "u16 \<Rightarrow> u16 \<Rightarrow> u16 \<Rightarrow> int \<Rightarrow> int" where
  "test_peer_is_responsible pred_id peer_id h_id desired_output =
     (if peer_is_responsible pred_id peer_id h_id = desired_output then 1 else 0)"

definition all_tests_peer_is_responsible :: int where
  "all_tests_peer_is_responsible =
     (let all_ok = 1;
          all_ok = (if test_peer_is_responsible 138 202 111 0 = 0 then 0 else all_ok);
          all_ok = (if test_peer_is_responsible 202 10 111 0 = 0 then 0 else all_ok);
          all_ok = (if test_peer_is_responsible 10 74 111 0 = 0 then 0 else all_ok);
          all_ok = (if test_peer_is_responsible 74 138 111 1 = 0 then 0 else all_ok)
      in all_ok)"

section \<open>Decimal strings\<close>

lemma of_char_digit [simp]: "d < 10 \<Longrightarrow> of_char (digit_char d) = (48 + d :: nat)"
  by (simp add: digit_char_def)

lemma isdigit_digit_char [simp]: "d < 10 \<Longrightarrow> isdigit (digit_char d)"
  by (simp add: isdigit_def)

lemma dec_digits: "list_all isdigit (dec n)"
proof (induction n rule: dec.induct)
  case (1 n)
  then show ?case by (subst dec.simps) simp
qed

lemma dec_not_Nil [simp]: "dec n \<noteq> []"
  by (subst dec.simps) simp

lemma digits_value_snoc:
  "list_all isdigit ds \<Longrightarrow> isdigit c \<Longrightarrow> digits_value acc (ds @ [c]) = 10 * digits_value acc ds + (of_char c - 48)"
  by (induction acc ds rule: digits_value.induct) auto

lemma digits_value_dec: "digits_value 0 (dec n) = n"
proof (induction n rule: dec.induct)
  case (1 n)
  show ?case
  proof (cases "n < 10")
    case True
    then show ?thesis by (subst dec.simps) simp
  next
    case False
    then have "digits_value 0 (dec n) = 10 * digits_value 0 (dec (n div 10)) + n mod 10"
      using digits_value_snoc [OF dec_digits, of "digit_char (n mod 10)" 0 "n div 10"]
      by (subst dec.simps) simp
    also have "\<dots> = n" using "1.IH" [OF False] by presburger
    finally show ?thesis .
  qed
qed

lemma dec_inj [simp]: "dec m = dec n \<longleftrightarrow> m = n"
  by (metis digits_value_dec)

lemma isdigit_not_special: "isdigit c \<Longrightarrow> \<not> isspace c \<and> c \<noteq> CHR ''-'' \<and> c \<noteq> CHR ''+'' \<and> c \<noteq> CHR ''.''"
  by (auto simp: isdigit_def isspace_def)

lemma parse_int_dec: "parse_int (dec n) = int n"
proof (cases "dec n")
  case (Cons c cs)
  then have c: "\<not> isspace c" "c \<noteq> CHR ''-''" "c \<noteq> CHR ''+''"
    using dec_digits [of n] isdigit_not_special [of c] by simp_all
  have "parse_int (dec n) = int (digits_value 0 (dec n))"
    unfolding parse_int_def Cons using c by (simp add: parse_sign_def)
  then show ?thesis by (simp add: digits_value_dec)
qed simp

lemma dot_not_in_dec: "CHR ''.'' \<notin> set (dec n)"
  using dec_digits [of n] isdigit_not_special by (auto simp: list_all_iff)

lemma append_sep_inj:
  "c \<notin> set xs \<Longrightarrow> c \<notin> set xs' \<Longrightarrow> xs @ c # ys = xs' @ c # ys' \<longleftrightarrow> xs = xs' \<and> ys = ys'"
proof (induction xs arbitrary: xs')
  case Nil
  then show ?case by (cases xs') auto
next
  case (Cons x xs)
  then show ?case by (cases xs') auto
qed

lemma unat_eq_iff: "unat b = unat c \<longleftrightarrow> b = c"
  by (auto intro: unsigned_word_eqI)

lemma dotted_inj: "length bs = length cs \<Longrightarrow> dotted bs = dotted cs \<longleftrightarrow> bs = cs"
proof (induction bs arbitrary: cs rule: dotted.induct)
  case (2 b)
  then show ?case by (cases cs) (auto simp: unat_eq_iff)
next
  case (3 b c bs)
  then obtain b' c' cs' where "cs = b' # c' # cs'" "length bs = length cs'"
    by (cases cs; cases "tl cs") auto
  then show ?case
    using append_sep_inj [OF dot_not_in_dec dot_not_in_dec] "3.IH" [of "c' # cs'"] by (simp add: unat_eq_iff)
qed simp

lemma length_dec_byte: "n < 1000 \<Longrightarrow> length (dec n) \<le> 3"
  by (subst dec.simps, subst dec.simps, subst dec.simps) simp

section \<open>Byte order\<close>

lemma mem_bytes_htonl:
  "mem_bytes32 (htonl w) = [ucast (drop_bit 24 w), ucast (drop_bit 16 w), ucast (drop_bit 8 w), ucast w]"
proof -
  have "ucast (htonl w) = (ucast (drop_bit 24 w) :: byte)"
    "ucast (drop_bit 8 (htonl w)) = (ucast (drop_bit 16 w) :: byte)"
    "ucast (drop_bit 16 (htonl w)) = (ucast (drop_bit 8 w) :: byte)"
    "ucast (drop_bit 24 (htonl w)) = (ucast w :: byte)"
    by (rule bit_word_eqI, auto simp: htonl_def bit_simps)+
  then show ?thesis by (simp add: mem_bytes32_def)
qed

lemma mem_bytes32_inj: "mem_bytes32 v = mem_bytes32 w \<longleftrightarrow> v = w"
  by (simp add: mem_bytes32_def) (metis join_u32)

lemma htonl_htonl [simp]: "htonl (htonl w) = w"
proof -
  have "mem_bytes32 (htonl (htonl w)) = mem_bytes32 w"
    unfolding mem_bytes_htonl [of "htonl w"] using mem_bytes_htonl [of w] by (simp add: mem_bytes32_def)
  then show ?thesis by (simp add: mem_bytes32_inj)
qed

lemma ntohl_htonl [simp]: "ntohl (htonl w) = w"
  by (simp add: ntohl_def)

lemma inet_ntop_inj: "inet_ntop v = inet_ntop w \<longleftrightarrow> v = w"
proof -
  have "length (mem_bytes32 v) = length (mem_bytes32 w)" by (simp add: mem_bytes32_def)
  then show ?thesis by (simp add: inet_ntop_def dotted_inj mem_bytes32_inj)
qed

section \<open>Responsibility on the identifier circle\<close>

text \<open>
  The specification of Chord: identifiers form a circle of 2^16 points, and a peer owns the
  identifiers after its predecessor up to and including its own; a peer that is its own
  predecessor owns them all. Word subtraction is the clockwise distance.
\<close>

definition ring_owns :: "u16 \<Rightarrow> u16 \<Rightarrow> u16 \<Rightarrow> bool" where
  "ring_owns pred_id peer_id x \<longleftrightarrow>
     pred_id = peer_id \<or> x \<noteq> pred_id \<and> x - pred_id \<le> peer_id - pred_id"

lemma ring_owns_cases:
  "ring_owns a b x \<longleftrightarrow>
     (if a < b then a < x \<and> x \<le> b else if b < a then a < x \<or> x \<le> b else True)"
proof -
  have sub: "unat (x - a) = (if unat a \<le> unat x then unat x - unat a else unat x + 65536 - unat a)"
      "unat (b - a) = (if unat a \<le> unat b then unat b - unat a else unat b + 65536 - unat a)"
    by (simp_all add: unat_sub_if')
  have bd: "unat a < 65536" "unat b < 65536" "unat x < 65536"
    using unat_bound [of a] unat_bound [of b] unat_bound [of x] by simp_all
  have eq: "a = b \<longleftrightarrow> unat a = unat b" "x = a \<longleftrightarrow> unat x = unat a" by (simp_all add: unat_eq_iff)
  show ?thesis
    unfolding ring_owns_def eq word_less_nat_alt word_le_nat_alt sub using bd by (auto split: if_splits)
qed

lemma peer_is_responsible_iff:
  "peer_is_responsible a b x = 1 \<longleftrightarrow> a < x \<and> (x \<le> b \<or> b < a)"
  by (auto simp: peer_is_responsible_def)

lemma peer_is_responsible_01: "peer_is_responsible a b x = 0 \<or> peer_is_responsible a b x = 1"
  by (simp add: peer_is_responsible_def)

section \<open>Connecting\<close>

lemma connect_loop_all:
  assumes "socket_res w = ss @ rest" "connect_res w = replicate (length ss) 0 @ crest" "length pas = length ss"
    "\<forall>s \<in> set ss. 0 \<le> s" "pas \<noteq> []" "p_addr p = zero_addr"
  shows "\<exists>p' w'. connect_loop res pas p c w = Inr (True, p', w') \<and> p_socket p' = last ss \<and>
     trace w' = trace w @ map2 EvConnect ss (ai_addr res # replicate (length ss - 1) zero_addr)"
  using assms
proof (induction pas arbitrary: res p c w ss)
  case (Cons pa pas)
  then obtain s ss' where ss: "ss = s # ss'" "length pas = length ss'" "0 \<le> s" by (cases ss) auto
  let ?w = "log_event (EvConnect s (ai_addr res)) (w\<lparr>socket_res := ss' @ rest, connect_res := replicate (length ss') 0 @ crest\<rparr>)"
  let ?p = "p\<lparr>p_socket := s, p_addr_len := ai_addrlen res\<rparr>" and ?res = "res\<lparr>ai_addr := zero_addr\<rparr>"
  have step: "connect_loop res (pa # pas) p c w = connect_loop ?res pas ?p True ?w"
    using Cons.prems ss by (simp add: sys_socket_def sys_connect_def Let_def)
  show ?case
  proof (cases pas)
    case Nil
    then show ?thesis using step ss by (simp add: log_event_def)
  next
    case (Cons pa' pas')
    have "\<exists>p' w'. connect_loop ?res pas ?p True ?w = Inr (True, p', w') \<and> p_socket p' = last ss' \<and>
      trace w' = trace ?w @ map2 EvConnect ss' (ai_addr ?res # replicate (length ss' - 1) zero_addr)"
      using Cons.prems ss by (intro Cons.IH) (auto simp: log_event_def Cons)
    moreover have "ss' \<noteq> []" "replicate (length ss') zero_addr = zero_addr # replicate (length ss' - 1) zero_addr"
      using ss(2) Cons by (cases ss'; simp)+
    ultimately show ?thesis using step ss by (auto simp: log_event_def)
  qed
qed simp

section \<open>Properties\<close>

text \<open>
  C19: \<open>peer_is_responsible\<close> returns 0 or 1, and 1 exactly for the identifiers that the Chord
  circle assigns to the peer, less two cases: the identifiers up to the peer's own id when
  its predecessor's id is larger (the part of the interval behind the wrap-around), and every
  identifier when the peer is its own predecessor.
\<close>

theorem peer_is_responsible_exact:
  "peer_is_responsible pred_id peer_id h_id =
     (if ring_owns pred_id peer_id h_id \<and> pred_id \<noteq> peer_id \<and> \<not> (peer_id < pred_id \<and> h_id \<le> peer_id)
      then 1 else 0)"
  by (auto simp: peer_is_responsible_def ring_owns_cases)

text \<open>
  the repository's own unit tests of \<open>peer_is_responsible\<close> all pass, and they do not reach
  the missing case: with predecessor 202 and peer 10 the identifier 5 belongs to the peer on
  the circle and the function answers 0.
\<close>

theorem own_tests_pass_but_miss_the_wrap:
  "all_tests_peer_is_responsible = 1 \<and> ring_owns 202 10 5 \<and> peer_is_responsible 202 10 5 = 0"
  by (simp add: all_tests_peer_is_responsible_def test_peer_is_responsible_def
      peer_is_responsible_def ring_owns_cases)

text \<open>
  \<open>peer_init\<close> on the decimal text of a number: with a clear \<open>errno\<close> it returns a peer with
  that id, host name and port and no socket when the number is at most 65535, and \<open>NULL\<close>
  when it is larger (also when it overflows \<open>long\<close>); with an \<open>errno\<close> left over from an
  earlier call it returns \<open>NULL\<close> for every text.
\<close>

theorem peer_init_decimal:
  "peer_init 0 ident host (dec n) =
     (if n \<le> 65535 then (Some \<lparr>p_node_id = ident, hostname = host, port = of_nat n, p_socket = -1,
        p_addr = zero_addr, p_addr_len = 0\<rparr>, 0)
      else (None, if n < 2 ^ 63 then 0 else ERANGE)) \<and>
   (\<forall>e str. e \<noteq> 0 \<longrightarrow> fst (peer_init e ident host str) = None)"
proof -
  have "int n > 2 ^ 63 - 1 \<longleftrightarrow> \<not> n < 2 ^ 63" by simp linarith
  then have "peer_init 0 ident host (dec n) =
     (if n \<le> 65535 then (Some \<lparr>p_node_id = ident, hostname = host, port = of_nat n, p_socket = -1,
        p_addr = zero_addr, p_addr_len = 0\<rparr>, 0)
      else (None, if n < 2 ^ 63 then 0 else ERANGE))"
    by (simp add: peer_init_def strtol_def parse_int_dec Let_def zero_peer_def ERANGE_def)
  moreover have "fst (peer_init e ident host str) = None" if "e \<noteq> 0" for e str
    using that by (simp add: peer_init_def strtol_def Let_def ERANGE_def)
  ultimately show ?thesis by blast
qed

text \<open>The resolver on numeric host names: it returns the address that the name spells.\<close>

definition numeric_gai :: "'w net_scheme \<Rightarrow> bool" where
  "numeric_gai w \<longleftrightarrow> (\<forall>a prt. \<exists>ai. gai w (inet_ntop a) prt = Some [ai] \<and> s_addr (ai_addr ai) = a)"

lemma length_inet_ntop: "length (inet_ntop a) < 16"
proof -
  have b: "length (dec (unat b)) \<le> 3" for b :: byte
    using unat_bound [of b] by (intro length_dec_byte) simp
  show ?thesis
    using b [of "ucast a"] b [of "ucast (drop_bit 8 a)"] b [of "ucast (drop_bit 16 a)"]
      b [of "ucast (drop_bit 24 a)"]
    by (simp only: inet_ntop_def mem_bytes32_def dotted.simps length_append list.size)
qed

text \<open>
  a peer built from a packet is reachable under the address the packet carries: its host
  name is a dotted quad that fits the 16-byte buffer and determines the address, its port is
  the packet's, and looking the peer's address up again gives the packet's \<open>node_ip\<close> (the two
  byte-order conversions cancel), given a resolver that understands numeric host names.
\<close>

theorem peer_from_packet_address:
  assumes "numeric_gai w"
  shows "peer_get_ip (peer_from_packet pk) w = node_ip pk \<and> port (peer_from_packet pk) = node_port pk \<and>
     length (hostname (peer_from_packet pk)) < 16 \<and>
     (\<forall>pk'. hostname (peer_from_packet pk') = hostname (peer_from_packet pk) \<longrightarrow> node_ip pk' = node_ip pk)"
proof -
  have host: "hostname (peer_from_packet q) = inet_ntop (htonl (node_ip q))"
    "port (peer_from_packet q) = node_port q" for q
    by (simp_all add: peer_from_packet_def Let_def)
  obtain ai where "gai w (inet_ntop (htonl (node_ip pk))) (dec (unat (node_port pk))) = Some [ai]"
    "s_addr (ai_addr ai) = htonl (node_ip pk)"
    using assms by (auto simp: numeric_gai_def)
  then have ip: "peer_get_ip (peer_from_packet pk) w = node_ip pk"
    by (simp add: peer_get_ip_def peer_lookup_def host)
  have "length (inet_ntop a) < 16" for a by (rule length_inet_ntop)
  moreover have "node_ip pk' = node_ip pk" if "inet_ntop (htonl (node_ip pk')) = inet_ntop (htonl (node_ip pk))" for pk'
    using that by (metis htonl_htonl inet_ntop_inj)
  ultimately show ?thesis unfolding host using ip by blast
qed

text \<open>
  when every \<open>socket\<close> and \<open>connect\<close> call succeeds, \<open>peer_connect\<close> opens one connection for
  every result of the lookup and keeps the last: the first goes to the first address, each
  further one to an all-zero address, since the copy of the address runs in the wrong
  direction. With a single result it connects to it and the peer's socket is that connection.
\<close>

theorem peer_connect_all_results:
  assumes "peer_lookup p w = res # ais" "socket_res w = ss @ rest" "length ss = Suc (length ais)"
    "connect_res w = replicate (length ss) 0 @ crest" "\<forall>s \<in> set ss. 0 \<le> s" "p_addr p = zero_addr"
  shows "\<exists>p' w'. peer_connect p w = Inr (0, p', w') \<and> p_socket p' = last ss \<and>
     trace w' = trace w @ map2 EvConnect ss (ai_addr res # replicate (length ais) zero_addr)"
proof -
  from connect_loop_all [OF assms(2,4) _ assms(5) _ assms(6), of "res # ais" res False] assms(3)
  obtain p' w' where "connect_loop res (res # ais) p False w = Inr (True, p', w')" "p_socket p' = last ss"
    "trace w' = trace w @ map2 EvConnect ss (ai_addr res # replicate (length ss - 1) zero_addr)"
    by auto
  then show ?thesis using assms(1,3) by (simp add: peer_connect_def)
qed

section \<open>Witnesses\<close>

text \<open>A resolver for numeric host names.\<close>

definition sample_ai :: "u32 \<Rightarrow> addrinfo" where
  "sample_ai a = \<lparr>ai_family = 2, ai_socktype = 1, ai_protocol = 6,
     ai_addr = \<lparr>sa_family = 2, sin_port = 0, s_addr = a\<rparr>, ai_addrlen = 16\<rparr>"

function split_dots :: "string \<Rightarrow> string list" where
  "split_dots s = (case dropWhile (\<lambda>c. c \<noteq> CHR ''.'') s of
     [] \<Rightarrow> [s] | _ # r \<Rightarrow> takeWhile (\<lambda>c. c \<noteq> CHR ''.'') s # split_dots r)"
  by pat_completeness auto
termination
proof (relation "measure length", simp)
  fix s r :: string and c
  assume "dropWhile (\<lambda>c. c \<noteq> CHR ''.'') s = c # r"
  then have "length (c # r) \<le> length s" by (metis length_dropWhile_le)
  then show "(r, s) \<in> measure length" by simp
qed

declare split_dots.simps [simp del]

definition numeric_resolver :: "string \<Rightarrow> string \<Rightarrow> addrinfo list option" where
  "numeric_resolver host prt =
     (case map (digits_value 0) (split_dots host) of
        [a, b, c, d] \<Rightarrow> Some [sample_ai (push_bit 24 (ucast (of_nat d :: byte)) OR
          push_bit 16 (ucast (of_nat c :: byte)) OR push_bit 8 (ucast (of_nat b :: byte)) OR
          ucast (of_nat a :: byte))]
      | _ \<Rightarrow> None)"

lemma split_dots_dec: "split_dots (dec n) = [dec n]"
proof -
  have "dropWhile (\<lambda>c. c \<noteq> CHR ''.'') (dec n) = []"
    using dot_not_in_dec [of n] by (auto simp: dropWhile_eq_Nil_conv)
  then show ?thesis by (subst split_dots.simps) (simp only: list.case)
qed

lemma split_dots_Cons: "split_dots (dec n @ CHR ''.'' # r) = dec n # split_dots r"
proof -
  have "\<forall>c \<in> set (dec n). c \<noteq> CHR ''.''" using dot_not_in_dec [of n] by auto
  then have "dropWhile (\<lambda>c. c \<noteq> CHR ''.'') (dec n @ CHR ''.'' # r) = CHR ''.'' # r"
    "takeWhile (\<lambda>c. c \<noteq> CHR ''.'') (dec n @ CHR ''.'' # r) = dec n"
    by (simp_all add: dropWhile_append2 takeWhile_append2)
  then show ?thesis by (subst split_dots.simps) simp
qed

definition sample_net :: net where
  "sample_net = \<lparr>gai = numeric_resolver, socket_res = [3, 4], connect_res = [0, 0], send_res = [],
     inq = (\<lambda>_. []), trace = []\<rparr>"

lemma numeric_gai_resolver: "gai w = numeric_resolver \<Longrightarrow> numeric_gai w"
  by (simp add: numeric_gai_def numeric_resolver_def sample_ai_def inet_ntop_def mem_bytes32_def
      split_dots_dec split_dots_Cons digits_value_dec join_u32)

theorem peer_init_decimal_witness:
  "fst (peer_init 0 7 ''localhost'' (dec 4711)) =
     Some \<lparr>p_node_id = 7, hostname = ''localhost'', port = 4711, p_socket = -1, p_addr = zero_addr, p_addr_len = 0\<rparr> \<and>
   peer_init 0 7 ''localhost'' (dec 70000) = (None, 0) \<and> fst (peer_init 2 7 ''localhost'' (dec 4711)) = None"
  using peer_init_decimal [of 7 "''localhost''" 4711] peer_init_decimal [of 7 "''localhost''" 70000] by simp

theorem peer_from_packet_address_witness:
  "peer_get_ip (peer_from_packet (packet_new\<lparr>node_ip := 0x7F000001, node_port := 4711\<rparr>)) sample_net = 0x7F000001"
  using peer_from_packet_address [OF numeric_gai_resolver, of sample_net "packet_new\<lparr>node_ip := 0x7F000001, node_port := 4711\<rparr>"]
  by (simp add: sample_net_def)

theorem peer_connect_all_results_witness:
  "\<exists>p' w'. peer_connect zero_peer (sample_net\<lparr>gai := \<lambda>_ _. Some [sample_ai 1, sample_ai 2]\<rparr>) = Inr (0, p', w') \<and>
     p_socket p' = 4 \<and> trace w' = [EvConnect 3 (ai_addr (sample_ai 1)), EvConnect 4 zero_addr]"
  using peer_connect_all_results [of zero_peer "sample_net\<lparr>gai := \<lambda>_ _. Some [sample_ai 1, sample_ai 2]\<rparr>"
      "sample_ai 1" "[sample_ai 2]" "[3, 4]" "[]" "[]"]
  by (simp add: peer_lookup_def sample_net_def zero_peer_def)

end
