(* ===== verification/Ring_Buffer.thy ===== *)
theory Ring_Buffer
  imports Prelude
begin

text \<open>
  The ring buffer of \<open>praxis2/src/util.c\<close> (\<open>rb_new\<close> to \<open>rb_read\<close>). Positions and
  sizes are \<open>size_t\<close>, that is 64-bit words: \<open>rb_can_write\<close> relies on wrap-around
  (\<open>rpos - 1\<close> with \<open>rpos = 0\<close>). The theory shows that the buffer is a bounded FIFO of
  bytes (\<open>rb_contents\<close>): it states the contract as the locale \<open>byte_fifo\<close> and
  interprets the locale on the model.
\<close>

section \<open>The model\<close>

record ring_buffer =
  rb_buffer :: "byte list"
  bufsize :: u64
  wpos :: u64
  rpos :: u64

definition rb_new :: "(nat \<Rightarrow> byte) \<Rightarrow> u64 \<Rightarrow> ring_buffer" where
  "rb_new junk sz =
     \<lparr>rb_buffer = malloc junk (unat (sz + 1)), bufsize = sz + 1, wpos = 0, rpos = 0\<rparr>"

definition rb_can_read :: "ring_buffer \<Rightarrow> u64" where
  "rb_can_read rb =
     (if rpos rb \<le> wpos rb then wpos rb - rpos rb
      else (bufsize rb - rpos rb) + wpos rb)"

definition rb_can_write :: "ring_buffer \<Rightarrow> u64" where
  "rb_can_write rb =
     (if wpos rb < rpos rb then rpos rb - wpos rb - 1
      else (bufsize rb - wpos rb) + (rpos rb - 1))"

text \<open>\<open>pos = (pos + 1) % bufsize\<close>.\<close>

definition rb_next :: "ring_buffer \<Rightarrow> u64 \<Rightarrow> u64 res" where
  "rb_next rb pos =
     (if bufsize rb = 0 then Inl Div_By_Zero else Inr ((pos + 1) mod bufsize rb))"

function rb_write_loop ::
  "byte list \<Rightarrow> u64 \<Rightarrow> u64 \<Rightarrow> u64 \<Rightarrow> ring_buffer \<Rightarrow> ring_buffer res" where
  "rb_write_loop buffer avail n i rb =
     (if i < avail \<and> i < n then
        bind_res (byte_at buffer (unat i)) (\<lambda>b.
        bind_res (store_at (rb_buffer rb) (unat (wpos rb)) [b]) (\<lambda>m.
        bind_res (rb_next rb (wpos rb)) (\<lambda>w.
        rb_write_loop buffer avail n (i + 1) (rb\<lparr>rb_buffer := m, wpos := w\<rparr>))))
      else Inr rb)"
  by pat_completeness auto
termination
proof (relation "measure (\<lambda>(buffer, avail, n, i, rb). unat n - unat i)", goal_cases)
  case (2 buffer avail n i rb)
  then have "i < n" by simp
  with unat_Suc_less [OF this] show ?case by (simp add: word_less_nat_alt)
qed simp

definition rb_write :: "ring_buffer \<Rightarrow> byte list \<Rightarrow> u64 \<Rightarrow> (u64 \<times> ring_buffer) res" where
  "rb_write rb buffer n =
     (let avail = rb_can_write rb in
      bind_res (rb_write_loop buffer avail n 0 rb) (\<lambda>rb. Inr (avail, rb)))"

function rb_read_loop ::
  "u64 \<Rightarrow> u64 \<Rightarrow> u64 \<Rightarrow> byte list \<Rightarrow> ring_buffer \<Rightarrow> (byte list \<times> ring_buffer) res" where
  "rb_read_loop avail n i buffer rb =
     (if i < avail \<and> i < n then
        bind_res (byte_at (rb_buffer rb) (unat (rpos rb))) (\<lambda>b.
        bind_res (store_at buffer (unat i) [b]) (\<lambda>buffer.
        bind_res (rb_next rb (rpos rb)) (\<lambda>r.
        rb_read_loop avail n (i + 1) buffer (rb\<lparr>rpos := r\<rparr>))))
      else Inr (buffer, rb))"
  by pat_completeness auto
termination
proof (relation "measure (\<lambda>(avail, n, i, buffer, rb). unat n - unat i)", goal_cases)
  case (2 avail n i buffer rb)
  then have "i < n" by simp
  with unat_Suc_less [OF this] show ?case by (simp add: word_less_nat_alt)
qed simp

text \<open>\<open>rb_read rb buffer n\<close>: the caller's block before and after the call, and the result.\<close>

definition rb_read ::
  "ring_buffer \<Rightarrow> byte list \<Rightarrow> u64 \<Rightarrow> (u64 \<times> byte list \<times> ring_buffer) res" where
  "rb_read rb buffer n =
     (let avail = rb_can_read rb in
      bind_res (rb_read_loop avail n 0 buffer rb) (\<lambda>(buffer, rb). Inr (avail, buffer, rb)))"

declare rb_write_loop.simps [simp del] rb_read_loop.simps [simp del]

section \<open>Invariant and abstraction\<close>

definition rb_wf :: "ring_buffer \<Rightarrow> bool" where
  "rb_wf rb \<longleftrightarrow> unat (bufsize rb) = length (rb_buffer rb) \<and>
     wpos rb < bufsize rb \<and> rpos rb < bufsize rb"

definition rb_size :: "ring_buffer \<Rightarrow> nat" where
  "rb_size rb = unat (bufsize rb)"

definition rb_count :: "ring_buffer \<Rightarrow> nat" where
  "rb_count rb = (unat (wpos rb) + rb_size rb - unat (rpos rb)) mod rb_size rb"

definition rb_contents :: "ring_buffer \<Rightarrow> byte list" where
  "rb_contents rb =
     map (\<lambda>k. rb_buffer rb ! ((unat (rpos rb) + k) mod rb_size rb)) [0..<rb_count rb]"

definition rb_capacity :: "ring_buffer \<Rightarrow> nat" where
  "rb_capacity rb = rb_size rb - 1"

lemma ring_index_eq_iff:
  fixes r i j n :: nat
  assumes "i < n" "j < n"
  shows "(r + i) mod n = (r + j) mod n \<longleftrightarrow> i = j"
proof
  assume eq: "(r + i) mod n = (r + j) mod n"
  show "i = j"
  proof (cases i j rule: linorder_cases)
    case less
    with eq have "n dvd (r + j) - (r + i)" by (intro mod_eq_dvd_iff_nat [THEN iffD1]) auto
    with less assms show ?thesis by (auto dest: dvd_imp_le)
  next
    case greater
    with eq have "n dvd (r + i) - (r + j)" by (intro mod_eq_dvd_iff_nat [THEN iffD1]) auto
    with greater assms show ?thesis by (auto dest: dvd_imp_le)
  qed
qed simp

lemma rb_wf_bounds:
  assumes "rb_wf rb"
  shows "unat (wpos rb) < rb_size rb" "unat (rpos rb) < rb_size rb"
    "length (rb_buffer rb) = rb_size rb" "0 < rb_size rb" "rb_size rb < 2 ^ 64"
  using assms unat_bound [of "bufsize rb"]
  by (auto simp: rb_wf_def rb_size_def word_less_nat_alt)

lemma rb_count_if:
  assumes "rb_wf rb"
  shows "rb_count rb = (if unat (rpos rb) \<le> unat (wpos rb) then unat (wpos rb) - unat (rpos rb)
    else rb_size rb - unat (rpos rb) + unat (wpos rb))"
  using rb_wf_bounds [OF assms] by (auto simp: rb_count_def mod_if)

lemma rb_count_less: "rb_wf rb \<Longrightarrow> rb_count rb < rb_size rb"
  using rb_wf_bounds(4) [of rb] by (simp add: rb_count_def)

lemma length_rb_contents [simp]: "length (rb_contents rb) = rb_count rb"
  by (simp add: rb_contents_def)

text \<open>The two size queries agree with the abstract contents; the wrap-around cancels.\<close>

lemma unat_rb_can_read: "rb_wf rb \<Longrightarrow> unat (rb_can_read rb) = rb_count rb"
  using rb_wf_bounds [of rb]
  by (auto simp: rb_count_if rb_can_read_def rb_size_def word_le_nat_alt unat_sub
      unat_word_ariths word_less_nat_alt)

lemma rb_can_write_word:
  "rb_can_write rb = (if wpos rb < rpos rb then rpos rb - (wpos rb + 1)
     else bufsize rb - 1 - (wpos rb - rpos rb))"
  by (simp add: rb_can_write_def algebra_simps)

lemma unat_rb_can_write:
  assumes "rb_wf rb"
  shows "unat (rb_can_write rb) = rb_capacity rb - rb_count rb"
proof (cases "wpos rb < rpos rb")
  case True
  then have "unat (wpos rb + 1) = unat (wpos rb) + 1"
    using rb_wf_bounds [OF assms] by (simp add: unat_word_ariths word_less_nat_alt)
  moreover from this True have "wpos rb + 1 \<le> rpos rb"
    by (simp add: word_le_nat_alt word_less_nat_alt)
  ultimately show ?thesis
    using True rb_wf_bounds [OF assms]
    by (simp add: rb_can_write_word unat_sub rb_count_if [OF assms] rb_capacity_def
        word_less_nat_alt)
next
  case False
  have one: "unat (bufsize rb - 1) = rb_size rb - 1"
    using rb_wf_bounds [OF assms] by (simp add: unat_sub word_le_nat_alt rb_size_def)
  moreover have d: "unat (wpos rb - rpos rb) = unat (wpos rb) - unat (rpos rb)"
    using False by (simp add: unat_sub not_less)
  moreover have "wpos rb - rpos rb \<le> bufsize rb - 1"
    unfolding word_le_nat_alt one d using rb_wf_bounds [OF assms] by linarith
  ultimately show ?thesis
    using False rb_wf_bounds [OF assms]
    by (simp add: rb_can_write_word unat_sub rb_count_if [OF assms] rb_capacity_def
        word_le_nat_alt word_less_nat_alt not_less)
qed


section \<open>One byte in, one byte out\<close>

lemma rb_next_ok:
  assumes "rb_wf rb" "pos < bufsize rb"
  shows "\<exists>q. rb_next rb pos = Inr q \<and> q < bufsize rb \<and> unat q = (unat pos + 1) mod rb_size rb"
proof -
  have "bufsize rb \<noteq> 0" using rb_wf_bounds(4) [OF assms(1)] by (auto simp: rb_size_def)
  moreover have "unat ((pos + 1) mod bufsize rb) = (unat pos + 1) mod rb_size rb"
    using unat_Suc_less [OF assms(2)] by (simp add: unat_mod rb_size_def)
  moreover from this have "(pos + 1) mod bufsize rb < bufsize rb"
    using rb_wf_bounds(4) [OF assms(1)] by (simp add: word_less_nat_alt rb_size_def)
  ultimately show ?thesis by (simp add: rb_next_def)
qed

lemma rb_count_advance_w:
  assumes "rb_wf rb" "rb_count rb < rb_capacity rb" "unat w = (unat (wpos rb) + 1) mod rb_size rb"
    "bufsize rb' = bufsize rb" "rpos rb' = rpos rb" "wpos rb' = w"
  shows "rb_count rb' = Suc (rb_count rb)"
proof -
  let ?N = "rb_size rb" and ?r = "unat (rpos rb)" and ?w = "unat (wpos rb)"
  have b: "?r < ?N" "?w < ?N" using rb_wf_bounds [OF assms(1)] by auto
  have "rb_count rb' = ((?w + 1) mod ?N + (?N - ?r)) mod ?N"
    using assms(3-6) b by (simp add: rb_count_def rb_size_def)
  also have "\<dots> = (?w + 1 + (?N - ?r)) mod ?N"
    by (rule mod_add_left_eq)
  also have "?w + 1 + (?N - ?r) = Suc (?w + ?N - ?r)"
    using b by simp
  also have "Suc (?w + ?N - ?r) mod ?N = Suc ((?w + ?N - ?r) mod ?N) mod ?N"
    by (rule mod_Suc_eq [symmetric])
  also have "\<dots> = Suc (rb_count rb) mod ?N" by (simp add: rb_count_def)
  finally show ?thesis
    using assms(2) by (simp add: rb_capacity_def)
qed

lemma rb_index_end:
  assumes "rb_wf rb"
  shows "(unat (rpos rb) + rb_count rb) mod rb_size rb = unat (wpos rb)"
  using rb_wf_bounds [OF assms] by (auto simp: rb_count_if [OF assms] mod_if)

lemma rb_put1:
  assumes wf: "rb_wf rb" and room: "rb_count rb < rb_capacity rb"
  shows "\<exists>m w. store_at (rb_buffer rb) (unat (wpos rb)) [b] = Inr m \<and>
     rb_next rb (wpos rb) = Inr w \<and> rb_wf (rb\<lparr>rb_buffer := m, wpos := w\<rparr>) \<and>
     rb_contents (rb\<lparr>rb_buffer := m, wpos := w\<rparr>) = rb_contents rb @ [b]"
proof -
  let ?N = "rb_size rb" and ?r = "unat (rpos rb)" and ?w = "unat (wpos rb)"
  have bd: "?w < ?N" "?r < ?N" "length (rb_buffer rb) = ?N" using rb_wf_bounds [OF wf] by auto
  obtain w where w: "rb_next rb (wpos rb) = Inr w" "w < bufsize rb" "unat w = (?w + 1) mod ?N"
    using rb_next_ok [OF wf, of "wpos rb"] wf by (auto simp: rb_wf_def)
  let ?m = "(rb_buffer rb)[?w := b]" and ?rb = "rb\<lparr>rb_buffer := (rb_buffer rb)[?w := b], wpos := w\<rparr>"
  have st: "store_at (rb_buffer rb) ?w [b] = Inr ?m"
    using bd by (simp add: store_at_def upd_conv_take_nth_drop)
  have cnt: "rb_count ?rb = Suc (rb_count rb)"
    using rb_count_advance_w [OF wf room w(3), of ?rb] by simp
  have old: "?m ! ((?r + k) mod ?N) = rb_buffer rb ! ((?r + k) mod ?N)" if "k < rb_count rb" for k
  proof -
    have "(?r + k) mod ?N \<noteq> (?r + rb_count rb) mod ?N"
      using that rb_count_less [OF wf] ring_index_eq_iff [of k ?N "rb_count rb" ?r] by simp
    then show ?thesis by (simp add: rb_index_end [OF wf])
  qed
  have sz: "rb_size ?rb = ?N" by (simp add: rb_size_def)
  have "rb_contents ?rb = rb_contents rb @ [b]"
    using old bd by (simp add: rb_contents_def cnt sz rb_index_end [OF wf])
  with st w wf show ?thesis by (auto simp: rb_wf_def)
qed

lemma rb_get1:
  assumes wf: "rb_wf rb" and some: "0 < rb_count rb"
  shows "\<exists>b r. byte_at (rb_buffer rb) (unat (rpos rb)) = Inr b \<and>
     rb_next rb (rpos rb) = Inr r \<and> rb_wf (rb\<lparr>rpos := r\<rparr>) \<and>
     rb_contents rb = b # rb_contents (rb\<lparr>rpos := r\<rparr>)"
proof -
  let ?N = "rb_size rb" and ?r = "unat (rpos rb)" and ?w = "unat (wpos rb)"
  have bd: "?w < ?N" "?r < ?N" "length (rb_buffer rb) = ?N" using rb_wf_bounds [OF wf] by auto
  obtain r where r: "rb_next rb (rpos rb) = Inr r" "r < bufsize rb" "unat r = (?r + 1) mod ?N"
    using rb_next_ok [OF wf, of "rpos rb"] wf by (auto simp: rb_wf_def)
  let ?rb = "rb\<lparr>rpos := r\<rparr>"
  have wf': "rb_wf ?rb" using wf r(2) by (simp add: rb_wf_def)
  have sz: "rb_size ?rb = ?N" by (simp add: rb_size_def)
  have cnt: "rb_count rb = Suc (rb_count ?rb)"
    using some bd r(3) unfolding rb_count_if [OF wf] rb_count_if [OF wf'] sz
    by (auto simp: mod_if split: if_splits)
  have idx: "(Suc ?r mod ?N + k) mod ?N = Suc (?r + k) mod ?N" for k
    by (metis add_Suc mod_add_left_eq)
  have "rb_contents rb = rb_buffer rb ! ?r # rb_contents ?rb"
    using bd unfolding rb_contents_def cnt sz
    by (simp add: upt_conv_Cons idx r(3) map_Suc_upt [symmetric] del: upt_Suc)
  with r wf' bd show ?thesis by auto
qed


section \<open>The copy loops\<close>

lemma take_drop_step:
  "i < length xs \<Longrightarrow> 0 < n \<Longrightarrow> xs ! i # take (n - 1) (drop (Suc i) xs) = take n (drop i xs)"
  by (metis Cons_nth_drop_Suc Suc_pred take_Suc_Cons diff_Suc_1)

lemma loop_stop:
  assumes "\<not> (i < avail \<and> i < n)"
  shows "rb_write_loop buffer avail n i rb = Inr rb" "rb_read_loop avail n i buffer rb = Inr (buffer, rb)"
  using assms by (subst rb_write_loop.simps rb_read_loop.simps; simp only: if_False)+

lemma rb_write_loop_ok:
  assumes "rb_wf rb" "m = min (unat avail) (unat n)" "m \<le> length buffer"
    "rb_count rb + (m - unat i) \<le> rb_capacity rb"
  shows "\<exists>rb'. rb_write_loop buffer avail n i rb = Inr rb' \<and> rb_wf rb' \<and>
     bufsize rb' = bufsize rb \<and> rb_contents rb' = rb_contents rb @ take (m - unat i) (drop (unat i) buffer)"
  using assms
proof (induction buffer avail n i rb rule: rb_write_loop.induct)
  case (1 buffer avail n i rb)
  show ?case
  proof (cases "i < avail \<and> i < n")
    case False
    then have "m - unat i = 0" using "1.prems"(2) by (auto simp: word_less_nat_alt)
    with "1.prems"(1) show ?thesis by (simp add: loop_stop(1) [OF False])
  next
    case True
    then have lt: "unat i < m" using "1.prems"(2) by (simp add: word_less_nat_alt)
    have nx: "unat (i + 1) = Suc (unat i)" using True unat_Suc_less by blast
    have by_i: "byte_at buffer (unat i) = Inr (buffer ! unat i)" using lt "1.prems"(3) by simp
    have "rb_count rb < rb_capacity rb" using lt "1.prems"(4) by simp
    then obtain x w where st: "store_at (rb_buffer rb) (unat (wpos rb)) [buffer ! unat i] = Inr x"
      and w: "rb_next rb (wpos rb) = Inr w" and wf': "rb_wf (rb\<lparr>rb_buffer := x, wpos := w\<rparr>)"
      and c: "rb_contents (rb\<lparr>rb_buffer := x, wpos := w\<rparr>) = rb_contents rb @ [buffer ! unat i]"
      using rb_put1 [OF "1.prems"(1)] by blast
    let ?rb = "rb\<lparr>rb_buffer := x, wpos := w\<rparr>"
    have "rb_count ?rb = Suc (rb_count rb)" using arg_cong [OF c, of length] by simp
    moreover have "rb_capacity ?rb = rb_capacity rb" by (simp add: rb_capacity_def rb_size_def)
    ultimately have "rb_count ?rb + (m - unat (i + 1)) \<le> rb_capacity ?rb"
      using lt nx "1.prems"(4) by linarith
    then obtain rb' where "rb_write_loop buffer avail n (i + 1) ?rb = Inr rb'" "rb_wf rb'"
      "bufsize rb' = bufsize rb"
      "rb_contents rb' = rb_contents ?rb @ take (m - unat (i + 1)) (drop (unat (i + 1)) buffer)"
      using "1.IH" [OF True wf' "1.prems"(2,3)] by auto
    moreover have "buffer ! unat i # take (m - Suc (unat i)) (drop (Suc (unat i)) buffer)
        = take (m - unat i) (drop (unat i) buffer)"
      using take_drop_step [of "unat i" buffer "m - unat i"] lt "1.prems"(3) by simp
    ultimately show ?thesis
      using True by_i st w
      by (simp add: rb_write_loop.simps [of buffer avail n i rb] c nx)
  qed
qed

lemma rb_read_loop_ok:
  assumes "rb_wf rb" "m = min (unat avail) (unat n)" "m \<le> length buffer" "unat i \<le> m"
    "m - unat i \<le> rb_count rb"
  shows "\<exists>rb'. rb_read_loop avail n i buffer rb =
        Inr (take (unat i) buffer @ take (m - unat i) (rb_contents rb) @ drop m buffer, rb') \<and>
     rb_wf rb' \<and> bufsize rb' = bufsize rb \<and> rb_contents rb' = drop (m - unat i) (rb_contents rb)"
  using assms
proof (induction avail n i buffer rb rule: rb_read_loop.induct)
  case (1 avail n i buffer rb)
  show ?case
  proof (cases "i < avail \<and> i < n")
    case False
    then have "m = unat i" using "1.prems"(2,4) by (auto simp: word_less_nat_alt)
    with "1.prems"(1,3) show ?thesis by (simp add: loop_stop(2) [OF False])
  next
    case True
    then have lt: "unat i < m" using "1.prems"(2) by (simp add: word_less_nat_alt)
    have nx: "unat (i + 1) = Suc (unat i)" using True unat_Suc_less by blast
    have "0 < rb_count rb" using lt "1.prems"(5) by simp
    then obtain b r where by_r: "byte_at (rb_buffer rb) (unat (rpos rb)) = Inr b"
      and r: "rb_next rb (rpos rb) = Inr r" and wf': "rb_wf (rb\<lparr>rpos := r\<rparr>)"
      and c: "rb_contents rb = b # rb_contents (rb\<lparr>rpos := r\<rparr>)"
      using rb_get1 [OF "1.prems"(1)] by blast
    let ?rb = "rb\<lparr>rpos := r\<rparr>" and ?buf = "buffer[unat i := b]"
    have st: "store_at buffer (unat i) [b] = Inr ?buf"
      using lt "1.prems"(3) by (simp add: store_at_def upd_conv_take_nth_drop)
    have "rb_count rb = Suc (rb_count ?rb)" using arg_cong [OF c, of length] by simp
    then have "m - unat (i + 1) \<le> rb_count ?rb" "unat (i + 1) \<le> m" "m \<le> length ?buf"
      using lt nx "1.prems"(3,5) by auto
    then obtain rb' where IH: "rb_read_loop avail n (i + 1) ?buf ?rb =
          Inr (take (Suc (unat i)) ?buf @ take (m - Suc (unat i)) (rb_contents ?rb) @ drop m ?buf, rb')"
      "rb_wf rb'" "bufsize rb' = bufsize rb" "rb_contents rb' = drop (m - Suc (unat i)) (rb_contents ?rb)"
      using "1.IH" [OF True wf' "1.prems"(2), of ?buf] nx by auto
    have "take (Suc (unat i)) ?buf = take (unat i) buffer @ [b]"
      using lt "1.prems"(3) by (simp add: take_Suc_conv_app_nth)
    moreover have "m - unat i = Suc (m - Suc (unat i))" using lt by simp
    ultimately show ?thesis
      using IH True by_r st r lt
      by (simp add: rb_read_loop.simps [of avail n i buffer rb] c)
  qed
qed


section \<open>The buffer as a bounded FIFO\<close>

lemma rb_capacity_room:
  "rb_wf rb \<Longrightarrow> rb_count rb + unat (rb_can_write rb) = rb_capacity rb"
  using rb_count_less [of rb] by (simp add: unat_rb_can_write rb_capacity_def)

lemma rb_capacity_cong: "bufsize rb' = bufsize rb \<Longrightarrow> rb_capacity rb' = rb_capacity rb"
  by (simp add: rb_capacity_def rb_size_def)

lemma rb_write_ok:
  assumes "rb_wf rb" "m = min (unat (rb_can_write rb)) (unat n)" "m \<le> length buffer"
  shows "\<exists>rb'. rb_write rb buffer n = Inr (rb_can_write rb, rb') \<and> rb_wf rb' \<and>
    bufsize rb' = bufsize rb \<and> rb_contents rb' = rb_contents rb @ take m buffer"
proof -
  have "rb_count rb + (m - unat (0::u64)) \<le> rb_capacity rb"
    using rb_capacity_room [OF assms(1)] assms(2) by simp
  then show ?thesis
    using rb_write_loop_ok [OF assms, of 0] by (auto simp: rb_write_def Let_def)
qed

lemma rb_read_ok:
  assumes "rb_wf rb" "m = min (rb_count rb) (unat n)" "m \<le> length buffer"
  shows "\<exists>rb'. rb_read rb buffer n =
        Inr (rb_can_read rb, take m (rb_contents rb) @ drop m buffer, rb') \<and> rb_wf rb' \<and>
    bufsize rb' = bufsize rb \<and> rb_contents rb' = drop m (rb_contents rb)"
  using rb_read_loop_ok [OF assms(1), of m "rb_can_read rb" n buffer 0] assms
    unat_rb_can_read [OF assms(1)]
  by (auto simp: rb_read_def Let_def)

lemma rb_new_ok:
  assumes "sz + 1 \<noteq> 0"
  shows "rb_wf (rb_new junk sz)" "rb_contents (rb_new junk sz) = []"
    "rb_capacity (rb_new junk sz) = unat sz"
proof -
  have "unat (sz + 1) = Suc (unat sz)"
    using assms by (metis add.commute unatSuc)
  then show "rb_capacity (rb_new junk sz) = unat sz"
    by (simp add: rb_capacity_def rb_size_def rb_new_def)
  show "rb_wf (rb_new junk sz)"
    using assms by (simp add: rb_wf_def rb_new_def word_gt_0)
  show "rb_contents (rb_new junk sz) = []"
    by (simp add: rb_contents_def rb_count_def rb_new_def rb_size_def)
qed

text \<open>
  The contract a user of the buffer relies on: storing what fits appends it, reading what is
  there removes it from the front, and the free room is what the capacity leaves.
\<close>

locale byte_fifo =
  fixes invar :: "'q \<Rightarrow> bool"
    and contents :: "'q \<Rightarrow> byte list"
    and cap :: "'q \<Rightarrow> nat"
    and room :: "'q \<Rightarrow> nat"
    and put :: "'q \<Rightarrow> byte list \<Rightarrow> 'q res"
    and get :: "'q \<Rightarrow> nat \<Rightarrow> (byte list \<times> 'q) res"
  assumes room_law: "invar q \<Longrightarrow> length (contents q) + room q = cap q"
    and put_law: "invar q \<Longrightarrow> length bs \<le> room q \<Longrightarrow>
      \<exists>q'. put q bs = Inr q' \<and> invar q' \<and> cap q' = cap q \<and> contents q' = contents q @ bs"
    and get_law: "invar q \<Longrightarrow> n \<le> length (contents q) \<Longrightarrow>
      \<exists>q'. get q n = Inr (take n (contents q), q') \<and> invar q' \<and> cap q' = cap q \<and>
        contents q' = drop n (contents q)"
begin

text \<open>Storing a byte string in any division into chunks has the same effect.\<close>

fun put_chunks :: "'q \<Rightarrow> byte list list \<Rightarrow> 'q res" where
  "put_chunks q [] = Inr q"
| "put_chunks q (c # cs) = bind_res (put q c) (\<lambda>q. put_chunks q cs)"

lemma put_chunks_ok:
  "invar q \<Longrightarrow> length (concat cs) \<le> room q \<Longrightarrow>
   \<exists>q'. put_chunks q cs = Inr q' \<and> invar q' \<and> cap q' = cap q \<and> contents q' = contents q @ concat cs"
proof (induction cs arbitrary: q)
  case (Cons c cs)
  then obtain q1 where q1: "put q c = Inr q1" "invar q1" "cap q1 = cap q" "contents q1 = contents q @ c"
    using put_law [of q c] by auto
  have "length (concat cs) \<le> room q1"
    using Cons.prems room_law [OF Cons.prems(1)] room_law [OF q1(2)] q1(3,4) by simp
  then show ?case using Cons.IH [OF q1(2)] q1 by auto
qed simp

lemma fill_and_drain:
  assumes "invar q" "contents q = []" "length (concat cs) = cap q"
  shows "\<exists>q' q''. put_chunks q cs = Inr q' \<and> room q' = 0 \<and>
    get q' (cap q) = Inr (concat cs, q'') \<and> invar q'' \<and> contents q'' = [] \<and> cap q'' = cap q"
proof -
  have "length (concat cs) \<le> room q" using assms room_law [OF assms(1)] by simp
  then obtain q' where q': "put_chunks q cs = Inr q'" "invar q'" "cap q' = cap q"
    "contents q' = concat cs"
    using put_chunks_ok [OF assms(1)] assms(2) by auto
  moreover have "room q' = 0" using room_law [OF q'(2)] q'(3,4) assms(3) by simp
  ultimately show ?thesis
    using get_law [OF q'(2), of "cap q"] assms(3) by auto
qed

end

text \<open>The operations in the shape of the contract: whole blocks, a fresh target block.\<close>

definition rb_put :: "ring_buffer \<Rightarrow> byte list \<Rightarrow> ring_buffer res" where
  "rb_put rb bs = bind_res (rb_write rb bs (of_nat (length bs))) (\<lambda>(_, rb). Inr rb)"

definition rb_get :: "ring_buffer \<Rightarrow> nat \<Rightarrow> (byte list \<times> ring_buffer) res" where
  "rb_get rb n = bind_res (rb_read rb (replicate n 0) (of_nat n)) (\<lambda>(_, b, rb). Inr (b, rb))"

lemma unat_of_nat_small: "n < 2 ^ 64 \<Longrightarrow> unat (of_nat n :: u64) = n"
  by (simp add: unat_of_nat)

interpretation rbq: byte_fifo rb_wf rb_contents rb_capacity "\<lambda>rb. unat (rb_can_write rb)" rb_put rb_get
proof (unfold_locales, goal_cases)
  case (1 rb)
  then show ?case by (simp add: rb_capacity_room)
next
  case (2 rb bs)
  have "unat (rb_can_write rb) < 2 ^ 64" using unat_bound [of "rb_can_write rb"] by simp
  with 2 have "unat (of_nat (length bs) :: u64) = length bs" by (simp add: unat_of_nat_small)
  then show ?case
    using 2 rb_write_ok [OF 2(1), of "length bs" "of_nat (length bs)" bs]
    by (auto simp: rb_put_def rb_capacity_def rb_size_def)
next
  case (3 rb n)
  have "rb_count rb < 2 ^ 64" using rb_count_less [OF 3(1)] rb_wf_bounds(5) [OF 3(1)] by simp
  with 3 have "unat (of_nat n :: u64) = n" by (simp add: unat_of_nat_small)
  then show ?case
    using 3 rb_read_ok [OF 3(1), of n "of_nat n" "replicate n 0"]
    by (auto simp: rb_get_def rb_capacity_def rb_size_def)
qed

section \<open>Properties of the ring buffer\<close>

text \<open>C34: \<open>rb_write\<close> never fails on a valid buffer, keeps it valid, and appends as many of the
  \<open>n\<close> bytes as fit; the bytes already stored are untouched. The value returned is the free
  room before the call, not the number of bytes stored.\<close>

theorem rb_write_appends:
  assumes "rb_wf rb" "unat n \<le> length buffer"
  shows "\<exists>rb'. rb_write rb buffer n = Inr (rb_can_write rb, rb') \<and> rb_wf rb' \<and>
    rb_capacity rb' = rb_capacity rb \<and>
    rb_contents rb' = rb_contents rb
      @ take (min (unat n) (rb_capacity rb - length (rb_contents rb))) buffer"
proof -
  have "min (unat (rb_can_write rb)) (unat n) \<le> length buffer" using assms(2) by simp
  from rb_write_ok [OF assms(1) refl this] show ?thesis
    by (auto simp: unat_rb_can_write [OF assms(1)] min.commute dest: rb_capacity_cong)
qed

theorem rb_write_appends_witness:
  "\<exists>rb'. rb_write (rb_new (\<lambda>_. 0) 3) [1, 2, 3, 4, 5] 5 = Inr (3, rb') \<and>
    rb_contents rb' = [1, 2, 3]"
proof -
  let ?rb = "rb_new (\<lambda>_. 0) 3"
  have new: "rb_wf ?rb" "rb_contents ?rb = []" "rb_capacity ?rb = 3"
    using rb_new_ok [of 3 "\<lambda>_. 0"] by simp_all
  have "rb_can_write ?rb = 3" by (simp add: rb_can_write_def rb_new_def)
  with rb_write_appends [of ?rb 5 "[1, 2, 3, 4, 5]"] new show ?thesis by auto
qed

text \<open>\<open>rb_read\<close> never fails on a valid buffer and a target block that is large enough, hands
  out the oldest bytes in order, removes exactly those, and leaves the rest of the target
  block alone.\<close>

theorem rb_read_removes:
  assumes "rb_wf rb" "unat n \<le> length buffer"
  shows "\<exists>rb'. rb_read rb buffer n = Inr (rb_can_read rb,
      take (unat n) (rb_contents rb) @ drop (min (unat n) (length (rb_contents rb))) buffer, rb') \<and>
    rb_wf rb' \<and> rb_capacity rb' = rb_capacity rb \<and>
    rb_contents rb' = drop (unat n) (rb_contents rb)"
proof -
  let ?m = "min (rb_count rb) (unat n)"
  have "take ?m (rb_contents rb) = take (unat n) (rb_contents rb)"
    "drop ?m (rb_contents rb) = drop (unat n) (rb_contents rb)"
    by (simp_all add: min_def)
  moreover have "?m \<le> length buffer" using assms(2) by simp
  ultimately show ?thesis
    using rb_read_ok [OF assms(1) refl, of n buffer]
    by (auto simp: min.commute dest: rb_capacity_cong)
qed

theorem rb_read_removes_witness:
  "\<exists>rb'. rb_read (rb_new (\<lambda>_. 0) 3) [9, 9] 2 = Inr (0, [9, 9], rb') \<and> rb_contents rb' = []"
proof -
  let ?rb = "rb_new (\<lambda>_. 0) 3"
  have new: "rb_wf ?rb" "rb_contents ?rb = []"
    using rb_new_ok [of 3 "\<lambda>_. 0"] by simp_all
  have "rb_can_read ?rb = 0" by (simp add: rb_can_read_def rb_new_def)
  with rb_read_removes [of ?rb 2 "[9, 9]"] new show ?thesis by auto
qed

text \<open>The two size queries, computed in wrapping 64-bit arithmetic, always add up to the
  capacity, and one of them is the number of stored bytes.\<close>

theorem rb_sizes_exact:
  assumes "rb_wf rb"
  shows "unat (rb_can_read rb) = length (rb_contents rb) \<and>
    unat (rb_can_read rb) + unat (rb_can_write rb) = rb_capacity rb"
  using unat_rb_can_read [OF assms] rb_capacity_room [OF assms] by simp_all

theorem rb_sizes_exact_witness:
  "unat (rb_can_read (rb_new (\<lambda>_. 0) 3)) + unat (rb_can_write (rb_new (\<lambda>_. 0) 3)) = 3"
  using rb_sizes_exact [of "rb_new (\<lambda>_. 0) 3"] rb_new_ok [of 3 "\<lambda>_. 0"] by simp

text \<open>A fresh buffer of capacity \<open>sz\<close> that receives \<open>sz\<close> bytes in any division into chunks
  is then full and hands out exactly those bytes, after which it is empty and reusable.\<close>

theorem rb_fill_and_drain:
  assumes "sz + 1 \<noteq> 0" "length (concat cs) = unat sz"
  shows "\<exists>rb rb'. rbq.put_chunks (rb_new junk sz) cs = Inr rb \<and> rb_can_write rb = 0 \<and>
    rb_get rb (unat sz) = Inr (concat cs, rb') \<and> rb_wf rb' \<and> rb_contents rb' = [] \<and>
    rb_capacity rb' = unat sz"
proof -
  have len: "length (concat cs) = rb_capacity (rb_new junk sz)"
    using assms rb_new_ok(3) by simp
  show ?thesis
    using rbq.fill_and_drain [OF rb_new_ok(1,2) [OF assms(1)] len]
    by (auto simp: rb_new_ok(3) [OF assms(1)] unsigned_eq_0_iff)
qed

theorem rb_fill_and_drain_witness:
  "\<exists>rb rb'. rbq.put_chunks (rb_new (\<lambda>_. 0) 3) [[1], [2, 3]] = Inr rb \<and> rb_can_write rb = 0 \<and>
    rb_get rb 3 = Inr ([1, 2, 3], rb')"
  using rb_fill_and_drain [of 3 "[[1], [2, 3]]" "\<lambda>_. 0"] by fastforce

end
