(* ===== verification/Server.thy ===== *)
theory Server
  imports Packet Ring_Buffer Net_IO
begin

text \<open>
  The event loop of a peer, \<open>praxis2/src/server.c\<close>: the list of connected clients, the
  reassembly of packets from the byte streams of the clients, the delivery of complete
  packets to a callback, and the removal of clients. A client is a record with its heap
  address \<open>c_id\<close>, by which the code's pointers to it are modelled: following a pointer to a
  client that was freed is an error. The callback \<open>packet_cb\<close> (\<^const>\<open>None\<close> for \<open>NULL\<close>)
  is an argument of the definitions; the peer's own callback is supplied in the theory of the peer.
\<close>

section \<open>Structures\<close>

datatype client_state = IDLE | HDR_RECVD | REMOVE

record client =
  c_id :: nat
  c_socket :: int
  state :: client_state
  header_buf :: ring_buffer
  pkt_buf :: "ring_buffer option"
  pack :: "packet option"

text \<open>\<open>next_id\<close> is the allocator's next free address for a client.\<close>

record server =
  s_socket :: int
  n_clients :: int
  active :: bool
  clients :: "client list"
  next_id :: nat

definition CB_REMOVE_CLIENT :: int where "CB_REMOVE_CLIENT = -1"
definition CB_OK :: int where "CB_OK = 0"

type_synonym 'w callback =
  "server \<Rightarrow> nat \<Rightarrow> packet option \<Rightarrow> 'w net_scheme \<Rightarrow> (int \<times> server \<times> 'w net_scheme) res"

text \<open>Reading and writing a client through a pointer.\<close>

definition client_at :: "server \<Rightarrow> nat \<Rightarrow> client res" where
  "client_at srv a = (case find (\<lambda>c. c_id c = a) (clients srv) of
     None \<Rightarrow> Inl Use_After_Free | Some c \<Rightarrow> Inr c)"

definition put_client :: "client \<Rightarrow> server \<Rightarrow> server" where
  "put_client c srv = srv\<lparr>clients := map (\<lambda>d. if c_id d = c_id c then c else d) (clients srv)\<rparr>"

section \<open>Operations\<close>

fun mark_socket :: "int \<Rightarrow> client list \<Rightarrow> client list" where
  "mark_socket sock [] = []"
| "mark_socket sock (c # cs) =
     (if c_socket c = sock then c\<lparr>state := REMOVE\<rparr> # cs else c # mark_socket sock cs)"

definition server_close_socket :: "server \<Rightarrow> int \<Rightarrow> server" where
  "server_close_socket srv sock = srv\<lparr>clients := mark_socket sock (clients srv)\<rparr>"

text \<open>A client that is not in the list is reported and nothing happens.\<close>

definition server_remove_client ::
  "server \<Rightarrow> nat \<Rightarrow> 'w net_scheme \<Rightarrow> server \<times> 'w net_scheme" where
  "server_remove_client srv a w = (case find (\<lambda>c. c_id c = a) (clients srv) of
     None \<Rightarrow> (srv, w)
   | Some c \<Rightarrow> (srv\<lparr>clients := remove1 c (clients srv), n_clients := n_clients srv - 1\<rparr>,
       sys_close (c_socket c) w))"

definition client_decode_hdr :: "(nat \<Rightarrow> byte) \<Rightarrow> client \<Rightarrow> client res" where
  "client_decode_hdr junk c =
     bind_res (rb_read (header_buf c) (malloc junk PKT_HEADER_LEN) (of_nat PKT_HEADER_LEN))
       (\<lambda>(_, hdr, rb).
     bind_res (packet_decode_hdr hdr PKT_HEADER_LEN) (\<lambda>po.
     case po of None \<Rightarrow> Inl Null_Deref
     | Some p \<Rightarrow>
       Inr (c\<lparr>state := HDR_RECVD, header_buf := rb, pack := Some p,
         pkt_buf := Some (rb_new junk (of_nat (packet_body_size p)))\<rparr>)))"

definition client_decode_body :: "(nat \<Rightarrow> byte) \<Rightarrow> client \<Rightarrow> client res" where
  "client_decode_body junk c =
     (case (pkt_buf c, pack c) of
        (Some pb, Some p) \<Rightarrow>
          let avail = rb_can_read pb in
          bind_res (rb_read pb (malloc junk (unat avail)) avail) (\<lambda>(_, buffer, _).
          bind_res (packet_decode_body p buffer (unat avail)) (\<lambda>po.
          Inr (c\<lparr>pack := po, state := IDLE, pkt_buf := None\<rparr>)))
      | _ \<Rightarrow> Inl Null_Deref)"

definition server_deliver_packet ::
  "'w callback option \<Rightarrow> nat \<Rightarrow> server \<Rightarrow> 'w net_scheme \<Rightarrow> (server \<times> 'w net_scheme) res" where
  "server_deliver_packet packet_cb a srv w =
     (case packet_cb of None \<Rightarrow> Inr (srv, w)
      | Some cb \<Rightarrow>
          bind_res (client_at srv a) (\<lambda>c.
          bind_res (cb srv a (pack c) w) (\<lambda>(rsp, srv, w).
          if rsp = CB_REMOVE_CLIENT then Inr (server_remove_client srv a w) else Inr (srv, w))))"

text \<open>\<open>accept\<close> returned \<open>fd\<close>; the new client goes to the front.\<close>

definition server_add_client :: "(nat \<Rightarrow> byte) \<Rightarrow> int \<Rightarrow> server \<Rightarrow> server" where
  "server_add_client junk fd srv =
     srv\<lparr>clients := \<lparr>c_id = next_id srv, c_socket = fd, state = IDLE,
           header_buf = rb_new junk (of_nat PKT_HEADER_LEN), pkt_buf = None, pack = None\<rparr> # clients srv,
         n_clients := n_clients srv + 1, next_id := Suc (next_id srv)\<rparr>"

fun server_stop_loop :: "nat list \<Rightarrow> server \<Rightarrow> 'w net_scheme \<Rightarrow> server \<times> 'w net_scheme" where
  "server_stop_loop [] srv w = (srv, w)"
| "server_stop_loop (a # as) srv w =
     (case server_remove_client srv a w of (srv, w) \<Rightarrow> server_stop_loop as srv w)"

definition server_stop :: "server \<Rightarrow> 'w net_scheme \<Rightarrow> server \<times> 'w net_scheme" where
  "server_stop srv w = server_stop_loop (map c_id (clients srv)) srv w"

section \<open>The event loop\<close>

text \<open>A \<open>size_t\<close> stored in an \<open>int\<close>; it sizes an array, which must not be negative.\<close>

definition to_int :: "u64 \<Rightarrow> int" where
  "to_int n = sint (ucast n :: u32)"

definition recv_into :: "ring_buffer \<Rightarrow> int \<Rightarrow> 'w net_scheme \<Rightarrow> (int \<times> ring_buffer \<times> 'w net_scheme) res" where
  "recv_into rb fd w =
     (let bytes_needed = to_int (rb_can_write rb) in
      if bytes_needed < 0 then Inl Out_Of_Bounds
      else bind_res (sys_recv fd (nat bytes_needed) w) (\<lambda>(nbytes, buffer, w).
        if nbytes > 0
        then bind_res (rb_write rb buffer (of_int nbytes)) (\<lambda>(_, rb). Inr (nbytes, rb, w))
        else Inr (nbytes, rb, w)))"

text \<open>One ready client: the body of the loop over the clients.\<close>

definition serve_client ::
  "'w callback option \<Rightarrow> (nat \<Rightarrow> byte) \<Rightarrow> nat \<Rightarrow> int \<Rightarrow> server \<Rightarrow> 'w net_scheme \<Rightarrow> (server \<times> 'w net_scheme) res" where
  "serve_client packet_cb junk a fd srv w =
     bind_res (client_at srv a) (\<lambda>c.
     if state c = IDLE then
       bind_res (recv_into (header_buf c) fd w) (\<lambda>(nbytes, rb, w).
       if nbytes > 0 then
         let c = c\<lparr>header_buf := rb\<rparr> in
         if rb_can_read rb = of_nat PKT_HEADER_LEN
         then bind_res (client_decode_hdr junk c) (\<lambda>c. Inr (put_client c srv, w))
         else Inr (put_client c srv, w)
       else if nbytes = 0 then Inr (server_remove_client srv a w)
       else Inr (srv, w))
     else case pkt_buf c of None \<Rightarrow> Inl Null_Deref
     | Some pb \<Rightarrow>
       bind_res (recv_into pb fd w) (\<lambda>(nbytes, rb, w).
       if nbytes > 0 then
         let c = c\<lparr>pkt_buf := Some rb\<rparr> in
         if rb_can_write rb = 0
         then bind_res (client_decode_body junk c) (\<lambda>c.
              server_deliver_packet packet_cb a (put_client c srv) w)
         else Inr (put_client c srv, w)
       else if nbytes = 0 then Inr (server_remove_client srv a w)
       else Inr (srv, w)))"

text \<open>The pointer \<open>c->next\<close>.\<close>

fun next_in :: "nat \<Rightarrow> client list \<Rightarrow> nat option res" where
  "next_in a [] = Inl Use_After_Free"
| "next_in a (c # cs) = (if c_id c = a then Inr (case cs of [] \<Rightarrow> None | d # _ \<Rightarrow> Some (c_id d)) else next_in a cs)"

text \<open>
  The loop over the clients: \<open>k\<close> is \<open>i - 2\<close>, \<open>fds\<close> the unread rest of the array, each
  entry with its descriptor and whether \<open>revents\<close> equals \<open>POLLIN\<close>.
\<close>

fun serve_loop ::
  "'w callback option \<Rightarrow> (nat \<Rightarrow> byte) \<Rightarrow> (int \<times> bool) list \<Rightarrow> int \<Rightarrow> nat option \<Rightarrow> server \<Rightarrow> 'w net_scheme
     \<Rightarrow> (server \<times> 'w net_scheme) res" where
  "serve_loop cb junk fds k None srv w = Inr (srv, w)"
| "serve_loop cb junk [] k (Some a) srv w = (if k < n_clients srv then Inl Out_Of_Bounds else Inr (srv, w))"
| "serve_loop cb junk ((fd, ready) # fds) k (Some a) srv w =
     (if k < n_clients srv then
        bind_res (next_in a (clients srv)) (\<lambda>nxt.
        bind_res (if ready then serve_client cb junk a fd srv w else Inr (srv, w)) (\<lambda>(srv, w).
        serve_loop cb junk fds (k + 1) nxt srv w))
      else Inr (srv, w))"

text \<open>The second loop: removal of the marked clients.\<close>

fun sweep_loop :: "nat list \<Rightarrow> server \<Rightarrow> 'w net_scheme \<Rightarrow> (server \<times> 'w net_scheme) res" where
  "sweep_loop [] srv w = Inr (srv, w)"
| "sweep_loop (a # as) srv w =
     bind_res (client_at srv a) (\<lambda>c.
     case (if state c = REMOVE then server_remove_client srv a w else (srv, w)) of
       (srv, w) \<Rightarrow> sweep_loop as srv w)"

definition first_client :: "server \<Rightarrow> nat option" where
  "first_client srv = (case clients srv of [] \<Rightarrow> None | c # _ \<Rightarrow> Some (c_id c))"

text \<open>
  What \<open>poll\<close> reports: an error, a timeout, or readiness of standard input, of the listening
  socket (with the descriptor that \<open>accept\<close> will return) and of each client in list order.
\<close>

datatype poll_result =
  PollError
| PollTimeout
| PollReady bool "int option" "bool list"

definition serve_ready ::
  "'w callback option \<Rightarrow> (nat \<Rightarrow> byte) \<Rightarrow> int option \<Rightarrow> bool list \<Rightarrow> server \<Rightarrow> 'w net_scheme \<Rightarrow> (server \<times> 'w net_scheme) res" where
  "serve_ready cb junk accepted ready srv w =
     bind_res (serve_loop cb junk (zip (map c_socket (clients srv)) ready) 0 (first_client srv) srv w)
       (\<lambda>(srv, w).
     bind_res (sweep_loop (map c_id (clients srv)) srv w) (\<lambda>(srv, w).
     Inr (case accepted of None \<Rightarrow> srv | Some fd \<Rightarrow> server_add_client junk fd srv, w)))"

fun server_run_loop ::
  "'w callback option \<Rightarrow> (nat \<Rightarrow> byte) \<Rightarrow> poll_result list \<Rightarrow> server \<Rightarrow> 'w net_scheme \<Rightarrow> (server \<times> 'w net_scheme) res" where
  "server_run_loop cb junk polls srv w =
     (if \<not> active srv then Inr (server_stop srv w)
      else case polls of
        [] \<Rightarrow> Inl Blocked
      | PollError # _ \<Rightarrow> Inr (server_stop srv w)
      | PollTimeout # polls \<Rightarrow> server_run_loop cb junk polls srv w
      | PollReady stdin_ready accepted ready # polls \<Rightarrow>
          if stdin_ready then Inr (server_stop srv w)
          else bind_res (serve_ready cb junk accepted ready srv w) (\<lambda>(srv, w).
            server_run_loop cb junk polls srv w))"

declare server_run_loop.simps [simp del]

definition server_run ::
  "'w callback option \<Rightarrow> (nat \<Rightarrow> byte) \<Rightarrow> poll_result list \<Rightarrow> server \<Rightarrow> 'w net_scheme \<Rightarrow> (server \<times> 'w net_scheme) res" where
  "server_run cb junk polls srv w = server_run_loop cb junk polls (srv\<lparr>active := True\<rparr>) w"

text \<open>
  \<open>server_setup\<close>: \<open>res\<close> is the outcome of \<open>getaddrinfo\<close>; after a failure the code goes on
  with an uninitialised pointer. \<open>binds\<close> are the answers of \<open>bind\<close>.
\<close>

fun setup_loop ::
  "addrinfo list \<Rightarrow> int list \<Rightarrow> int \<Rightarrow> int \<Rightarrow> 'w net_scheme \<Rightarrow> ((int \<times> int) option \<times> 'w net_scheme) res" where
  "setup_loop [] binds s status w = Inr (Some (s, status), w)"
| "setup_loop (r # rs) binds s status w =
     bind_res (sys_socket w) (\<lambda>(s, w).
     if s < 0 then Inr (None, w)
     else case binds of [] \<Rightarrow> Inl Blocked
     | b # binds \<Rightarrow>
         if b < 0 then setup_loop rs binds s b (sys_close s w)
         else Inr (Some (s, b), w))"

definition server_setup ::
  "addrinfo list option \<Rightarrow> int list \<Rightarrow> 'w net_scheme \<Rightarrow> (server option \<times> 'w net_scheme) res" where
  "server_setup res binds w =
     (case res of None \<Rightarrow> Inl Use_After_Free
      | Some ais \<Rightarrow>
          bind_res (setup_loop ais binds (-1) 0 w) (\<lambda>(r, w).
          Inr (case r of None \<Rightarrow> None
            | Some (s, status) \<Rightarrow>
                if status < 0 then None
                else Some \<lparr>s_socket = s, n_clients = 0, active = False, clients = [], next_id = 0\<rparr>, w)))"

section \<open>Invariant\<close>

definition body_pending :: "client \<Rightarrow> bool" where
  "body_pending c \<longleftrightarrow> (\<exists>pb h. pkt_buf c = Some pb \<and> pack c = Some h \<and> rb_wf pb \<and>
     rb_capacity pb = packet_body_size h \<and> (rb_count pb < packet_body_size h \<or> packet_body_size h = 0))"

definition client_wf :: "client \<Rightarrow> bool" where
  "client_wf c \<longleftrightarrow> rb_wf (header_buf c) \<and> rb_capacity (header_buf c) = 7 \<and> rb_count (header_buf c) < 7 \<and>
     (state c = IDLE \<longrightarrow> pkt_buf c = None) \<and>
     (state c = HDR_RECVD \<longrightarrow> pkt_buf c \<noteq> None) \<and> (pkt_buf c \<noteq> None \<longrightarrow> body_pending c)"

definition srv_wf :: "server \<Rightarrow> bool" where
  "srv_wf srv \<longleftrightarrow> distinct (map c_id (clients srv)) \<and> n_clients srv = int (length (clients srv)) \<and>
     (\<forall>c \<in> set (clients srv). client_wf c \<and> c_id c < next_id srv)"

section \<open>Receiving into a buffer\<close>

lemma unat_ucast_small: "unat (w::u64) < 2 ^ 31 \<Longrightarrow> unat (ucast w :: u32) = unat w"
proof -
  assume lt: "unat w < 2 ^ 31"
  have *: "unat w < 2 ^ 32" using lt by simp
  show ?thesis by (simp only: unsigned_ucast_eq) (rule take_bit_nat_eq_self, use * in simp)
qed

lemma sint_small: "unat (v::u32) < 2 ^ 31 \<Longrightarrow> sint v = int (unat v)"
proof -
  assume lt: "unat v < 2 ^ 31"
  then have "int (unat v) < int (2 ^ 31)" by (simp only: of_nat_less_iff)
  then have "0 \<le> uint v" "uint v < 2 ^ 31" by simp_all
  then have "signed_take_bit 31 (uint v) = uint v"
    by (intro signed_take_bit_int_eq_self) linarith+
  then show ?thesis by (simp add: sint_uint)
qed

lemma to_int_small: "unat w < 2 ^ 31 \<Longrightarrow> to_int w = int (unat w)"
  by (simp only: to_int_def sint_small unat_ucast_small)

text \<open>One \<open>recv\<close> on a stream that arrives in the chunks \<open>cs\<close>.\<close>

lemma recv_q_chunks:
  assumes "\<forall>c \<in> set cs. c \<noteq> []" "cs \<noteq> []" "0 < n"
  shows "\<exists>m cs'. recv_q n (map RData cs @ rest) = Inr (int m, take m (concat cs), map RData cs' @ rest) \<and>
     0 < m \<and> m \<le> n \<and> m \<le> length (concat cs) \<and> (\<forall>c \<in> set cs'. c \<noteq> []) \<and> concat cs' = drop m (concat cs)"
proof -
  obtain c cs1 where cs: "cs = c # cs1" "c \<noteq> []" using assms(1,2) by (cases cs) auto
  show ?thesis
  proof (cases "length c \<le> n")
    case True
    then show ?thesis using cs assms(1)
      by (intro exI [of _ "length c"] exI [of _ cs1]) auto
  next
    case False
    then show ?thesis using cs assms
      by (intro exI [of _ n] exI [of _ "drop n c # cs1"]) auto
  qed
qed

definition feed :: "int \<Rightarrow> byte list list \<Rightarrow> recv_res list \<Rightarrow> 'w net_scheme \<Rightarrow> 'w net_scheme" where
  "feed fd cs rest w = w\<lparr>inq := (inq w)(fd := map RData cs @ rest)\<rparr>"

lemma feed_feed [simp]: "feed fd cs rest (feed fd cs' rest' w) = feed fd cs rest w"
  by (simp add: feed_def)

lemma recv_into_chunks:
  assumes wf: "rb_wf rb" and room: "0 < unat (rb_can_write rb)" "unat (rb_can_write rb) < 2 ^ 31"
    and cs: "\<forall>c \<in> set cs. c \<noteq> []" "cs \<noteq> []"
  shows "\<exists>m rb' cs'. recv_into rb fd (feed fd cs rest w) = Inr (int m, rb', feed fd cs' rest w) \<and>
     0 < m \<and> m \<le> unat (rb_can_write rb) \<and> m \<le> length (concat cs) \<and>
     (\<forall>c \<in> set cs'. c \<noteq> []) \<and> concat cs' = drop m (concat cs) \<and>
     rb_wf rb' \<and> bufsize rb' = bufsize rb \<and> rb_contents rb' = rb_contents rb @ take m (concat cs)"
proof -
  let ?n = "unat (rb_can_write rb)"
  obtain m cs' where m: "recv_q ?n (map RData cs @ rest) = Inr (int m, take m (concat cs), map RData cs' @ rest)"
    "0 < m" "m \<le> ?n" "m \<le> length (concat cs)" "\<forall>c \<in> set cs'. c \<noteq> []" "concat cs' = drop m (concat cs)"
    using recv_q_chunks [OF cs room(1)] by blast
  have "m < 2 ^ 64" using m(3) room(2) by simp
  then have um: "unat (of_int (int m) :: u64) = m" by (simp add: unat_of_nat)
  obtain rb' where rb': "rb_write rb (take m (concat cs)) (of_int (int m)) = Inr (rb_can_write rb, rb')"
    "rb_wf rb'" "bufsize rb' = bufsize rb" "rb_contents rb' = rb_contents rb @ take m (take m (concat cs))"
    using rb_write_ok [OF wf, of m "of_int (int m)" "take m (concat cs)"] m(3,4) um by auto
  have "recv_into rb fd (feed fd cs rest w) = Inr (int m, rb', feed fd cs' rest w)"
    using m(1,2) rb'(1) to_int_small [OF room(2)]
    by (simp add: recv_into_def sys_recv_def feed_def Let_def)
  then show ?thesis using m rb' by (metis take_take min.idem)
qed

section \<open>Clients in the list\<close>

definition with_client :: "client \<Rightarrow> server \<Rightarrow> bool" where
  "with_client c srv \<longleftrightarrow> c \<in> set (clients srv) \<and> distinct (map c_id (clients srv))"

lemma find_distinct:
  "distinct (map f xs) \<Longrightarrow> x \<in> set xs \<Longrightarrow> find (\<lambda>y. f y = f x) xs = Some x"
  by (induction xs) (auto dest: image_eqI [of _ f])

lemma client_at_with: "with_client c srv \<Longrightarrow> client_at srv (c_id c) = Inr c"
  by (simp add: with_client_def client_at_def find_distinct)

lemma put_client_ids [simp]: "map c_id (clients (put_client c srv)) = map c_id (clients srv)"
  by (simp add: put_client_def)

lemma with_put_client: "with_client c srv \<Longrightarrow> c_id c' = c_id c \<Longrightarrow> with_client c' (put_client c' srv)"
  unfolding with_client_def put_client_ids by (auto simp: put_client_def intro: rev_image_eqI)

lemma put_put_client [simp]: "c_id c = c_id c' \<Longrightarrow> put_client c (put_client c' srv) = put_client c srv"
  by (simp add: put_client_def comp_def)

section \<open>Reassembly of a packet\<close>

text \<open>The loop body run \<open>n\<close> times for one client.\<close>

primrec serve_n ::
  "'w callback option \<Rightarrow> (nat \<Rightarrow> byte) \<Rightarrow> nat \<Rightarrow> int \<Rightarrow> nat \<Rightarrow> server \<Rightarrow> 'w net_scheme \<Rightarrow> (server \<times> 'w net_scheme) res" where
  "serve_n cb junk a fd 0 srv w = Inr (srv, w)"
| "serve_n cb junk a fd (Suc n) srv w =
     bind_res (serve_client cb junk a fd srv w) (\<lambda>(srv, w). serve_n cb junk a fd n srv w)"

text \<open>
  One such run that reads bytes without completing a packet: only the client changes, it keeps
  its socket and it is not marked for removal.
\<close>

definition reading ::
  "'w callback option \<Rightarrow> (nat \<Rightarrow> byte) \<Rightarrow> nat \<Rightarrow> int \<Rightarrow> server \<times> 'w net_scheme \<Rightarrow> server \<times> 'w net_scheme \<Rightarrow> bool" where
  "reading cb junk a fd s t \<longleftrightarrow> serve_client cb junk a fd (fst s) (snd s) = Inr t \<and>
     (\<exists>d c. client_at (fst s) a = Inr d \<and> fst t = put_client c (fst s) \<and> c_id c = a \<and> c_socket c = c_socket d \<and> state c \<noteq> REMOVE)"

lemma reading_serve_n: "(reading cb junk a fd)\<^sup>*\<^sup>* s t \<Longrightarrow>
  \<exists>m. \<forall>n. serve_n cb junk a fd (m + n) (fst s) (snd s) = serve_n cb junk a fd n (fst t) (snd t)"
proof (induction rule: converse_rtranclp_induct)
  case base
  show ?case by (rule exI [of _ 0]) simp
next
  case (step s u)
  then obtain m where "\<forall>n. serve_n cb junk a fd (m + n) (fst u) (snd u) = serve_n cb junk a fd n (fst t) (snd t)" by blast
  with step.hyps(1) show ?case by (intro exI [of _ "Suc m"]) (simp add: reading_def split_beta)
qed

lemma bind_res_id [simp]: "bind_res m Inr = m"
  by (cases m) auto

definition hdr_phase :: "client \<Rightarrow> byte list \<Rightarrow> bool" where
  "hdr_phase c hb \<longleftrightarrow> state c = IDLE \<and> rb_wf (header_buf c) \<and> rb_capacity (header_buf c) = 7 \<and>
     rb_contents (header_buf c) = hb \<and> length hb < 7"

lemma rb_room: "rb_wf rb \<Longrightarrow> rb_contents rb = hb \<Longrightarrow> unat (rb_can_write rb) = rb_capacity rb - length hb"
  using rb_capacity_room [of rb] length_rb_contents [of rb] by auto

lemma rb_can_read_eq: "rb_wf rb \<Longrightarrow> n < 2 ^ 64 \<Longrightarrow> rb_can_read rb = of_nat n \<longleftrightarrow> length (rb_contents rb) = n"
  using unat_rb_can_read [of rb]
  by (metis length_rb_contents unat_of_nat_small unsigned_word_eqI)

lemma serve_header_step:
  assumes c: "with_client c srv" "hdr_phase c hb" and cs: "\<forall>x \<in> set cs. x \<noteq> []" "cs \<noteq> []"
  shows "\<exists>m cs' rb. serve_client cb junk (c_id c) fd srv (feed fd cs rest w) =
       (if length hb + m = 7
        then bind_res (client_decode_hdr junk (c\<lparr>header_buf := rb\<rparr>)) (\<lambda>c. Inr (put_client c srv, feed fd cs' rest w))
        else Inr (put_client (c\<lparr>header_buf := rb\<rparr>) srv, feed fd cs' rest w)) \<and>
     0 < m \<and> m \<le> 7 - length hb \<and> m \<le> length (concat cs) \<and> (\<forall>x \<in> set cs'. x \<noteq> []) \<and>
     concat cs' = drop m (concat cs) \<and> rb_wf rb \<and> rb_capacity rb = 7 \<and> rb_contents rb = hb @ take m (concat cs)"
proof -
  have wf: "rb_wf (header_buf c)" and hb: "length hb < 7" "rb_contents (header_buf c) = hb"
    using c(2) by (simp_all add: hdr_phase_def)
  have room: "unat (rb_can_write (header_buf c)) = 7 - length hb"
    using rb_room [OF wf hb(2)] c(2) by (simp add: hdr_phase_def)
  then have "0 < unat (rb_can_write (header_buf c))" "unat (rb_can_write (header_buf c)) < 2 ^ 31"
    using hb(1) by simp_all
  from recv_into_chunks [OF wf this cs, of fd rest w] obtain m rb cs' where
    m: "recv_into (header_buf c) fd (feed fd cs rest w) = Inr (int m, rb, feed fd cs' rest w)"
      "0 < m" "m \<le> 7 - length hb" "m \<le> length (concat cs)" "\<forall>x \<in> set cs'. x \<noteq> []" "concat cs' = drop m (concat cs)"
      "rb_wf rb" "bufsize rb = bufsize (header_buf c)" "rb_contents rb = hb @ take m (concat cs)"
    unfolding room hb(2) by blast
  have cap: "rb_capacity rb = 7" using rb_capacity_cong [OF m(8)] c(2) by (simp add: hdr_phase_def)
  have full: "rb_can_read rb = 7 \<longleftrightarrow> length hb + m = 7"
    using rb_can_read_eq [OF m(7), of 7] m(4,9) by simp
  have "serve_client cb junk (c_id c) fd srv (feed fd cs rest w) =
       (if length hb + m = 7
        then bind_res (client_decode_hdr junk (c\<lparr>header_buf := rb\<rparr>)) (\<lambda>c. Inr (put_client c srv, feed fd cs' rest w))
        else Inr (put_client (c\<lparr>header_buf := rb\<rparr>) srv, feed fd cs' rest w))"
    using c m(1,2) full by (simp add: serve_client_def client_at_with hdr_phase_def PKT_HEADER_LEN_def Let_def)
  then show ?thesis using m cap by blast
qed

lemma client_decode_hdr_ok:
  assumes "rb_wf (header_buf c)" "rb_contents (header_buf c) = hdr" "length hdr = 7"
    "packet_decode_hdr hdr 7 = Inr (Some h)"
  shows "\<exists>rb. client_decode_hdr junk c = Inr (c\<lparr>state := HDR_RECVD, header_buf := rb, pack := Some h,
         pkt_buf := Some (rb_new junk (of_nat (packet_body_size h)))\<rparr>) \<and>
     rb_wf rb \<and> bufsize rb = bufsize (header_buf c) \<and> rb_contents rb = []"
proof -
  have "rb_count (header_buf c) = 7" using assms(2,3) length_rb_contents by metis
  then obtain rb where "rb_read (header_buf c) (malloc junk 7) 7 =
        Inr (rb_can_read (header_buf c), hdr, rb)" "rb_wf rb" "bufsize rb = bufsize (header_buf c)" "rb_contents rb = []"
    using rb_read_ok [OF assms(1), of 7 7 "malloc junk 7"] assms(2,3) by auto
  then show ?thesis using assms(4) by (auto simp: client_decode_hdr_def PKT_HEADER_LEN_def)
qed

lemma serve_header:
  assumes "with_client c srv" "hdr_phase c hb" "\<forall>x \<in> set cs. x \<noteq> []" "7 \<le> length (hb @ concat cs)"
    "packet_decode_hdr (take 7 (hb @ concat cs)) 7 = Inr (Some h)"
  shows "\<exists>cs' rb. (reading cb junk (c_id c) fd)\<^sup>*\<^sup>* (srv, feed fd cs rest w)
       (put_client (c\<lparr>state := HDR_RECVD, header_buf := rb, pack := Some h,
         pkt_buf := Some (rb_new junk (of_nat (packet_body_size h)))\<rparr>) srv, feed fd cs' rest w) \<and>
     (\<forall>x \<in> set cs'. x \<noteq> []) \<and> concat cs' = drop 7 (hb @ concat cs) \<and>
     rb_wf rb \<and> rb_capacity rb = 7 \<and> rb_contents rb = []"
  using assms
proof (induction "length (concat cs)" arbitrary: c srv hb cs rule: less_induct)
  case less
  have ne: "cs \<noteq> []" and hb: "length hb < 7" using less.prems(2,4) by (auto simp: hdr_phase_def)
  obtain m cs' rb where step: "serve_client cb junk (c_id c) fd srv (feed fd cs rest w) =
       (if length hb + m = 7
        then bind_res (client_decode_hdr junk (c\<lparr>header_buf := rb\<rparr>)) (\<lambda>c. Inr (put_client c srv, feed fd cs' rest w))
        else Inr (put_client (c\<lparr>header_buf := rb\<rparr>) srv, feed fd cs' rest w))"
    and m: "0 < m" "m \<le> 7 - length hb" "m \<le> length (concat cs)" "\<forall>x \<in> set cs'. x \<noteq> []"
     "concat cs' = drop m (concat cs)" "rb_wf rb" "rb_capacity rb = 7" "rb_contents rb = hb @ take m (concat cs)"
    using serve_header_step [OF less.prems(1-3) ne] by blast
  let ?c = "c\<lparr>header_buf := rb\<rparr>"
  show ?case
  proof (cases "length hb + m = 7")
    case True
    have "7 - length hb = m" using True by linarith
    then have "take 7 (hb @ concat cs) = hb @ take m (concat cs)" using hb by simp
    with client_decode_hdr_ok [of ?c "hb @ take m (concat cs)" h junk] less.prems(5) m(3,6,8) True
    obtain rb' where rb': "client_decode_hdr junk ?c = Inr (?c\<lparr>state := HDR_RECVD, header_buf := rb', pack := Some h,
         pkt_buf := Some (rb_new junk (of_nat (packet_body_size h)))\<rparr>)" "rb_wf rb'" "bufsize rb' = bufsize rb" "rb_contents rb' = []"
      by auto
    have "concat cs' = drop 7 (hb @ concat cs)" using m(5) \<open>7 - length hb = m\<close> hb by simp
    moreover have "reading cb junk (c_id c) fd (srv, feed fd cs rest w) (put_client (c\<lparr>state := HDR_RECVD, header_buf := rb',
        pack := Some h, pkt_buf := Some (rb_new junk (of_nat (packet_body_size h)))\<rparr>) srv, feed fd cs' rest w)"
      using step True rb'(1) client_at_with [OF less.prems(1)] by (auto simp: reading_def)
    ultimately show ?thesis using rb'(2,4) m(4) rb_capacity_cong [OF rb'(3)] m(7)
      by (intro exI [of _ cs'] exI [of _ rb']) auto
  next
    case False
    have app: "(hb @ take m (concat cs)) @ concat cs' = hb @ concat cs" using m(5) by simp
    have c': "with_client ?c (put_client ?c srv)" using with_put_client [OF less.prems(1)] by simp
    have ph: "hdr_phase ?c (hb @ take m (concat cs))"
      using less.prems(2) m False by (simp add: hdr_phase_def)
    have "length (concat cs') < length (concat cs)" using m(1,3,5) by simp
    from less.hyps [OF this c' ph m(4), unfolded app, OF less.prems(4,5)]
    obtain cs2 rb2 where "(reading cb junk (c_id ?c) fd)\<^sup>*\<^sup>* (put_client ?c srv, feed fd cs' rest w)
       (put_client (?c\<lparr>state := HDR_RECVD, header_buf := rb2, pack := Some h,
         pkt_buf := Some (rb_new junk (of_nat (packet_body_size h)))\<rparr>) (put_client ?c srv), feed fd cs2 rest w)"
      "\<forall>x \<in> set cs2. x \<noteq> []" "concat cs2 = drop 7 (hb @ concat cs)" "rb_wf rb2" "rb_capacity rb2 = 7" "rb_contents rb2 = []"
      by auto
    moreover have "reading cb junk (c_id c) fd (srv, feed fd cs rest w) (put_client ?c srv, feed fd cs' rest w)"
      using step False less.prems(2) client_at_with [OF less.prems(1)] by (auto simp: reading_def hdr_phase_def)
    ultimately show ?thesis
      by (intro exI [of _ cs2] exI [of _ rb2]) (auto intro: converse_rtranclp_into_rtranclp)
  qed
qed

definition body_phase :: "client \<Rightarrow> packet \<Rightarrow> byte list \<Rightarrow> bool" where
  "body_phase c h bd \<longleftrightarrow> state c = HDR_RECVD \<and> pack c = Some h \<and>
     (\<exists>pb. pkt_buf c = Some pb \<and> rb_wf pb \<and> rb_capacity pb = packet_body_size h \<and> rb_contents pb = bd) \<and>
     length bd < packet_body_size h"

lemma rb_full: "rb_wf rb \<Longrightarrow> rb_can_write rb = 0 \<longleftrightarrow> length (rb_contents rb) = rb_capacity rb"
  using rb_capacity_room [of rb] length_rb_contents [of rb] by (auto simp: unat_eq_0 [symmetric])

lemma client_decode_body_ok:
  assumes "pkt_buf c = Some pb" "pack c = Some h" "rb_wf pb"
    "packet_decode_body h (rb_contents pb) (length (rb_contents pb)) = Inr q"
  shows "client_decode_body junk c = Inr (c\<lparr>pack := q, state := IDLE, pkt_buf := None\<rparr>)"
proof -
  let ?n = "length (rb_contents pb)"
  have n: "unat (rb_can_read pb) = ?n" using unat_rb_can_read [OF assms(3)] by simp
  obtain rb where "rb_read pb (malloc junk ?n) (rb_can_read pb) = Inr (rb_can_read pb, rb_contents pb, rb)"
    using rb_read_ok [OF assms(3), of ?n "rb_can_read pb" "malloc junk ?n"] n by auto
  then show ?thesis using assms n by (simp add: client_decode_body_def Let_def)
qed

lemma serve_body_step:
  assumes c: "with_client c srv" "body_phase c h bd" and sz: "packet_body_size h < 2 ^ 31"
    and cs: "\<forall>x \<in> set cs. x \<noteq> []" "cs \<noteq> []"
  shows "\<exists>m cs' rb. serve_client cb junk (c_id c) fd srv (feed fd cs rest w) =
       (if length bd + m = packet_body_size h
        then bind_res (client_decode_body junk (c\<lparr>pkt_buf := Some rb\<rparr>)) (\<lambda>c.
          server_deliver_packet cb (c_id c) (put_client c srv) (feed fd cs' rest w))
        else Inr (put_client (c\<lparr>pkt_buf := Some rb\<rparr>) srv, feed fd cs' rest w)) \<and>
     0 < m \<and> m \<le> packet_body_size h - length bd \<and> m \<le> length (concat cs) \<and> (\<forall>x \<in> set cs'. x \<noteq> []) \<and>
     concat cs' = drop m (concat cs) \<and> rb_wf rb \<and> rb_capacity rb = packet_body_size h \<and>
     rb_contents rb = bd @ take m (concat cs)"
proof -
  let ?N = "packet_body_size h"
  obtain pb where pb: "pkt_buf c = Some pb" "rb_wf pb" "rb_capacity pb = ?N" "rb_contents pb = bd"
    and bd: "length bd < ?N" and st: "state c = HDR_RECVD"
    using c(2) by (auto simp: body_phase_def)
  have room: "unat (rb_can_write pb) = ?N - length bd" using rb_room [OF pb(2,4)] pb(3) by simp
  then have "0 < unat (rb_can_write pb)" "unat (rb_can_write pb) < 2 ^ 31" using bd sz by simp_all
  from recv_into_chunks [OF pb(2) this cs, of fd rest w] obtain m rb cs' where
    m: "recv_into pb fd (feed fd cs rest w) = Inr (int m, rb, feed fd cs' rest w)"
      "0 < m" "m \<le> ?N - length bd" "m \<le> length (concat cs)" "\<forall>x \<in> set cs'. x \<noteq> []" "concat cs' = drop m (concat cs)"
      "rb_wf rb" "bufsize rb = bufsize pb" "rb_contents rb = bd @ take m (concat cs)"
    unfolding room pb(4) by blast
  have cap: "rb_capacity rb = ?N" using rb_capacity_cong [OF m(8)] pb(3) by simp
  have full: "rb_can_write rb = 0 \<longleftrightarrow> length bd + m = ?N"
    using rb_full [OF m(7)] cap m(4,9) by simp
  have "client_decode_body junk (c\<lparr>pkt_buf := Some rb\<rparr>) = Inr c' \<Longrightarrow> c_id c' = c_id c" for c'
    by (auto simp: client_decode_body_def Let_def bind_res_Inr_iff split: option.splits)
  then have "serve_client cb junk (c_id c) fd srv (feed fd cs rest w) =
       (if length bd + m = ?N
        then bind_res (client_decode_body junk (c\<lparr>pkt_buf := Some rb\<rparr>)) (\<lambda>c.
          server_deliver_packet cb (c_id c) (put_client c srv) (feed fd cs' rest w))
        else Inr (put_client (c\<lparr>pkt_buf := Some rb\<rparr>) srv, feed fd cs' rest w))"
    using c(1) pb(1) st m(1,2) full
    by (cases "client_decode_body junk (c\<lparr>pkt_buf := Some rb\<rparr>)")
      (simp_all add: serve_client_def client_at_with Let_def)
  then show ?thesis using m cap by blast
qed

lemma serve_body:
  assumes "with_client c srv" "body_phase c h bd" "packet_body_size h < 2 ^ 31"
    "\<forall>x \<in> set cs. x \<noteq> []" "packet_body_size h \<le> length (bd @ concat cs)"
    "packet_decode_body h (take (packet_body_size h) (bd @ concat cs)) (packet_body_size h) = Inr q"
  shows "\<exists>srv1 w1 cs'. (reading cb junk (c_id c) fd)\<^sup>*\<^sup>* (srv, feed fd cs rest w) (srv1, w1) \<and>
     serve_client cb junk (c_id c) fd srv1 w1 =
       server_deliver_packet cb (c_id c) (put_client (c\<lparr>pack := q, state := IDLE, pkt_buf := None\<rparr>) srv) (feed fd cs' rest w) \<and>
     (\<forall>x \<in> set cs'. x \<noteq> []) \<and> concat cs' = drop (packet_body_size h) (bd @ concat cs)"
  using assms
proof (induction "length (concat cs)" arbitrary: c srv bd cs rule: less_induct)
  case less
  let ?N = "packet_body_size h"
  have bd: "length bd < ?N" and ne: "cs \<noteq> []" using less.prems(2,5) by (auto simp: body_phase_def)
  obtain m cs' rb where step: "serve_client cb junk (c_id c) fd srv (feed fd cs rest w) =
       (if length bd + m = ?N
        then bind_res (client_decode_body junk (c\<lparr>pkt_buf := Some rb\<rparr>)) (\<lambda>c.
          server_deliver_packet cb (c_id c) (put_client c srv) (feed fd cs' rest w))
        else Inr (put_client (c\<lparr>pkt_buf := Some rb\<rparr>) srv, feed fd cs' rest w))"
    and m: "0 < m" "m \<le> ?N - length bd" "m \<le> length (concat cs)" "\<forall>x \<in> set cs'. x \<noteq> []"
     "concat cs' = drop m (concat cs)" "rb_wf rb" "rb_capacity rb = ?N" "rb_contents rb = bd @ take m (concat cs)"
    using serve_body_step [OF less.prems(1-4) ne] by blast
  let ?c = "c\<lparr>pkt_buf := Some rb\<rparr>"
  show ?case
  proof (cases "length bd + m = ?N")
    case True
    then have d: "?N - length bd = m" by linarith
    then have tk: "take ?N (bd @ concat cs) = rb_contents rb" and len: "length (rb_contents rb) = ?N"
      using bd m(3,8) True by simp_all
    have "client_decode_body junk ?c = Inr (?c\<lparr>pack := q, state := IDLE, pkt_buf := None\<rparr>)"
      using client_decode_body_ok [of ?c rb h q junk] less.prems(2,6) m(6) tk len by (simp add: body_phase_def)
    moreover have "concat cs' = drop ?N (bd @ concat cs)" using m(5) d bd by simp
    ultimately show ?thesis
      using step True m(4)
      by (intro exI [of _ srv] exI [of _ "feed fd cs rest w"] exI [of _ cs']) simp
  next
    case False
    have app: "(bd @ take m (concat cs)) @ concat cs' = bd @ concat cs" using m(5) by simp
    have c': "with_client ?c (put_client ?c srv)" using with_put_client [OF less.prems(1)] by simp
    have ph: "body_phase ?c h (bd @ take m (concat cs))"
      using less.prems(2) m False by (simp add: body_phase_def)
    have "length (concat cs') < length (concat cs)" using m(1,3,5) by simp
    from less.hyps [OF this c' ph less.prems(3) m(4), unfolded app, OF less.prems(5,6)]
    obtain srv1 w1 cs2 where "(reading cb junk (c_id ?c) fd)\<^sup>*\<^sup>* (put_client ?c srv, feed fd cs' rest w) (srv1, w1)"
      "serve_client cb junk (c_id ?c) fd srv1 w1 =
       server_deliver_packet cb (c_id ?c) (put_client (?c\<lparr>pack := q, state := IDLE, pkt_buf := None\<rparr>) (put_client ?c srv)) (feed fd cs2 rest w)"
      "\<forall>x \<in> set cs2. x \<noteq> []" "concat cs2 = drop ?N (bd @ concat cs)"
      by auto
    moreover have "reading cb junk (c_id c) fd (srv, feed fd cs rest w) (put_client ?c srv, feed fd cs' rest w)"
      using step False less.prems(2) client_at_with [OF less.prems(1)] by (auto simp: reading_def body_phase_def)
    ultimately show ?thesis
      by (intro exI [of _ srv1] exI [of _ w1] exI [of _ cs2]) (auto intro: converse_rtranclp_into_rtranclp)
  qed
qed

text \<open>An idle client with nothing buffered, as after \<open>server_add_client\<close> or a delivery.\<close>

definition fresh_client :: "client \<Rightarrow> bool" where
  "fresh_client c \<longleftrightarrow> hdr_phase c [] \<and> pkt_buf c = None"

lemma packet_body_size_less: "packet_body_size h < 2 ^ 32"
  using unat_bound [of "body_sum h"] by (simp add: packet_body_size_def)

lemma rb_new_body:
  "rb_wf (rb_new junk (of_nat (packet_body_size h)))"
  "rb_contents (rb_new junk (of_nat (packet_body_size h))) = []"
  "rb_capacity (rb_new junk (of_nat (packet_body_size h))) = packet_body_size h"
proof -
  let ?n = "packet_body_size h"
  have n: "?n < 2 ^ 64" using packet_body_size_less [of h] by simp
  have "Suc ?n < 2 ^ 64" using packet_body_size_less [of h] by simp
  then have "unat (of_nat (Suc ?n) :: u64) = Suc ?n" by (rule unat_of_nat_small)
  then have "(of_nat ?n :: u64) + 1 \<noteq> 0" by (metis add.commute nat.distinct(1) of_nat_Suc unsigned_0)
  from rb_new_ok [OF this, of junk] unat_of_nat_small [OF n]
  show "rb_wf (rb_new junk (of_nat ?n))" "rb_contents (rb_new junk (of_nat ?n)) = []"
    "rb_capacity (rb_new junk (of_nat ?n)) = ?n" by simp_all
qed

lemma serve_packet_reading:
  assumes c: "with_client c srv" "fresh_client c" and cs: "\<forall>x \<in> set cs. x \<noteq> []"
    and p: "has_flag (flags p) PKT_FLAG_CTRL \<or> wf_packet p \<and> fits_u32 p"
    and body: "0 < packet_body_size p" "packet_body_size p < 2 ^ 31"
    and stream: "concat cs = wire p @ more_bytes"
  shows "\<exists>srv1 w1 cs' rb. (reading cb junk (c_id c) fd)\<^sup>*\<^sup>* (srv, feed fd cs rest w) (srv1, w1) \<and>
     serve_client cb junk (c_id c) fd srv1 w1 =
       server_deliver_packet cb (c_id c) (put_client (c\<lparr>header_buf := rb, pack := Some (packet_view p)\<rparr>) srv)
         (feed fd cs' rest w) \<and>
     (\<forall>x \<in> set cs'. x \<noteq> []) \<and> concat cs' = more_bytes \<and>
     fresh_client (c\<lparr>header_buf := rb, pack := Some (packet_view p)\<rparr>)"
proof -
  obtain h where h: "packet_decode_hdr (take 7 (wire p)) 7 = Inr (Some h)" "length (drop 7 (wire p)) = packet_body_size h"
    "packet_decode_body h (drop 7 (wire p)) (packet_body_size h) = Inr (Some (packet_view p))"
    using p packet_framing_ctrl packet_framing_data by blast
  have len: "length (wire p) = 7 + packet_body_size p" using p by (rule length_wire)
  then have N: "packet_body_size h = packet_body_size p" using h(2) by simp
  have ph: "hdr_phase c []" and st: "state c = IDLE" "pkt_buf c = None"
    using c(2) by (simp_all add: fresh_client_def hdr_phase_def)
  have "7 \<le> length ([] @ concat cs)" "packet_decode_hdr (take 7 ([] @ concat cs)) 7 = Inr (Some h)"
    using stream len h(1) by simp_all
  from serve_header [OF c(1) ph cs this, of cb junk fd rest w] obtain cs1 rb where
    s1: "(reading cb junk (c_id c) fd)\<^sup>*\<^sup>* (srv, feed fd cs rest w)
       (put_client (c\<lparr>state := HDR_RECVD, header_buf := rb, pack := Some h,
         pkt_buf := Some (rb_new junk (of_nat (packet_body_size h)))\<rparr>) srv, feed fd cs1 rest w)"
      "\<forall>x \<in> set cs1. x \<noteq> []" "concat cs1 = drop 7 (concat cs)"
      "rb_wf rb" "rb_capacity rb = 7" "rb_contents rb = []"
    by auto
  let ?c = "c\<lparr>state := HDR_RECVD, header_buf := rb, pack := Some h,
         pkt_buf := Some (rb_new junk (of_nat (packet_body_size h)))\<rparr>"
  have c1: "with_client ?c (put_client ?c srv)" using with_put_client [OF c(1)] by simp
  have bp: "body_phase ?c h []" using rb_new_body [of junk h] body(1) N by (simp add: body_phase_def)
  have cs1: "concat cs1 = drop 7 (wire p) @ more_bytes" using s1(3) stream len by simp
  have "packet_body_size h < 2 ^ 31" using body(2) N by simp
  moreover have "packet_body_size h \<le> length ([] @ concat cs1)"
    "packet_decode_body h (take (packet_body_size h) ([] @ concat cs1)) (packet_body_size h) = Inr (Some (packet_view p))"
    using cs1 h(2,3) by simp_all
  ultimately obtain srv1 w1 cs2 where
    s2: "(reading cb junk (c_id ?c) fd)\<^sup>*\<^sup>* (put_client ?c srv, feed fd cs1 rest w) (srv1, w1)"
      "serve_client cb junk (c_id ?c) fd srv1 w1 =
       server_deliver_packet cb (c_id ?c) (put_client (?c\<lparr>pack := Some (packet_view p), state := IDLE, pkt_buf := None\<rparr>)
         (put_client ?c srv)) (feed fd cs2 rest w)"
      "\<forall>x \<in> set cs2. x \<noteq> []" "concat cs2 = drop (packet_body_size h) ([] @ concat cs1)"
    using serve_body [OF c1 bp _ s1(2)] by blast
  have eq: "?c\<lparr>pack := Some (packet_view p), state := IDLE, pkt_buf := None\<rparr> = c\<lparr>header_buf := rb, pack := Some (packet_view p)\<rparr>"
    using st by (cases c) simp
  have "(reading cb junk (c_id c) fd)\<^sup>*\<^sup>* (srv, feed fd cs rest w) (srv1, w1)"
    using s1(1) s2(1) by (simp add: rtranclp_trans)
  moreover have "serve_client cb junk (c_id c) fd srv1 w1 =
      server_deliver_packet cb (c_id c) (put_client (c\<lparr>header_buf := rb, pack := Some (packet_view p)\<rparr>) srv) (feed fd cs2 rest w)"
    using s2(2) [unfolded eq] by simp
  moreover have "concat cs2 = more_bytes" using s2(4) cs1 h(2) by simp
  moreover have "fresh_client (c\<lparr>header_buf := rb, pack := Some (packet_view p)\<rparr>)"
    using s1(4-6) ph st by (simp add: fresh_client_def hdr_phase_def)
  ultimately show ?thesis using s2(3) by blast
qed

lemma serve_packet:
  assumes "with_client c srv" "fresh_client c" "\<forall>x \<in> set cs. x \<noteq> []"
    "has_flag (flags p) PKT_FLAG_CTRL \<or> wf_packet p \<and> fits_u32 p"
    "0 < packet_body_size p" "packet_body_size p < 2 ^ 31" "concat cs = wire p @ more_bytes"
  shows "\<exists>n cs' rb. serve_n cb junk (c_id c) fd n srv (feed fd cs rest w) =
       server_deliver_packet cb (c_id c) (put_client (c\<lparr>header_buf := rb, pack := Some (packet_view p)\<rparr>) srv)
         (feed fd cs' rest w) \<and>
     (\<forall>x \<in> set cs'. x \<noteq> []) \<and> concat cs' = more_bytes \<and>
     fresh_client (c\<lparr>header_buf := rb, pack := Some (packet_view p)\<rparr>)"
proof -
  obtain srv1 w1 cs' rb where s: "(reading cb junk (c_id c) fd)\<^sup>*\<^sup>* (srv, feed fd cs rest w) (srv1, w1)"
    "serve_client cb junk (c_id c) fd srv1 w1 =
       server_deliver_packet cb (c_id c) (put_client (c\<lparr>header_buf := rb, pack := Some (packet_view p)\<rparr>) srv)
         (feed fd cs' rest w)"
    "\<forall>x \<in> set cs'. x \<noteq> []" "concat cs' = more_bytes" "fresh_client (c\<lparr>header_buf := rb, pack := Some (packet_view p)\<rparr>)"
    using serve_packet_reading [OF assms] by blast
  from reading_serve_n [OF s(1)] obtain m where "\<forall>n. serve_n cb junk (c_id c) fd (m + n) srv (feed fd cs rest w) =
      serve_n cb junk (c_id c) fd n srv1 w1" unfolding fst_conv snd_conv by blast
  then have "serve_n cb junk (c_id c) fd (m + 1) srv (feed fd cs rest w) = serve_n cb junk (c_id c) fd 1 srv1 w1" ..
  then show ?thesis using s(2-5) by (intro exI [of _ "m + 1"] exI [of _ cs'] exI [of _ rb]) simp
qed

section \<open>Properties\<close>

text \<open>
  C8: a packet is reassembled from its byte stream whatever way the stream is cut. If an idle
  client's socket delivers, in any chunks, the bytes of a serialized packet with a body of 1
  to 2^31 - 1 bytes, followed by any further bytes, then after finitely many readable events
  exactly that packet (as a receiver sees it) is handed to the callback, the client is idle
  with empty buffers again, and exactly the further bytes are still unread.
\<close>

theorem server_reassembles_packet:
  assumes "with_client c srv" "fresh_client c" "\<forall>x \<in> set cs. x \<noteq> []"
    "has_flag (flags p) PKT_FLAG_CTRL \<or> wf_packet p \<and> fits_u32 p"
    "0 < packet_body_size p" "packet_body_size p < 2 ^ 31"
    "packet_serialize junk p = Inr bytes" "concat cs = bytes @ later"
  shows "\<exists>n cs' rb. serve_n cb junk (c_id c) fd n srv (feed fd cs rest w) =
       server_deliver_packet cb (c_id c) (put_client (c\<lparr>header_buf := rb, pack := Some (packet_view p)\<rparr>) srv)
         (feed fd cs' rest w) \<and>
     concat cs' = later \<and> fresh_client (c\<lparr>header_buf := rb, pack := Some (packet_view p)\<rparr>)"
proof -
  have "bytes = wire p" using assms(4,7) packet_serialize_wire [of p junk] by auto
  with assms(8) have "concat cs = wire p @ later" by simp
  from serve_packet [OF assms(1-6) this, of cb junk fd rest w] show ?thesis by blast
qed

text \<open>
  a packet whose header announces an empty body is never delivered: the buffer for the
  body has no room, so the next \<open>recv\<close> asks for 0 bytes and returns 0, which the loop takes
  for the end of the connection; the client is closed and removed without a call of the
  callback, even when more data is waiting.
\<close>

theorem server_drops_empty_body:
  assumes "with_client c srv" "state c = HDR_RECVD" "pkt_buf c = Some pb" "rb_wf pb" "rb_capacity pb = 0"
    "inq w fd = RData bs # q"
  shows "\<exists>q'. serve_client cb junk (c_id c) fd srv w =
     Inr (server_remove_client srv (c_id c) (w\<lparr>inq := (inq w)(fd := q')\<rparr>))"
proof -
  have "rb_count pb + unat (rb_can_write pb) = 0" using rb_capacity_room [OF assms(4)] assms(5) by simp
  then have "rb_can_write pb = 0" by (simp add: unat_eq_0)
  then have z: "to_int (rb_can_write pb) = 0" by (simp add: to_int_def)
  then have "recv_into pb fd w = Inr (0, pb, w\<lparr>inq := (inq w)(fd := (if bs = [] then q else RData bs # q))\<rparr>)"
    using assms(6) by (simp add: recv_into_def sys_recv_def Let_def)
  then show ?thesis using assms(1-3) by (simp add: serve_client_def client_at_with) metis
qed

text \<open>
  the loop body follows a null pointer when a client that a callback marked for removal
  (state \<open>REMOVE\<close>, no packet begun) is readable in the same round: every state but \<open>IDLE\<close> is
  taken to have a packet buffer.
\<close>

theorem server_removed_client_null_deref:
  assumes "with_client c srv" "state c = IDLE" "pkt_buf c = None" "c' = c\<lparr>state := REMOVE\<rparr>"
  shows "serve_client cb junk (c_id c) fd (put_client c' srv) w = Inl Null_Deref"
  using client_at_with [OF with_put_client [OF assms(1), of c']] assms(3,4)
  by (simp add: serve_client_def)

lemma setup_loop_fails:
  assumes "length ais = length ss" "\<forall>s \<in> set ss. 0 \<le> s" "socket_res w = ss @ rest"
    "length bs = length ss" "\<forall>b \<in> set bs. b < 0"
  shows "\<exists>s1 st1. setup_loop (ais @ more_ais) (bs @ binds) s st w =
     setup_loop more_ais binds s1 st1 (w\<lparr>socket_res := rest, trace := trace w @ map EvClose ss\<rparr>) \<and>
     (if ss = [] then s1 = s \<and> st1 = st else s1 = last ss \<and> st1 < 0)"
  using assms
proof (induction ss arbitrary: ais bs s st w)
  case Nil
  then show ?case by (intro exI [of _ s] exI [of _ st]) (cases w, simp)
next
  case (Cons x ss)
  then obtain ai ais' b bs' where d: "ais = ai # ais'" "bs = b # bs'" "b < 0" "0 \<le> x"
    "length ais' = length ss" "length bs' = length ss" by (cases ais; cases bs) auto
  let ?w = "w\<lparr>socket_res := ss @ rest, trace := trace w @ [EvClose x]\<rparr>"
  have "setup_loop (ais @ more_ais) (bs @ binds) s st w = setup_loop (ais' @ more_ais) (bs' @ binds) x b ?w"
    using Cons.prems(3) d by (simp add: sys_socket_def sys_close_def log_event_def)
  moreover have "\<exists>s1 st1. setup_loop (ais' @ more_ais) (bs' @ binds) x b ?w =
     setup_loop more_ais binds s1 st1 (?w\<lparr>socket_res := rest, trace := trace ?w @ map EvClose ss\<rparr>) \<and>
     (if ss = [] then s1 = x \<and> st1 = b else s1 = last ss \<and> st1 < 0)"
    using Cons.prems d by (intro Cons.IH) auto
  ultimately show ?case using d(3) by (auto split: if_splits)
qed

text \<open>
  \<open>server_setup\<close> takes the first address that can be bound. If the calls of \<open>bind\<close> fail on
  the first addresses and succeed on the next, the server is set up on the socket of that
  one, idle and with no clients, and the sockets of the failed addresses are closed; if all
  fail, every socket is closed and \<open>NULL\<close> is returned.
\<close>

theorem server_setup_first_bindable:
  assumes "length ais = length ss" "\<forall>s \<in> set ss. 0 \<le> s" "length bs = length ss" "\<forall>b \<in> set bs. b < 0"
    "0 \<le> t" "ss \<noteq> []"
  shows "(socket_res w = ss @ t # rest \<longrightarrow>
       server_setup (Some (ais @ ai # others)) (bs @ 0 # binds) w =
         Inr (Some \<lparr>s_socket = t, n_clients = 0, active = False, clients = [], next_id = 0\<rparr>,
              w\<lparr>socket_res := rest, trace := trace w @ map EvClose ss\<rparr>)) \<and>
     (socket_res w = ss @ rest \<longrightarrow>
       server_setup (Some ais) bs w = Inr (None, w\<lparr>socket_res := rest, trace := trace w @ map EvClose ss\<rparr>))"
proof (intro conjI impI)
  assume "socket_res w = ss @ t # rest"
  from setup_loop_fails [OF assms(1,2) this assms(3,4), of "ai # others" "0 # binds" "-1" 0]
  show "server_setup (Some (ais @ ai # others)) (bs @ 0 # binds) w =
      Inr (Some \<lparr>s_socket = t, n_clients = 0, active = False, clients = [], next_id = 0\<rparr>,
           w\<lparr>socket_res := rest, trace := trace w @ map EvClose ss\<rparr>)"
    using assms(5) by (auto simp: server_setup_def sys_socket_def)
next
  assume "socket_res w = ss @ rest"
  from setup_loop_fails [OF assms(1,2) this assms(3,4), of "[]" "[]" "-1" 0] assms(6)
  show "server_setup (Some ais) bs w = Inr (None, w\<lparr>socket_res := rest, trace := trace w @ map EvClose ss\<rparr>)"
    by (auto simp: server_setup_def)
qed

section \<open>Witnesses\<close>

definition sample_ais :: addrinfo where
  "sample_ais = \<lparr>ai_family = 2, ai_socktype = 1, ai_protocol = 6,
     ai_addr = \<lparr>sa_family = 2, sin_port = 0, s_addr = 0\<rparr>, ai_addrlen = 16\<rparr>"

definition one_client :: server where
  "one_client = server_add_client (\<lambda>_. 0) 5
     \<lparr>s_socket = 3, n_clients = 0, active = True, clients = [], next_id = 0\<rparr>"

definition new_client :: client where
  "new_client = \<lparr>c_id = 0, c_socket = 5, state = IDLE, header_buf = rb_new (\<lambda>_. 0) 7, pkt_buf = None, pack = None\<rparr>"

lemma one_client_simps:
  "clients one_client = [new_client]" "with_client new_client one_client" "fresh_client new_client" "c_id new_client = 0"
  using rb_new_ok [of 7 "\<lambda>_. 0"]
  by (simp_all add: one_client_def new_client_def server_add_client_def PKT_HEADER_LEN_def with_client_def
      fresh_client_def hdr_phase_def)

definition set_packet :: packet where
  "set_packet = packet_new\<lparr>flags := PKT_FLAG_SET, key_len := 1, value_len := 2, pkey := Some [65], pvalue := Some [7, 0]\<rparr>"

text \<open>The ten bytes of the packet in three pieces, cut inside header and body.\<close>

theorem server_reassembles_packet_witness:
  "\<exists>n cs' rb. serve_n None (\<lambda>_. 0) 0 5 n one_client (feed 5 [[2, 0, 1], [0, 0, 0, 2, 65], [7, 0, 99]] [] quiet_net) =
     server_deliver_packet None 0 (put_client (new_client\<lparr>header_buf := rb, pack := Some set_packet\<rparr>) one_client)
       (feed 5 cs' [] quiet_net) \<and> concat cs' = [99]"
proof -
  have s: "packet_serialize (\<lambda>_. 0) set_packet = Inr [2, 0, 1, 0, 0, 0, 2, 65, 7, 0]" by code_simp
  have v: "packet_view set_packet = set_packet" by code_simp
  have p: "wf_packet set_packet \<and> fits_u32 set_packet" "packet_body_size set_packet = 3"
    by (simp_all add: wf_packet_def fits_u32_def set_packet_def packet_new_def ptr_bytes_def packet_body_size_def
        body_sum_def has_flag_def flag_defs)
  from server_reassembles_packet [OF one_client_simps(2,3) _ disjI2 [OF p(1)] _ _ s,
      of "[[2, 0, 1], [0, 0, 0, 2, 65], [7, 0, 99]]" "[99]" None 5 "[]" quiet_net] p(2)
  show ?thesis by (auto simp: v one_client_simps(4))
qed

theorem server_drops_empty_body_witness:
  "\<exists>q'. serve_client None (\<lambda>_. 0) 0 5
      (one_client\<lparr>clients := [new_client\<lparr>state := HDR_RECVD, pkt_buf := Some (rb_new (\<lambda>_. 0) 0)\<rparr>]\<rparr>)
      (quiet_net\<lparr>inq := (\<lambda>_. [])(5 := [RData [1]])\<rparr>) =
    Inr (server_remove_client
      (one_client\<lparr>clients := [new_client\<lparr>state := HDR_RECVD, pkt_buf := Some (rb_new (\<lambda>_. 0) 0)\<rparr>]\<rparr>) 0
      (quiet_net\<lparr>inq := (\<lambda>_. [])(5 := q')\<rparr>))"
  using server_drops_empty_body [of "new_client\<lparr>state := HDR_RECVD, pkt_buf := Some (rb_new (\<lambda>_. 0) 0)\<rparr>"
      "one_client\<lparr>clients := [new_client\<lparr>state := HDR_RECVD, pkt_buf := Some (rb_new (\<lambda>_. 0) 0)\<rparr>]\<rparr>"
      "rb_new (\<lambda>_. 0) 0" "quiet_net\<lparr>inq := (\<lambda>_. [])(5 := [RData [1]])\<rparr>" 5 "[1]" "[]" None "\<lambda>_. 0"]
    rb_new_ok [of 0 "\<lambda>_. 0"]
  by (simp add: with_client_def one_client_simps(4))

theorem server_removed_client_null_deref_witness:
  "serve_client None (\<lambda>_. 0) 0 5 (put_client (new_client\<lparr>state := REMOVE\<rparr>) one_client) quiet_net = Inl Null_Deref"
  using server_removed_client_null_deref [OF one_client_simps(2) _ _ refl, of None "\<lambda>_. 0" 5 quiet_net]
  by (simp add: new_client_def)

theorem server_setup_first_bindable_witness:
  "server_setup (Some [sample_ais, sample_ais]) [-1, 0] (quiet_net\<lparr>socket_res := [3, 4]\<rparr>) =
     Inr (Some \<lparr>s_socket = 4, n_clients = 0, active = False, clients = [], next_id = 0\<rparr>,
          quiet_net\<lparr>socket_res := [], trace := [EvClose 3]\<rparr>)"
  using server_setup_first_bindable [of "[sample_ais]" "[3]" "[-1]" 4 "quiet_net\<lparr>socket_res := [3, 4]\<rparr>" "[]" sample_ais "[]" "[]"]
  by (simp add: quiet_net_def)

end
