(* ===== verification/Server_Loop.thy ===== *)
theory Server_Loop
  imports Server
begin

text \<open>
  The event loop of \<open>praxis2/src/server.c\<close> as a whole. Every step keeps the invariant of the
  client list, whatever the kernel answers, for every callback that keeps its part of the
  contract; the contract is the locale \<open>packet_handler\<close>. The pointers that the loops carry
  across a step (\<open>next\<close>) stay valid, marked clients are gone after the round, and a run of
  the server ends with no client left.
\<close>

section \<open>Every step keeps the invariant\<close>

lemma to_int_le: "0 \<le> to_int w \<Longrightarrow> nat (to_int w) \<le> unat w"
proof -
  assume nn: "0 \<le> to_int w"
  have "to_int w \<le> uint (ucast w :: u32)"
    unfolding to_int_def by (simp add: sint_uint signed_take_bit_int_less_eq_self_iff)
      (rule order_trans [of _ 0], simp_all)
  then have "nat (to_int w) \<le> unat (ucast w :: u32)" using nn by (simp add: nat_le_iff)
  also have "\<dots> \<le> unat w" by (simp add: unsigned_ucast_eq take_bit_nat_less_eq_self)
  finally show ?thesis .
qed

lemma recv_q_bytes: "recv_q len q = Inr (n, bs, q') \<Longrightarrow> n \<le> int len \<and> (0 < n \<longrightarrow> length bs = nat n)"
  by (induction len q rule: recv_q.induct) (auto split: if_splits)

lemma recv_into_wf:
  assumes wf: "rb_wf rb" and r: "recv_into rb fd w = Inr (n, rb', w')"
  shows "(\<exists>q. w' = w\<lparr>inq := q\<rparr>) \<and>
    (if 0 < n then rb_wf rb' \<and> bufsize rb' = bufsize rb \<and> rb_count rb' = rb_count rb + nat n else rb' = rb)"
proof -
  let ?k = "to_int (rb_can_write rb)"
  obtain bs q where b: "0 \<le> ?k" "recv_q (nat ?k) (inq w fd) = Inr (n, bs, q)" "w' = w\<lparr>inq := (inq w)(fd := q)\<rparr>"
    and rb': "if 0 < n then \<exists>x. rb_write rb bs (of_int n) = Inr (x, rb') else rb' = rb"
    using r by (auto simp: recv_into_def Let_def sys_recv_def bind_res_Inr_iff split: if_splits)
  show ?thesis
  proof (cases "0 < n")
    case True
    have n: "nat n \<le> nat ?k" "length bs = nat n" using recv_q_bytes [OF b(2)] True b(1) by auto
    have room: "nat n \<le> unat (rb_can_write rb)" using n(1) to_int_le [OF b(1)] by linarith
    then have "nat n < 2 ^ 64" using unat_bound [of "rb_can_write rb"] by simp
    then have un: "unat (of_int n :: u64) = nat n" using True unat_of_nat_small [of "nat n"] by simp
    from rb_write_ok [OF wf, of "nat n" "of_int n" bs] un n(2) room True rb'
    have "rb_wf rb'" "bufsize rb' = bufsize rb" "rb_contents rb' = rb_contents rb @ bs" by auto
    then have "rb_count rb' = rb_count rb + nat n" using n(2) length_rb_contents by (metis length_append)
    then show ?thesis using \<open>rb_wf rb'\<close> \<open>bufsize rb' = bufsize rb\<close> b(3) True by auto
  next
    case False
    then show ?thesis using rb' b(3) by auto
  qed
qed

definition marked :: "client \<Rightarrow> client \<Rightarrow> bool" where
  "marked c d \<longleftrightarrow> d = c \<or> d = c\<lparr>state := REMOVE\<rparr>"

definition only_marks :: "server \<Rightarrow> server \<Rightarrow> bool" where
  "only_marks srv srv' \<longleftrightarrow> (\<exists>cs. srv' = srv\<lparr>clients := cs\<rparr> \<and> list_all2 marked (clients srv) cs)"

lemma client_wf_marked: "client_wf c \<Longrightarrow> marked c d \<Longrightarrow> client_wf d"
  by (auto simp: marked_def client_wf_def body_pending_def)

lemma only_marks_refl [simp]: "only_marks srv srv"
  by (auto simp: only_marks_def list_all2_same marked_def intro!: exI [of _ "clients srv"])

lemma marked_trans: "marked c d \<Longrightarrow> marked d e \<Longrightarrow> marked c e"
  by (auto simp: marked_def)

lemma only_marks_trans: "only_marks s1 s2 \<Longrightarrow> only_marks s2 s3 \<Longrightarrow> only_marks s1 s3"
  unfolding only_marks_def
  by (elim exE conjE, rule exI) (auto intro: list_all2_trans [of marked marked marked, rotated] marked_trans)

lemma only_marks_close [simp]: "only_marks srv (server_close_socket srv sock)"
proof -
  have "list_all2 marked cs (mark_socket sock cs)" for cs
    by (induction cs) (auto simp: marked_def list_all2_same)
  then show ?thesis by (auto simp: only_marks_def server_close_socket_def)
qed

lemma only_marks_ids: "only_marks srv srv' \<Longrightarrow> map c_id (clients srv') = map c_id (clients srv)"
proof -
  have "list_all2 marked cs ds \<Longrightarrow> map c_id ds = map c_id cs" for cs ds
    by (induction rule: list_all2_induct) (auto simp: marked_def)
  then show "only_marks srv srv' \<Longrightarrow> map c_id (clients srv') = map c_id (clients srv)"
    by (auto simp: only_marks_def)
qed

lemma only_marks_wf:
  assumes "srv_wf srv" "only_marks srv srv'"
  shows "srv_wf srv'"
proof -
  obtain cs where cs: "srv' = srv\<lparr>clients := cs\<rparr>" "list_all2 marked (clients srv) cs"
    using assms(2) by (auto simp: only_marks_def)
  have ids: "map c_id cs = map c_id (clients srv)" using only_marks_ids [OF assms(2)] cs(1) by simp
  have "client_wf d \<and> c_id d < next_id srv" if d: "d \<in> set cs" for d
  proof -
    obtain i where i: "i < length cs" "cs ! i = d" using d by (auto simp: in_set_conv_nth)
    then have "marked (clients srv ! i) d" "i < length (clients srv)"
      using list_all2_nthD2 [OF cs(2)] list_all2_lengthD [OF cs(2)] by auto
    then obtain c where "c \<in> set (clients srv)" "marked c d" by (metis nth_mem)
    then show ?thesis using assms(1) client_wf_marked by (auto simp: srv_wf_def marked_def)
  qed
  moreover have "length cs = length (clients srv)" using cs(2) by (simp add: list_all2_lengthD)
  ultimately show ?thesis using assms(1) ids cs(1) by (simp add: srv_wf_def)
qed

lemma put_client_wf:
  assumes "srv_wf srv" "client_wf c" "client_at srv (c_id c) = Inr d"
  shows "srv_wf (put_client c srv)"
proof -
  have "d \<in> set (clients srv)" "c_id d = c_id c"
    using assms(3) by (auto simp: client_at_def find_Some_iff split: option.splits)
  then have "c_id c < next_id srv" using assms(1) by (auto simp: srv_wf_def)
  then have "\<forall>x \<in> set (clients (put_client c srv)). client_wf x \<and> c_id x < next_id (put_client c srv)"
    using assms(1,2) by (auto simp: srv_wf_def put_client_def)
  moreover have "n_clients (put_client c srv) = int (length (clients (put_client c srv)))"
    using assms(1) by (simp add: srv_wf_def put_client_def)
  ultimately show ?thesis using assms(1) unfolding srv_wf_def put_client_ids by simp
qed

lemma client_at_SomeD: "client_at srv a = Inr c \<Longrightarrow> c \<in> set (clients srv) \<and> c_id c = a"
  by (auto simp: client_at_def find_Some_iff split: option.splits)

lemma map_remove1_inj: "distinct (map f xs) \<Longrightarrow> x \<in> set xs \<Longrightarrow> map f (remove1 x xs) = remove1 (f x) (map f xs)"
  by (induction xs) (force simp: image_iff)+

lemma server_remove_client_ok:
  assumes "srv_wf srv" "server_remove_client srv a w = (srv', w')"
  shows "srv_wf srv' \<and> map c_id (clients srv') = remove1 a (map c_id (clients srv)) \<and>
     set (clients srv') \<subseteq> set (clients srv) \<and> s_socket srv' = s_socket srv \<and> next_id srv' = next_id srv \<and>
     active srv' = active srv \<and> (\<exists>t. w' = w\<lparr>trace := t\<rparr>)"
proof (cases "find (\<lambda>c. c_id c = a) (clients srv)")
  case None
  then have "a \<notin> set (map c_id (clients srv))" by (auto simp: find_None_iff)
  moreover have "srv' = srv" "w' = w" using assms(2) None by (simp_all add: server_remove_client_def)
  moreover have "\<exists>t. w = w\<lparr>trace := t\<rparr>" by (rule exI [of _ "trace w"]) simp
  ultimately show ?thesis using assms(1) by (simp add: remove1_idem)
next
  case (Some c)
  have d: "distinct (map c_id (clients srv))" using assms(1) by (simp add: srv_wf_def)
  have c: "c \<in> set (clients srv)" "c_id c = a" using Some by (auto simp: find_Some_iff)
  have e: "srv' = srv\<lparr>clients := remove1 c (clients srv), n_clients := n_clients srv - 1\<rparr>"
    "w' = w\<lparr>trace := trace w @ [EvClose (c_socket c)]\<rparr>"
    using assms(2) Some by (auto simp: server_remove_client_def sys_close_def log_event_def)
  have ids: "map c_id (remove1 c (clients srv)) = remove1 a (map c_id (clients srv))"
    using map_remove1_inj [OF d c(1)] c(2) by simp
  have n: "n_clients srv - 1 = int (length (remove1 c (clients srv)))"
  proof -
    have "0 < length (clients srv)" using c(1) by (cases "clients srv") auto
    moreover have "length (remove1 c (clients srv)) = length (clients srv) - 1"
      using c(1) by (simp add: length_remove1)
    moreover have "n_clients srv = int (length (clients srv))" using assms(1) by (simp add: srv_wf_def)
    ultimately show ?thesis by linarith
  qed
  have sub: "set (remove1 c (clients srv)) \<subseteq> set (clients srv)" by (rule set_remove1_subset)
  have "srv_wf srv'"
    unfolding srv_wf_def e using sub assms(1) n d ids
    by (simp add: srv_wf_def distinct_remove1 subset_iff)
  then show ?thesis using ids sub e by auto
qed

section \<open>Decoding steps\<close>

lemma no_uaf_bytes [simp]:
  "byte_at b i \<noteq> Inl Use_After_Free" "read_ptr p n \<noteq> Inl Use_After_Free"
  by (auto simp: byte_at_def read_ptr_def split: option.split)

lemma no_uaf_decode [simp]:
  "packet_decode_hdr b n \<noteq> Inl Use_After_Free" "packet_decode_body p b n \<noteq> Inl Use_After_Free"
  by (auto simp: packet_decode_hdr_def packet_decode_body_def Let_def bind_res_Inl_iff
      read_be16_def read_be32_def read_ip_hi_def read_ip_lo_def split: if_splits)

lemma no_uaf_recv [simp]: "recv_q n q \<noteq> Inl Use_After_Free"
  by (induction n q rule: recv_q.induct) auto

lemma recv_into_safe:
  assumes "rb_wf rb"
  shows "recv_into rb fd w \<noteq> Inl Use_After_Free"
proof
  assume "recv_into rb fd w = Inl Use_After_Free"
  then obtain n bs q where b: "0 \<le> to_int (rb_can_write rb)" "0 < n"
    "recv_q (nat (to_int (rb_can_write rb))) (inq w fd) = Inr (n, bs, q)"
    "rb_write rb bs (of_int n) = Inl Use_After_Free"
    by (auto simp: recv_into_def Let_def sys_recv_def bind_res_Inl_iff bind_res_Inr_iff split: if_splits)
  have "length bs = nat n" "nat n \<le> unat (rb_can_write rb)"
    using recv_q_bytes [OF b(3)] b(1,2) to_int_le [OF b(1)] by auto
  moreover from this have "nat n < 2 ^ 64" using unat_bound [of "rb_can_write rb"] by simp
  then have "unat (of_int n :: u64) = nat n" using b(2) unat_of_nat_small [of "nat n"] by simp
  ultimately show False using rb_write_ok [OF assms, of "nat n" "of_int n" bs] b(4) by auto
qed

lemma client_decode_hdr_wf:
  assumes "rb_wf (header_buf c)" "rb_capacity (header_buf c) = 7" "rb_count (header_buf c) = 7"
  shows "client_decode_hdr junk c = Inr c' \<Longrightarrow> client_wf c' \<and> c_id c' = c_id c"
    and "client_decode_hdr junk c \<noteq> Inl Use_After_Free"
proof -
  obtain rb where rd: "rb_read (header_buf c) (malloc junk 7) 7 =
      Inr (rb_can_read (header_buf c), rb_contents (header_buf c), rb)"
    and rb: "rb_wf rb" "bufsize rb = bufsize (header_buf c)" "rb_contents rb = []"
    using rb_read_ok [OF assms(1), of 7 7 "malloc junk 7"] assms(3) by auto
  have rb': "rb_capacity rb = 7" "rb_count rb = 0"
    using rb_capacity_cong [OF rb(2)] assms(2) rb(3) length_rb_contents [of rb] by simp_all
  show "client_decode_hdr junk c \<noteq> Inl Use_After_Free"
    using rd by (auto simp: client_decode_hdr_def PKT_HEADER_LEN_def bind_res_Inl_iff split: option.splits)
  assume "client_decode_hdr junk c = Inr c'"
  with rd obtain p where c': "c' = c\<lparr>state := HDR_RECVD, header_buf := rb, pack := Some p,
         pkt_buf := Some (rb_new junk (of_nat (packet_body_size p)))\<rparr>"
    by (auto simp: client_decode_hdr_def PKT_HEADER_LEN_def bind_res_Inr_iff split: option.splits)
  have "rb_count (rb_new junk (of_nat (packet_body_size p))) = 0"
    using rb_new_body(2) [of junk p] length_rb_contents [of "rb_new junk (of_nat (packet_body_size p))"] by simp
  then show "client_wf c' \<and> c_id c' = c_id c"
    using rb(1) rb' rb_new_body [of junk p] by (auto simp: c' client_wf_def body_pending_def)
qed

lemma client_decode_body_wf:
  assumes "rb_wf (header_buf c)" "rb_capacity (header_buf c) = 7" "rb_count (header_buf c) < 7"
    "\<forall>pb. pkt_buf c = Some pb \<longrightarrow> rb_wf pb"
  shows "client_decode_body junk c = Inr c' \<Longrightarrow> client_wf c' \<and> c_id c' = c_id c"
    and "client_decode_body junk c \<noteq> Inl Use_After_Free"
proof -
  assume "client_decode_body junk c = Inr c'"
  then obtain po where "c' = c\<lparr>pack := po, state := IDLE, pkt_buf := None\<rparr>"
    by (auto simp: client_decode_body_def Let_def bind_res_Inr_iff split: option.splits)
  then show "client_wf c' \<and> c_id c' = c_id c" using assms(1-3) by (simp add: client_wf_def)
next
  show "client_decode_body junk c \<noteq> Inl Use_After_Free"
  proof (cases "pkt_buf c")
    case (Some pb)
    then have wf: "rb_wf pb" using assms(4) by simp
    let ?n = "unat (rb_can_read pb)"
    have "\<exists>x y z. rb_read pb (malloc junk ?n) (rb_can_read pb) = Inr (x, y, z)"
      using rb_read_ok [OF wf, of ?n "rb_can_read pb" "malloc junk ?n"] unat_rb_can_read [OF wf] by auto
    then show ?thesis using Some
      by (auto simp: client_decode_body_def Let_def bind_res_Inl_iff split: option.splits)
  qed (simp add: client_decode_body_def)
qed

lemma rb_count_cap: "rb_wf rb \<Longrightarrow> rb_count rb \<le> rb_capacity rb"
  using rb_capacity_room [of rb] by linarith

lemma rb_full_count: "rb_wf rb \<Longrightarrow> rb_can_write rb = 0 \<longleftrightarrow> rb_count rb = rb_capacity rb"
  using rb_full [of rb] length_rb_contents [of rb] by metis

lemma header_ok:
  assumes srv: "srv_wf srv" and c: "client_at srv a = Inr c" "state c = IDLE"
    and r: "recv_into (header_buf c) fd w = Inr (n, rb, w1)" "0 < n"
  shows "(\<forall>c'. client_decode_hdr junk (c\<lparr>header_buf := rb\<rparr>) = Inr c' \<longrightarrow> rb_can_read rb = 7 \<longrightarrow>
       srv_wf (put_client c' srv) \<and> c_id c' = a) \<and>
     (rb_can_read rb = 7 \<longrightarrow> client_decode_hdr junk (c\<lparr>header_buf := rb\<rparr>) \<noteq> Inl Use_After_Free) \<and>
     (rb_can_read rb \<noteq> 7 \<longrightarrow> srv_wf (put_client (c\<lparr>header_buf := rb\<rparr>) srv))"
proof -
  have ca: "c \<in> set (clients srv)" "c_id c = a" using client_at_SomeD [OF c(1)] by auto
  have wf: "client_wf c" using srv ca by (simp add: srv_wf_def)
  have hb: "rb_wf (header_buf c)" "rb_capacity (header_buf c) = 7" using wf by (simp_all add: client_wf_def)
  have rb: "rb_wf rb" "rb_capacity rb = 7"
    using recv_into_wf [OF hb(1) r(1)] r(2) hb(2) rb_capacity_cong [of rb "header_buf c"] by auto
  have full: "rb_can_read rb = 7 \<longleftrightarrow> rb_count rb = 7" using rb_can_read_eq [OF rb(1), of 7] by simp
  let ?c = "c\<lparr>header_buf := rb\<rparr>"
  have "client_wf ?c" if "rb_can_read rb \<noteq> 7"
    using wf rb that full rb_count_cap [OF rb(1)] c(2) by (auto simp: client_wf_def)
  moreover have "srv_wf (put_client x srv)" if "client_wf x" "c_id x = a" for x
    using put_client_wf [OF srv that(1), of c] that(2) c(1) by simp
  ultimately show ?thesis
    using client_decode_hdr_wf(1) [of ?c junk] client_decode_hdr_wf(2) [of ?c junk] rb full ca(2) by simp
qed

lemma body_ok:
  assumes srv: "srv_wf srv" and c: "client_at srv a = Inr c" "state c \<noteq> IDLE" "pkt_buf c = Some pb"
    and r: "recv_into pb fd w = Inr (n, rb, w1)" "0 < n"
  shows "(\<forall>c'. client_decode_body junk (c\<lparr>pkt_buf := Some rb\<rparr>) = Inr c' \<longrightarrow> srv_wf (put_client c' srv) \<and> c_id c' = a) \<and>
     client_decode_body junk (c\<lparr>pkt_buf := Some rb\<rparr>) \<noteq> Inl Use_After_Free \<and>
     (rb_can_write rb \<noteq> 0 \<longrightarrow> srv_wf (put_client (c\<lparr>pkt_buf := Some rb\<rparr>) srv))"
proof -
  have ca: "c \<in> set (clients srv)" "c_id c = a" using client_at_SomeD [OF c(1)] by auto
  have wf: "client_wf c" using srv ca by (simp add: srv_wf_def)
  obtain h where pb: "rb_wf pb" "pack c = Some h" "rb_capacity pb = packet_body_size h"
    using wf c(3) by (auto simp: client_wf_def body_pending_def)
  have rb: "rb_wf rb" "rb_capacity rb = packet_body_size h"
    using recv_into_wf [OF pb(1) r(1)] r(2) pb(3) rb_capacity_cong [of rb pb] by auto
  let ?c = "c\<lparr>pkt_buf := Some rb\<rparr>"
  have "client_wf ?c" if "rb_can_write rb \<noteq> 0"
    using wf c(2) rb pb(2) that rb_full_count [OF rb(1)] rb_count_cap [OF rb(1)]
    by (auto simp: client_wf_def body_pending_def)
  moreover have pre: "rb_wf (header_buf ?c)" "rb_capacity (header_buf ?c) = 7" "rb_count (header_buf ?c) < 7"
    "\<forall>pb. pkt_buf ?c = Some pb \<longrightarrow> rb_wf pb"
    using wf rb(1) by (simp_all add: client_wf_def)
  moreover have "srv_wf (put_client x srv)" if "client_wf x" "c_id x = a" for x
    using put_client_wf [OF srv that(1), of c] that(2) c(1) by simp
  ultimately show ?thesis
    using client_decode_body_wf(1) [OF pre, of junk] client_decode_body_wf(2) [OF pre, of junk] ca(2) by simp
qed

lemma next_in_ok:
  assumes "distinct (map c_id cs)" "a \<in> set (map c_id cs)"
  shows "\<exists>nxt. next_in a cs = Inr nxt \<and> (\<forall>b. nxt = Some b \<longrightarrow> b \<in> set (map c_id cs) \<and> b \<noteq> a)"
  using assms
proof (induction cs)
  case (Cons c cs)
  show ?case
  proof (cases "c_id c = a")
    case True
    then show ?thesis using Cons.prems by (cases cs) auto
  next
    case False
    then show ?thesis using Cons by auto
  qed
qed simp

lemma server_stop_loop_closes:
  assumes "distinct (map c_id (clients srv))"
  shows "server_stop_loop (map c_id (clients srv)) srv w =
     (srv\<lparr>clients := [], n_clients := n_clients srv - int (length (clients srv))\<rparr>,
      w\<lparr>trace := trace w @ map (\<lambda>c. EvClose (c_socket c)) (clients srv)\<rparr>)"
  using assms
proof (induction "clients srv" arbitrary: srv w)
  case Nil
  then show ?case by (cases srv) simp
next
  case (Cons c cs)
  let ?s = "srv\<lparr>clients := cs, n_clients := n_clients srv - 1\<rparr>"
  have "server_remove_client srv (c_id c) w = (?s, w\<lparr>trace := trace w @ [EvClose (c_socket c)]\<rparr>)"
    unfolding server_remove_client_def Cons.hyps(2) [symmetric] by (simp add: sys_close_def log_event_def)
  then show ?case
    using Cons.hyps(1) [of ?s "w\<lparr>trace := trace w @ [EvClose (c_socket c)]\<rparr>"] Cons.prems
    unfolding Cons.hyps(2) [symmetric] by (simp add: Cons.hyps(2) [symmetric])
qed

lemma add_client_wf: "srv_wf srv \<Longrightarrow> srv_wf (server_add_client junk fd srv)"
proof -
  have "rb_wf (rb_new junk 7)" "rb_contents (rb_new junk 7) = []" "rb_capacity (rb_new junk 7) = 7"
    using rb_new_ok [of 7 junk] by simp_all
  moreover from this have "rb_count (rb_new junk 7) = 0" using length_rb_contents [of "rb_new junk 7"] by simp
  ultimately show "srv_wf srv \<Longrightarrow> srv_wf (server_add_client junk fd srv)"
    by (force simp: srv_wf_def server_add_client_def client_wf_def PKT_HEADER_LEN_def less_Suc_eq)
qed

section \<open>The contract of the callback\<close>

abbreviation ids :: "server \<Rightarrow> nat list" where
  "ids srv \<equiv> map c_id (clients srv)"

text \<open>
  A callback may change the rest of the process (\<open>winv\<close> is its invariant there) and may mark
  clients for removal, as \<open>server_close_socket\<close> does; it does not unlink or free clients and
  it does not follow dangling pointers. The invariant does not depend on the socket queues.
\<close>

locale packet_handler =
  fixes cb :: "'w callback" and winv :: "'w net_scheme \<Rightarrow> bool"
  assumes cb_frame: "winv w \<Longrightarrow> a \<in> set (ids srv) \<Longrightarrow> cb srv a p w = Inr (r, srv', w') \<Longrightarrow> only_marks srv srv' \<and> winv w'"
    and cb_safe: "winv w \<Longrightarrow> a \<in> set (ids srv) \<Longrightarrow> cb srv a p w \<noteq> Inl Use_After_Free"
    and winv_inq: "winv w \<Longrightarrow> winv (w\<lparr>inq := q\<rparr>)"
    and winv_trace: "winv w \<Longrightarrow> winv (w\<lparr>trace := t\<rparr>)"
begin

lemma remove_ok:
  assumes "srv_wf srv" "winv w" "server_remove_client srv a w = (srv', w')"
  shows "srv_wf srv' \<and> winv w' \<and> ids srv' = remove1 a (ids srv)"
  using server_remove_client_ok [OF assms(1,3)] assms(2) winv_trace by auto

lemma deliver_ok:
  assumes "srv_wf srv" "winv w" "server_deliver_packet (Some cb) a srv w = Inr (srv', w')"
  shows "srv_wf srv' \<and> winv w' \<and> (ids srv' = ids srv \<or> ids srv' = remove1 a (ids srv))"
proof -
  obtain c r srv1 w1 where r: "client_at srv a = Inr c" "cb srv a (pack c) w = Inr (r, srv1, w1)"
    and res: "if r = CB_REMOVE_CLIENT then server_remove_client srv1 a w1 = (srv', w') else srv' = srv1 \<and> w' = w1"
    using assms(3) by (auto simp: server_deliver_packet_def bind_res_Inr_iff split: if_splits)
  have "a \<in> set (ids srv)" using client_at_SomeD [OF r(1)] by auto
  then have m: "only_marks srv srv1" "winv w1" using cb_frame [OF assms(2) _ r(2)] by auto
  have "srv_wf srv1" "ids srv1 = ids srv" using only_marks_wf [OF assms(1) m(1)] only_marks_ids [OF m(1)] by auto
  then show ?thesis using res remove_ok [of srv1 w1 a srv' w'] m(2) by (auto split: if_splits)
qed

lemma deliver_safe:
  assumes "winv w" "a \<in> set (ids srv)"
  shows "server_deliver_packet (Some cb) a srv w \<noteq> Inl Use_After_Free"
proof -
  have "\<exists>c. client_at srv a = Inr c"
    using assms(2) by (cases "find (\<lambda>c. c_id c = a) (clients srv)") (auto simp: client_at_def find_None_iff)
  then show ?thesis using cb_safe [OF assms]
    by (auto simp: server_deliver_packet_def bind_res_Inl_iff split: if_splits)
qed

lemma serve_header_ok:
  assumes srv: "srv_wf srv" and w: "winv w" and r: "serve_client (Some cb) junk a fd srv w = Inr (srv', w')"
    and c: "client_at srv a = Inr c" "client_wf c" "state c = IDLE"
  shows "srv_wf srv' \<and> winv w' \<and> (ids srv' = ids srv \<or> ids srv' = remove1 a (ids srv))"
proof -
  obtain n rb w1 where re: "recv_into (header_buf c) fd w = Inr (n, rb, w1)"
    using r c by (auto simp: serve_client_def bind_res_Inr_iff)
  have w1: "winv w1" using recv_into_wf [of "header_buf c", OF _ re] c(2) winv_inq [OF w] by (auto simp: client_wf_def)
  show ?thesis
  proof (cases "0 < n")
    case True
    note ok = header_ok [OF srv c(1,3) re True, of junk]
    obtain c' where "srv' = put_client c' srv" "w' = w1" "srv_wf (put_client c' srv)"
      using r c re True ok
      by (auto simp: serve_client_def PKT_HEADER_LEN_def Let_def bind_res_Inr_iff split: if_splits)
    then show ?thesis using w1 by simp
  next
    case False
    then show ?thesis using r c re w1 srv remove_ok [OF srv w1, of a srv' w']
      by (auto simp: serve_client_def split: if_splits)
  qed
qed

lemma serve_body_ok:
  assumes srv: "srv_wf srv" and w: "winv w" and r: "serve_client (Some cb) junk a fd srv w = Inr (srv', w')"
    and c: "client_at srv a = Inr c" "client_wf c" "state c \<noteq> IDLE"
  shows "srv_wf srv' \<and> winv w' \<and> (ids srv' = ids srv \<or> ids srv' = remove1 a (ids srv))"
proof -
  obtain pb where pb: "pkt_buf c = Some pb"
    using r c by (auto simp: serve_client_def split: option.splits)
  then obtain n rb w1 where re: "recv_into pb fd w = Inr (n, rb, w1)"
    using r c by (auto simp: serve_client_def bind_res_Inr_iff)
  have w1: "winv w1"
    using recv_into_wf [of pb, OF _ re] c(2) pb winv_inq [OF w] by (auto simp: client_wf_def body_pending_def)
  show ?thesis
  proof (cases "0 < n")
    case True
    note ok = body_ok [OF srv c(1,3) pb re True, of junk]
    show ?thesis
    proof (cases "rb_can_write rb = 0")
      case z: True
      then obtain c' where c': "client_decode_body junk (c\<lparr>pkt_buf := Some rb\<rparr>) = Inr c'"
        "server_deliver_packet (Some cb) a (put_client c' srv) w1 = Inr (srv', w')"
        using r c pb re True by (auto simp: serve_client_def Let_def bind_res_Inr_iff)
      then show ?thesis using deliver_ok [OF _ w1 c'(2)] ok by simp
    next
      case nz: False
      then show ?thesis using r c pb re True ok w1 by (auto simp: serve_client_def Let_def)
    qed
  next
    case nn: False
    then show ?thesis using r c pb re w1 srv remove_ok [OF srv w1, of a srv' w']
      by (auto simp: serve_client_def split: if_splits)
  qed
qed

lemma serve_client_ok:
  assumes srv: "srv_wf srv" and w: "winv w" and r: "serve_client (Some cb) junk a fd srv w = Inr (srv', w')"
  shows "srv_wf srv' \<and> winv w' \<and> (ids srv' = ids srv \<or> ids srv' = remove1 a (ids srv))"
proof -
  obtain c where c: "client_at srv a = Inr c" using r by (auto simp: serve_client_def bind_res_Inr_iff)
  then have "client_wf c" using client_at_SomeD [OF c] srv by (auto simp: srv_wf_def)
  with serve_header_ok [OF assms c] serve_body_ok [OF assms c] show ?thesis by blast
qed

lemma serve_client_safe:
  assumes srv: "srv_wf srv" and w: "winv w" and a: "a \<in> set (ids srv)"
  shows "serve_client (Some cb) junk a fd srv w \<noteq> Inl Use_After_Free"
proof -
  obtain c where c: "client_at srv a = Inr c"
    using a by (cases "find (\<lambda>c. c_id c = a) (clients srv)") (auto simp: client_at_def find_None_iff)
  have wf: "client_wf c" using client_at_SomeD [OF c] srv by (auto simp: srv_wf_def)
  then have hb: "rb_wf (header_buf c)" by (simp add: client_wf_def)
  show ?thesis
  proof (cases "state c = IDLE")
    case True
    then show ?thesis
      using c recv_into_safe [OF hb, of fd w] header_ok [OF srv c True, of fd w _ _ _ junk]
      by (auto simp: serve_client_def PKT_HEADER_LEN_def Let_def bind_res_Inl_iff split: if_splits)
  next
    case False
    show ?thesis
    proof (cases "pkt_buf c")
      case (Some pb)
      have pw: "rb_wf pb" using wf Some by (auto simp: client_wf_def body_pending_def)
      have w1: "winv w1" if "recv_into pb fd w = Inr (n, rb, w1)" for n rb w1
        using recv_into_wf [OF pw that] winv_inq [OF w] by auto
      have del: "server_deliver_packet (Some cb) a (put_client c' srv) w1 \<noteq> Inl Use_After_Free"
        if "recv_into pb fd w = Inr (n, rb, w1)" for n rb w1 c'
        using deliver_safe [OF w1 [OF that], of a "put_client c' srv"] a by simp
      show ?thesis
        using c Some False recv_into_safe [OF pw, of fd w] body_ok [OF srv c False Some, of fd w _ _ _ junk] del
        by (auto simp: serve_client_def Let_def bind_res_Inl_iff split: if_splits)
    qed (use c False in \<open>simp add: serve_client_def\<close>)
  qed
qed

text \<open>
  The loop over the clients: the successor of a client is read before the client is served,
  and it is still in the list afterwards.
\<close>

lemma serve_loop_ok:
  assumes "srv_wf srv" "winv w" "\<forall>a. c = Some a \<longrightarrow> a \<in> set (ids srv)"
  shows "serve_loop (Some cb) junk fds k c srv w \<noteq> Inl Use_After_Free \<and>
     (\<forall>srv' w'. serve_loop (Some cb) junk fds k c srv w = Inr (srv', w') \<longrightarrow> srv_wf srv' \<and> winv w')"
  using assms
proof (induction fds arbitrary: k c srv w)
  case Nil
  then show ?case by (cases c) auto
next
  case (Cons f fds)
  show ?case
  proof (cases "\<exists>a. c = Some a \<and> k < n_clients srv")
    case False
    then show ?thesis using Cons.prems by (cases f; cases c) auto
  next
    case True
    then obtain a fd ready where a: "c = Some a" "k < n_clients srv" "f = (fd, ready)" by (cases f) auto
    have aid: "a \<in> set (ids srv)" using Cons.prems(3) a(1) by simp
    have dist: "distinct (ids srv)" using Cons.prems(1) by (simp add: srv_wf_def)
    obtain nxt where nxt: "next_in a (clients srv) = Inr nxt" "\<forall>b. nxt = Some b \<longrightarrow> b \<in> set (ids srv) \<and> b \<noteq> a"
      using next_in_ok [OF dist aid] by blast
    let ?s = "if ready then serve_client (Some cb) junk a fd srv w else Inr (srv, w)"
    have safe: "?s \<noteq> Inl Use_After_Free" using serve_client_safe [OF Cons.prems(1,2) aid] by auto
    have step: "srv_wf srv1 \<and> winv w1 \<and> (\<forall>b. nxt = Some b \<longrightarrow> b \<in> set (ids srv1))" if s: "?s = Inr (srv1, w1)" for srv1 w1
    proof -
      have st: "srv_wf srv1 \<and> winv w1 \<and> (ids srv1 = ids srv \<or> ids srv1 = remove1 a (ids srv))"
        using serve_client_ok [OF Cons.prems(1,2), of junk a fd srv1 w1] s Cons.prems(1,2)
        by (auto split: if_splits)
      then have "b \<in> set (ids srv1)" if "nxt = Some b" for b
        using nxt(2) that in_set_remove1 [of b a "ids srv"] by metis
      with st show ?thesis by blast
    qed
    have loop: "serve_loop (Some cb) junk (f # fds) k c srv w =
        bind_res ?s (\<lambda>(srv, w). serve_loop (Some cb) junk fds (k + 1) nxt srv w)"
      using a nxt(1) by simp
    show ?thesis
    proof (cases ?s)
      case (Inl e)
      then show ?thesis unfolding loop using safe by auto
    next
      case (Inr sw)
      then show ?thesis unfolding loop using step Cons.IH [of "fst sw" "snd sw" nxt "k + 1"] by (cases sw) auto
    qed
  qed
qed

lemma sweep_loop_ok:
  assumes "srv_wf srv" "winv w" "distinct as" "set as \<subseteq> set (ids srv)"
  shows "\<exists>srv' w'. sweep_loop as srv w = Inr (srv', w') \<and> srv_wf srv' \<and> winv w' \<and>
     set (clients srv') \<subseteq> {c \<in> set (clients srv). c_id c \<in> set as \<longrightarrow> state c \<noteq> REMOVE}"
  using assms
proof (induction as arbitrary: srv w)
  case (Cons a as)
  obtain c where c: "client_at srv a = Inr c"
    using Cons.prems(4) by (cases "find (\<lambda>c. c_id c = a) (clients srv)") (auto simp: client_at_def find_None_iff)
  note ca = client_at_SomeD [OF c]
  have uniq: "d = c" if "d \<in> set (clients srv)" "c_id d = a" for d
    using that ca Cons.prems(1) by (auto simp: srv_wf_def distinct_map inj_on_def)
  show ?case
  proof (cases "state c = REMOVE")
    case True
    obtain srv1 w1 where r: "server_remove_client srv a w = (srv1, w1)" by (cases "server_remove_client srv a w")
    have s1: "srv_wf srv1" "winv w1" "ids srv1 = remove1 a (ids srv)"
      using remove_ok [OF Cons.prems(1,2) r] by auto
    have sub: "set (clients srv1) \<subseteq> set (clients srv)" using server_remove_client_ok [OF Cons.prems(1) r] by simp
    have gone: "a \<notin> set (ids srv1)" unfolding s1(3) using Cons.prems(1) by (simp add: srv_wf_def)
    have "x \<noteq> a \<and> x \<in> set (ids srv)" if "x \<in> set as" for x
      using that Cons.prems(3,4) by (auto simp del: set_map)
    then have "set as \<subseteq> set (ids srv1)"
      unfolding s1(3) by (auto simp add: in_set_remove1 simp del: set_map)
    from Cons.IH [OF s1(1,2) _ this] Cons.prems(3) obtain srv' w' where
      "sweep_loop as srv1 w1 = Inr (srv', w')" "srv_wf srv'" "winv w'"
      "set (clients srv') \<subseteq> {c \<in> set (clients srv1). c_id c \<in> set as \<longrightarrow> state c \<noteq> REMOVE}" by auto
    with c True r sub gone show ?thesis by (auto simp: subset_iff)
  next
    case False
    from Cons.IH [OF Cons.prems(1,2)] Cons.prems(3,4) obtain srv' w' where
      "sweep_loop as srv w = Inr (srv', w')" "srv_wf srv'" "winv w'"
      "set (clients srv') \<subseteq> {c \<in> set (clients srv). c_id c \<in> set as \<longrightarrow> state c \<noteq> REMOVE}" by auto
    with c False uniq show ?thesis by (auto simp: subset_iff)
  qed
qed auto

lemma serve_ready_ok:
  assumes "srv_wf srv" "winv w"
  shows "serve_ready (Some cb) junk accepted ready srv w \<noteq> Inl Use_After_Free \<and>
     (\<forall>srv' w'. serve_ready (Some cb) junk accepted ready srv w = Inr (srv', w') \<longrightarrow>
       srv_wf srv' \<and> winv w' \<and> (\<forall>c \<in> set (clients srv'). state c \<noteq> REMOVE))"
proof -
  let ?l = "serve_loop (Some cb) junk (zip (map c_socket (clients srv)) ready) 0 (first_client srv) srv w"
  have first: "\<forall>a. first_client srv = Some a \<longrightarrow> a \<in> set (ids srv)"
    by (simp add: first_client_def split: list.split)
  note l = serve_loop_ok [OF assms first, of junk "zip (map c_socket (clients srv)) ready" 0]
  show ?thesis
  proof (cases ?l)
    case (Inl e)
    then show ?thesis using l by (auto simp: serve_ready_def)
  next
    case (Inr sw)
    obtain srv1 w1 where sw: "sw = (srv1, w1)" by (cases sw)
    have s1: "srv_wf srv1" "winv w1" using l Inr sw by auto
    obtain srv2 w2 where s2: "sweep_loop (ids srv1) srv1 w1 = Inr (srv2, w2)" "srv_wf srv2" "winv w2"
        "set (clients srv2) \<subseteq> {c \<in> set (clients srv1). c_id c \<in> set (ids srv1) \<longrightarrow> state c \<noteq> REMOVE}"
      using sweep_loop_ok [OF s1, of "ids srv1"] s1(1) by (auto simp: srv_wf_def)
    have no: "\<forall>c \<in> set (clients srv2). state c \<noteq> REMOVE" using s2(4) by auto
    have "serve_ready (Some cb) junk accepted ready srv w =
        Inr (case accepted of None \<Rightarrow> srv2 | Some fd \<Rightarrow> server_add_client junk fd srv2, w2)"
      using Inr sw s2(1) by (simp add: serve_ready_def)
    moreover have "\<forall>c \<in> set (clients (server_add_client junk fd srv2)). state c \<noteq> REMOVE" for fd
      using no by (simp add: server_add_client_def)
    ultimately show ?thesis
      using s2(2,3) no add_client_wf by (cases accepted) simp_all
  qed
qed

lemma server_run_loop_ok:
  assumes "srv_wf srv" "winv w"
  shows "server_run_loop (Some cb) junk polls srv w \<noteq> Inl Use_After_Free \<and>
     (\<forall>srv' w'. server_run_loop (Some cb) junk polls srv w = Inr (srv', w') \<longrightarrow>
       clients srv' = [] \<and> n_clients srv' = 0)"
  using assms
proof (induction polls arbitrary: srv w)
  have stop: "server_stop srv w = (srv', w') \<Longrightarrow> clients srv' = [] \<and> n_clients srv' = 0"
    if "srv_wf srv" for srv srv' :: server and w w' :: "'a net_scheme"
    using that server_stop_loop_closes [of srv w] by (auto simp: server_stop_def srv_wf_def)
  {
    case Nil
    then show ?case using stop by (subst (1 2) server_run_loop.simps) auto
  next
    case (Cons p polls)
    show ?case
    proof (cases "active srv")
      case False
      then show ?thesis using Cons.prems stop by (subst (1 2) server_run_loop.simps) auto
    next
      case True
      show ?thesis
      proof (cases p)
        case PollError
        then show ?thesis using True Cons.prems stop by (subst (1 2) server_run_loop.simps) auto
      next
        case PollTimeout
        then show ?thesis using True Cons.prems Cons.IH by (subst (1 2) server_run_loop.simps) auto
      next
        case (PollReady sr accepted ready)
        let ?r = "serve_ready (Some cb) junk accepted ready srv w"
        note ok = serve_ready_ok [OF Cons.prems, of junk accepted ready]
        have "server_run_loop (Some cb) junk (p # polls) srv w =
            (if sr then Inr (server_stop srv w) else bind_res ?r (\<lambda>(srv, w). server_run_loop (Some cb) junk polls srv w))"
          using True PollReady by (subst server_run_loop.simps) simp
        then show ?thesis using ok Cons.prems stop Cons.IH by (cases ?r) auto
      qed
    qed
  }
qed

lemma server_run_ok:
  assumes "srv_wf srv" "winv w"
  shows "server_run (Some cb) junk polls srv w \<noteq> Inl Use_After_Free \<and>
     (\<forall>srv' w'. server_run (Some cb) junk polls srv w = Inr (srv', w') \<longrightarrow> clients srv' = [] \<and> n_clients srv' = 0)"
  unfolding server_run_def using assms by (intro server_run_loop_ok) (simp_all add: srv_wf_def)

end

section \<open>Properties\<close>

text \<open>
  \<open>server_stop\<close> closes the socket of every client exactly once, in list order, unlinks
  them all and brings the client counter to 0; the walk over the list survives that each
  step frees the node it stands on.
\<close>

theorem server_stop_closes_all:
  assumes "srv_wf srv"
  shows "\<exists>srv'. server_stop srv w = (srv', w\<lparr>trace := trace w @ map (\<lambda>c. EvClose (c_socket c)) (clients srv)\<rparr>) \<and>
     clients srv' = [] \<and> n_clients srv' = 0 \<and> srv_wf srv'"
  using assms server_stop_loop_closes [of srv w] by (simp add: server_stop_def srv_wf_def)

section \<open>Witness\<close>

theorem server_stop_closes_all_witness:
  "\<exists>srv'. server_stop (server_add_client (\<lambda>_. 0) 6 one_client) quiet_net =
     (srv', quiet_net\<lparr>trace := [EvClose 6, EvClose 5]\<rparr>) \<and> clients srv' = []"
proof -
  have "srv_wf \<lparr>s_socket = 3, n_clients = 0, active = True, clients = [], next_id = 0\<rparr>" by (simp add: srv_wf_def)
  then have wf: "srv_wf (server_add_client (\<lambda>_. 0) 6 one_client)" unfolding one_client_def
    by (intro add_client_wf)
  have "map (\<lambda>c. EvClose (c_socket c)) (clients (server_add_client (\<lambda>_. 0) 6 one_client)) = [EvClose 6, EvClose 5]"
    by (simp add: one_client_def server_add_client_def)
  with server_stop_closes_all [OF wf, of quiet_net] show ?thesis by (auto simp: quiet_net_def)
qed

end
