(* ===== verification/Event_Loop.thy ===== *)
theory Event_Loop
  imports Server_Loop
begin

text \<open>
  Runs of the event loop \<open>server_run_loop\<close> of \<open>praxis2/src/server.c\<close>, whole rounds of \<open>poll\<close>, the
  loop over the clients and the removal of the marked ones. \<open>loop_steps\<close> relates two states
  between which some rounds lead; a client that alone is readable, round after round, is served
  as the lemmas on reassembly say, and the other clients are not touched.
\<close>

section \<open>Rounds of the event loop\<close>

text \<open>What \<open>poll\<close> reports when the client \<open>a\<close> alone is readable.\<close>

definition only_ready :: "nat \<Rightarrow> server \<Rightarrow> poll_result" where
  "only_ready a srv = PollReady False None (map (\<lambda>i. i = a) (ids srv))"

text \<open>Some rounds in which only the client \<open>a\<close> is readable lead from one state to the other.\<close>

definition loop_steps ::
  "'w callback \<Rightarrow> (nat \<Rightarrow> byte) \<Rightarrow> nat \<Rightarrow> server \<times> 'w net_scheme \<Rightarrow> server \<times> 'w net_scheme \<Rightarrow> bool" where
  "loop_steps cb junk a s t \<longleftrightarrow> (\<exists>n. \<forall>more.
     server_run_loop (Some cb) junk (replicate n (only_ready a (fst s)) @ more) (fst s) (snd s) =
     server_run_loop (Some cb) junk more (fst t) (snd t))"

lemma loop_steps_refl [simp]: "loop_steps cb junk a s s"
  unfolding loop_steps_def by (rule exI [of _ 0]) simp

lemma loop_steps_trans:
  assumes "loop_steps cb junk a s t" "loop_steps cb junk a t u" "ids (fst t) = ids (fst s)"
  shows "loop_steps cb junk a s u"
proof -
  obtain m where m: "\<And>more. server_run_loop (Some cb) junk (replicate m (only_ready a (fst s)) @ more) (fst s) (snd s) =
      server_run_loop (Some cb) junk more (fst t) (snd t)" using assms(1) by (auto simp: loop_steps_def)
  obtain n where n: "\<And>more. server_run_loop (Some cb) junk (replicate n (only_ready a (fst t)) @ more) (fst t) (snd t) =
      server_run_loop (Some cb) junk more (fst u) (snd u)" using assms(2) by (auto simp: loop_steps_def)
  have r: "only_ready a (fst t) = only_ready a (fst s)" using assms(3) by (simp add: only_ready_def)
  show ?thesis unfolding loop_steps_def
    using m n [unfolded r] by (intro exI [of _ "m + n"]) (simp add: replicate_add)
qed

lemma loop_round:
  assumes "active srv" "only_ready a srv = PollReady False None ready" "serve_ready (Some cb) junk None ready srv w = Inr t"
  shows "loop_steps cb junk a (srv, w) t"
proof -
  have "server_run_loop (Some cb) junk (only_ready a srv # more) srv w = server_run_loop (Some cb) junk more (fst t) (snd t)" for more
    using assms by (subst server_run_loop.simps) (simp add: split_beta)
  then show ?thesis unfolding loop_steps_def by (intro exI [of _ 1]) simp
qed

section \<open>One readable client\<close>

definition unmarked :: "server \<Rightarrow> bool" where
  "unmarked srv \<longleftrightarrow> (\<forall>c \<in> set (clients srv). state c \<noteq> REMOVE)"

definition head_id :: "nat list \<Rightarrow> nat option" where
  "head_id as = (case as of [] \<Rightarrow> None | a # _ \<Rightarrow> Some a)"

lemma head_id_simps [simp]: "head_id [] = None" "head_id (a # as) = Some a"
  by (simp_all add: head_id_def)

lemma next_in_split:
  assumes "map c_id cs = pre @ a # suf" "distinct (map c_id cs)"
  shows "next_in a cs = Inr (head_id suf)"
  using assms
proof (induction pre arbitrary: cs)
  case Nil
  then obtain c ds where "cs = c # ds" "c_id c = a" "map c_id ds = suf" by auto
  then show ?case by (cases ds) auto
next
  case (Cons b pre)
  then obtain c ds where cs: "cs = c # ds" "c_id c = b" "map c_id ds = pre @ a # suf" by auto
  then have "b \<noteq> a" using Cons.prems by auto
  then show ?case using Cons.IH [of ds] Cons.prems cs by simp
qed

text \<open>The loop passes over clients that are not readable.\<close>

lemma serve_loop_idle:
  assumes "map c_id (clients srv) = pre @ suf" "distinct (map c_id (clients srv))" "length suf \<le> length fds"
    "\<forall>f \<in> set fds. \<not> snd f"
  shows "serve_loop cb junk fds k (head_id suf) srv w = Inr (srv, w)"
  using assms
proof (induction suf arbitrary: pre fds k)
  case Nil
  then show ?case by simp
next
  case (Cons a suf)
  then obtain f fds' where fds: "fds = f # fds'" "\<not> snd f" "length suf \<le> length fds'" "\<forall>f \<in> set fds'. \<not> snd f"
    by (cases fds) auto
  have "serve_loop cb junk fds' (k + 1) (head_id suf) srv w = Inr (srv, w)"
    using Cons.IH [of "pre @ [a]" fds' "k + 1"] Cons.prems(1,2) fds by simp
  then show ?case using fds(1,2) next_in_split [OF Cons.prems(1,2)] by (cases f) simp
qed

lemma serve_loop_one:
  assumes "clients srv = cs1 @ cs2" "srv_wf srv" "a \<in> set (map c_id cs2)" "k = int (length cs1)"
    "client_at srv a = Inr c" "serve_client cb junk a (c_socket c) srv w = Inr (srv', w')"
    "map c_id (clients srv') = map c_id (clients srv) \<or> map c_id (clients srv') = remove1 a (map c_id (clients srv))"
  shows "serve_loop cb junk (zip (map c_socket cs2) (map (\<lambda>d. c_id d = a) cs2)) k (head_id (map c_id cs2)) srv w = Inr (srv', w')"
  using assms(1,3,4)
proof (induction cs2 arbitrary: cs1 k)
  case Nil
  then show ?case by simp
next
  case (Cons d cs2)
  have dist: "distinct (map c_id (clients srv))" using assms(2) by (simp add: srv_wf_def)
  have n: "k < n_clients srv" using Cons.prems(1,3) assms(2) by (simp add: srv_wf_def)
  have nx: "next_in (c_id d) (clients srv) = Inr (head_id (map c_id cs2))"
    using next_in_split [of "clients srv" "map c_id cs1" "c_id d" "map c_id cs2"] Cons.prems(1) dist by simp
  show ?case
  proof (cases "c_id d = a")
    case False
    have "serve_loop cb junk (zip (map c_socket cs2) (map (\<lambda>d. c_id d = a) cs2)) (k + 1) (head_id (map c_id cs2)) srv w = Inr (srv', w')"
      using Cons.IH [of "cs1 @ [d]" "k + 1"] Cons.prems False by simp
    then show ?thesis using n nx False by simp
  next
    case True
    have "with_client d srv" using dist Cons.prems(1) by (simp add: with_client_def)
    from client_at_with [OF this] have "c = d" using assms(5) True by simp
    have split: "map c_id (clients srv) = map c_id cs1 @ a # map c_id cs2" using Cons.prems(1) True by simp
    have "a \<notin> set (map c_id cs1)" "a \<notin> set (map c_id cs2)" using dist unfolding split by auto
    then have rm: "remove1 a (map c_id (clients srv)) = map c_id cs1 @ map c_id cs2"
      unfolding split by (simp add: remove1_append)
    have idle: "\<forall>f \<in> set (zip (map c_socket cs2) (map (\<lambda>d. c_id d = a) cs2)). \<not> snd f"
      using \<open>a \<notin> set (map c_id cs2)\<close> by (auto dest!: set_zip_rightD)
    have "\<exists>pre. map c_id (clients srv') = pre @ map c_id cs2"
      using assms(7) split rm by (metis append.assoc append_Cons append_Nil)
    then obtain pre where pre: "map c_id (clients srv') = pre @ map c_id cs2" ..
    have dist': "distinct (map c_id (clients srv'))" using assms(7) dist distinct_remove1 by metis
    have "serve_loop cb junk (zip (map c_socket cs2) (map (\<lambda>d. c_id d = a) cs2)) (k + 1) (head_id (map c_id cs2)) srv' w' = Inr (srv', w')"
      using serve_loop_idle [OF pre dist' _ idle] by simp
    then show ?thesis using n nx True \<open>c = d\<close> assms(6) by simp
  qed
qed

lemma first_client_head: "first_client srv = head_id (map c_id (clients srv))"
  by (simp add: first_client_def head_id_def split: list.split)

lemma serve_ready_one:
  assumes "srv_wf srv" "client_at srv a = Inr c" "serve_client cb junk a (c_socket c) srv w = Inr (srv', w')"
    "map c_id (clients srv') = map c_id (clients srv) \<or> map c_id (clients srv') = remove1 a (map c_id (clients srv))"
    "sweep_loop (map c_id (clients srv')) srv' w' = Inr t"
  shows "serve_ready cb junk None (map (\<lambda>i. i = a) (ids srv)) srv w = Inr t"
proof -
  have "a \<in> set (map c_id (clients srv))" using client_at_SomeD [OF assms(2)] by auto
  from serve_loop_one [OF _ assms(1) this _ assms(2-4), of "[]" 0]
  show ?thesis using assms(5) by (simp add: serve_ready_def first_client_head split_beta comp_def)
qed

lemma sweep_unmarked:
  assumes "unmarked srv" "set as \<subseteq> set (map c_id (clients srv))"
  shows "sweep_loop as srv w = Inr (srv, w)"
  using assms(2)
proof (induction as)
  case (Cons a as)
  then obtain c where "client_at srv a = Inr c"
    by (cases "find (\<lambda>c. c_id c = a) (clients srv)") (auto simp: client_at_def find_None_iff)
  then show ?case using Cons client_at_SomeD [of srv a c] assms(1) by (simp add: unmarked_def)
qed simp

lemma sweep_ids: "unmarked srv \<Longrightarrow> sweep_loop (map c_id (clients srv)) srv w = Inr (srv, w)"
  by (rule sweep_unmarked) simp_all

text \<open>A round in which no client is readable and a connection is accepted.\<close>

lemma loop_accepts:
  assumes "srv_wf srv" "active srv" "unmarked srv"
  shows "server_run_loop cb junk (PollReady False (Some fd) (map (\<lambda>_. False) (clients srv)) # polls) srv w =
    server_run_loop cb junk polls (server_add_client junk fd srv) w"
proof -
  have "\<forall>f \<in> set (zip (map c_socket (clients srv)) (map (\<lambda>_. False) (clients srv))). \<not> snd f"
    by (auto dest!: set_zip_rightD)
  with serve_loop_idle [of srv "[]" "ids srv" "zip (map c_socket (clients srv)) (map (\<lambda>_. False) (clients srv))" cb junk 0 w] assms(1)
  have "serve_loop cb junk (zip (map c_socket (clients srv)) (map (\<lambda>_. False) (clients srv))) 0 (first_client srv) srv w = Inr (srv, w)"
    by (simp add: srv_wf_def first_client_head)
  then have "serve_ready cb junk (Some fd) (map (\<lambda>_. False) (clients srv)) srv w = Inr (server_add_client junk fd srv, w)"
    using sweep_ids [OF assms(3), of w] by (simp add: serve_ready_def)
  then show ?thesis using assms(2) by (subst server_run_loop.simps) simp
qed

section \<open>Clients that leave\<close>

text \<open>The server without the client \<open>a\<close>.\<close>

definition without :: "nat \<Rightarrow> server \<Rightarrow> server" where
  "without a srv = srv\<lparr>clients := filter (\<lambda>d. c_id d \<noteq> a) (clients srv), n_clients := n_clients srv - 1\<rparr>"

lemma remove1_filter: "distinct (map f xs) \<Longrightarrow> x \<in> set xs \<Longrightarrow> remove1 x xs = filter (\<lambda>y. f y \<noteq> f x) xs"
proof (induction xs)
  case (Cons y xs)
  then have out: "f y \<notin> f ` set xs" by simp
  then have "filter (\<lambda>z. f z \<noteq> f y) xs = xs" by (intro filter_True) (metis imageI)
  moreover have "x \<noteq> y \<Longrightarrow> f y \<noteq> f x" using out Cons.prems(2) by (metis imageI set_ConsD)
  ultimately show ?case using Cons by auto
qed simp

lemma without_client: "with_client c srv \<Longrightarrow> server_remove_client srv (c_id c) w = (without (c_id c) srv, sys_close (c_socket c) w)"
  using find_distinct [of c_id "clients srv" c] remove1_filter [of c_id "clients srv" c]
  by (simp add: with_client_def server_remove_client_def without_def)

lemma filter_put: "filter (\<lambda>d. c_id d \<noteq> c_id c) (map (\<lambda>d. if c_id d = c_id c then c else d) ds) = filter (\<lambda>d. c_id d \<noteq> c_id c) ds"
  by (induction ds) auto

lemma without_put [simp]: "c_id c = a \<Longrightarrow> without a (put_client c srv) = without a srv"
  using filter_put [of c "clients srv"] by (simp add: without_def put_client_def)

lemma without_put_other: "c_id c \<noteq> a \<Longrightarrow> without a (put_client c srv) = put_client c (without a srv)"
proof -
  have "filter (\<lambda>d. c_id d \<noteq> a) (map (\<lambda>d. if c_id d = c_id c then c else d) ds) =
      map (\<lambda>d. if c_id d = c_id c then c else d) (filter (\<lambda>d. c_id d \<noteq> a) ds)" if "c_id c \<noteq> a" for ds
    using that by (induction ds) auto
  then show "c_id c \<noteq> a \<Longrightarrow> without a (put_client c srv) = put_client c (without a srv)"
    by (simp add: without_def put_client_def)
qed

lemma without_keeps:
  "unmarked srv \<Longrightarrow> unmarked (without a srv)" "active (without a srv) = active srv"
  "with_client c srv \<Longrightarrow> c_id c \<noteq> a \<Longrightarrow> with_client c (without a srv)"
  by (auto simp: unmarked_def without_def with_client_def distinct_map_filter)

lemma unmarked_put: "unmarked srv \<Longrightarrow> state c \<noteq> REMOVE \<Longrightarrow> unmarked (put_client c srv)"
  by (auto simp: unmarked_def put_client_def)

lemma active_put [simp]: "active (put_client c srv) = active srv"
  by (simp add: put_client_def)

lemma close_socket_marks:
  assumes "with_client c srv" "distinct (map c_socket (clients srv))"
  shows "server_close_socket srv (c_socket c) = put_client (c\<lparr>state := REMOVE\<rparr>) srv"
proof -
  have "mark_socket (c_socket c) ds = map (\<lambda>d. if c_id d = c_id c then c\<lparr>state := REMOVE\<rparr> else d) ds"
    if "c \<in> set ds" "distinct (map c_id ds)" "distinct (map c_socket ds)" for ds
    using that
  proof (induction ds)
    case (Cons d ds)
    show ?case
    proof (cases "d = c")
      case True
      then have "map (\<lambda>d. if c_id d = c_id c then c\<lparr>state := REMOVE\<rparr> else d) ds = ds"
        using Cons.prems(2) by (intro map_idI) (metis distinct.simps(2) imageI list.simps(9) set_map)
      then show ?thesis using True by simp
    next
      case False
      then have "c \<in> set ds" using Cons.prems(1) by simp
      then have "c_id c \<in> c_id ` set ds" "c_socket c \<in> c_socket ` set ds" by simp_all
      then have "c_id d \<noteq> c_id c" "c_socket d \<noteq> c_socket c"
        using Cons.prems(2,3) by (metis distinct.simps(2) list.simps(9) set_map)+
      then show ?thesis using Cons.IH \<open>c \<in> set ds\<close> Cons.prems(2,3) by simp
    qed
  qed simp
  then show ?thesis using assms by (simp add: with_client_def server_close_socket_def put_client_def)
qed

lemma sweep_one:
  assumes "unmarked srv" "with_client c srv" "set as \<subseteq> set (map c_id (clients srv))" "distinct as" "c_id c \<in> set as"
  shows "sweep_loop as (put_client (c\<lparr>state := REMOVE\<rparr>) srv) w = Inr (without (c_id c) srv, sys_close (c_socket c) w)"
  using assms(3-5)
proof (induction as)
  case (Cons a as)
  let ?c = "c\<lparr>state := REMOVE\<rparr>" and ?srv = "put_client (c\<lparr>state := REMOVE\<rparr>) srv"
  have wc: "with_client ?c ?srv" using with_put_client [OF assms(2)] by simp
  show ?case
  proof (cases "a = c_id c")
    case True
    have "set as \<subseteq> set (map c_id (clients (without (c_id c) srv)))"
      using Cons.prems(1,2) True by (force simp: without_def)
    then have "sweep_loop as (without (c_id c) srv) (sys_close (c_socket c) w) = Inr (without (c_id c) srv, sys_close (c_socket c) w)"
      by (rule sweep_unmarked [OF without_keeps(1) [OF assms(1)]])
    then show ?thesis using True client_at_with [OF wc] without_client [OF wc, of w] by simp
  next
    case False
    then obtain d where d: "d \<in> set (clients srv)" "c_id d = a" using Cons.prems(1) by auto
    then have "with_client d ?srv" using False assms(2) by (auto simp: with_client_def put_client_def comp_def if_distrib cong: if_cong)
    then have "client_at ?srv a = Inr d" using client_at_with d(2) by blast
    moreover have "state d \<noteq> REMOVE" using assms(1) d(1) by (simp add: unmarked_def)
    ultimately show ?thesis using Cons False by simp
  qed
qed simp

lemma with_put_other: "with_client d srv \<Longrightarrow> c_id d \<noteq> c_id c \<Longrightarrow> with_client d (put_client c srv)"
  unfolding with_client_def put_client_ids by (auto simp: put_client_def rev_image_eqI)

lemma put_client_sockets:
  assumes "with_client c srv" "c_id c1 = c_id c" "c_socket c1 = c_socket c"
  shows "map c_socket (clients (put_client c1 srv)) = map c_socket (clients srv)"
proof -
  have "c_socket x = c_socket c" if "x \<in> set (clients srv)" "c_id x = c_id c" for x
    using that assms(1) by (metis client_at_with sum.inject(2) with_client_def)
  then show ?thesis using assms(2,3) by (auto simp: put_client_def)
qed

section \<open>Serving one client by rounds\<close>

definition serving :: "client \<Rightarrow> server \<Rightarrow> bool" where
  "serving c srv \<longleftrightarrow> srv_wf srv \<and> active srv \<and> unmarked srv \<and> c \<in> set (clients srv)"

lemma serving_with: "serving c srv \<Longrightarrow> with_client c srv"
  by (simp add: serving_def with_client_def srv_wf_def)

lemma without_wf: "serving c srv \<Longrightarrow> srv_wf (without (c_id c) srv)"
proof -
  assume s: "serving c srv"
  from server_remove_client_ok [OF _ without_client [OF serving_with [OF s], of quiet_net]] s
  show "srv_wf (without (c_id c) srv)" by (simp add: serving_def)
qed

context packet_handler begin

lemma loop_serve:
  assumes "srv_wf srv" "winv w" "active srv" "client_at srv a = Inr c" "serve_client (Some cb) junk a (c_socket c) srv w = Inr (srv', w')"
    "sweep_loop (ids srv') srv' w' = Inr t"
  shows "loop_steps cb junk a (srv, w) t"
  using serve_ready_one [OF assms(1,4,5) _ assms(6)] serve_client_ok [OF assms(1,2,5)]
  by (intro loop_round [OF assms(3) only_ready_def]) auto

lemma loop_reading:
  assumes "(reading (Some cb) junk a fd)\<^sup>*\<^sup>* s t"
    "srv_wf (fst s)" "winv (snd s)" "active (fst s)" "unmarked (fst s)" "client_at (fst s) a = Inr c" "c_socket c = fd"
  shows "loop_steps cb junk a s t \<and> ids (fst t) = ids (fst s) \<and> srv_wf (fst t) \<and> winv (snd t) \<and> active (fst t) \<and> unmarked (fst t) \<and>
     (\<exists>c. client_at (fst t) a = Inr c \<and> c_socket c = fd)"
  using assms
proof (induction arbitrary: c rule: converse_rtranclp_induct)
  case (step s u)
  obtain c' where u: "serve_client (Some cb) junk a fd (fst s) (snd s) = Inr u" "fst u = put_client c' (fst s)"
    "c_id c' = a" "c_socket c' = fd" "state c' \<noteq> REMOVE"
    using step.hyps(1) step.prems(5,6) by (auto simp: reading_def)
  have wf: "srv_wf (fst u)" "winv (snd u)" using serve_client_ok [OF step.prems(1,2), of junk a fd "fst u" "snd u"] u(1) by auto
  have un: "unmarked (fst u)" "active (fst u)" using u(2,5) step.prems(3,4) by (simp_all add: unmarked_put)
  have "with_client c (fst s)" using client_at_SomeD [OF step.prems(5)] step.prems(1) by (simp add: with_client_def srv_wf_def)
  from client_at_with [OF with_put_client [OF this, of c']] have at: "client_at (fst u) a = Inr c'"
    using u(2,3) client_at_SomeD [OF step.prems(5)] by simp
  have "sweep_loop (ids (fst u)) (fst u) (snd u) = Inr u" using sweep_ids [OF un(1), of "snd u"] by simp
  moreover have "serve_client (Some cb) junk a (c_socket c) (fst s) (snd s) = Inr (fst u, snd u)" using u(1) step.prems(6) by simp
  ultimately have "loop_steps cb junk a s u" using loop_serve [OF step.prems(1-3,5), of junk "fst u" "snd u" u] by (metis prod.collapse)
  moreover have "ids (fst u) = ids (fst s)" using u(2) by simp
  ultimately show ?case using step.IH [OF wf un(2,1) at u(4)] loop_steps_trans [of cb junk a s u t] by simp
qed auto

text \<open>A packet that arrives in pieces while no other client is readable: rounds up to its delivery and the removals after it.\<close>

lemma loop_packet:
  assumes c: "serving c srv" "fresh_client c" and w: "winv w" and cs: "\<forall>x \<in> set cs. x \<noteq> []" "concat cs = wire p"
    and p: "has_flag (flags p) PKT_FLAG_CTRL \<or> wf_packet p \<and> fits_u32 p"
    and body: "0 < packet_body_size p" "packet_body_size p < 2 ^ 31"
  shows "\<exists>rd c1. fresh_client c1 \<and> c_id c1 = c_id c \<and> c_socket c1 = c_socket c \<and> with_client c1 (put_client c1 srv) \<and>
     (\<forall>r srv2 w2 srv3 w3 t. cb (put_client c1 srv) (c_id c) (Some (packet_view p)) (feed (c_socket c) rd rest w) = Inr (r, srv2, w2) \<longrightarrow>
        (if r = CB_REMOVE_CLIENT then server_remove_client srv2 (c_id c) w2 else (srv2, w2)) = (srv3, w3) \<longrightarrow>
        sweep_loop (ids srv3) srv3 w3 = Inr t \<longrightarrow> loop_steps cb junk (c_id c) (srv, feed (c_socket c) cs rest w) t)"
proof -
  have wc: "with_client c srv" using serving_with [OF c(1)] .
  obtain srv1 w1 rd rb where s: "(reading (Some cb) junk (c_id c) (c_socket c))\<^sup>*\<^sup>* (srv, feed (c_socket c) cs rest w) (srv1, w1)"
    "serve_client (Some cb) junk (c_id c) (c_socket c) srv1 w1 =
       server_deliver_packet (Some cb) (c_id c) (put_client (c\<lparr>header_buf := rb, pack := Some (packet_view p)\<rparr>) srv)
         (feed (c_socket c) rd rest w)"
    "fresh_client (c\<lparr>header_buf := rb, pack := Some (packet_view p)\<rparr>)"
    using serve_packet_reading [OF wc c(2) cs(1) p body, of "[]" "Some cb" junk "c_socket c" rest w] cs(2) by auto
  have "winv (feed (c_socket c) cs rest w)" unfolding feed_def by (rule winv_inq [OF w])
  then have r: "loop_steps cb junk (c_id c) (srv, feed (c_socket c) cs rest w) (srv1, w1)" "srv_wf srv1" "winv w1" "active srv1" "ids srv1 = ids srv"
    "\<exists>d. client_at srv1 (c_id c) = Inr d \<and> c_socket d = c_socket c"
    using loop_reading [OF s(1)] c(1) client_at_with [OF wc] by (auto simp: serving_def)
  then obtain d where d: "client_at srv1 (c_id c) = Inr d" "c_socket d = c_socket c" by blast
  let ?c = "c\<lparr>header_buf := rb, pack := Some (packet_view p)\<rparr>"
  have w1: "with_client ?c (put_client ?c srv)" using with_put_client [OF wc, of ?c] by simp
  then have at: "client_at (put_client ?c srv) (c_id c) = Inr ?c" using client_at_with by fastforce
  have "loop_steps cb junk (c_id c) (srv, feed (c_socket c) cs rest w) t"
    if "cb (put_client ?c srv) (c_id c) (Some (packet_view p)) (feed (c_socket c) rd rest w) = Inr (r, srv2, w2)"
      "(if r = CB_REMOVE_CLIENT then server_remove_client srv2 (c_id c) w2 else (srv2, w2)) = (srv3, w3)"
      "sweep_loop (ids srv3) srv3 w3 = Inr t" for r srv2 w2 srv3 w3 t
  proof -
    have "serve_client (Some cb) junk (c_id c) (c_socket d) srv1 w1 = Inr (srv3, w3)"
      using s(2) d(2) at that(1,2) by (auto simp: server_deliver_packet_def)
    from loop_serve [OF r(2-4) d(1) this that(3)] show ?thesis using loop_steps_trans [OF r(1)] r(5) by simp
  qed
  then show ?thesis using s(3) w1 by (intro exI [of _ rd] exI [of _ ?c]) simp
qed

text \<open>The same by what the callback does: drop the client, keep it, or drop it and mark another one.\<close>

lemma loop_removed:
  assumes c: "serving c srv" "fresh_client c" "winv w" and cs: "\<forall>x \<in> set cs. x \<noteq> []" "concat cs = wire p"
    and p: "has_flag (flags p) PKT_FLAG_CTRL \<or> wf_packet p \<and> fits_u32 p"
    and body: "0 < packet_body_size p" "packet_body_size p < 2 ^ 31"
    and handled: "\<And>srv1 c1 w1. client_at srv1 (c_id c) = Inr c1 \<Longrightarrow> c_socket c1 = c_socket c \<Longrightarrow>
       \<exists>rd. w1 = feed (c_socket c) rd rest w \<Longrightarrow>
       \<exists>w2. cb srv1 (c_id c) (Some (packet_view p)) w1 = Inr (CB_REMOVE_CLIENT, srv1, w2) \<and> Q w2"
  shows "\<exists>w2. loop_steps cb junk (c_id c) (srv, feed (c_socket c) cs rest w) (without (c_id c) srv, sys_close (c_socket c) w2) \<and> Q w2"
proof -
  obtain rd c1 where c1: "fresh_client c1" "c_id c1 = c_id c" "c_socket c1 = c_socket c" "with_client c1 (put_client c1 srv)"
    and l: "\<And>r srv2 w2 srv3 w3 t. cb (put_client c1 srv) (c_id c) (Some (packet_view p)) (feed (c_socket c) rd rest w) = Inr (r, srv2, w2) \<Longrightarrow>
      (if r = CB_REMOVE_CLIENT then server_remove_client srv2 (c_id c) w2 else (srv2, w2)) = (srv3, w3) \<Longrightarrow>
      sweep_loop (ids srv3) srv3 w3 = Inr t \<Longrightarrow> loop_steps cb junk (c_id c) (srv, feed (c_socket c) cs rest w) t"
    using loop_packet [OF assms(1-8), of rest junk] by blast
  let ?srv = "put_client c1 srv" and ?w = "feed (c_socket c) rd rest w"
  have at: "client_at ?srv (c_id c) = Inr c1" using client_at_with [OF c1(4)] c1(2) by simp
  obtain w2 where w2: "cb ?srv (c_id c) (Some (packet_view p)) ?w = Inr (CB_REMOVE_CLIENT, ?srv, w2)" "Q w2"
    using handled [OF at c1(3)] by auto
  have "server_remove_client ?srv (c_id c) w2 = (without (c_id c) srv, sys_close (c_socket c) w2)"
    using without_client [OF c1(4), of w2] c1(2,3) by simp
  moreover have "unmarked (without (c_id c) srv)" using c(1) by (simp add: serving_def without_keeps)
  ultimately show ?thesis using l [OF w2(1) _ sweep_ids, of "without (c_id c) srv" "sys_close (c_socket c) w2"] w2(2) by auto
qed

lemma loop_kept:
  assumes c: "serving c srv" "fresh_client c" "winv w" and cs: "\<forall>x \<in> set cs. x \<noteq> []" "concat cs = wire p"
    and p: "has_flag (flags p) PKT_FLAG_CTRL \<or> wf_packet p \<and> fits_u32 p"
    and body: "0 < packet_body_size p" "packet_body_size p < 2 ^ 31"
    and handled: "\<And>srv1 c1 w1. client_at srv1 (c_id c) = Inr c1 \<Longrightarrow> c_socket c1 = c_socket c \<Longrightarrow>
       \<exists>rd. w1 = feed (c_socket c) rd rest w \<Longrightarrow>
       \<exists>w2. cb srv1 (c_id c) (Some (packet_view p)) w1 = Inr (CB_OK, srv1, w2) \<and> Q w2"
  shows "\<exists>c1 w2. loop_steps cb junk (c_id c) (srv, feed (c_socket c) cs rest w) (put_client c1 srv, w2) \<and>
     fresh_client c1 \<and> c_id c1 = c_id c \<and> c_socket c1 = c_socket c \<and> Q w2"
proof -
  obtain rd c1 where c1: "fresh_client c1" "c_id c1 = c_id c" "c_socket c1 = c_socket c" "with_client c1 (put_client c1 srv)"
    and l: "\<And>r srv2 w2 srv3 w3 t. cb (put_client c1 srv) (c_id c) (Some (packet_view p)) (feed (c_socket c) rd rest w) = Inr (r, srv2, w2) \<Longrightarrow>
      (if r = CB_REMOVE_CLIENT then server_remove_client srv2 (c_id c) w2 else (srv2, w2)) = (srv3, w3) \<Longrightarrow>
      sweep_loop (ids srv3) srv3 w3 = Inr t \<Longrightarrow> loop_steps cb junk (c_id c) (srv, feed (c_socket c) cs rest w) t"
    using loop_packet [OF assms(1-8), of rest junk] by blast
  let ?srv = "put_client c1 srv" and ?w = "feed (c_socket c) rd rest w"
  have at: "client_at ?srv (c_id c) = Inr c1" using client_at_with [OF c1(4)] c1(2) by simp
  obtain w2 where w2: "cb ?srv (c_id c) (Some (packet_view p)) ?w = Inr (CB_OK, ?srv, w2)" "Q w2"
    using handled [OF at c1(3)] by auto
  have "unmarked ?srv" using c(1) c1(1) by (intro unmarked_put) (simp_all add: serving_def fresh_client_def hdr_phase_def)
  then have "loop_steps cb junk (c_id c) (srv, feed (c_socket c) cs rest w) (?srv, w2)"
    using l [OF w2(1) _ sweep_ids, of ?srv w2] by (simp add: CB_OK_def CB_REMOVE_CLIENT_def)
  then show ?thesis using w2(2) c1(1-3) by (intro exI [of _ c1] exI [of _ w2]) simp
qed

lemma loop_removed_marked:
  assumes c: "serving c srv" "fresh_client c" "winv w" and cs: "\<forall>x \<in> set cs. x \<noteq> []" "concat cs = wire p"
    and p: "has_flag (flags p) PKT_FLAG_CTRL \<or> wf_packet p \<and> fits_u32 p"
    and body: "0 < packet_body_size p" "packet_body_size p < 2 ^ 31"
    and d: "d \<in> set (clients srv)" "c_id d \<noteq> c_id c" "distinct (map c_socket (clients srv))"
    and handled: "\<And>srv1 w1. \<exists>rd. w1 = feed (c_socket c) rd rest w \<Longrightarrow>
       \<exists>w2. cb srv1 (c_id c) (Some (packet_view p)) w1 = Inr (CB_REMOVE_CLIENT, server_close_socket srv1 (c_socket d), w2) \<and> Q w2"
  shows "\<exists>w2. loop_steps cb junk (c_id c) (srv, feed (c_socket c) cs rest w)
     (without (c_id d) (without (c_id c) srv), sys_close (c_socket d) (sys_close (c_socket c) w2)) \<and> Q w2"
proof -
  obtain rd c1 where c1: "fresh_client c1" "c_id c1 = c_id c" "c_socket c1 = c_socket c" "with_client c1 (put_client c1 srv)"
    and l: "\<And>r srv2 w2 srv3 w3 t. cb (put_client c1 srv) (c_id c) (Some (packet_view p)) (feed (c_socket c) rd rest w) = Inr (r, srv2, w2) \<Longrightarrow>
      (if r = CB_REMOVE_CLIENT then server_remove_client srv2 (c_id c) w2 else (srv2, w2)) = (srv3, w3) \<Longrightarrow>
      sweep_loop (ids srv3) srv3 w3 = Inr t \<Longrightarrow> loop_steps cb junk (c_id c) (srv, feed (c_socket c) cs rest w) t"
    using loop_packet [OF assms(1-8), of rest junk] by blast
  let ?srv = "put_client c1 srv" and ?w = "feed (c_socket c) rd rest w"
  have at: "client_at ?srv (c_id c) = Inr c1" using client_at_with [OF c1(4)] c1(2) by simp
  let ?d = "d\<lparr>state := REMOVE\<rparr>"
  have ds: "with_client d srv" using d(1) serving_with [OF c(1)] by (simp add: with_client_def)
  then have wd: "with_client d ?srv" using with_put_other d(2) c1(2) by simp
  have "server_close_socket ?srv (c_socket d) = put_client ?d ?srv"
    using close_socket_marks [OF wd] d(3) put_client_sockets [OF serving_with [OF c(1)] c1(2,3)] by simp
  then obtain w2 where w2: "cb ?srv (c_id c) (Some (packet_view p)) ?w = Inr (CB_REMOVE_CLIENT, put_client ?d ?srv, w2)" "Q w2"
    using handled [of ?w ?srv] by auto
  have "with_client c1 (put_client ?d ?srv)" using with_put_other [OF c1(4), of ?d] d(2) c1(2) by simp
  from without_client [OF this, of w2] have
    "server_remove_client (put_client ?d ?srv) (c_id c) w2 = (put_client ?d (without (c_id c) srv), sys_close (c_socket c) w2)"
    using without_put_other [of ?d "c_id c"] d(2) c1(2,3) by simp
  moreover have "sweep_loop (ids (put_client ?d (without (c_id c) srv))) (put_client ?d (without (c_id c) srv)) (sys_close (c_socket c) w2) =
      Inr (without (c_id d) (without (c_id c) srv), sys_close (c_socket d) (sys_close (c_socket c) w2))"
  proof (rule sweep_one)
    show "unmarked (without (c_id c) srv)" using c(1) by (simp add: serving_def without_keeps)
    show w: "with_client d (without (c_id c) srv)" using without_keeps(3) [OF ds d(2)] .
    then show "distinct (ids (put_client ?d (without (c_id c) srv)))" "c_id d \<in> set (ids (put_client ?d (without (c_id c) srv)))"
      unfolding put_client_ids by (simp_all add: with_client_def)
  qed simp
  ultimately show ?thesis using l [OF w2(1), of "put_client ?d (without (c_id c) srv)" "sys_close (c_socket c) w2"] w2(2) by auto
qed

end

end
