(* ===== verification/Peer.thy ===== *)
theory Peer
  imports Hash_Table Requests Neighbour Event_Loop
begin

unbundle bit_operations_syntax

text \<open>
  The peer process, \<open>praxis2/src/peer.c\<close>. The record \<open>world\<close> adds the global variables of the
  program (the hash table, the table of open requests, the three ring neighbours) to the
  sockets interface. Each handler is one definition and keeps the order of the calls; a peer
  structure that a callee changes is returned and written back to the variable it came from.
  The callback \<open>handle_packet\<close> satisfies the contract of the event loop, so that the server
  lemmas apply to the whole process.
\<close>

section \<open>State\<close>

record world = net +
  w_ht :: "htable ut_hash"
  w_rt :: "rtable ut_hash"
  w_self :: "peer option"
  w_pred :: "peer option"
  w_succ :: "peer option"

text \<open>Following a global pointer to a peer.\<close>

definition the_peer :: "peer option \<Rightarrow> peer res" where
  "the_peer p = (case p of None \<Rightarrow> Inl Null_Deref | Some p \<Rightarrow> Inr p)"

section \<open>Sending to peers\<close>

definition forward ::
  "(nat \<Rightarrow> byte) \<Rightarrow> peer \<Rightarrow> packet \<Rightarrow> world \<Rightarrow> (int \<times> peer \<times> world) res" where
  "forward junk p pk w =
     bind_res (packet_serialize junk pk) (\<lambda>serialized_pack.
     bind_res (peer_connect p w) (\<lambda>(status, p, w).
     if status < 0 then Inr (-1, p, w)
     else bind_res (sendall (p_socket p) serialized_pack (length serialized_pack) w) (\<lambda>(status, w).
       if status < 0 then Inr (-1, p, w)
       else if has_flag (flags pk) PKT_FLAG_CTRL
            then (case peer_disconnect p w of (p, w) \<Rightarrow> Inr (0, p, w))
            else Inr (0, p, w))))"

definition proxy_request ::
  "(nat \<Rightarrow> byte) \<Rightarrow> int \<Rightarrow> packet \<Rightarrow> peer \<Rightarrow> world \<Rightarrow> (int \<times> peer \<times> world) res" where
  "proxy_request junk csocket p n w =
     bind_res (forward junk n p w) (\<lambda>(_, n, w).
     bind_res (recvall junk (p_socket n) w) (\<lambda>(answer_serial, answer_len, w).
     bind_res (sendall csocket answer_serial answer_len w) (\<lambda>(_, w).
     case peer_disconnect n w of (n, w) \<Rightarrow> Inr (CB_REMOVE_CLIENT, n, w))))"

definition lookup_peer :: "(nat \<Rightarrow> byte) \<Rightarrow> u16 \<Rightarrow> world \<Rightarrow> (int \<times> world) res" where
  "lookup_peer junk h_id w =
     bind_res (the_peer (w_self w)) (\<lambda>me.
     let lkup_packet = packet_new\<lparr>flags := 0 OR PKT_FLAG_CTRL OR PKT_FLAG_LKUP, hash_id := h_id,
           node_id := p_node_id me, node_ip := peer_get_ip me w, node_port := port me\<rparr> in
     bind_res (the_peer (w_succ w)) (\<lambda>su.
     bind_res (forward junk su lkup_packet w) (\<lambda>(status, su, w).
     Inr (if status < 0 then -1 else 0, w\<lparr>w_succ := Some su\<rparr>))))"

section \<open>Requests on the own hash table\<close>

text \<open>\<open>p->flags == (p->flags | F)\<close>.\<close>

definition flag_set :: "byte \<Rightarrow> byte \<Rightarrow> bool" where
  "flag_set fl f \<longleftrightarrow> fl = fl OR f"

text \<open>
  The third condition has no parentheses: \<open>p->flags == p->flags | PKT_FLAG_DEL\<close> is the
  bitwise or of a comparison result with the flag.
\<close>

definition del_condition :: "byte \<Rightarrow> bool" where
  "del_condition fl \<longleftrightarrow> (of_bool (fl = fl) OR uint PKT_FLAG_DEL :: int) \<noteq> 0"

definition own_get :: "packet \<Rightarrow> world \<Rightarrow> packet res" where
  "own_get p w =
     (let ack = packet_new\<lparr>flags := 0 OR PKT_FLAG_GET OR PKT_FLAG_ACK\<rparr> in
      bind_res (htable_get (w_ht w) (pkey p) (ucast (key_len p))) (\<lambda>entry.
      case entry of None \<Rightarrow> Inr ack
      | Some a \<Rightarrow>
          bind_res (ut_read (w_ht w) a) (\<lambda>e.
          bind_res (strncpy_ptr (ht_key e) (unat (ht_key_len e))) (\<lambda>k.
          bind_res (strncpy_ptr (ht_value e) (unat (ht_value_len e))) (\<lambda>v.
          Inr (ack\<lparr>pkey := Some k, key_len := ucast (ht_key_len e),
                   pvalue := Some v, value_len := ucast (ht_value_len e)\<rparr>))))))"

definition own_set :: "packet \<Rightarrow> world \<Rightarrow> (packet \<times> world) res" where
  "own_set p w =
     (let ack = packet_new\<lparr>flags := 0 OR PKT_FLAG_SET OR PKT_FLAG_ACK\<rparr> in
      bind_res (htable_set (w_ht w) (pkey p) (ucast (key_len p)) (pvalue p) (ucast (value_len p))) (\<lambda>t.
      bind_res (find_ptr t (pkey p) (ucast (key_len p))) (\<lambda>test_entry.
      Inr (ack, w\<lparr>w_ht := t\<rparr>))))"

definition own_del :: "packet \<Rightarrow> world \<Rightarrow> (packet \<times> world) res" where
  "own_del p w =
     (let ack = packet_new\<lparr>flags := 0 OR PKT_FLAG_DEL OR PKT_FLAG_ACK\<rparr> in
      bind_res (htable_delete (w_ht w) (pkey p) (ucast (key_len p))) (\<lambda>(_, t).
      Inr (ack, w\<lparr>w_ht := t\<rparr>)))"

definition handle_own_request ::
  "(nat \<Rightarrow> byte) \<Rightarrow> server \<Rightarrow> nat \<Rightarrow> packet \<Rightarrow> world \<Rightarrow> (int \<times> server \<times> world) res" where
  "handle_own_request junk srv c p w =
     bind_res
       (if flag_set (flags p) PKT_FLAG_GET then bind_res (own_get p w) (\<lambda>ack. Inr (ack, w))
        else if flag_set (flags p) PKT_FLAG_SET then own_set p w
        else if del_condition (flags p) then own_del p w
        else Inr (packet_new, w)) (\<lambda>(ack_packet, w).
     bind_res (packet_serialize junk ack_packet) (\<lambda>serialized_pack.
     bind_res (client_at srv c) (\<lambda>cl.
     bind_res (sendall (c_socket cl) serialized_pack (length serialized_pack) w) (\<lambda>(_, w).
     Inr (CB_REMOVE_CLIENT, srv, w)))))"

section \<open>Lookups\<close>

definition answer_lookup ::
  "(nat \<Rightarrow> byte) \<Rightarrow> packet \<Rightarrow> peer \<Rightarrow> world \<Rightarrow> (int \<times> world) res" where
  "answer_lookup junk p n w =
     (let rply_packet = packet_new\<lparr>flags := 0 OR PKT_FLAG_CTRL OR PKT_FLAG_RPLY, hash_id := hash_id p,
            node_id := p_node_id n, node_ip := peer_get_ip n w, node_port := port n\<rparr>;
          asking_peer = peer_from_packet p in
      bind_res (forward junk asking_peer rply_packet w) (\<lambda>(_, _, w).
      Inr (CB_REMOVE_CLIENT, w)))"

definition handle_packet_data ::
  "(nat \<Rightarrow> byte) \<Rightarrow> server \<Rightarrow> nat \<Rightarrow> packet \<Rightarrow> world \<Rightarrow> (int \<times> server \<times> world) res" where
  "handle_packet_data junk srv c p w =
     bind_res (pseudo_hash (pkey p) (unat (key_len p))) (\<lambda>h_id.
     bind_res (the_peer (w_pred w)) (\<lambda>pr.
     bind_res (the_peer (w_self w)) (\<lambda>me.
     if peer_is_responsible (p_node_id pr) (p_node_id me) h_id \<noteq> 0
     then handle_own_request junk srv c p w
     else bind_res (the_peer (w_succ w)) (\<lambda>su.
       bind_res (client_at srv c) (\<lambda>cl.
       if peer_is_responsible (p_node_id me) (p_node_id su) h_id \<noteq> 0
       then bind_res (proxy_request junk (c_socket cl) p su w) (\<lambda>(rsp, su, w).
         Inr (rsp, srv, w\<lparr>w_succ := Some su\<rparr>))
       else bind_res (add_request (w_rt w) h_id (c_socket cl) p) (\<lambda>t.
         bind_res (lookup_peer junk h_id (w\<lparr>w_rt := t\<rparr>)) (\<lambda>(_, w).
         Inr (CB_OK, srv, w))))))))"

text \<open>The loop over the open requests of a hash id; the peer \<open>n\<close> is reused for each.\<close>

fun reply_loop ::
  "(nat \<Rightarrow> byte) \<Rightarrow> request list \<Rightarrow> peer \<Rightarrow> server \<Rightarrow> world \<Rightarrow> (server \<times> world) res" where
  "reply_loop junk [] n srv w = Inr (srv, w)"
| "reply_loop junk (r # rs) n srv w =
     bind_res (proxy_request junk (r_socket r) (r_packet r) n w) (\<lambda>(_, n, w).
     reply_loop junk rs n (server_close_socket srv (r_socket r)) w)"

definition handle_packet_ctrl ::
  "(nat \<Rightarrow> byte) \<Rightarrow> server \<Rightarrow> nat \<Rightarrow> packet \<Rightarrow> world \<Rightarrow> (int \<times> server \<times> world) res" where
  "handle_packet_ctrl junk srv c p w =
     (if has_flag (flags p) PKT_FLAG_LKUP then
        bind_res (the_peer (w_pred w)) (\<lambda>pr.
        bind_res (the_peer (w_self w)) (\<lambda>me.
        if peer_is_responsible (p_node_id pr) (p_node_id me) (hash_id p) \<noteq> 0
        then bind_res (answer_lookup junk p me w) (\<lambda>(rsp, w). Inr (rsp, srv, w))
        else bind_res (the_peer (w_succ w)) (\<lambda>su.
          if peer_is_responsible (p_node_id me) (p_node_id su) (hash_id p) \<noteq> 0
          then bind_res (answer_lookup junk p su w) (\<lambda>(rsp, w). Inr (rsp, srv, w))
          else bind_res (forward junk su p w) (\<lambda>(_, su, w).
            Inr (CB_REMOVE_CLIENT, srv, w\<lparr>w_succ := Some su\<rparr>)))))
      else if has_flag (flags p) PKT_FLAG_RPLY then
        let n = peer_from_packet p in
        bind_res (get_requests (w_rt w) (hash_id p)) (\<lambda>rs.
        bind_res (reply_loop junk rs n srv w) (\<lambda>(srv, w).
        bind_res (clear_requests (w_rt w) (hash_id p)) (\<lambda>t.
        Inr (CB_REMOVE_CLIENT, srv, w\<lparr>w_rt := t\<rparr>))))
      else Inr (CB_REMOVE_CLIENT, srv, w))"

definition handle_packet ::
  "(nat \<Rightarrow> byte) \<Rightarrow> server \<Rightarrow> nat \<Rightarrow> packet option \<Rightarrow> world \<Rightarrow> (int \<times> server \<times> world) res" where
  "handle_packet junk srv c po w = (case po of None \<Rightarrow> Inl Null_Deref
     | Some p \<Rightarrow>
         if has_flag (flags p) PKT_FLAG_CTRL then handle_packet_ctrl junk srv c p w
         else handle_packet_data junk srv c p w)"

section \<open>The main program\<close>

text \<open>\<open>argv[i]\<close>: the element at \<open>argc\<close> is \<open>NULL\<close>, beyond it is no argument.\<close>

definition arg_at :: "string list \<Rightarrow> nat \<Rightarrow> string res" where
  "arg_at argv i = (if i < length argv then Inr (argv ! i)
     else if i = length argv then Inl Null_Deref else Inl Out_Of_Bounds)"

text \<open>The three arguments of one peer, with \<open>errno\<close> before and after \<open>strtoul\<close>.\<close>

definition node_arg :: "int \<Rightarrow> string list \<Rightarrow> nat \<Rightarrow> (u16 \<times> string \<times> string \<times> int) res" where
  "node_arg errno argv i =
     bind_res (arg_at argv i) (\<lambda>ident.
     bind_res (arg_at argv (i + 1)) (\<lambda>host.
     bind_res (arg_at argv (i + 2)) (\<lambda>prt.
     case strtoul errno ident of (n, errno) \<Rightarrow> Inr (ucast n, host, prt, errno))))"

text \<open>
  \<open>passive\<close> is \<open>getaddrinfo\<close> for a listening socket, \<open>binds\<close> the answers of \<open>bind\<close>, \<open>polls\<close>
  those of \<open>poll\<close>. Too few arguments are reported and the program goes on. Nothing resets
  \<open>errno\<close>: an identifier that is out of range makes every \<open>peer_init\<close> fail.
\<close>

definition peer_main ::
  "(nat \<Rightarrow> byte) \<Rightarrow> (string \<Rightarrow> addrinfo list option) \<Rightarrow> int list \<Rightarrow> poll_result list \<Rightarrow> string list
     \<Rightarrow> net \<Rightarrow> (int \<times> world) res" where
  "peer_main junk passive binds polls argv k =
     bind_res (node_arg 0 argv 1) (\<lambda>(idSelf, hostSelf, portSelf, errno).
     bind_res (node_arg errno argv 4) (\<lambda>(idPred, hostPred, portPred, errno).
     bind_res (node_arg errno argv 7) (\<lambda>(idSucc, hostSucc, portSucc, errno).
     case peer_init errno idSelf hostSelf portSelf of (me, errno) \<Rightarrow>
     case peer_init errno idPred hostPred portPred of (pr, errno) \<Rightarrow>
     case peer_init errno idSucc hostSucc portSucc of (su, errno) \<Rightarrow>
     let w = net.extend k \<lparr>w_ht = ut_empty, w_rt = ut_empty, w_self = me, w_pred = pr, w_succ = su\<rparr> in
     bind_res (server_setup (passive portSelf) binds w) (\<lambda>(so, w).
     case so of None \<Rightarrow> Inr (-1, w)
     | Some srv \<Rightarrow>
         bind_res (server_run (Some (handle_packet junk)) junk polls srv w) (\<lambda>(srv, w).
         Inr (0, sys_close (s_socket srv) w))))))"

section \<open>Frames: what the socket calls leave alone\<close>

named_theorems frame \<open>a call that only changes the sockets part of the state\<close>
named_theorems no_uaf \<open>a call that never follows a dangling pointer\<close>

lemma sys_frames [frame]:
  "sys_send s b w = Inr (r, w') \<Longrightarrow> net.more w' = net.more w"
  "sys_socket w = Inr (r, w') \<Longrightarrow> net.more w' = net.more w"
  "sys_connect s a w = Inr (r, w') \<Longrightarrow> net.more w' = net.more w"
  "peer_disconnect p w = (p', w') \<Longrightarrow> net.more w' = net.more w"
  by (auto simp: sys_send_def sys_socket_def sys_connect_def peer_disconnect_def sys_close_def log_event_def Let_def
      split: list.splits if_splits)

lemma net_more_close [simp]: "net.more (sys_close s w) = net.more w"
  by (simp add: sys_close_def log_event_def)

lemma sys_no_uaf [no_uaf, simp]:
  "sys_send s b w \<noteq> Inl Use_After_Free" "sys_socket w \<noteq> Inl Use_After_Free" "sys_connect s a w \<noteq> Inl Use_After_Free"
  by (auto simp: sys_send_def sys_socket_def sys_connect_def Let_def split: list.splits)

lemma sendall_loop_frame:
  "(sendall_loop s b n i w = Inr (r, w') \<longrightarrow> net.more w' = net.more w) \<and>
   sendall_loop s b n i w \<noteq> Inl Use_After_Free"
proof (induction s b n i w rule: sendall_loop.induct)
  case (1 s buffer buf_size sent w)
  let ?d = "take (buf_size - sent) (drop sent buffer)"
  show ?case
  proof (cases "sent < buf_size \<and> \<not> length buffer < buf_size")
    case False
    then show ?thesis by (subst (1 2) sendall_loop.simps) auto
  next
    case True
    show ?thesis
    proof (cases "sys_send s ?d w")
      case (Inl e)
      then show ?thesis using True sys_no_uaf(1) [of s ?d w] by (subst (1 2) sendall_loop.simps) simp
    next
      case (Inr x)
      obtain m w1 where x: "x = (m, w1)" by (cases x)
      have fr: "net.more w1 = net.more w" using sys_frames(1) Inr x by blast
      show ?thesis
      proof (cases "m < 1")
        case True
        then show ?thesis using \<open>sent < buf_size \<and> \<not> length buffer < buf_size\<close> Inr x fr
          by (subst (1 2) sendall_loop.simps) auto
      next
        case False
        have "sendall_loop s buffer buf_size sent w = sendall_loop s buffer buf_size (sent + nat m) w1"
          using True False Inr x by (subst sendall_loop.simps) simp
        moreover have "sent < buf_size" "\<not> length buffer < buf_size" using True by simp_all
        note "1.IH" [OF this Inr x [symmetric] False]
        ultimately show ?thesis using fr by simp
      qed
    qed
  qed
qed

lemma sendall_frame [frame]: "sendall s b n w = Inr (r, w') \<Longrightarrow> net.more w' = net.more w"
  unfolding sendall_def by (rule sendall_loop_frame [THEN conjunct1, rule_format])

lemma sendall_no_uaf [no_uaf, simp]: "sendall s b n w \<noteq> Inl Use_After_Free"
  unfolding sendall_def by (rule sendall_loop_frame [THEN conjunct2])

lemma store_at_no_uaf [no_uaf, simp]: "store_at b i x \<noteq> Inl Use_After_Free"
  by (simp add: store_at_def)

lemma recvall_loop_no_uaf: "recvall_loop junk buf pos q \<noteq> Inl Use_After_Free"
proof (induction junk buf pos q rule: recvall_loop.induct)
  case (1 junk buf pos q)
  define b where "b = (if int (length buf) - pos < 1 then grow junk buf else buf)"
  note IH = "1.IH" [folded b_def, OF refl]
  have unf: "recvall_loop junk buf pos q =
     (case recv_q (nat (int (length b) - pos)) q of
        Inl e \<Rightarrow> Inl e
      | Inr (n, bs, q') \<Rightarrow>
          if n < 0 then recvall_loop junk b (pos - 1) q'
          else if n < 1 then Inr (b, pos, q')
          else if pos < 0 then Inl Out_Of_Bounds
          else case store_at b (nat pos) bs of
            Inl e \<Rightarrow> Inl e
          | Inr buf \<Rightarrow> recvall_loop junk buf (pos + n) q')"
    unfolding b_def by (subst recvall_loop.simps) (simp only: Let_def)
  show ?case
  proof (cases "recv_q (nat (int (length b) - pos)) q")
    case (Inl e)
    then show ?thesis unfolding unf using no_uaf_recv [of "nat (int (length b) - pos)" q] by auto
  next
    case (Inr x)
    obtain n bs q' where x: "x = (n, bs, q')" by (cases x)
    note IH' = IH [OF Inr x [symmetric] refl]
    show ?thesis
    proof (cases "store_at b (nat pos) bs")
      case (Inl e)
      then show ?thesis unfolding unf using Inr x IH'(1) store_at_no_uaf [of b "nat pos" bs] by auto
    next
      case st: (Inr b')
      then show ?thesis unfolding unf using Inr x IH'(1) IH'(2) by auto
    qed
  qed
qed

lemma recvall_frame [frame]: "recvall junk s w = Inr (b, n, w') \<Longrightarrow> net.more w' = net.more w"
  by (auto simp: recvall_def bind_res_Inr_iff)

lemma recvall_no_uaf [no_uaf, simp]: "recvall junk s w \<noteq> Inl Use_After_Free"
  using recvall_loop_no_uaf by (auto simp: recvall_def bind_res_Inl_iff)

lemma connect_loop_frame:
  "(connect_loop res pas p c w = Inr (r, p', w') \<longrightarrow> net.more w' = net.more w \<and> p_node_id p' = p_node_id p \<and>
      hostname p' = hostname p \<and> port p' = port p) \<and>
   connect_loop res pas p c w \<noteq> Inl Use_After_Free"
proof (induction pas arbitrary: res p c w)
  case (Cons pa pas)
  show ?case
    using Cons by (auto simp: Let_def bind_res_Inr_iff bind_res_Inl_iff dest!: sys_frames(2,3) split: if_splits)
qed simp

lemma peer_connect_frame [frame]: "peer_connect p w = Inr (r, p', w') \<Longrightarrow> net.more w' = net.more w"
  by (auto simp: peer_connect_def bind_res_Inr_iff simp del: connect_loop.simps split: list.splits
      dest!: connect_loop_frame [THEN conjunct1, rule_format])

lemma peer_connect_no_uaf [no_uaf, simp]: "peer_connect p w \<noteq> Inl Use_After_Free"
  by (auto simp: peer_connect_def bind_res_Inl_iff connect_loop_frame [THEN conjunct2]
      simp del: connect_loop.simps split: list.splits)

section \<open>The invariant of the process\<close>

definition world_wf :: "world \<Rightarrow> bool" where
  "world_wf w \<longleftrightarrow> ht_wf (w_ht w) \<and> rt_wf (w_rt w)"

lemma world_more:
  fixes w w' :: world
  assumes "net.more w' = net.more w"
  shows "w_ht w' = w_ht w" "w_rt w' = w_rt w" "w_self w' = w_self w" "w_pred w' = w_pred w" "w_succ w' = w_succ w"
  using assms by (cases w; cases w'; simp)+

lemma world_wf_more: "net.more w' = net.more w \<Longrightarrow> world_wf w' = world_wf w" for w w' :: world
  using world_more [of w' w] by (simp add: world_wf_def)

lemma forward_frame [frame]: "forward junk p pk w = Inr (r, p', w') \<Longrightarrow> net.more w' = net.more w"
  by (auto simp: forward_def bind_res_Inr_iff split: if_splits prod.splits
      dest!: peer_connect_frame sendall_frame sys_frames(4))

lemma packet_serialize_no_uaf [no_uaf, simp]: "packet_serialize junk p \<noteq> Inl Use_After_Free"
  by (auto simp: packet_serialize_def packet_serialize_ctrl_def packet_serialize_data_def Let_def
      bind_res_Inl_iff split: if_splits)

lemma forward_no_uaf [no_uaf, simp]: "forward junk p pk w \<noteq> Inl Use_After_Free"
  by (auto simp: forward_def bind_res_Inl_iff split: if_splits prod.splits)

lemma proxy_request_frame [frame]: "proxy_request junk s p n w = Inr (r, n', w') \<Longrightarrow> net.more w' = net.more w"
  by (auto simp: proxy_request_def bind_res_Inr_iff split: prod.splits
      dest!: forward_frame recvall_frame sendall_frame sys_frames(4))

lemma proxy_request_no_uaf [no_uaf, simp]: "proxy_request junk s p n w \<noteq> Inl Use_After_Free"
  by (auto simp: proxy_request_def bind_res_Inl_iff split: prod.splits)

lemma lookup_peer_wf: "lookup_peer junk h w = Inr (r, w') \<Longrightarrow> world_wf w' = world_wf w"
proof -
  assume "lookup_peer junk h w = Inr (r, w')"
  then obtain p pk r1 p1 w1 where f: "forward junk p pk w = Inr (r1, p1, w1)" "w' = w1\<lparr>w_succ := Some p1\<rparr>"
    by (auto simp: lookup_peer_def bind_res_Inr_iff Let_def)
  have "world_wf w' = world_wf w1" using f(2) by (simp add: world_wf_def)
  also have "\<dots> = world_wf w" by (rule world_wf_more [OF forward_frame [OF f(1)]])
  finally show ?thesis .
qed

lemma the_peer_no_uaf [no_uaf, simp]: "the_peer p \<noteq> Inl Use_After_Free"
  by (simp add: the_peer_def split: option.split)

lemma lookup_peer_no_uaf [no_uaf, simp]: "lookup_peer junk h w \<noteq> Inl Use_After_Free"
  by (auto simp: lookup_peer_def bind_res_Inl_iff Let_def)

lemma answer_lookup_frame [frame]: "answer_lookup junk p n w = Inr (r, w') \<Longrightarrow> net.more w' = net.more w"
  by (auto simp: answer_lookup_def bind_res_Inr_iff Let_def dest!: forward_frame)

lemma answer_lookup_no_uaf [no_uaf, simp]: "answer_lookup junk p n w \<noteq> Inl Use_After_Free"
  by (auto simp: answer_lookup_def bind_res_Inl_iff Let_def)

lemma strncpy_no_uaf [no_uaf, simp]:
  "strncpy_bytes b n \<noteq> Inl Use_After_Free" "strncpy_ptr p n \<noteq> Inl Use_After_Free"
proof -
  show b: "strncpy_bytes b n \<noteq> Inl Use_After_Free" for b n
    by (induction b n rule: strncpy_bytes.induct) (auto simp: bind_res_Inl_iff)
  show "strncpy_ptr p n \<noteq> Inl Use_After_Free" by (simp add: strncpy_ptr_def b split: option.split)
qed

text \<open>Any key argument: either it cannot be read or it is a well-formed argument.\<close>

lemma arg_cases: "(\<exists>bs. arg p n bs) \<or> (\<exists>e. read_ptr p (unat n) = Inl e)"
  by (cases "read_ptr p (unat n)") (auto simp: arg_def)

lemma find_ptr_cases:
  assumes "ut_wf ht"
  shows "(\<exists>e. find_ptr ht p n = Inl e \<and> e \<noteq> Use_After_Free) \<or> find_ptr ht p n = Inr None \<or>
    (\<exists>a k. find_ptr ht p n = Inr (Some a) \<and> linked ht a k \<and> arg p n k)"
proof (cases "head ht")
  case (Some t)
  then have fp: "find_ptr ht p n = bind_res (read_ptr p (unat n)) (HASH_FIND ht)" by (simp add: find_ptr_def)
  show ?thesis
  proof (cases "read_ptr p (unat n)")
    case (Inl e)
    then show ?thesis using fp no_uaf_bytes(2) [of p "unat n"] by auto
  next
    case (Inr k)
    then show ?thesis
      using fp ut.find_miss [OF assms, of k] ut.find_hit [OF assms, of k] by (cases "ut_map ht k") (auto simp: arg_def)
  qed
qed (simp add: find_ptr_def)

lemma own_get_no_uaf:
  assumes "world_wf w"
  shows "own_get p w \<noteq> Inl Use_After_Free"
proof -
  have u: "ut_wf (w_ht w)" using assms by (simp add: world_wf_def ht_wf_def)
  have "ut_read (w_ht w) a \<noteq> Inl Use_After_Free" if "linked (w_ht w) a k" for a k
    using linked_heap [OF u that] by (auto simp: ut_read_def)
  then show ?thesis
    using find_ptr_cases [OF u, of "pkey p" "ucast (key_len p)"]
    by (auto simp: own_get_def htable_get_def Let_def bind_res_Inl_iff split: option.splits)
qed

lemma ucast_len: "unat (ucast (x :: u16) :: u64) = unat x" "unat (ucast (y :: u32) :: u64) = unat y"
  by simp_all

lemma own_set_safe:
  assumes "world_wf w"
  shows "own_set p w \<noteq> Inl Use_After_Free \<and> (\<forall>a w'. own_set p w = Inr (a, w') \<longrightarrow> world_wf w')"
proof -
  let ?k = "pkey p" and ?n = "ucast (key_len p) :: u64" and ?v = "pvalue p" and ?m = "ucast (value_len p) :: u64"
  have wf: "ht_wf (w_ht w)" "rt_wf (w_rt w)" using assms by (simp_all add: world_wf_def)
  then have u: "ut_wf (w_ht w)" by (simp add: ht_wf_def)
  have "htable_set (w_ht w) ?k ?n ?v ?m \<noteq> Inl Use_After_Free \<and>
    (\<forall>t. htable_set (w_ht w) ?k ?n ?v ?m = Inr t \<longrightarrow> ht_wf t)"
  proof (cases "(\<exists>k. arg ?k ?n k) \<and> (\<exists>v. arg ?v ?m v)")
    case True
    then obtain k v where kv: "arg ?k ?n k" "arg ?v ?m v" by blast
    have "length k < 2 ^ 32"
      using arg_length [OF kv(1)] unat_bound [of "key_len p"] by (simp add: ucast_len)
    from htable_set_cases [OF wf(1) kv this] show ?thesis by auto
  next
    case False
    have rm: "\<exists>t. remove_entry (w_ht w) a = Inr t" if "linked (w_ht w) a k" for a k
      using ut.unlink_law [OF u that] by (auto simp: remove_entry_def)
    show ?thesis
      using False find_ptr_cases [OF u, of ?k ?n] arg_cases [of ?k ?n] arg_cases [of ?v ?m] rm
        no_uaf_bytes(2) [of ?k "unat ?n"] no_uaf_bytes(2) [of ?v "unat ?m"]
      by (fastforce simp: htable_set_def bind_res_Inl_iff bind_res_Inr_iff arg_def split: option.splits)
  qed
  moreover have "find_ptr t ?k ?n \<noteq> Inl Use_After_Free" if "ht_wf t" for t
    using find_ptr_cases [of t ?k ?n] that by (auto simp: ht_wf_def)
  ultimately show ?thesis
    using wf(2) by (auto simp: own_set_def Let_def bind_res_Inl_iff bind_res_Inr_iff world_wf_def)
qed

lemma own_del_safe:
  assumes "world_wf w"
  shows "own_del p w \<noteq> Inl Use_After_Free \<and> (\<forall>a w'. own_del p w = Inr (a, w') \<longrightarrow> world_wf w')"
proof -
  let ?k = "pkey p" and ?n = "ucast (key_len p) :: u64"
  have wf: "ht_wf (w_ht w)" "rt_wf (w_rt w)" using assms by (simp_all add: world_wf_def)
  then have u: "ut_wf (w_ht w)" by (simp add: ht_wf_def)
  have "htable_delete (w_ht w) ?k ?n \<noteq> Inl Use_After_Free \<and> (\<forall>r t. htable_delete (w_ht w) ?k ?n = Inr (r, t) \<longrightarrow> ht_wf t)"
  proof (cases "\<exists>k. arg ?k ?n k")
    case True
    then show ?thesis using htable_delete_ok [OF wf(1)] by fastforce
  next
    case False
    then show ?thesis
      using find_ptr_cases [OF u, of ?k ?n] wf(1) by (auto simp: htable_delete_def)
  qed
  then show ?thesis
    using wf(2) by (auto simp: own_del_def Let_def bind_res_Inl_iff bind_res_Inr_iff world_wf_def)
qed

lemma client_at_in: "c \<in> set (ids srv) \<Longrightarrow> \<exists>cl. client_at srv c = Inr cl"
  by (cases "find (\<lambda>x. c_id x = c) (clients srv)") (auto simp: client_at_def find_None_iff)

text \<open>The answer is computed first, then serialized and sent.\<close>

definition own_answer :: "packet \<Rightarrow> world \<Rightarrow> (packet \<times> world) res" where
  "own_answer p w =
     (if flag_set (flags p) PKT_FLAG_GET then bind_res (own_get p w) (\<lambda>ack. Inr (ack, w))
      else if flag_set (flags p) PKT_FLAG_SET then own_set p w
      else if del_condition (flags p) then own_del p w
      else Inr (packet_new, w))"

lemma own_answer_safe:
  assumes "world_wf w"
  shows "own_answer p w \<noteq> Inl Use_After_Free \<and> (\<forall>a w'. own_answer p w = Inr (a, w') \<longrightarrow> world_wf w')"
  using own_get_no_uaf [OF assms] own_set_safe [OF assms] own_del_safe [OF assms] assms
  by (auto simp: own_answer_def bind_res_Inl_iff bind_res_Inr_iff)

lemma handle_own_request_answer:
  "handle_own_request junk srv c p w =
     bind_res (own_answer p w) (\<lambda>(ack, w).
     bind_res (packet_serialize junk ack) (\<lambda>b.
     bind_res (client_at srv c) (\<lambda>cl.
     bind_res (sendall (c_socket cl) b (length b) w) (\<lambda>(_, w). Inr (CB_REMOVE_CLIENT, srv, w)))))"
  by (simp add: handle_own_request_def own_answer_def)

lemma handle_own_request_safe:
  assumes "world_wf w" "c \<in> set (ids srv)"
  shows "handle_own_request junk srv c p w \<noteq> Inl Use_After_Free \<and>
    (\<forall>r srv' w'. handle_own_request junk srv c p w = Inr (r, srv', w') \<longrightarrow> srv' = srv \<and> world_wf w')"
  using own_answer_safe [OF assms(1), of p] client_at_in [OF assms(2)]
  by (auto simp: handle_own_request_answer bind_res_Inl_iff bind_res_Inr_iff
      dest!: sendall_frame world_wf_more)

lemma packet_dup_no_uaf [no_uaf, simp]: "packet_dup p \<noteq> Inl Use_After_Free"
  by (auto simp: packet_dup_def bind_res_Inl_iff)

lemma add_request_safe:
  assumes "rt_wf t"
  shows "add_request t h s p \<noteq> Inl Use_After_Free \<and> (\<forall>t'. add_request t h s p = Inr t' \<longrightarrow> rt_wf t')"
proof (cases "packet_dup p")
  case (Inl e)
  then show ?thesis using packet_dup_no_uaf [of p] by (auto simp: add_request_def)
next
  case (Inr q)
  then show ?thesis using add_request_cases [OF assms Inr, of h s] by auto
qed

lemma handle_packet_data_safe:
  assumes "world_wf w" "c \<in> set (ids srv)"
  shows "handle_packet_data junk srv c p w \<noteq> Inl Use_After_Free \<and>
    (\<forall>r srv' w'. handle_packet_data junk srv c p w = Inr (r, srv', w') \<longrightarrow> srv' = srv \<and> world_wf w')"
proof -
  have ph: "pseudo_hash b n \<noteq> Inl Use_After_Free" for b n
    by (auto simp: pseudo_hash_def bind_res_Inl_iff)
  have add: "add_request (w_rt w) h s p \<noteq> Inl Use_After_Free \<and>
      (\<forall>t. add_request (w_rt w) h s p = Inr t \<longrightarrow> world_wf (w\<lparr>w_rt := t\<rparr>))" for h s
    using add_request_safe [of "w_rt w" h s p] assms(1) by (auto simp: world_wf_def)
  have suc: "world_wf (w'\<lparr>w_succ := x\<rparr>) = world_wf w'" for w' x by (simp add: world_wf_def)
  show ?thesis
    using handle_own_request_safe [OF assms, of junk p] client_at_in [OF assms(2)] add assms(1)
    unfolding handle_packet_data_def
    by (auto simp: bind_res_Inl_iff bind_res_Inr_iff ph suc split: if_splits
        dest!: proxy_request_frame world_wf_more lookup_peer_wf)
qed

lemma reply_loop_safe:
  "reply_loop junk rs n srv w \<noteq> Inl Use_After_Free \<and>
   (\<forall>srv' w'. reply_loop junk rs n srv w = Inr (srv', w') \<longrightarrow>
      only_marks srv srv' \<and> net.more w' = net.more w)"
proof (induction rs arbitrary: n srv w)
  case (Cons r rs)
  show ?case
  proof (cases "proxy_request junk (r_socket r) (r_packet r) n w")
    case (Inl e)
    then show ?thesis using proxy_request_no_uaf [of junk "r_socket r" "r_packet r" n w] by auto
  next
    case (Inr x)
    obtain rc n1 w1 where x: "x = (rc, n1, w1)" by (cases x)
    have "net.more w1 = net.more w" using Inr x proxy_request_frame by blast
    moreover have "reply_loop junk (r # rs) n srv w = reply_loop junk rs n1 (server_close_socket srv (r_socket r)) w1"
      using Inr x by simp
    ultimately show ?thesis
      using Cons.IH [of n1 "server_close_socket srv (r_socket r)" w1] only_marks_close only_marks_trans
      by (metis (no_types, lifting))
  qed
qed simp

lemma handle_packet_ctrl_safe:
  assumes "world_wf w"
  shows "handle_packet_ctrl junk srv c p w \<noteq> Inl Use_After_Free \<and>
    (\<forall>r srv' w'. handle_packet_ctrl junk srv c p w = Inr (r, srv', w') \<longrightarrow> only_marks srv srv' \<and> world_wf w')"
proof -
  have suc: "world_wf (w'\<lparr>w_succ := x\<rparr>) = world_wf w'" for w' x by (simp add: world_wf_def)
  have rt: "rt_wf (w_rt w)" using assms by (simp add: world_wf_def)
  obtain rs where rs: "get_requests (w_rt w) (hash_id p) = Inr rs" using get_requests_ok [OF rt] by blast
  obtain t where t: "clear_requests (w_rt w) (hash_id p) = Inr t" "rt_wf t" using clear_requests_ok [OF rt] by blast
  note rl = reply_loop_safe [of junk rs "peer_from_packet p" srv w]
  have wt: "world_wf (w'\<lparr>w_rt := t\<rparr>)" "clear_requests (w_rt w') (hash_id p) = Inr t"
    if "net.more w' = net.more w" for w' :: world
    using assms t world_more [OF that] by (simp_all add: world_wf_def)
  show ?thesis
  proof (cases "has_flag (flags p) PKT_FLAG_LKUP")
    case True
    then show ?thesis using assms
      by (auto simp: handle_packet_ctrl_def bind_res_Inl_iff bind_res_Inr_iff suc split: if_splits
        dest!: answer_lookup_frame forward_frame world_wf_more)
  next
    case False
    show ?thesis
    proof (cases "reply_loop junk rs (peer_from_packet p) srv w")
      case (Inl e)
      then show ?thesis using False rs rl assms by (auto simp: handle_packet_ctrl_def)
    next
      case (Inr x)
      then show ?thesis using False rs rl assms wt
        by (cases x) (auto simp: handle_packet_ctrl_def)
    qed
  qed
qed

interpretation hp: packet_handler "handle_packet junk" world_wf
proof (unfold_locales, goal_cases)
  case (1 w a srv p r srv' w')
  then obtain pk where "p = Some pk" by (cases p) (auto simp: handle_packet_def)
  with 1(3) show ?case
    using handle_packet_data_safe [OF 1(1,2), of junk pk] handle_packet_ctrl_safe [OF 1(1), of junk srv a pk]
    by (cases "has_flag (flags pk) PKT_FLAG_CTRL") (auto simp: handle_packet_def)
next
  case (2 w a srv p)
  then show ?case
    using handle_packet_data_safe [OF 2] handle_packet_ctrl_safe [OF 2(1)]
    by (cases p) (auto simp: handle_packet_def)
next
  case (3 w q)
  then show ?case by (simp add: world_wf_def)
next
  case (4 w t)
  then show ?case by (simp add: world_wf_def)
qed

end
