(* ===== verification/Peer_Requests.thy ===== *)
theory Peer_Requests
  imports Peer
begin

unbundle bit_operations_syntax

text \<open>
  What the handlers of \<open>praxis2/src/peer.c\<close> do, branch by branch: the three kinds of requests
  on the own table and the acknowledgements they send, the relay of a request to another
  peer, the lookup protocol, and the end of an open request when the reply comes. The
  hypotheses describe the kernel's answers: \<open>send_ready n w\<close> says that the coming \<open>send\<close> calls each
  take at least one byte, enough for \<open>n\<close> bytes.
\<close>

section \<open>Acknowledgements\<close>

definition ack :: "byte \<Rightarrow> packet" where
  "ack fl = packet_new\<lparr>flags := fl OR PKT_FLAG_ACK\<rparr>"

text \<open>What \<open>strncpy\<close> over the whole length makes of a block: a NUL ends the text, zeros follow.\<close>

definition nul_copy :: "byte list \<Rightarrow> byte list" where
  "nul_copy b = takeWhile (\<lambda>x. x \<noteq> 0) b @ replicate (length b - length (takeWhile (\<lambda>x. x \<noteq> 0) b)) 0"

lemma length_nul_copy [simp]: "length (nul_copy b) = length b"
  by (simp add: nul_copy_def length_takeWhile_le)

lemma nul_copy_id: "0 \<notin> set b \<Longrightarrow> nul_copy b = b"
proof -
  assume "0 \<notin> set b"
  then have t: "takeWhile (\<lambda>x. x \<noteq> 0) b = b" by (auto simp: takeWhile_eq_all_conv)
  show ?thesis unfolding nul_copy_def t by simp
qed

lemma strncpy_bytes_nul_copy: "strncpy_bytes b (length b) = Inr (nul_copy b)"
proof (induction b)
  case (Cons x b)
  have "length (takeWhile (\<lambda>x. x \<noteq> 0) b) \<le> length b" by (rule length_takeWhile_le)
  with Cons show ?case by (auto simp: nul_copy_def Suc_diff_le)
qed (simp add: nul_copy_def)

lemma strncpy_ptr_nul_copy: "strncpy_ptr (Some b) (length b) = Inr (nul_copy b)"
  using strncpy_bytes_nul_copy [of b] by (cases b) (simp_all add: strncpy_ptr_def nul_copy_def)

definition get_ack :: "byte list \<Rightarrow> byte list \<Rightarrow> packet" where
  "get_ack k v = (ack PKT_FLAG_GET)\<lparr>pkey := Some (nul_copy k), key_len := of_nat (length k),
     pvalue := Some (nul_copy v), value_len := of_nat (length v)\<rparr>"

lemma ack_wf [simp]: "wf_packet (ack fl)"
  by (simp add: ack_def wf_packet_def packet_new_def ptr_bytes_def)

lemma get_ack_wf: "length k < 2 ^ 16 \<Longrightarrow> length v < 2 ^ 32 \<Longrightarrow> wf_packet (get_ack k v)"
  by (simp add: get_ack_def wf_packet_def ptr_bytes_def unat_of_nat)

section \<open>Requests on the own table\<close>

lemma packet_key_arg: "wf_packet p \<Longrightarrow> arg (pkey p) (ucast (key_len p)) (ptr_bytes (pkey p))"
  by (simp add: arg_def wf_packet_def read_ptr_full)

lemma packet_value_arg: "wf_packet p \<Longrightarrow> arg (pvalue p) (ucast (value_len p)) (ptr_bytes (pvalue p))"
  by (simp add: arg_def wf_packet_def read_ptr_full)

lemma key_short: "wf_packet p \<Longrightarrow> length (ptr_bytes (pkey p)) < 2 ^ 16"
  using unat_bound [of "key_len p"] by (simp add: wf_packet_def)

lemma own_set_ok:
  assumes "world_wf w" "ut_room (w_ht w)" "wf_packet p"
  shows "\<exists>t. own_set p w = Inr (ack PKT_FLAG_SET, w\<lparr>w_ht := t\<rparr>) \<and> ht_wf t \<and>
     ht_map t = (ht_map (w_ht w))(ptr_bytes (pkey p) \<mapsto> ptr_bytes (pvalue p))"
proof -
  have wf: "ht_wf (w_ht w)" using assms(1) by (simp add: world_wf_def)
  have "length (ptr_bytes (pkey p)) < 2 ^ 32" using key_short [OF assms(3)] by simp
  from htable_set_ok [OF wf assms(2) packet_key_arg [OF assms(3)] packet_value_arg [OF assms(3)] this]
  obtain t where t: "htable_set (w_ht w) (pkey p) (ucast (key_len p)) (pvalue p) (ucast (value_len p)) = Inr t"
    "ht_wf t" "ht_map t = (ht_map (w_ht w))(ptr_bytes (pkey p) \<mapsto> ptr_bytes (pvalue p))" by blast
  moreover have "\<exists>r. find_ptr t (pkey p) (ucast (key_len p)) = Inr r"
    using htable_get_hit [OF t(2) packet_key_arg [OF assms(3)]] t(3) by (auto simp: htable_get_def)
  ultimately show ?thesis by (auto simp: own_set_def ack_def)
qed

lemma own_del_ok:
  assumes "world_wf w" "wf_packet p"
  shows "\<exists>t. own_del p w = Inr (ack PKT_FLAG_DEL, w\<lparr>w_ht := t\<rparr>) \<and> ht_wf t \<and>
     ht_map t = (ht_map (w_ht w))(ptr_bytes (pkey p) := None)"
  using htable_delete_ok [OF _ packet_key_arg [OF assms(2)], of "w_ht w"] assms(1)
  by (auto simp: own_del_def world_wf_def ack_def)

lemma own_get_ok:
  assumes wf: "world_wf w" "wf_packet p"
    and v: "\<forall>v. ht_map (w_ht w) (ptr_bytes (pkey p)) = Some v \<longrightarrow> length v < 2 ^ 32"
  shows "own_get p w = Inr (case ht_map (w_ht w) (ptr_bytes (pkey p)) of
      None \<Rightarrow> ack PKT_FLAG_GET | Some v \<Rightarrow> get_ack (ptr_bytes (pkey p)) v)"
proof -
  let ?k = "ptr_bytes (pkey p)"
  have h: "ht_wf (w_ht w)" using wf(1) by (simp add: world_wf_def)
  show ?thesis
  proof (cases "ht_map (w_ht w) ?k")
    case None
    then show ?thesis using htable_get_miss [OF h packet_key_arg [OF wf(2)] None] by (simp add: own_get_def ack_def)
  next
    case (Some v)
    obtain a d where d: "htable_get (w_ht w) (pkey p) (ucast (key_len p)) = Inr (Some a)" "ut_read (w_ht w) a = Inr d"
      "ht_key d = Some ?k" "unat (ht_key_len d) = length ?k" "ht_value d = Some v" "unat (ht_value_len d) = length v"
      using htable_get_hit [OF h packet_key_arg [OF wf(2)] Some] by blast
    have kl: "(ucast (ht_key_len d) :: u16) = of_nat (length ?k)" "(ucast (ht_value_len d) :: u32) = of_nat (length v)"
      unfolding d(4,6) [symmetric] by (simp_all add: unsigned_ucast_eq)
    show ?thesis using d Some by (simp add: own_get_def strncpy_ptr_nul_copy get_ack_def ack_def kl Let_def)
  qed
qed

section \<open>Answering the client\<close>

lemma send_answer:
  assumes "own_answer p w = Inr (a, w1)" "wf_packet a" "client_at srv c = Inr cl"
    "send_ready (length (wire a)) w1"
  shows "\<exists>w' evs. handle_own_request junk srv c p w = Inr (CB_REMOVE_CLIENT, srv, w') \<and>
     net.more w' = net.more w1 \<and> trace w' = trace w1 @ evs \<and> set evs \<subseteq> range (EvSend (c_socket cl)) \<and>
     sent_to (c_socket cl) evs = wire a"
proof -
  have s: "packet_serialize junk a = Inr (wire a)" using assms(2) by (simp add: packet_serialize_wire)
  have "send_ready (length (wire a) + 0) w1" using assms(4) by simp
  from sendall_ready [OF this, of "wire a" "c_socket cl"] obtain rs evs where
    e: "sendall (c_socket cl) (wire a) (length (wire a)) w1 = Inr (0, w1\<lparr>send_res := rs, trace := trace w1 @ evs\<rparr>)"
    "set evs \<subseteq> range (EvSend (c_socket cl))" "sent_to (c_socket cl) evs = wire a" by auto
  then show ?thesis using assms(1,3) s by (simp add: handle_own_request_answer)
qed

lemma length_wire_ack: "length (wire (ack fl)) \<le> 11"
  by (simp add: wire_def ctrl_wire_def data_wire_def ack_def packet_new_def ptr_bytes_def)

section \<open>Properties of the own requests\<close>

lemma own_set_answered:
  assumes "world_wf w" "ut_room (w_ht w)" "wf_packet p" "client_at srv c = Inr cl"
    "flag_set (flags p) PKT_FLAG_SET" "\<not> flag_set (flags p) PKT_FLAG_GET" "send_ready 11 w"
  shows "\<exists>w' evs. handle_own_request junk srv c p w = Inr (CB_REMOVE_CLIENT, srv, w') \<and> world_wf w' \<and>
     ht_map (w_ht w') = (ht_map (w_ht w))(ptr_bytes (pkey p) \<mapsto> ptr_bytes (pvalue p)) \<and> w_rt w' = w_rt w \<and>
     w_pred w' = w_pred w \<and> w_self w' = w_self w \<and> w_succ w' = w_succ w \<and>
     trace w' = trace w @ evs \<and> sent_to (c_socket cl) evs = wire (packet_new\<lparr>flags := PKT_FLAG_SET OR PKT_FLAG_ACK\<rparr>)"
proof -
  obtain t where t: "own_set p w = Inr (ack PKT_FLAG_SET, w\<lparr>w_ht := t\<rparr>)" "ht_wf t"
    "ht_map t = (ht_map (w_ht w))(ptr_bytes (pkey p) \<mapsto> ptr_bytes (pvalue p))"
    using own_set_ok [OF assms(1-3)] by blast
  have a: "own_answer p w = Inr (ack PKT_FLAG_SET, w\<lparr>w_ht := t\<rparr>)" using t(1) assms(5,6) by (simp add: own_answer_def)
  have "send_ready (length (wire (ack PKT_FLAG_SET))) (w\<lparr>w_ht := t\<rparr>)"
    using assms(7) length_wire_ack [of PKT_FLAG_SET] by (simp add: send_ready_def)
  from send_answer [OF a ack_wf assms(4) this, of junk] obtain w' evs where
    w': "handle_own_request junk srv c p w = Inr (CB_REMOVE_CLIENT, srv, w')" "net.more w' = net.more (w\<lparr>w_ht := t\<rparr>)"
    "trace w' = trace w @ evs" "sent_to (c_socket cl) evs = wire (ack PKT_FLAG_SET)" by auto
  have "w_ht w' = t" "w_rt w' = w_rt w" "w_pred w' = w_pred w" "w_self w' = w_self w" "w_succ w' = w_succ w" using world_more [OF w'(2)] by simp_all
  then show ?thesis using w' t(2,3) assms(1) by (auto simp: ack_def world_wf_def)
qed

text \<open>
  a SET request this peer is responsible for (the SET flag set, the GET flag not) stores
  the packet's value under the packet's key, byte for byte, leaves every other key and the
  open requests alone, sends the client exactly an acknowledgement packet with the flags SET
  and ACK, and asks the event loop to drop the client.
\<close>

theorem own_set_request:
  assumes "world_wf w" "ut_room (w_ht w)" "wf_packet p" "client_at srv c = Inr cl"
    "flag_set (flags p) PKT_FLAG_SET" "\<not> flag_set (flags p) PKT_FLAG_GET" "send_ready 11 w"
  shows "\<exists>w' evs. handle_own_request junk srv c p w = Inr (CB_REMOVE_CLIENT, srv, w') \<and> world_wf w' \<and>
     ht_map (w_ht w') = (ht_map (w_ht w))(ptr_bytes (pkey p) \<mapsto> ptr_bytes (pvalue p)) \<and> w_rt w' = w_rt w \<and>
     trace w' = trace w @ evs \<and> sent_to (c_socket cl) evs = wire (packet_new\<lparr>flags := PKT_FLAG_SET OR PKT_FLAG_ACK\<rparr>)"
  using own_set_answered [OF assms] by blast

lemma own_get_answered:
  assumes "world_wf w" "wf_packet p" "client_at srv c = Inr cl" "flag_set (flags p) PKT_FLAG_GET"
    "v = ht_map (w_ht w) (ptr_bytes (pkey p))" "\<forall>x. v = Some x \<longrightarrow> length x < 2 ^ 32"
    "a = (case v of None \<Rightarrow> ack PKT_FLAG_GET | Some x \<Rightarrow> get_ack (ptr_bytes (pkey p)) x)"
    "send_ready (length (wire a)) w"
  shows "\<exists>w' evs. handle_own_request junk srv c p w = Inr (CB_REMOVE_CLIENT, srv, w') \<and>
     w_ht w' = w_ht w \<and> w_rt w' = w_rt w \<and> trace w' = trace w @ evs \<and> sent_to (c_socket cl) evs = wire a"
proof -
  have "own_get p w = Inr a" using own_get_ok [OF assms(1,2)] assms(5-7) by simp
  then have an: "own_answer p w = Inr (a, w)" using assms(4) by (simp add: own_answer_def)
  have "wf_packet a"
    using assms(6,7) get_ack_wf key_short [OF assms(2)] by (auto split: option.splits)
  from send_answer [OF an this assms(3,8), of junk] obtain w' evs where
    "handle_own_request junk srv c p w = Inr (CB_REMOVE_CLIENT, srv, w')" "net.more w' = net.more w"
    "trace w' = trace w @ evs" "sent_to (c_socket cl) evs = wire a" by blast
  then show ?thesis using world_more [of w' w] by blast
qed

text \<open>
  a GET request this peer is responsible for changes no table and sends the client
  exactly one acknowledgement: without key and value if the key is not stored, otherwise
  with the stored key and value as \<open>strncpy\<close> copies them, that is unchanged if they hold no
  NUL byte and with everything from the first NUL byte on replaced by zeros if they do.
\<close>

theorem own_get_request:
  assumes "world_wf w" "wf_packet p" "client_at srv c = Inr cl" "flag_set (flags p) PKT_FLAG_GET"
    "v = ht_map (w_ht w) (ptr_bytes (pkey p))" "\<forall>x. v = Some x \<longrightarrow> length x < 2 ^ 32"
    "a = (case v of None \<Rightarrow> ack PKT_FLAG_GET | Some x \<Rightarrow> get_ack (ptr_bytes (pkey p)) x)"
    "send_ready (length (wire a)) w"
  shows "\<exists>w' evs. handle_own_request junk srv c p w = Inr (CB_REMOVE_CLIENT, srv, w') \<and>
     w_ht w' = w_ht w \<and> w_rt w' = w_rt w \<and> trace w' = trace w @ evs \<and> sent_to (c_socket cl) evs = wire a"
  using own_get_answered [OF assms] by blast

text \<open>
  C21: every other request, also one with none of the flags GET, SET and DELETE, is taken for a
  DELETE (the third condition is always true): the key is removed, every other key stays,
  and the client gets an acknowledgement with the flags DELETE and ACK.
\<close>

theorem own_other_request_deletes:
  assumes "world_wf w" "wf_packet p" "client_at srv c = Inr cl"
    "\<not> flag_set (flags p) PKT_FLAG_SET" "\<not> flag_set (flags p) PKT_FLAG_GET" "send_ready 11 w"
  shows "\<exists>w' evs. handle_own_request junk srv c p w = Inr (CB_REMOVE_CLIENT, srv, w') \<and> world_wf w' \<and>
     ht_map (w_ht w') = (ht_map (w_ht w))(ptr_bytes (pkey p) := None) \<and> w_rt w' = w_rt w \<and>
     trace w' = trace w @ evs \<and> sent_to (c_socket cl) evs = wire (packet_new\<lparr>flags := PKT_FLAG_DEL OR PKT_FLAG_ACK\<rparr>)"
proof -
  obtain t where t: "own_del p w = Inr (ack PKT_FLAG_DEL, w\<lparr>w_ht := t\<rparr>)" "ht_wf t"
    "ht_map t = (ht_map (w_ht w))(ptr_bytes (pkey p) := None)"
    using own_del_ok [OF assms(1,2)] by blast
  have "del_condition fl" for fl by (simp add: del_condition_def PKT_FLAG_DEL_def)
  then have a: "own_answer p w = Inr (ack PKT_FLAG_DEL, w\<lparr>w_ht := t\<rparr>)" using t(1) assms(4,5) by (simp add: own_answer_def)
  have "send_ready (length (wire (ack PKT_FLAG_DEL))) (w\<lparr>w_ht := t\<rparr>)"
    using assms(6) length_wire_ack [of PKT_FLAG_DEL] by (simp add: send_ready_def)
  from send_answer [OF a ack_wf assms(3) this, of junk] obtain w' evs where
    w': "handle_own_request junk srv c p w = Inr (CB_REMOVE_CLIENT, srv, w')" "net.more w' = net.more (w\<lparr>w_ht := t\<rparr>)"
    "trace w' = trace w @ evs" "sent_to (c_socket cl) evs = wire (ack PKT_FLAG_DEL)" by auto
  have "w_ht w' = t" "w_rt w' = w_rt w" using world_more [OF w'(2)] by simp_all
  then show ?thesis using w' t(2,3) assms(1) by (auto simp: ack_def world_wf_def)
qed

section \<open>Reaching another peer\<close>

text \<open>The peer's host resolves to the single address \<open>ai\<close> and the next connection, on \<open>s\<close>, succeeds.\<close>

definition reachable :: "peer \<Rightarrow> int \<Rightarrow> addrinfo \<Rightarrow> world \<Rightarrow> bool" where
  "reachable p s ai w \<longleftrightarrow> peer_lookup p w = [ai] \<and> 0 \<le> s \<and>
     (\<exists>ss. socket_res w = s # ss) \<and> (\<exists>cr. connect_res w = 0 # cr)"

lemma peer_connect_single:
  assumes "reachable p s ai w"
  shows "peer_connect p w = Inr (0, p\<lparr>p_socket := s, p_addr_len := ai_addrlen ai\<rparr>,
     w\<lparr>socket_res := tl (socket_res w), connect_res := tl (connect_res w), trace := trace w @ [EvConnect s (ai_addr ai)]\<rparr>)"
  using assms by (auto simp: reachable_def peer_connect_def sys_socket_def sys_connect_def log_event_def Let_def)

lemma forward_sends:
  assumes r: "reachable p s ai w" and wf: "has_flag (flags pk) PKT_FLAG_CTRL \<or> wf_packet pk"
    and send: "send_ready (length (wire pk) + m) w"
  shows "\<exists>w1 evs. trace w1 = trace w @ EvConnect s (ai_addr ai) # evs \<and> set evs \<subseteq> range (EvSend s) \<and>
     sent_to s evs = wire pk \<and> net.more w1 = net.more w \<and> inq w1 = inq w \<and> send_ready m w1 \<and>
     forward junk p pk w =
       Inr (0, if has_flag (flags pk) PKT_FLAG_CTRL
          then peer_disconnect (p\<lparr>p_socket := s, p_addr_len := ai_addrlen ai\<rparr>) w1
          else (p\<lparr>p_socket := s, p_addr_len := ai_addrlen ai\<rparr>, w1))"
proof -
  define w0 where "w0 = w\<lparr>socket_res := tl (socket_res w), connect_res := tl (connect_res w),
    trace := trace w @ [EvConnect s (ai_addr ai)]\<rparr>"
  have ser: "packet_serialize junk pk = Inr (wire pk)" using wf by (rule packet_serialize_wire)
  have "send_ready (length (wire pk) + m) w0" using send by (simp add: w0_def send_ready_def)
  from sendall_ready [OF this, of "wire pk" s] obtain rs evs where
    e: "sendall s (wire pk) (length (wire pk)) w0 = Inr (0, w0\<lparr>send_res := rs, trace := trace w0 @ evs\<rparr>)"
    "set evs \<subseteq> range (EvSend s)" "sent_to s evs = wire pk" "send_ready m (w0\<lparr>send_res := rs, trace := trace w0 @ evs\<rparr>)"
    by auto
  let ?w1 = "w0\<lparr>send_res := rs, trace := trace w0 @ evs\<rparr>"
  have "forward junk p pk w = Inr (0, if has_flag (flags pk) PKT_FLAG_CTRL
      then peer_disconnect (p\<lparr>p_socket := s, p_addr_len := ai_addrlen ai\<rparr>) ?w1
      else (p\<lparr>p_socket := s, p_addr_len := ai_addrlen ai\<rparr>, ?w1))"
    using ser peer_connect_single [OF r] e(1)
    by (simp add: forward_def w0_def [symmetric] split: prod.split)
  moreover have "trace ?w1 = trace w @ EvConnect s (ai_addr ai) # evs" "net.more ?w1 = net.more w" "inq ?w1 = inq w"
    by (simp_all add: w0_def)
  ultimately show ?thesis using e by blast
qed

lemma forward_ctrl:
  assumes "reachable p s ai w" "has_flag (flags pk) PKT_FLAG_CTRL" "send_ready 11 w"
  shows "\<exists>p' w' evs. forward junk p pk w = Inr (0, p', w') \<and> net.more w' = net.more w \<and>
     trace w' = trace w @ EvConnect s (ai_addr ai) # evs @ [EvClose s] \<and> set evs \<subseteq> range (EvSend s) \<and>
     sent_to s evs = wire pk \<and> p_node_id p' = p_node_id p \<and> p_socket p' = -1"
proof -
  have "send_ready (length (wire pk) + 0) w"
    using assms(2,3) by (simp add: wire_def ctrl_wire_def)
  from forward_sends [OF assms(1) _ this, of junk] assms(2) obtain w1 evs where
    e: "trace w1 = trace w @ EvConnect s (ai_addr ai) # evs" "set evs \<subseteq> range (EvSend s)" "sent_to s evs = wire pk"
    "net.more w1 = net.more w" "forward junk p pk w = Inr (0, peer_disconnect (p\<lparr>p_socket := s, p_addr_len := ai_addrlen ai\<rparr>) w1)"
    by auto
  then show ?thesis by (simp add: peer_disconnect_def sys_close_def log_event_def)
qed

section \<open>Relaying a request\<close>

lemma proxy_relays:
  assumes "reachable n s ai w" "\<not> has_flag (flags p) PKT_FLAG_CTRL" "wf_packet p" "\<forall>x \<in> set cs. x \<noteq> []"
    "inq w s = map RData cs @ RData [] # q" "length (concat cs) < 2 ^ 64"
    "send_ready (length (wire p) + length (concat cs)) w"
  shows "\<exists>n' w' e1 e2. proxy_request junk csocket p n w = Inr (CB_REMOVE_CLIENT, n', w') \<and>
     trace w' = trace w @ EvConnect s (ai_addr ai) # e1 @ [EvClose s] @ e2 @ [EvClose s] \<and>
     set e1 \<subseteq> range (EvSend s) \<and> sent_to s e1 = wire p \<and>
     set e2 \<subseteq> range (EvSend csocket) \<and> sent_to csocket e2 = concat cs \<and> net.more w' = net.more w \<and>
     p_node_id n' = p_node_id n"
proof -
  let ?n = "n\<lparr>p_socket := s, p_addr_len := ai_addrlen ai\<rparr>"
  from forward_sends [OF assms(1) disjI2 [OF assms(3)] assms(7), of junk] assms(2) obtain w1 e1 where
    f: "trace w1 = trace w @ EvConnect s (ai_addr ai) # e1" "set e1 \<subseteq> range (EvSend s)" "sent_to s e1 = wire p"
    "net.more w1 = net.more w" "inq w1 = inq w" "send_ready (length (concat cs)) w1"
    "forward junk n p w = Inr (0, ?n, w1)" by auto
  have q: "inq w1 s = map RData cs @ RData [] # q" using assms(5) f(5) by simp
  let ?w2 = "sys_close s (w1\<lparr>inq := (inq w1)(s := q)\<rparr>)"
  from recvall_chunks [OF assms(4) q assms(6), of junk] obtain buf where
    r: "recvall junk s w1 = Inr (buf, length (concat cs), ?w2)" "take (length (concat cs)) buf = concat cs"
       "length (concat cs) \<le> length buf" by blast
  have "send_ready (length (concat cs) + 0) ?w2" using f(6) by (simp add: send_ready_def sys_close_def log_event_def)
  from sendall_ready [OF this r(3), of csocket] r(2) obtain rs e2 where
    e: "sendall csocket buf (length (concat cs)) ?w2 = Inr (0, ?w2\<lparr>send_res := rs, trace := trace ?w2 @ e2\<rparr>)"
      "set e2 \<subseteq> range (EvSend csocket)" "sent_to csocket e2 = concat cs" by auto
  have "proxy_request junk csocket p n w = Inr (CB_REMOVE_CLIENT, peer_disconnect ?n (?w2\<lparr>send_res := rs, trace := trace ?w2 @ e2\<rparr>))"
    using f(7) r(1) e(1) by (simp add: proxy_request_def split: prod.split)
  then show ?thesis
    using f(1-4) e(2,3) by (auto simp: peer_disconnect_def sys_close_def log_event_def)
qed

text \<open>
  C20: a proxied request is relayed completely in both directions: the packet's bytes go to
  the peer on a new connection, every byte the peer sends until it closes, however cut into
  pieces, goes on to the client's socket in order, and the client is then dropped. The
  connection to the peer is closed twice, by \<open>recvall\<close> and by \<open>peer_disconnect\<close>.
\<close>

theorem proxy_relays_answer:
  assumes "reachable n s ai w" "\<not> has_flag (flags p) PKT_FLAG_CTRL" "wf_packet p" "\<forall>x \<in> set cs. x \<noteq> []"
    "inq w s = map RData cs @ RData [] # q" "length (concat cs) < 2 ^ 64"
    "send_ready (length (wire p) + length (concat cs)) w"
  shows "\<exists>n' w' e1 e2. proxy_request junk csocket p n w = Inr (CB_REMOVE_CLIENT, n', w') \<and>
     trace w' = trace w @ EvConnect s (ai_addr ai) # e1 @ [EvClose s] @ e2 @ [EvClose s] \<and>
     set e1 \<subseteq> range (EvSend s) \<and> sent_to s e1 = wire p \<and>
     set e2 \<subseteq> range (EvSend csocket) \<and> sent_to csocket e2 = concat cs \<and> net.more w' = net.more w"
  using proxy_relays [OF assms, of junk csocket] by blast

section \<open>The lookup protocol\<close>

definition ring_state :: "peer \<Rightarrow> peer \<Rightarrow> peer \<Rightarrow> world \<Rightarrow> bool" where
  "ring_state pr me su w \<longleftrightarrow> w_pred w = Some pr \<and> w_self w = Some me \<and> w_succ w = Some su"

text \<open>
  a request for a key that neither this peer nor its successor is responsible for is
  kept: the packet is appended to the queue of its hash id together with the client's
  socket, the successor gets exactly one lookup packet with the hash id and this peer's id,
  address and port, the connection is closed, and the client stays connected.
\<close>

theorem request_starts_lookup:
  assumes "ring_state pr me su w" "world_wf w" "ut_room (w_rt w)" "wf_packet p" "client_at srv c = Inr cl"
    "pseudo_hash (pkey p) (unat (key_len p)) = Inr h"
    "peer_is_responsible (p_node_id pr) (p_node_id me) h = 0" "peer_is_responsible (p_node_id me) (p_node_id su) h = 0"
    "reachable su s ai w" "send_ready 11 w"
  shows "\<exists>w' evs. handle_packet_data junk srv c p w = Inr (CB_OK, srv, w') \<and> world_wf w' \<and> w_ht w' = w_ht w \<and>
     rt_queue (w_rt w') = (rt_queue (w_rt w))(h := rt_queue (w_rt w) h @ [\<lparr>r_packet = dup_of p, r_socket = c_socket cl\<rparr>]) \<and>
     trace w' = trace w @ EvConnect s (ai_addr ai) # evs @ [EvClose s] \<and>
     sent_to s evs = wire (packet_new\<lparr>flags := PKT_FLAG_CTRL OR PKT_FLAG_LKUP, hash_id := h, node_id := p_node_id me,
        node_ip := peer_get_ip me w, node_port := port me\<rparr>)"
proof -
  let ?lk = "packet_new\<lparr>flags := PKT_FLAG_CTRL OR PKT_FLAG_LKUP, hash_id := h, node_id := p_node_id me,
        node_ip := peer_get_ip me w, node_port := port me\<rparr>"
  have rt: "rt_wf (w_rt w)" using assms(2) by (simp add: world_wf_def)
  obtain t where t: "add_request (w_rt w) h (c_socket cl) p = Inr t" "rt_wf t"
    "rt_queue t = (rt_queue (w_rt w))(h := rt_queue (w_rt w) h @ [\<lparr>r_packet = dup_of p, r_socket = c_socket cl\<rparr>])"
    using add_request_ok [OF rt assms(3) packet_dup_of [OF assms(4)]] by blast
  let ?w = "w\<lparr>w_rt := t\<rparr>"
  have r: "reachable su s ai ?w" "send_ready 11 ?w" and ip: "peer_get_ip me ?w = peer_get_ip me w"
    using assms(9,10) by (simp_all add: reachable_def send_ready_def peer_lookup_def peer_get_ip_def)
  have "has_flag (flags ?lk) PKT_FLAG_CTRL" by (simp add: has_flag_def flag_defs)
  from forward_ctrl [OF r(1) this r(2), of junk] obtain p' w' evs where
    f: "forward junk su ?lk ?w = Inr (0, p', w')" "net.more w' = net.more ?w"
       "trace w' = trace w @ EvConnect s (ai_addr ai) # evs @ [EvClose s]" "sent_to s evs = wire ?lk" by auto
  have "lookup_peer junk h ?w = Inr (0, w'\<lparr>w_succ := Some p'\<rparr>)"
    using f(1) assms(1) by (simp add: lookup_peer_def the_peer_def ring_state_def ip)
  then have "handle_packet_data junk srv c p w = Inr (CB_OK, srv, w'\<lparr>w_succ := Some p'\<rparr>)"
    using assms(1,5-8) t(1) by (simp add: handle_packet_data_def the_peer_def ring_state_def)
  moreover have "w_ht w' = w_ht w" "w_rt w' = t" using world_more [OF f(2)] by simp_all
  ultimately show ?thesis using f(3,4) t(2,3) assms(2) by (simp add: world_wf_def)
qed

text \<open>
  a lookup for a hash id that this peer or its successor is responsible for is answered:
  the asking peer (the address in the lookup) gets exactly one reply packet with the same
  hash id and the id, address and port of the responsible peer; nothing else changes.
\<close>

theorem lookup_answered:
  assumes "ring_state pr me su w" "has_flag (flags p) PKT_FLAG_LKUP"
    "n = (if peer_is_responsible (p_node_id pr) (p_node_id me) (hash_id p) = 1 then me else su)"
    "peer_is_responsible (p_node_id pr) (p_node_id me) (hash_id p) = 1 \<or>
     peer_is_responsible (p_node_id me) (p_node_id su) (hash_id p) = 1"
    "reachable (peer_from_packet p) s ai w" "send_ready 11 w"
  shows "\<exists>w' evs. handle_packet_ctrl junk srv c p w = Inr (CB_REMOVE_CLIENT, srv, w') \<and> net.more w' = net.more w \<and>
     trace w' = trace w @ EvConnect s (ai_addr ai) # evs @ [EvClose s] \<and>
     sent_to s evs = wire (packet_new\<lparr>flags := PKT_FLAG_CTRL OR PKT_FLAG_RPLY, hash_id := hash_id p,
        node_id := p_node_id n, node_ip := peer_get_ip n w, node_port := port n\<rparr>)"
proof -
  let ?rp = "packet_new\<lparr>flags := PKT_FLAG_CTRL OR PKT_FLAG_RPLY, hash_id := hash_id p,
        node_id := p_node_id n, node_ip := peer_get_ip n w, node_port := port n\<rparr>"
  have "has_flag (flags ?rp) PKT_FLAG_CTRL" by (simp add: has_flag_def flag_defs)
  from forward_ctrl [OF assms(5) this assms(6), of junk] obtain p' w' evs where
    f: "forward junk (peer_from_packet p) ?rp w = Inr (0, p', w')" "net.more w' = net.more w"
       "trace w' = trace w @ EvConnect s (ai_addr ai) # evs @ [EvClose s]" "sent_to s evs = wire ?rp" by auto
  have "answer_lookup junk p n w = Inr (CB_REMOVE_CLIENT, w')" using f(1) by (simp add: answer_lookup_def)
  then have "handle_packet_ctrl junk srv c p w = Inr (CB_REMOVE_CLIENT, srv, w')"
    using assms(1-4) by (auto simp: handle_packet_ctrl_def the_peer_def ring_state_def peer_is_responsible_def split: if_splits)
  then show ?thesis using f(2-4) by blast
qed

text \<open>
  a lookup for any other hash id is passed on unchanged, byte for byte, to the successor,
  and neither table changes.
\<close>

theorem lookup_forwarded:
  assumes "ring_state pr me su w" "has_flag (flags p) PKT_FLAG_CTRL" "has_flag (flags p) PKT_FLAG_LKUP"
    "peer_is_responsible (p_node_id pr) (p_node_id me) (hash_id p) = 0"
    "peer_is_responsible (p_node_id me) (p_node_id su) (hash_id p) = 0"
    "reachable su s ai w" "send_ready 11 w"
  shows "\<exists>w' evs. handle_packet junk srv c (Some p) w = Inr (CB_REMOVE_CLIENT, srv, w') \<and>
     w_ht w' = w_ht w \<and> w_rt w' = w_rt w \<and>
     trace w' = trace w @ EvConnect s (ai_addr ai) # evs @ [EvClose s] \<and> sent_to s evs = wire p"
proof -
  from forward_ctrl [OF assms(6,2,7), of junk] obtain p' w' evs where
    f: "forward junk su p w = Inr (0, p', w')" "net.more w' = net.more w"
       "trace w' = trace w @ EvConnect s (ai_addr ai) # evs @ [EvClose s]" "sent_to s evs = wire p" by auto
  have "handle_packet junk srv c (Some p) w = Inr (CB_REMOVE_CLIENT, srv, w'\<lparr>w_succ := Some p'\<rparr>)"
    using f(1) assms(1-5) by (simp add: handle_packet_def handle_packet_ctrl_def the_peer_def ring_state_def)
  then show ?thesis using f(3,4) world_more [OF f(2)] by simp
qed

section \<open>The end of an open request\<close>

text \<open>
  a reply ends the open request it is for: the kept request is sent to the peer named in
  the reply, the answer goes to the socket the request came from, the client with that
  socket is marked for removal, the queue of the hash id is empty afterwards and the queues
  of all other hash ids and the hash table are as before.
\<close>

theorem reply_completes_request:
  assumes "world_wf w" "has_flag (flags p) PKT_FLAG_RPLY" "\<not> has_flag (flags p) PKT_FLAG_LKUP"
    "rt_queue (w_rt w) (hash_id p) = [r]" "\<not> has_flag (flags (r_packet r)) PKT_FLAG_CTRL" "wf_packet (r_packet r)"
    "reachable (peer_from_packet p) s ai w" "\<forall>x \<in> set cs. x \<noteq> []"
    "inq w s = map RData cs @ RData [] # q" "length (concat cs) < 2 ^ 64"
    "send_ready (length (wire (r_packet r)) + length (concat cs)) w"
  shows "\<exists>w' e1 e2. handle_packet_ctrl junk srv c p w =
       Inr (CB_REMOVE_CLIENT, server_close_socket srv (r_socket r), w') \<and>
     trace w' = trace w @ EvConnect s (ai_addr ai) # e1 @ [EvClose s] @ e2 @ [EvClose s] \<and>
     sent_to s e1 = wire (r_packet r) \<and> sent_to (r_socket r) e2 = concat cs \<and>
     w_ht w' = w_ht w \<and> rt_wf (w_rt w') \<and> rt_queue (w_rt w') = (rt_queue (w_rt w))(hash_id p := [])"
proof -
  have rt: "rt_wf (w_rt w)" using assms(1) by (simp add: world_wf_def)
  obtain n' w1 e1 e2 where pr: "proxy_request junk (r_socket r) (r_packet r) (peer_from_packet p) w = Inr (CB_REMOVE_CLIENT, n', w1)"
     "trace w1 = trace w @ EvConnect s (ai_addr ai) # e1 @ [EvClose s] @ e2 @ [EvClose s]"
     "sent_to s e1 = wire (r_packet r)" "sent_to (r_socket r) e2 = concat cs" "net.more w1 = net.more w"
    using proxy_relays [OF assms(7,5,6,8-11), of junk "r_socket r"] by blast
  obtain t where t: "clear_requests (w_rt w) (hash_id p) = Inr t" "rt_wf t" "rt_queue t = (rt_queue (w_rt w))(hash_id p := [])"
    using clear_requests_ok [OF rt] by blast
  have "w_rt w1 = w_rt w" "w_ht w1 = w_ht w" using world_more [OF pr(5)] by simp_all
  then have "handle_packet_ctrl junk srv c p w = Inr (CB_REMOVE_CLIENT, server_close_socket srv (r_socket r), w1\<lparr>w_rt := t\<rparr>)"
    using assms(2,3) get_requests_ok [OF rt, of "hash_id p"] assms(4) pr(1) t(1)
    by (simp add: handle_packet_ctrl_def)
  then show ?thesis using pr(2-4) t(2,3) \<open>w_ht w1 = w_ht w\<close> by (intro exI [of _ "w1\<lparr>w_rt := t\<rparr>"]) auto
qed

section \<open>The whole process\<close>

text \<open>
  with the peer's callback the event loop never follows a pointer to a freed client or a
  freed table entry, whatever packets arrive, however they are cut, whatever the kernel
  answers and in whatever order clients come and go; and if it returns, every client has
  been removed and the client counter is 0.
\<close>

theorem peer_event_loop_safe:
  assumes "srv_wf srv" "world_wf w"
  shows "server_run (Some (handle_packet junk)) junk polls srv w \<noteq> Inl Use_After_Free \<and>
    (\<forall>srv' w'. server_run (Some (handle_packet junk)) junk polls srv w = Inr (srv', w') \<longrightarrow>
       clients srv' = [] \<and> n_clients srv' = 0)"
  using assms by (rule hp.server_run_ok)

text \<open>
  C18: the types of the process state are kept by every round of the event loop, whatever
  \<open>poll\<close> reports, whatever the readable clients sent and whether a client is accepted: if the
  round returns, the client list has distinct members, every buffer is well formed and
  matches the state of its client, the client counter is the length of the list, both hash
  tables are well formed, and no client is left marked for removal.
\<close>

theorem round_keeps_types:
  assumes "srv_wf srv" "world_wf w" "serve_ready (Some (handle_packet junk)) junk accepted ready srv w = Inr (srv', w')"
  shows "srv_wf srv' \<and> world_wf w' \<and> unmarked srv'"
  using hp.serve_ready_ok [OF assms(1,2), of junk junk accepted ready] assms(3) by (auto simp: unmarked_def)

lemma setup_loop_no_uaf: "setup_loop ais binds s st w \<noteq> Inl Use_After_Free"
proof (induction ais arbitrary: binds s st w)
  case (Cons ai ais)
  then show ?case by (auto simp: bind_res_Inl_iff split: list.split)
qed simp

lemma setup_loop_more: "setup_loop ais binds s st w = Inr (r, w') \<Longrightarrow> net.more w' = net.more w"
proof (induction ais arbitrary: binds s st w)
  case (Cons ai ais)
  then show ?case by (cases binds) (auto simp: bind_res_Inr_iff split: if_splits dest!: sys_frames(2))
qed simp

lemma server_setup_ok:
  "server_setup (Some ais) binds w \<noteq> Inl Use_After_Free \<and>
   (\<forall>srv w'. server_setup (Some ais) binds w = Inr (Some srv, w') \<longrightarrow> srv_wf srv \<and> net.more w' = net.more w)"
  using setup_loop_no_uaf setup_loop_more
  by (fastforce simp: server_setup_def bind_res_Inl_iff bind_res_Inr_iff srv_wf_def split: option.splits if_splits)

lemma node_arg_cases:
  "node_arg e argv i = (if i + 3 \<le> length argv
     then Inr (ucast (fst (strtoul e (argv ! i))), argv ! (i + 1), argv ! (i + 2), snd (strtoul e (argv ! i)))
     else node_arg e argv i)"
  "length argv < i + 3 \<Longrightarrow> node_arg e argv i \<in> {Inl Null_Deref, Inl Out_Of_Bounds}"
  by (auto simp: node_arg_def arg_at_def split: prod.split)

text \<open>
  Nothing resets \<open>errno\<close>: after an identifier out of range \<open>peer_init\<close> fails for every peer.
\<close>

lemma peer_init_errno:
  assumes "e \<noteq> 0"
  shows "fst (peer_init e ident host prt) = None \<and> snd (peer_init e ident host prt) \<noteq> 0"
  using assms by (auto simp: peer_init_def strtol_def Let_def ERANGE_def)

lemma strtoul_range: "2 ^ 64 \<le> \<bar>parse_int s\<bar> \<Longrightarrow> snd (strtoul e s) \<noteq> 0"
  by (simp add: strtoul_def ERANGE_def Let_def)

text \<open>
  the peer program as a whole, started with any arguments, follows a dangling pointer in one case
  only: there are enough arguments and the address lookup of the listening socket fails, after which
  \<open>server_setup\<close> goes on with an uninitialised list; too few arguments end in a null pointer
  or an access beyond the argument vector before any socket is opened.
\<close>

theorem peer_main_safe:
  "(peer_main junk passive binds polls argv k = Inl Use_After_Free \<longleftrightarrow>
      10 \<le> length argv \<and> passive (argv ! 3) = None) \<and>
   (length argv < 10 \<longrightarrow> peer_main junk passive binds polls argv k \<in> {Inl Null_Deref, Inl Out_Of_Bounds})"
proof (cases "length argv < 10")
  case few: True
  have good: "\<exists>a b c e'. node_arg e argv i = Inr (a, b, c, e')" if "i + 3 \<le> length argv" for e i
    using node_arg_cases(1) [of e argv i] that by auto
  consider "length argv < 1 + 3" | "1 + 3 \<le> length argv" "length argv < 4 + 3"
    | "1 + 3 \<le> length argv" "4 + 3 \<le> length argv" "length argv < 7 + 3"
    using few by linarith
  then have "peer_main junk passive binds polls argv k \<in> {Inl Null_Deref, Inl Out_Of_Bounds}"
  proof cases
    case 1
    then show ?thesis using node_arg_cases(2) [of argv 1 0] by (auto simp: peer_main_def)
  next
    case 2
    obtain a b c e where "node_arg 0 argv 1 = Inr (a, b, c, e)" using good [OF 2(1)] by blast
    then show ?thesis using node_arg_cases(2) [OF 2(2), of e] by (auto simp: peer_main_def)
  next
    case 3
    obtain a b c e where 1: "node_arg 0 argv 1 = Inr (a, b, c, e)" using good [OF 3(1)] by blast
    obtain a' b' c' e' where 2: "node_arg e argv 4 = Inr (a', b', c', e')" using good [OF 3(2)] by blast
    show ?thesis using 1 2 node_arg_cases(2) [OF 3(3), of e'] by (auto simp: peer_main_def)
  qed
  then show ?thesis using few by auto
next
  case False
  define e1 where "e1 = snd (strtoul 0 (argv ! 1))"
  define e2 where "e2 = snd (strtoul e1 (argv ! 4))"
  define e3 where "e3 = snd (strtoul e2 (argv ! 7))"
  have args: "node_arg 0 argv 1 = Inr (ucast (fst (strtoul 0 (argv ! 1))), argv ! 2, argv ! 3, e1)"
    "node_arg e1 argv 4 = Inr (ucast (fst (strtoul e1 (argv ! 4))), argv ! 5, argv ! 6, e2)"
    "node_arg e2 argv 7 = Inr (ucast (fst (strtoul e2 (argv ! 7))), argv ! 8, argv ! 9, e3)"
    using False node_arg_cases(1) [of 0 argv 1] node_arg_cases(1) [of e1 argv 4] node_arg_cases(1) [of e2 argv 7]
    by (simp_all add: e1_def e2_def e3_def numeral_eq_Suc)
  obtain me x1 where pi1: "peer_init e3 (ucast (fst (strtoul 0 (argv ! 1)))) (argv ! 2) (argv ! 3) = (me, x1)"
    by (metis surj_pair)
  obtain pr x2 where pi2: "peer_init x1 (ucast (fst (strtoul e1 (argv ! 4)))) (argv ! 5) (argv ! 6) = (pr, x2)"
    by (metis surj_pair)
  obtain su x3 where pi3: "peer_init x2 (ucast (fst (strtoul e2 (argv ! 7)))) (argv ! 8) (argv ! 9) = (su, x3)"
    by (metis surj_pair)
  define w where "w = net.extend k \<lparr>w_ht = ut_empty, w_rt = ut_empty, w_self = me, w_pred = pr, w_succ = su\<rparr>"
  have w: "world_wf w" by (simp add: w_def world_wf_def net.defs)
  have main: "peer_main junk passive binds polls argv k =
      bind_res (server_setup (passive (argv ! 3)) binds w) (\<lambda>(so, w).
      case so of None \<Rightarrow> Inr (-1, w)
      | Some srv \<Rightarrow> bind_res (server_run (Some (handle_packet junk)) junk polls srv w) (\<lambda>(srv, w).
          Inr (0, sys_close (s_socket srv) w)))"
    by (simp add: peer_main_def args pi1 pi2 pi3 w_def Let_def del: One_nat_def)
  show ?thesis
  proof (cases "passive (argv ! 3)")
    case None
    then show ?thesis using False by (simp add: main server_setup_def)
  next
    case (Some ais)
    have "server_run (Some (handle_packet junk)) junk polls srv w' \<noteq> Inl Use_After_Free"
      if "server_setup (Some ais) binds w = Inr (Some srv, w')" for srv w'
      using server_setup_ok [of ais binds w] that hp.server_run_ok world_wf_more w by blast
    then show ?thesis
      using Some False server_setup_ok [of ais binds w]
      by (auto simp: main bind_res_Inl_iff split: prod.splits option.splits)
  qed
qed

section \<open>Witnesses\<close>

text \<open>A peer with id 100 between 50 and 150 whose neighbours resolve to one address each.\<close>

definition ring_peer :: "u16 \<Rightarrow> u16 \<Rightarrow> peer" where
  "ring_peer i prt = zero_peer\<lparr>p_node_id := i, hostname := ''node'', port := prt, p_socket := -1\<rparr>"

definition sample_world :: world where
  "sample_world = net.extend
     \<lparr>gai = (\<lambda>_ _. Some [sample_ai 16777343]), socket_res = [8], connect_res = [0], send_res = replicate 64 7,
      inq = (\<lambda>_. [])(8 := [RData [1, 2], RData [3], RData []]), trace = []\<rparr>
     \<lparr>w_ht = ut_empty, w_rt = ut_empty, w_self = Some (ring_peer 100 4001), w_pred = Some (ring_peer 50 4000),
      w_succ = Some (ring_peer 150 4002)\<rparr>"

lemma sample_world_simps [simp]:
  "w_ht sample_world = ut_empty" "w_rt sample_world = ut_empty" "trace sample_world = []" "world_wf sample_world"
  "send_ready n sample_world \<longleftrightarrow> n \<le> 64" "inq sample_world 8 = map RData [[1, 2], [3]] @ RData [] # []"
  "ring_state (ring_peer 50 4000) (ring_peer 100 4001) (ring_peer 150 4002) sample_world"
  by (simp_all add: sample_world_def net.defs world_wf_def send_ready_def ring_state_def)

lemma sample_world_reachable: "reachable p 8 (sample_ai 16777343) sample_world"
  by (simp add: reachable_def peer_lookup_def sample_world_def net.defs)

lemma set_packet_simps [simp]:
  "wf_packet set_packet" "flags set_packet = PKT_FLAG_SET" "ptr_bytes (pkey set_packet) = [65]"
  "ptr_bytes (pvalue set_packet) = [7, 0]"
  by (simp_all add: set_packet_def wf_packet_def packet_new_def ptr_bytes_def)

lemma one_client_at: "client_at one_client 0 = Inr new_client"
  by (simp add: client_at_def one_client_simps(1,4))

lemma new_client_socket: "c_socket new_client = 5"
  by (simp add: new_client_def)

theorem own_set_request_witness:
  "\<exists>w' evs. handle_own_request (\<lambda>_. 0) one_client 0 set_packet sample_world = Inr (CB_REMOVE_CLIENT, one_client, w') \<and>
     ht_map (w_ht w') = [[65] \<mapsto> [7, 0]] \<and> trace w' = evs \<and> sent_to 5 evs = [10, 0, 0, 0, 0, 0, 0]"
proof -
  have f: "flag_set (flags set_packet) PKT_FLAG_SET" "\<not> flag_set (flags set_packet) PKT_FLAG_GET"
    by (simp_all add: flag_set_def flag_defs)
  have w: "wire (packet_new\<lparr>flags := PKT_FLAG_SET OR PKT_FLAG_ACK\<rparr>) = [10, 0, 0, 0, 0, 0, 0]" by code_simp
  from own_set_request [OF _ _ _ one_client_at f, of sample_world "\<lambda>_. 0"] show ?thesis
    by (auto simp: new_client_socket w)
qed

theorem own_get_request_witness:
  "\<exists>w w' evs. ht_map (w_ht w) [65] = Some [7, 0, 9] \<and>
     handle_own_request (\<lambda>_. 0) one_client 0 (set_packet\<lparr>flags := PKT_FLAG_GET\<rparr>) w = Inr (CB_REMOVE_CLIENT, one_client, w') \<and>
     w_ht w' = w_ht w \<and> trace w' = evs \<and> sent_to 5 evs = [12, 0, 1, 0, 0, 0, 3, 65, 7, 0, 0]"
proof -
  let ?q = "set_packet\<lparr>flags := PKT_FLAG_GET\<rparr>"
  have q: "wf_packet ?q" "flag_set (flags ?q) PKT_FLAG_GET" "ptr_bytes (pkey ?q) = [65]"
    by (simp_all add: set_packet_def wf_packet_def packet_new_def ptr_bytes_def flag_set_def)
  obtain t where t: "ht_wf t" "ht_map t = [[65] \<mapsto> [7, 0, 9]]"
    using htable_set_ok [of ut_empty "Some [65]" 1 "[65]" "Some [7, 0, 9]" 3 "[7, 0, 9]"]
    by (auto simp: arg_def)
  let ?w = "sample_world\<lparr>w_ht := t\<rparr>"
  have w: "world_wf ?w" "ht_map (w_ht ?w) (ptr_bytes (pkey ?q)) = Some [7, 0, 9]" "trace ?w = []"
    "send_ready n ?w \<longleftrightarrow> n \<le> 64" for n
    using t unfolding q(3) by (simp_all add: world_wf_def) (simp add: send_ready_def sample_world_def net.defs)
  have a: "wire (get_ack [65] [7, 0, 9]) = [12, 0, 1, 0, 0, 0, 3, 65, 7, 0, 0]" by code_simp
  from own_get_request [OF w(1) q(1) one_client_at q(2) w(2) [symmetric] _ refl, of "\<lambda>_. 0"]
  obtain w' evs where "handle_own_request (\<lambda>_. 0) one_client 0 ?q ?w = Inr (CB_REMOVE_CLIENT, one_client, w')"
    "w_ht w' = w_ht ?w" "trace w' = evs" "sent_to 5 evs = [12, 0, 1, 0, 0, 0, 3, 65, 7, 0, 0]"
    by (auto simp: w q(3) a new_client_socket)
  then show ?thesis using t(2) by (intro exI [of _ ?w] exI [of _ w'] exI [of _ evs]) simp
qed

theorem own_other_request_deletes_witness:
  "\<exists>w' evs. handle_own_request (\<lambda>_. 0) one_client 0 (set_packet\<lparr>flags := 0\<rparr>) sample_world = Inr (CB_REMOVE_CLIENT, one_client, w') \<and>
     ht_map (w_ht w') [65] = None \<and> trace w' = evs \<and> sent_to 5 evs = [9, 0, 0, 0, 0, 0, 0]"
proof -
  let ?q = "set_packet\<lparr>flags := 0\<rparr>"
  have q: "wf_packet ?q" "\<not> flag_set (flags ?q) PKT_FLAG_SET" "\<not> flag_set (flags ?q) PKT_FLAG_GET" "ptr_bytes (pkey ?q) = [65]"
    by (simp_all add: set_packet_def wf_packet_def packet_new_def ptr_bytes_def flag_set_def flag_defs)
  have w: "wire (packet_new\<lparr>flags := PKT_FLAG_DEL OR PKT_FLAG_ACK\<rparr>) = [9, 0, 0, 0, 0, 0, 0]" by code_simp
  from own_other_request_deletes [OF _ q(1) one_client_at q(2,3), of sample_world "\<lambda>_. 0"] show ?thesis
    by (auto simp: q(4) w new_client_socket)
qed

theorem proxy_relays_answer_witness:
  "\<exists>n' w' e1 e2. proxy_request (\<lambda>_. 0) 5 set_packet (ring_peer 150 4002) sample_world = Inr (CB_REMOVE_CLIENT, n', w') \<and>
     trace w' = EvConnect 8 (ai_addr (sample_ai 16777343)) # e1 @ [EvClose 8] @ e2 @ [EvClose 8] \<and>
     sent_to 8 e1 = [2, 0, 1, 0, 0, 0, 2, 65, 7, 0] \<and> sent_to 5 e2 = [1, 2, 3]"
proof -
  have w: "wire set_packet = [2, 0, 1, 0, 0, 0, 2, 65, 7, 0]" by code_simp
  have f: "\<not> has_flag (flags set_packet) PKT_FLAG_CTRL" by (simp add: has_flag_def flag_defs)
  from proxy_relays_answer [OF sample_world_reachable f _ _ sample_world_simps(6), of "\<lambda>_. 0" 5 "ring_peer 150 4002"]
  show ?thesis by (auto simp: w)
qed

theorem request_starts_lookup_witness:
  "\<exists>p w' evs. ptr_bytes (pkey p) = [2, 1] \<and> handle_packet_data (\<lambda>_. 0) one_client 0 p sample_world = Inr (CB_OK, one_client, w') \<and>
     rt_queue (w_rt w') 513 = [\<lparr>r_packet = dup_of p, r_socket = 5\<rparr>] \<and>
     trace w' = EvConnect 8 (ai_addr (sample_ai 16777343)) # evs @ [EvClose 8] \<and>
     sent_to 8 evs = [129, 2, 1, 0, 100, 127, 0, 0, 1, 15, 161]"
proof -
  let ?p = "packet_new\<lparr>flags := PKT_FLAG_GET, key_len := 2, pkey := Some [2, 1]\<rparr>"
  let ?su = "ring_peer 150 4002" and ?me = "ring_peer 100 4001" and ?pr = "ring_peer 50 4000"
  have p: "wf_packet ?p" "pseudo_hash (pkey ?p) (unat (key_len ?p)) = Inr 513" "ptr_bytes (pkey ?p) = [2, 1]"
    by (simp_all add: wf_packet_def packet_new_def ptr_bytes_def pseudo_hash_def)
  have r: "peer_is_responsible (p_node_id ?pr) (p_node_id ?me) 513 = 0" "peer_is_responsible (p_node_id ?me) (p_node_id ?su) 513 = 0"
    by (simp_all add: peer_is_responsible_def ring_peer_def)
  have ip: "peer_get_ip ?me sample_world = 2130706433"
    by (simp add: peer_get_ip_def peer_lookup_def sample_world_def net.defs sample_ai_def ntohl_def htonl_def)
  have w: "wire (packet_new\<lparr>flags := PKT_FLAG_CTRL OR PKT_FLAG_LKUP, hash_id := 513, node_id := p_node_id ?me,
        node_ip := 2130706433, node_port := port ?me\<rparr>) = [129, 2, 1, 0, 100, 127, 0, 0, 1, 15, 161]" by code_simp
  from request_starts_lookup [OF sample_world_simps(7) _ _ p(1) one_client_at p(2) r sample_world_reachable, of "\<lambda>_. 0"]
  obtain w' evs where "handle_packet_data (\<lambda>_. 0) one_client 0 ?p sample_world = Inr (CB_OK, one_client, w')"
    "rt_queue (w_rt w') 513 = [\<lparr>r_packet = dup_of ?p, r_socket = 5\<rparr>]"
    "trace w' = EvConnect 8 (ai_addr (sample_ai 16777343)) # evs @ [EvClose 8]"
    "sent_to 8 evs = [129, 2, 1, 0, 100, 127, 0, 0, 1, 15, 161]"
    by (auto simp: new_client_socket ip w)
  then show ?thesis using p(3) by blast
qed

definition lookup_packet :: "u16 \<Rightarrow> packet" where
  "lookup_packet h = packet_new\<lparr>flags := PKT_FLAG_CTRL OR PKT_FLAG_LKUP, hash_id := h, node_id := 300, node_ip := 1, node_port := 9\<rparr>"

lemma lookup_packet_simps [simp]:
  "has_flag (flags (lookup_packet h)) PKT_FLAG_CTRL" "has_flag (flags (lookup_packet h)) PKT_FLAG_LKUP" "hash_id (lookup_packet h) = h"
  by (simp_all add: lookup_packet_def has_flag_def flag_defs)

theorem lookup_answered_witness:
  "\<exists>w' evs. handle_packet_ctrl (\<lambda>_. 0) one_client 0 (lookup_packet 120) sample_world = Inr (CB_REMOVE_CLIENT, one_client, w') \<and>
     trace w' = EvConnect 8 (ai_addr (sample_ai 16777343)) # evs @ [EvClose 8] \<and>
     sent_to 8 evs = [130, 0, 120, 0, 150, 127, 0, 0, 1, 15, 162]"
proof -
  let ?su = "ring_peer 150 4002"
  have ip: "peer_get_ip ?su sample_world = 2130706433"
    by (simp add: peer_get_ip_def peer_lookup_def sample_world_def net.defs sample_ai_def ntohl_def htonl_def)
  have w: "wire (packet_new\<lparr>flags := PKT_FLAG_CTRL OR PKT_FLAG_RPLY, hash_id := 120, node_id := p_node_id ?su,
        node_ip := 2130706433, node_port := port ?su\<rparr>) = [130, 0, 120, 0, 150, 127, 0, 0, 1, 15, 162]" by code_simp
  have "?su = (if peer_is_responsible (p_node_id (ring_peer 50 4000)) (p_node_id (ring_peer 100 4001)) (hash_id (lookup_packet 120)) = 1
      then ring_peer 100 4001 else ?su)"
    "peer_is_responsible (p_node_id (ring_peer 100 4001)) (p_node_id ?su) (hash_id (lookup_packet 120)) = 1"
    by (simp_all add: peer_is_responsible_def ring_peer_def)
  from lookup_answered [OF sample_world_simps(7) lookup_packet_simps(2) this(1) disjI2 [OF this(2)] sample_world_reachable,
      of "\<lambda>_. 0" one_client 0]
  show ?thesis unfolding ip lookup_packet_simps(3) w by auto
qed

theorem lookup_forwarded_witness:
  "\<exists>w' evs. handle_packet (\<lambda>_. 0) one_client 0 (Some (lookup_packet 200)) sample_world = Inr (CB_REMOVE_CLIENT, one_client, w') \<and>
     trace w' = EvConnect 8 (ai_addr (sample_ai 16777343)) # evs @ [EvClose 8] \<and>
     sent_to 8 evs = [129, 0, 200, 1, 44, 0, 0, 0, 1, 0, 9]"
proof -
  have w: "wire (lookup_packet 200) = [129, 0, 200, 1, 44, 0, 0, 0, 1, 0, 9]" by code_simp
  from lookup_forwarded [OF sample_world_simps(7) lookup_packet_simps(1,2), of 200 8 "sample_ai 16777343" "\<lambda>_. 0" one_client 0]
  show ?thesis by (auto simp: peer_is_responsible_def ring_peer_def sample_world_reachable w)
qed

theorem reply_completes_request_witness:
  "\<exists>w w' e1 e2 p. rt_queue (w_rt w) 513 = [\<lparr>r_packet = dup_of set_packet, r_socket = 5\<rparr>] \<and> hash_id p = 513 \<and>
     handle_packet_ctrl (\<lambda>_. 0) one_client 0 p w = Inr (CB_REMOVE_CLIENT, server_close_socket one_client 5, w') \<and>
     trace w' = EvConnect 8 (ai_addr (sample_ai 16777343)) # e1 @ [EvClose 8] @ e2 @ [EvClose 8] \<and>
     sent_to 5 e2 = [1, 2, 3] \<and> rt_queue (w_rt w') 513 = []"
proof -
  let ?p = "packet_new\<lparr>flags := PKT_FLAG_CTRL OR PKT_FLAG_RPLY, hash_id := 513\<rparr>"
  let ?r = "\<lparr>r_packet = dup_of set_packet, r_socket = 5\<rparr>"
  obtain t where t: "rt_wf t" "rt_queue t = (\<lambda>_. [])(513 := [?r])"
    using add_request_ok [OF rt_wf_empty(1) _ packet_dup_of [OF set_packet_simps(1)], of 513 5] by auto
  let ?w = "sample_world\<lparr>w_rt := t\<rparr>"
  have d: "dup_of set_packet = set_packet" by code_simp
  have f: "has_flag (flags ?p) PKT_FLAG_RPLY" "\<not> has_flag (flags ?p) PKT_FLAG_LKUP" "\<not> has_flag (flags (r_packet ?r)) PKT_FLAG_CTRL"
    by (simp_all add: has_flag_def flag_defs d)
  have wf: "world_wf ?w" "rt_queue (w_rt ?w) (hash_id ?p) = [?r]" "trace ?w = []" "send_ready n ?w \<longleftrightarrow> n \<le> 64"
    "inq ?w 8 = map RData [[1, 2], [3]] @ RData [] # []" for n
    using t by (simp_all add: world_wf_def) (simp_all add: send_ready_def sample_world_def net.defs)
  have r: "reachable (peer_from_packet ?p) 8 (sample_ai 16777343) ?w"
    using sample_world_reachable [of "peer_from_packet ?p"] by (simp add: reachable_def peer_lookup_def)
  have l: "length (wire set_packet) = 10" by code_simp
  from reply_completes_request [OF wf(1) f(1,2) wf(2) f(3) _ r _ wf(5), of "\<lambda>_. 0" one_client 0]
  obtain w' e1 e2 where "handle_packet_ctrl (\<lambda>_. 0) one_client 0 ?p ?w = Inr (CB_REMOVE_CLIENT, server_close_socket one_client 5, w')"
     "trace w' = EvConnect 8 (ai_addr (sample_ai 16777343)) # e1 @ [EvClose 8] @ e2 @ [EvClose 8]"
     "sent_to 5 e2 = [1, 2, 3]" "rt_queue (w_rt w') 513 = []"
    by (auto simp: wf(3,4) d l)
  then show ?thesis using t(2)
    by (intro exI [of _ ?w] exI [of _ w'] exI [of _ e1] exI [of _ e2] exI [of _ ?p]) simp
qed

theorem peer_event_loop_safe_witness:
  "server_run (Some (handle_packet (\<lambda>_. 0))) (\<lambda>_. 0) [] one_client sample_world \<noteq> Inl Use_After_Free"
proof -
  have "srv_wf \<lparr>s_socket = 3, n_clients = 0, active = True, clients = [], next_id = 0\<rparr>" by (simp add: srv_wf_def)
  then have "srv_wf one_client" unfolding one_client_def by (intro add_client_wf)
  from peer_event_loop_safe [OF this sample_world_simps(4)] show ?thesis by blast
qed

text \<open>Two clients are readable: one sent a packet header, the other closed; a third one connects.\<close>

definition two_clients :: server where
  "two_clients = server_add_client (\<lambda>_. 0) 6 one_client"

definition busy_world :: world where
  "busy_world = sample_world\<lparr>inq := (\<lambda>_. [])(6 := [RData [2, 0, 1, 0, 0, 0, 2]], 5 := [RData []])\<rparr>"

lemma busy_round:
  "case serve_ready (Some (handle_packet (\<lambda>_. 0))) (\<lambda>_. 0) (Some 9) [True, True] two_clients busy_world of
     Inl err \<Rightarrow> False
   | Inr (srv, w) \<Rightarrow> map c_socket (clients srv) = [9, 6] \<and> map state (clients srv) = [IDLE, HDR_RECVD] \<and>
       n_clients srv = 2 \<and> trace w = [EvClose 5]"
  by code_simp

lemma two_clients_wf: "srv_wf two_clients"
proof -
  have "srv_wf \<lparr>s_socket = 3, n_clients = 0, active = True, clients = [], next_id = 0\<rparr>" by (simp add: srv_wf_def)
  then show ?thesis unfolding two_clients_def one_client_def by (intro add_client_wf)
qed

theorem round_keeps_types_witness:
  "\<exists>srv w. serve_ready (Some (handle_packet (\<lambda>_. 0))) (\<lambda>_. 0) (Some 9) [True, True] two_clients busy_world = Inr (srv, w) \<and>
     srv_wf two_clients \<and> world_wf busy_world \<and>
     map c_socket (clients srv) = [9, 6] \<and> map state (clients srv) = [IDLE, HDR_RECVD] \<and> trace w = [EvClose 5] \<and>
     srv_wf srv \<and> world_wf w \<and> unmarked srv"
proof -
  obtain srv w where run: "serve_ready (Some (handle_packet (\<lambda>_. 0))) (\<lambda>_. 0) (Some 9) [True, True] two_clients busy_world =
      Inr (srv, w)" "map c_socket (clients srv) = [9, 6]" "map state (clients srv) = [IDLE, HDR_RECVD]" "trace w = [EvClose 5]"
    using busy_round by (auto split: sum.splits prod.splits)
  have wf: "world_wf busy_world" using world_wf_more [of busy_world sample_world] by (simp add: busy_world_def)
  from round_keeps_types [OF two_clients_wf wf run(1)] run two_clients_wf wf show ?thesis
    by (intro exI [of _ srv] exI [of _ w]) simp
qed

theorem peer_main_safe_witness:
  "peer_main (\<lambda>_. 0) (\<lambda>_. Some []) [] [] [''peer'', ''7'', ''localhost''] quiet_net \<in> {Inl Null_Deref, Inl Out_Of_Bounds}"
  using peer_main_safe [of "\<lambda>_. 0" "\<lambda>_. Some []" "[]" "[]" "[''peer'', ''7'', ''localhost'']" quiet_net] by simp

end
