(* ===== verification/Chord_Ring.thy ===== *)
theory Chord_Ring
  imports Peer_Requests
begin

text \<open>
  Lookups across a whole ring of peers. Each peer runs \<open>handle_packet_ctrl\<close> of
  \<open>praxis2/src/peer.c\<close>; \<open>lookup_hop\<close> is the decision it takes on a lookup, shown to be that
  decision by \<open>handle_lookup\<close>. The step relation \<open>hop\<close> moves a lookup from peer to peer until
  one answers, on a ring whose peers are given by their ring in ascending order, so that the
  neighbours of a peer are the entries next to it and the list closes to a circle.
\<close>

section \<open>The decision of one peer\<close>

definition lookup_hop :: "u16 \<Rightarrow> u16 \<Rightarrow> u16 \<Rightarrow> u16 \<Rightarrow> u16 option" where
  "lookup_hop pred_id self_id succ_id h =
     (if peer_is_responsible pred_id self_id h \<noteq> 0 then Some self_id
      else if peer_is_responsible self_id succ_id h \<noteq> 0 then Some succ_id
      else None)"

lemma handle_lookup:
  assumes "ring_state pr me su w" "has_flag (flags p) PKT_FLAG_LKUP" "p_node_id me \<noteq> p_node_id su"
  shows "handle_packet_ctrl junk srv c p w =
     (case lookup_hop (p_node_id pr) (p_node_id me) (p_node_id su) (hash_id p) of
        Some n \<Rightarrow> bind_res (answer_lookup junk p (if n = p_node_id me then me else su) w) (\<lambda>(rsp, w). Inr (rsp, srv, w))
      | None \<Rightarrow> bind_res (forward junk su p w) (\<lambda>(_, su, w). Inr (CB_REMOVE_CLIENT, srv, w\<lparr>w_succ := Some su\<rparr>)))"
  using assms by (auto simp: handle_packet_ctrl_def lookup_hop_def ring_state_def the_peer_def)

section \<open>A ring of peers\<close>

definition next_node :: "u16 list \<Rightarrow> nat \<Rightarrow> nat" where
  "next_node ring i = (i + 1) mod length ring"

definition prev_node :: "u16 list \<Rightarrow> nat \<Rightarrow> nat" where
  "prev_node ring i = (i + length ring - 1) mod length ring"

definition node_hop :: "u16 list \<Rightarrow> u16 \<Rightarrow> nat \<Rightarrow> u16 option" where
  "node_hop ring h i = lookup_hop (ring ! prev_node ring i) (ring ! i) (ring ! next_node ring i) h"

text \<open>Where a lookup is: at a peer, or answered with the id of the responsible peer.\<close>

datatype lookup_state = At nat | Answered u16

inductive hop :: "u16 list \<Rightarrow> u16 \<Rightarrow> lookup_state \<Rightarrow> lookup_state \<Rightarrow> bool" for ring h where
  answer: "node_hop ring h i = Some a \<Longrightarrow> hop ring h (At i) (Answered a)"
| pass: "node_hop ring h i = None \<Longrightarrow> hop ring h (At i) (At (next_node ring i))"

inductive_cases hop_AtE: "hop ring h (At i) s"
inductive_simps hop_Answered [simp]: "hop ring h (Answered a) s"

lemma hop_deterministic: "hop ring h s t \<Longrightarrow> hop ring h s u \<Longrightarrow> t = u"
  by (induction rule: hop.induct) (auto elim: hop_AtE)

definition ring_ids :: "u16 list \<Rightarrow> bool" where
  "ring_ids ring \<longleftrightarrow> sorted_wrt (<) ring \<and> 2 \<le> length ring"

text \<open>The owner of a hash id by consistent hashing: the first id at or after it, else the smallest.\<close>

definition owner :: "u16 list \<Rightarrow> u16 \<Rightarrow> u16" where
  "owner ring h = (case filter (\<lambda>x. h \<le> x) ring of [] \<Rightarrow> hd ring | x # _ \<Rightarrow> x)"

definition responsible_at :: "u16 list \<Rightarrow> u16 \<Rightarrow> nat \<Rightarrow> bool" where
  "responsible_at ring h i \<longleftrightarrow> peer_is_responsible (ring ! prev_node ring i) (ring ! i) h = 1"

lemma prev_node_simps:
  "ring_ids ring \<Longrightarrow> prev_node ring 0 = length ring - 1"
  "i < length ring \<Longrightarrow> 0 < i \<Longrightarrow> prev_node ring i = i - 1"
  by (auto simp: prev_node_def ring_ids_def mod_if)

lemma next_node_bound: "ring_ids ring \<Longrightarrow> next_node ring i < length ring"
  unfolding next_node_def ring_ids_def by (intro mod_less_divisor) linarith

lemma prev_next: "ring_ids ring \<Longrightarrow> i < length ring \<Longrightarrow> prev_node ring (next_node ring i) = i"
  by (cases "i + 1 = length ring") (auto simp: next_node_def prev_node_def ring_ids_def mod_if)

lemma ring_nth_less: "ring_ids ring \<Longrightarrow> i < j \<Longrightarrow> j < length ring \<Longrightarrow> ring ! i < ring ! j"
  by (simp add: ring_ids_def sorted_wrt_nth_less)

lemma ring_nth_le: "ring_ids ring \<Longrightarrow> i \<le> j \<Longrightarrow> j < length ring \<Longrightarrow> ring ! i \<le> ring ! j"
  using ring_nth_less [of ring i j] by (cases "i = j") auto

lemma responsible_0:
  assumes "ring_ids ring"
  shows "responsible_at ring h 0 \<longleftrightarrow> ring ! (length ring - 1) < h"
proof -
  have "ring ! 0 < ring ! (length ring - 1)" using assms by (intro ring_nth_less) (auto simp: ring_ids_def)
  then show ?thesis
    using assms by (auto simp: responsible_at_def peer_is_responsible_iff prev_node_simps)
qed

lemma responsible_pos:
  assumes "ring_ids ring" "0 < i" "i < length ring"
  shows "responsible_at ring h i \<longleftrightarrow> ring ! (i - 1) < h \<and> h \<le> ring ! i"
proof -
  have "ring ! (i - 1) < ring ! i" using assms by (intro ring_nth_less) auto
  then show ?thesis
    using assms by (auto simp: responsible_at_def peer_is_responsible_iff prev_node_simps)
qed

lemma responsible_owner:
  assumes "ring_ids ring" "i < length ring" "responsible_at ring h i"
  shows "ring ! i = owner ring h"
proof (cases "i = 0")
  case True
  then have "ring ! (length ring - 1) < h" using assms responsible_0 by simp
  moreover have "x \<le> ring ! (length ring - 1)" if x: "x \<in> set ring" for x
  proof -
    obtain k where "k < length ring" "x = ring ! k" using x by (auto simp: in_set_conv_nth)
    then show ?thesis using ring_nth_le [OF assms(1), of k "length ring - 1"] by simp
  qed
  ultimately have "filter (\<lambda>x. h \<le> x) ring = []" by (force simp: filter_empty_conv)
  then show ?thesis using True assms(2) by (auto simp: owner_def hd_conv_nth)
next
  case False
  then have i: "ring ! (i - 1) < h" "h \<le> ring ! i" using assms responsible_pos by auto
  have "\<not> h \<le> x" if "x \<in> set (take i ring)" for x
  proof -
    obtain k where k: "k < i" "x = ring ! k" using \<open>x \<in> set (take i ring)\<close> assms(2) by (auto simp: in_set_conv_nth)
    then have "ring ! k \<le> ring ! (i - 1)"
      using ring_nth_le [OF assms(1), of k "i - 1"] assms(2) by simp
    then show ?thesis using i(1) k(2) by auto
  qed
  then have "filter (\<lambda>x. h \<le> x) (take i ring) = []" by (auto simp: filter_empty_conv)
  moreover have "filter (\<lambda>x. h \<le> x) ring =
      filter (\<lambda>x. h \<le> x) (take i ring) @ filter (\<lambda>x. h \<le> x) (ring ! i # drop (Suc i) ring)"
    using arg_cong [OF id_take_nth_drop [OF assms(2)], of "filter (\<lambda>x. h \<le> x)"] unfolding filter_append .
  ultimately have "filter (\<lambda>x. h \<le> x) ring = ring ! i # filter (\<lambda>x. h \<le> x) (drop (Suc i) ring)"
    using i(2) by simp
  then show ?thesis by (simp add: owner_def)
qed

text \<open>Some peer is responsible for every hash id above the smallest id, and none for the others.\<close>

lemma responsible_exists:
  assumes "ring_ids ring"
  shows "(\<exists>i < length ring. responsible_at ring h i) \<longleftrightarrow> ring ! 0 < h"
proof
  assume "\<exists>i < length ring. responsible_at ring h i"
  then obtain i where i: "i < length ring" "responsible_at ring h i" by blast
  show "ring ! 0 < h"
  proof (cases "i = 0")
    case True
    then show ?thesis using i assms responsible_0 ring_nth_less [OF assms, of 0 "length ring - 1"]
      by (auto simp: ring_ids_def)
  next
    case False
    then have "ring ! (i - 1) < h" using i assms responsible_pos by auto
    moreover have "ring ! 0 \<le> ring ! (i - 1)" using ring_nth_le [OF assms, of 0 "i - 1"] i(1) by simp
    ultimately show ?thesis by simp
  qed
next
  assume h: "ring ! 0 < h"
  show "\<exists>i < length ring. responsible_at ring h i"
  proof (cases "ring ! (length ring - 1) < h")
    case True
    then show ?thesis using assms responsible_0 by (intro exI [of _ 0]) (auto simp: ring_ids_def)
  next
    case False
    define i where "i = (LEAST i. h \<le> ring ! i)"
    have le: "h \<le> ring ! (length ring - 1)" using False by simp
    then have i: "h \<le> ring ! i" "i \<le> length ring - 1" unfolding i_def by (rule LeastI, rule Least_le)
    have "i \<noteq> 0"
    proof
      assume "i = 0"
      with i(1) h show False by (metis leD)
    qed
    moreover have "\<not> h \<le> ring ! (i - 1)" using not_less_Least [of "i - 1" "\<lambda>i. h \<le> ring ! i"] \<open>i \<noteq> 0\<close> by (simp add: i_def)
    moreover have "i < length ring" using i(2) assms by (auto simp: ring_ids_def)
    ultimately show ?thesis using i(1) assms responsible_pos [of ring i h] by auto
  qed
qed

lemma node_hop_cases:
  assumes "ring_ids ring" "i < length ring"
  shows "node_hop ring h i = (if responsible_at ring h i then Some (ring ! i)
    else if responsible_at ring h (next_node ring i) then Some (ring ! next_node ring i) else None)"
  using assms peer_is_responsible_01 [of "ring ! prev_node ring i" "ring ! i" h]
    peer_is_responsible_01 [of "ring ! i" "ring ! next_node ring i" h]
  by (auto simp: node_hop_def lookup_hop_def responsible_at_def prev_next)

section \<open>Lookups that are answered\<close>

lemma lookup_distance:
  assumes "ring_ids ring" "i < length ring" "responsible_at ring h ((i + d) mod length ring)"
  shows "\<exists>k \<le> Suc d. (hop ring h ^^ k) (At i) (Answered (owner ring h))"
  using assms
proof (induction d arbitrary: i)
  case 0
  then have "node_hop ring h i = Some (owner ring h)" by (simp add: node_hop_cases responsible_owner)
  then show ?case by (intro exI [of _ 1]) (auto intro: hop.answer)
next
  case (Suc d)
  show ?case
  proof (cases "node_hop ring h i")
    case (Some a)
    then have "a = owner ring h"
      using Suc.prems(1,2) next_node_bound [OF Suc.prems(1)] by (auto simp: node_hop_cases responsible_owner split: if_splits)
    then show ?thesis using Some by (intro exI [of _ 1]) (auto intro: hop.answer)
  next
    case None
    have "(next_node ring i + d) mod length ring = (i + Suc d) mod length ring" by (simp add: next_node_def mod_simps)
    then obtain k where k: "k \<le> Suc d" "(hop ring h ^^ k) (At (next_node ring i)) (Answered (owner ring h))"
      using Suc.IH [of "next_node ring i"] Suc.prems next_node_bound by auto
    have "(hop ring h ^^ Suc k) (At i) (Answered (owner ring h))"
      using hop.pass [OF None] k(2) by (rule relpowp_Suc_I2)
    then show ?thesis using k(1) by (intro exI [of _ "Suc k"]) auto
  qed
qed

text \<open>
  C11: on a ring of at least two peers, a lookup for a hash id above the smallest peer id,
  wherever it starts, is answered after at most as many hops as there are peers, and the answer
  names the peer that consistent hashing makes the owner, the first peer at or after the hash
  id, or the first of all if there is none.
\<close>

theorem lookup_reaches_owner:
  assumes "ring_ids ring" "i < length ring" "ring ! 0 < h"
  shows "\<exists>k \<le> length ring. (hop ring h ^^ k) (At i) (Answered (owner ring h))"
proof -
  obtain j where j: "j < length ring" "responsible_at ring h j" using responsible_exists [OF assms(1)] assms(3) by blast
  define d where "d = (if i \<le> j then j - i else j + length ring - i)"
  have "(i + d) mod length ring = j" "d < length ring" using j(1) assms(2) by (auto simp: d_def)
  then obtain k where "k \<le> Suc d" "(hop ring h ^^ k) (At i) (Answered (owner ring h))"
    using lookup_distance [OF assms(1,2), of h d] j(2) by auto
  then show ?thesis using \<open>d < length ring\<close> by (intro exI [of _ k]) auto
qed

section \<open>Lookups that are not\<close>

text \<open>
  C12: a lookup for a hash id that is not above the smallest peer id is passed from peer to
  peer for ever: it always has a next hop, that hop is always to the next peer, and after any
  number of hops it is still unanswered, although consistent hashing assigns the hash id to
  the first peer.
\<close>

theorem lookup_circulates:
  assumes "ring_ids ring" "i < length ring" "h \<le> ring ! 0"
  shows "(\<forall>k s. (hop ring h ^^ k) (At i) s \<longleftrightarrow> s = At ((i + k) mod length ring)) \<and> owner ring h = ring ! 0"
proof (intro conjI allI)
  show "owner ring h = ring ! 0" using assms by (cases ring) (auto simp: owner_def ring_ids_def)
  have none: "node_hop ring h j = None" if "j < length ring" for j
    using responsible_exists [OF assms(1), of h] assms(1,3) that next_node_bound [OF assms(1), of j]
    by (auto simp: node_hop_cases)
  fix k s
  show "(hop ring h ^^ k) (At i) s \<longleftrightarrow> s = At ((i + k) mod length ring)"
  proof (induction k arbitrary: s)
    case 0
    then show ?case using assms(2) by auto
  next
    case (Suc k)
    have "hop ring h (At ((i + k) mod length ring)) t \<longleftrightarrow> t = At ((i + Suc k) mod length ring)" for t
    proof -
      have "(i + k) mod length ring < length ring" using assms(2) by (intro mod_less_divisor) linarith
      then have "hop ring h (At ((i + k) mod length ring)) t \<longleftrightarrow> t = At (next_node ring ((i + k) mod length ring))"
        using none hop.pass [of ring h] by (auto elim: hop_AtE)
      then show ?thesis by (simp add: next_node_def mod_simps)
    qed
    then show ?case by (simp add: relcompp.simps Suc.IH)
  qed
qed

section \<open>Witnesses\<close>

definition sample_ring :: "u16 list" where
  "sample_ring = [10, 74, 138, 202]"

lemma sample_ring_ok: "ring_ids sample_ring" "length sample_ring = 4" "sample_ring ! 0 = 10"
  by (simp_all add: sample_ring_def ring_ids_def)

theorem lookup_reaches_owner_witness:
  "\<exists>k \<le> 4. (hop sample_ring 111 ^^ k) (At 3) (Answered 138)"
proof -
  have "owner sample_ring 111 = 138" by (simp add: sample_ring_def owner_def)
  then show ?thesis using lookup_reaches_owner [OF sample_ring_ok(1), of 3 111] sample_ring_ok by simp
qed

theorem lookup_circulates_witness:
  "(hop sample_ring 5 ^^ 1000) (At 1) (At 1) \<and> \<not> (hop sample_ring 5 ^^ 1000) (At 1) (Answered 10)"
  using lookup_circulates [OF sample_ring_ok(1), of 1 5] sample_ring_ok by simp

end
