(* ===== verification/Client.thy ===== *)
theory Client
  imports Neighbour
begin

unbundle bit_operations_syntax

text \<open>
  The command line client, \<open>praxis2/src/client.c\<close>: \<open>read_stdin\<close>, \<open>connect_socket\<close> and the main
  program, and the address printer \<open>get_ip_str\<close> of \<open>praxis2/src/util.c\<close> it calls.

  Standard input is the list of the pieces \<open>fread\<close> will return, its end is the empty list;
  \<open>fwrites\<close> are the answers of the coming \<open>fwrite\<close> calls. The program returns its exit code,
  what it wrote to standard output and the sockets state.
\<close>

section \<open>Printing an address\<close>

definition AF_INET :: u16 where "AF_INET = 2"
definition AF_INET6 :: u16 where "AF_INET6 = 10"

definition cstr :: "string \<Rightarrow> byte list" where
  "cstr s = map of_char s @ [0]"

text \<open>
  \<open>inet_ntop(af, addr, s, maxlen)\<close> leaves the block alone when the text does not fit. The text
  of an IPv6 address is the parameter \<open>ntop6\<close>. The first component tells whether the function
  returned \<open>s\<close> rather than \<open>NULL\<close>.
\<close>

definition put_text :: "byte list \<Rightarrow> string \<Rightarrow> nat \<Rightarrow> byte list res" where
  "put_text s t maxlen = (if length t < maxlen then store_at s 0 (cstr t) else Inr s)"

definition get_ip_str :: "(sockaddr \<Rightarrow> string) \<Rightarrow> sockaddr \<Rightarrow> byte list \<Rightarrow> nat \<Rightarrow> (bool \<times> byte list) res" where
  "get_ip_str ntop6 sa s maxlen =
     (if sa_family sa = AF_INET then
        bind_res (put_text s (inet_ntop (s_addr sa)) maxlen) (\<lambda>s. Inr (True, s))
      else if sa_family sa = AF_INET6 then
        bind_res (put_text s (ntop6 sa) maxlen) (\<lambda>s. Inr (True, s))
      else
        bind_res (strncpy_bytes (cstr ''Unknown AF'') maxlen) (\<lambda>t.
        bind_res (store_at s 0 t) (\<lambda>s. Inr (False, s))))"

section \<open>Reading standard input\<close>

text \<open>\<open>fread(ptr, 1, len, stdin)\<close>: what does not fit stays for the next call.\<close>

fun fread :: "nat \<Rightarrow> byte list list \<Rightarrow> byte list \<times> byte list list" where
  "fread len [] = ([], [])"
| "fread len (c # cs) = (if length c \<le> len then (c, cs) else (take len c, drop len c # cs))"

definition in_weight :: "byte list list \<Rightarrow> nat" where
  "in_weight cs = length cs + length (concat cs)"

function read_stdin_loop ::
  "(nat \<Rightarrow> byte) \<Rightarrow> byte list \<Rightarrow> nat \<Rightarrow> byte list list \<Rightarrow> (byte list \<times> nat \<times> byte list list) res" where
  "read_stdin_loop junk buffer pos inp =
     (let buffer = (if length buffer - pos < 1 then grow junk buffer else buffer) in
      case fread (length buffer - pos) inp of (bs, inp') \<Rightarrow>
        if length bs < 1 then Inr (buffer, pos, inp')
        else case store_at buffer pos bs of
          Inl e \<Rightarrow> Inl e
        | Inr buffer \<Rightarrow> read_stdin_loop junk buffer (pos + length bs) inp')"
  by pat_completeness auto
termination
proof -
  have w: "in_weight inp' < in_weight inp" if "fread len inp = (bs, inp')" "bs \<noteq> []" for len inp bs inp'
    using that by (induction len inp rule: fread.induct) (auto simp: in_weight_def split: if_splits)
  show ?thesis
    by (relation "measure (\<lambda>(junk, buffer, pos, inp). in_weight inp)") (auto intro: w [OF sym])
qed

declare read_stdin_loop.simps [simp del]

definition read_stdin :: "(nat \<Rightarrow> byte) \<Rightarrow> byte list list \<Rightarrow> (byte list \<times> nat \<times> byte list list) res" where
  "read_stdin junk inp = read_stdin_loop junk (malloc junk 1024) 0 inp"

section \<open>Connecting\<close>

text \<open>The loop stops at the first result that can be connected to; the socket of a failed one is closed.\<close>

fun try_connect :: "addrinfo list \<Rightarrow> int \<Rightarrow> 'w net_scheme \<Rightarrow> (bool \<times> int \<times> 'w net_scheme) res" where
  "try_connect [] sock w = Inr (False, sock, w)"
| "try_connect (p # ps) sock w =
     bind_res (sys_socket w) (\<lambda>(sock, w).
     if sock < 0 then try_connect ps sock w
     else bind_res (sys_connect sock (ai_addr p) w) (\<lambda>(status, w).
       if status < 0 then try_connect ps sock (sys_close sock w)
       else Inr (True, sock, w)))"

definition connect_socket :: "string \<Rightarrow> string \<Rightarrow> 'w net_scheme \<Rightarrow> (int \<times> 'w net_scheme) res" where
  "connect_socket host prt w = (case gai w host prt of
     None \<Rightarrow> Inr (-1, w)
   | Some res \<Rightarrow>
       bind_res (try_connect res (-1) w) (\<lambda>(connected, sock, w).
       Inr (if \<not> connected then -1 else sock, w)))"

section \<open>The main program\<close>

text \<open>
  The request packet of a method. \<open>strdup\<close> copies the argument with its NUL; \<open>strlen(key)\<close> is
  stored in 16 bits and the length of the data in 32.
\<close>

definition request_packet :: "byte \<Rightarrow> string \<Rightarrow> packet" where
  "request_packet fl key = packet_new\<lparr>pkey := Some (cstr key), key_len := of_nat (length key), flags := fl\<rparr>"

definition send_request :: "(nat \<Rightarrow> byte) \<Rightarrow> int \<Rightarrow> packet \<Rightarrow> 'w net_scheme \<Rightarrow> 'w net_scheme res" where
  "send_request junk s p w =
     bind_res (packet_serialize junk p) (\<lambda>raw_pkt.
     bind_res (sendall s raw_pkt (length raw_pkt) w) (\<lambda>(_, w). Inr w))"

text \<open>The loop that prints the value: an answer of \<open>fwrite\<close> below 1 is a failure.\<close>

function fwrite_loop :: "ptr \<Rightarrow> nat \<Rightarrow> nat \<Rightarrow> nat list \<Rightarrow> byte list \<Rightarrow> (bool \<times> byte list) res" where
  "fwrite_loop val vlen written fwrites out =
     (if written < vlen then
        case fwrites of
          [] \<Rightarrow> Inl Blocked
        | r # rs \<Rightarrow>
            (case read_ptr val vlen of
               Inl e \<Rightarrow> Inl e
             | Inr b \<Rightarrow>
                 let n = min r (vlen - written) in
                 if n < 1 then Inr (False, out)
                 else fwrite_loop val vlen (written + n) rs (out @ take n (drop written b)))
      else Inr (True, out))"
  by pat_completeness auto
termination by (relation "measure (\<lambda>(v, l, wr, rs, out). length rs)") auto

declare fwrite_loop.simps [simp del]

text \<open>What is done with the answer; \<open>print\<close> tells whether the method was GET.\<close>

definition handle_response ::
  "(nat \<Rightarrow> byte) \<Rightarrow> bool \<Rightarrow> int \<Rightarrow> nat list \<Rightarrow> 'w net_scheme \<Rightarrow> (int \<times> byte list \<times> 'w net_scheme) res" where
  "handle_response junk print s fwrites w =
     bind_res (recvall junk s w) (\<lambda>(response, response_len, w).
     bind_res (packet_decode response response_len) (\<lambda>rsp.
     case rsp of None \<Rightarrow> Inr (-1, [], w)
     | Some rsp \<Rightarrow>
         if \<not> has_flag (flags rsp) PKT_FLAG_ACK then Inr (-1, [], w)
         else if print then
           bind_res (fwrite_loop (pvalue rsp) (unat (value_len rsp)) 0 fwrites []) (\<lambda>(ok, out).
           Inr (if ok then 0 else -1, out, w))
         else Inr (0, [], w)))"

definition client_main ::
  "(nat \<Rightarrow> byte) \<Rightarrow> string list \<Rightarrow> byte list list \<Rightarrow> nat list \<Rightarrow> 'w net_scheme
     \<Rightarrow> (int \<times> byte list \<times> 'w net_scheme) res" where
  "client_main junk argv inp fwrites w =
     (if length argv < 5 then Inr (-1, [], w)
      else
        let host = argv ! 1; prt = argv ! 2; meth = argv ! 3; key = argv ! 4 in
        bind_res (connect_socket host prt w) (\<lambda>(s, w).
        if s < 0 then Inr (-1, [], w)
        else if meth = ''SET'' then
          bind_res (read_stdin junk inp) (\<lambda>(data, data_len, inp).
          bind_res (send_request junk s
            ((request_packet PKT_FLAG_SET key)\<lparr>pvalue := Some data, value_len := of_nat data_len\<rparr>) w)
            (handle_response junk False s fwrites))
        else if meth = ''GET'' then
          bind_res (send_request junk s (request_packet PKT_FLAG_GET key) w)
            (handle_response junk True s fwrites)
        else if meth = ''DELETE'' then
          bind_res (send_request junk s (request_packet PKT_FLAG_DEL key) w)
            (handle_response junk False s fwrites)
        else Inr (-1, [], w)))"

section \<open>Standard input\<close>

lemma fread_cut:
  assumes "c \<noteq> []" "0 < len"
  shows "\<exists>m cs2. fread len (c # cs) = (take m c, cs2) \<and> take m c \<noteq> [] \<and> m \<le> len \<and> concat (c # cs) = take m c @ concat cs2 \<and>
     ((\<forall>x \<in> set cs. x \<noteq> []) \<longrightarrow> (\<forall>x \<in> set cs2. x \<noteq> []))"
proof (cases "length c \<le> len")
  case True
  then show ?thesis using assms by (intro exI [of _ "length c"]) auto
next
  case False
  then show ?thesis using assms by (intro exI [of _ len]) auto
qed

lemma read_stdin_loop_all:
  assumes "\<forall>c \<in> set cs. c \<noteq> []" "p \<le> length buf" "0 < length buf"
  shows "\<exists>buf'. read_stdin_loop junk buf p cs = Inr (buf', p + length (concat cs), []) \<and>
     take (p + length (concat cs)) buf' = take p buf @ concat cs \<and> p + length (concat cs) \<le> length buf'"
  using assms
proof (induction "in_weight cs" arbitrary: cs p buf rule: less_induct)
  case less
  define buf1 where "buf1 = (if length buf \<le> p then grow junk buf else buf)"
  have b1: "take p buf1 = take p buf" "p < length buf1" using less.prems(2,3) by (auto simp: buf1_def grow_def)
  show ?case
  proof (cases cs)
    case Nil
    then show ?thesis using b1 by (subst read_stdin_loop.simps) (simp add: Let_def flip: buf1_def)
  next
    case (Cons c cs1)
    obtain m cs2 where f: "fread (length buf1 - p) cs = (take m c, cs2)" "take m c \<noteq> []" "m \<le> length buf1 - p"
      "concat cs = take m c @ concat cs2" "\<forall>x \<in> set cs2. x \<noteq> []"
      using fread_cut [of c "length buf1 - p" cs1] b1(2) less.prems(1) Cons by auto
    define t where "t = take m c"
    have t: "t \<noteq> []" "p + length t \<le> length buf1" using f(2,3) b1(2) by (auto simp: t_def)
    define buf2 where "buf2 = take p buf1 @ t @ drop (p + length t) buf1"
    have "store_at buf1 p t = Inr buf2" using t(2) by (simp add: store_at_def buf2_def)
    then have eq: "read_stdin_loop junk buf p cs = read_stdin_loop junk buf2 (p + length t) cs2"
      using f(1) t(1) by (subst read_stdin_loop.simps) (simp add: Let_def flip: buf1_def t_def)
    have "in_weight cs2 < in_weight cs"
      using f(1,4) t(1) Cons by (auto simp: in_weight_def t_def split: if_splits)
    moreover have "p + length t \<le> length buf2" "0 < length buf2" using t by (auto simp: buf2_def)
    ultimately obtain buf' where
      "read_stdin_loop junk buf2 (p + length t) cs2 = Inr (buf', p + length t + length (concat cs2), [])"
      "take (p + length t + length (concat cs2)) buf' = take (p + length t) buf2 @ concat cs2"
      "p + length t + length (concat cs2) \<le> length buf'"
      using less.hyps f(5) by blast
    moreover have "take (p + length t) buf2 = take p buf @ t" using b1 t less.prems(2) by (simp add: buf2_def)
    moreover have "concat cs = t @ concat cs2" using f(4) by (simp add: t_def)
    ultimately show ?thesis using eq by (simp add: add.assoc)
  qed
qed

text \<open>
  \<open>read_stdin\<close> returns the whole input in order, however \<open>fread\<close> cuts it and however long
  it is, and never writes outside its growing buffer.
\<close>

theorem read_stdin_all:
  assumes "\<forall>c \<in> set inp. c \<noteq> []"
  shows "\<exists>buf. read_stdin junk inp = Inr (buf, length (concat inp), []) \<and>
     take (length (concat inp)) buf = concat inp \<and> length (concat inp) \<le> length buf"
  using read_stdin_loop_all [OF assms, of 0 "malloc junk 1024" junk] by (simp add: read_stdin_def)

section \<open>Printing\<close>

lemma fwrite_loop_all:
  assumes "\<forall>r \<in> set rs. 1 \<le> r" "length b - k \<le> length rs" "k \<le> length b"
  shows "fwrite_loop (Some b) (length b) k rs out = Inr (True, out @ drop k b)"
  using assms
proof (induction rs arbitrary: k out)
  case Nil
  then show ?case by (subst fwrite_loop.simps) simp
next
  case (Cons r rs)
  show ?case
  proof (cases "k < length b")
    case True
    let ?n = "min r (length b - k)"
    have n: "1 \<le> ?n" using Cons.prems(1) True by auto
    have "fwrite_loop (Some b) (length b) (k + ?n) rs (out @ take ?n (drop k b)) =
        Inr (True, (out @ take ?n (drop k b)) @ drop (k + ?n) b)"
      using Cons.prems n by (intro Cons.IH) auto
    moreover have "take ?n (drop k b) @ drop (k + ?n) b = drop k b"
      by (metis add.commute append_take_drop_id drop_drop)
    ultimately show ?thesis using True n by (subst fwrite_loop.simps) (simp add: Let_def)
  next
    case False
    then show ?thesis using Cons.prems(3) by (subst fwrite_loop.simps) simp
  qed
qed

section \<open>Requests on the wire\<close>

text \<open>Serialization looks at the announced part of a block only.\<close>

lemma read_ptr_take: "read_ptr (map_option (take n) q) n = read_ptr q n"
  by (cases q) (auto simp: read_ptr_def)

lemma packet_serialize_cut:
  "packet_serialize junk (p\<lparr>pkey := map_option (take (unat (key_len p))) (pkey p),
      pvalue := map_option (take (unat (value_len p))) (pvalue p)\<rparr>) = packet_serialize junk p"
  by (simp add: packet_serialize_def packet_serialize_ctrl_def packet_serialize_data_def read_ptr_take Let_def cong: if_cong)

definition request_wire :: "byte \<Rightarrow> byte list \<Rightarrow> byte list \<Rightarrow> byte list" where
  "request_wire fl key data = fl # be16 (of_nat (length key)) @ be32 (of_nat (length data)) @
     take (length key mod 2 ^ 16) key @ take (length data mod 2 ^ 32) data"

lemma unat_of_nat_mod: "unat (of_nat n :: 'a::len word) = n mod 2 ^ LENGTH('a)"
  by (simp add: unat_of_nat)

lemma serialize_request:
  assumes "\<not> has_flag fl PKT_FLAG_CTRL" "n \<le> length buf"
  shows "packet_serialize junk ((request_packet fl key)\<lparr>pvalue := Some buf, value_len := of_nat n\<rparr>) =
     Inr (request_wire fl (map of_char key) (take n buf))"
proof -
  let ?p = "(request_packet fl key)\<lparr>pvalue := Some buf, value_len := of_nat n\<rparr>"
  let ?k = "take (length key mod 2 ^ 16) (cstr key)" and ?v = "take (n mod 2 ^ 32) buf"
  let ?q = "?p\<lparr>pkey := Some ?k, pvalue := Some ?v\<rparr>"
  have "n mod 2 ^ 32 \<le> n" "length key mod 2 ^ 16 \<le> length key" by simp_all
  moreover have "unat (of_nat (length key) :: u16) = length key mod 2 ^ 16" "unat (of_nat n :: u32) = n mod 2 ^ 32"
    by (simp_all add: unat_of_nat_mod)
  ultimately have wf: "wf_packet ?q" and cut: "packet_serialize junk ?q = packet_serialize junk ?p"
    using assms(2) packet_serialize_cut [of junk ?p]
    by (auto simp: wf_packet_def ptr_bytes_def request_packet_def packet_new_def cstr_def min_def)
  have "?k = take (length key mod 2 ^ 16) (map of_char key)" by (simp add: cstr_def)
  then have "wire ?q = request_wire fl (map of_char key) (take n buf)"
    using assms by (simp add: wire_def data_wire_def request_wire_def request_packet_def packet_new_def ptr_bytes_def min_def)
  then show ?thesis using packet_serialize_wire [OF disjI2 [OF wf], of junk] cut by simp
qed

lemma serialize_plain_request:
  assumes "\<not> has_flag fl PKT_FLAG_CTRL"
  shows "packet_serialize junk (request_packet fl key) = Inr (request_wire fl (map of_char key) [])"
proof -
  have "packet_serialize junk ((request_packet fl key)\<lparr>pvalue := Some [], value_len := of_nat 0\<rparr>) =
      packet_serialize junk (request_packet fl key)"
    by (simp add: packet_serialize_def packet_serialize_ctrl_def packet_serialize_data_def request_packet_def packet_new_def Let_def cong: if_cong)
  then show ?thesis using serialize_request [OF assms, of 0 "[]" junk key] by simp
qed

section \<open>One run of the client\<close>

text \<open>The results before the first reachable one each cost a socket, which is closed again.\<close>

lemma try_connect_first:
  assumes "length ss = length bad" "\<forall>s \<in> set ss. 0 \<le> s" "0 \<le> s" "socket_res w = ss @ s # ss'"
    "connect_res w = replicate (length bad) (-1) @ 0 # cr"
  shows "try_connect (bad @ ai # ais) k w = Inr (True, s, w\<lparr>socket_res := ss', connect_res := cr,
     trace := trace w @ map EvClose ss @ [EvConnect s (ai_addr ai)]\<rparr>)"
  using assms
proof (induction ss bad arbitrary: w k rule: list_induct2)
  case Nil
  then show ?case by (simp add: sys_socket_def sys_connect_def log_event_def)
next
  case (Cons x xs b bs)
  let ?w = "w\<lparr>socket_res := xs @ s # ss', connect_res := replicate (length bs) (-1) @ 0 # cr, trace := trace w @ [EvClose x]\<rparr>"
  have "try_connect ((b # bs) @ ai # ais) k w = try_connect (bs @ ai # ais) x ?w"
    using Cons.prems by (simp add: sys_socket_def sys_connect_def sys_close_def log_event_def)
  also have "\<dots> = Inr (True, s, ?w\<lparr>socket_res := ss', connect_res := cr,
     trace := trace ?w @ map EvClose xs @ [EvConnect s (ai_addr ai)]\<rparr>)"
    using Cons.prems by (intro Cons.IH) auto
  finally show ?case by simp
qed

lemma packet_decode_padded:
  assumes "\<not> has_flag (flags a) PKT_FLAG_CTRL" "wf_packet a" "fits_u32 a" "take (length (wire a)) buf = wire a"
  shows "packet_decode buf (length (wire a)) = Inr (Some (packet_view a))"
proof -
  let ?k = "ptr_bytes (pkey a)" and ?v = "ptr_bytes (pvalue a)"
  obtain rest where "buf = wire a @ rest" using assms(4) by (metis append_take_drop_id)
  then have b: "buf = flags a # be16 (key_len a) @ be32 (value_len a) @ ?k @ ?v @ rest"
    using assms(1) by (simp add: wire_def data_wire_def)
  have n: "length (wire a) = 7 + length ?k + length ?v" using assms(1) by (simp add: wire_def data_wire_def)
  have "packet_decode_body (data_hdr (flags a) (key_len a) (value_len a)) (?k @ ?v @ rest) (length (wire a)) =
      Inr (Some ((data_hdr (flags a) (key_len a) (value_len a))\<lparr>pkey := clean_ptr ?k, pvalue := clean_ptr ?v\<rparr>))"
    using assms n by (intro packet_decode_body_data) (simp_all add: wf_packet_def fits_u32_def)
  moreover have "packet_decode_hdr buf (length (wire a)) = Inr (Some (data_hdr (flags a) (key_len a) (value_len a)))"
    unfolding b by (rule packet_decode_hdr_data) (use assms(1) n in simp_all)
  moreover have "drop PKT_HEADER_LEN buf = ?k @ ?v @ rest" unfolding b PKT_HEADER_LEN_def by (rule drop_7_data)
  ultimately show ?thesis using assms(1) by (simp add: packet_decode_def packet_view_def)
qed

definition answer_packet :: "packet \<Rightarrow> bool" where
  "answer_packet a \<longleftrightarrow> \<not> has_flag (flags a) PKT_FLAG_CTRL \<and> wf_packet a \<and> fits_u32 a"

lemma response_handled:
  assumes a: "answer_packet a" and cs: "\<forall>c \<in> set cs. c \<noteq> []" "concat cs = wire a" "inq w s = map RData cs @ RData [] # q"
    and fw: "print \<longrightarrow> (\<forall>r \<in> set fwrites. 1 \<le> r) \<and> length (ptr_bytes (pvalue a)) \<le> length fwrites"
  shows "handle_response junk print s fwrites w =
     Inr (if has_flag (flags a) PKT_FLAG_ACK then 0 else -1,
          if has_flag (flags a) PKT_FLAG_ACK \<and> print then ptr_bytes (pvalue a) else [],
          sys_close s (w\<lparr>inq := (inq w)(s := q)\<rparr>))"
proof -
  let ?v = "ptr_bytes (pvalue a)"
  have a': "\<not> has_flag (flags a) PKT_FLAG_CTRL" "wf_packet a" "fits_u32 a" using a by (simp_all add: answer_packet_def)
  have "length (wire a) < 2 ^ 64"
    using a' by (simp add: wire_def data_wire_def wf_packet_def fits_u32_def)
  then have "length (concat cs) < 2 ^ 64" using cs(2) by simp
  from recvall_chunks [OF cs(1,3) this, of junk] obtain buf where
    r: "recvall junk s w = Inr (buf, length (wire a), sys_close s (w\<lparr>inq := (inq w)(s := q)\<rparr>))"
       "take (length (wire a)) buf = wire a" by (auto simp: cs(2))
  have d: "packet_decode buf (length (wire a)) = Inr (Some (packet_view a))"
    using packet_decode_padded [OF a' r(2)] .
  have v: "flags (packet_view a) = flags a" "pvalue (packet_view a) = clean_ptr ?v" "unat (value_len (packet_view a)) = length ?v"
    using a' by (simp_all add: packet_view_def data_hdr_def packet_new_def wf_packet_def)
  have "fwrite_loop (clean_ptr ?v) (length ?v) 0 fwrites [] = Inr (True, ?v)" if "print"
  proof (cases "?v = []")
    case True
    then show ?thesis by (subst fwrite_loop.simps) simp
  next
    case False
    then show ?thesis using fwrite_loop_all [of fwrites ?v 0 "[]"] fw that by (simp add: clean_ptr_def)
  qed
  then show ?thesis using r(1) d v by (auto simp: handle_response_def)
qed

text \<open>The request a method stands for.\<close>

definition method_flag :: "string \<Rightarrow> byte option" where
  "method_flag m = (if m = ''SET'' then Some PKT_FLAG_SET else if m = ''GET'' then Some PKT_FLAG_GET
     else if m = ''DELETE'' then Some PKT_FLAG_DEL else None)"

lemma send_request_sends:
  assumes "packet_serialize junk p = Inr b" "send_ready (length b) w"
  shows "\<exists>rs evs. send_request junk s p w = Inr (w\<lparr>send_res := rs, trace := trace w @ evs\<rparr>) \<and>
     set evs \<subseteq> range (EvSend s) \<and> sent_to s evs = b"
proof -
  obtain rs evs where "sendall s b (length b) w = Inr (0, w\<lparr>send_res := rs, trace := trace w @ evs\<rparr>)"
    "set evs \<subseteq> range (EvSend s)" "sent_to s evs = b"
    using sendall_ready [of "length b" 0 w b s] assms(2) by auto
  then show ?thesis using assms(1) by (auto simp: send_request_def)
qed

lemma client_exchange:
  assumes "packet_serialize junk p = Inr b" "send_ready (length b) w"
    "answer_packet a" "\<forall>c \<in> set cs. c \<noteq> []" "concat cs = wire a" "inq w s = map RData cs @ RData [] # q"
    "print \<longrightarrow> (\<forall>r \<in> set fwrites. 1 \<le> r) \<and> length (ptr_bytes (pvalue a)) \<le> length fwrites"
  shows "\<exists>w' evs. bind_res (send_request junk s p w) (handle_response junk print s fwrites) =
     Inr (if has_flag (flags a) PKT_FLAG_ACK then 0 else -1,
          if has_flag (flags a) PKT_FLAG_ACK \<and> print then ptr_bytes (pvalue a) else [], w') \<and>
     trace w' = trace w @ evs @ [EvClose s] \<and> sent_to s evs = b"
proof -
  obtain rs evs where e: "send_request junk s p w = Inr (w\<lparr>send_res := rs, trace := trace w @ evs\<rparr>)" "sent_to s evs = b"
    using send_request_sends [OF assms(1,2)] by blast
  let ?w = "w\<lparr>send_res := rs, trace := trace w @ evs\<rparr>"
  have "inq ?w s = map RData cs @ RData [] # q" using assms(6) by simp
  from response_handled [OF assms(3-5) this assms(7), of junk] show ?thesis
    using e by (auto simp: sys_close_def log_event_def)
qed

lemma client_runs:
  assumes "gai w host prt = Some (bad @ ai # ais)" "length ss = length bad" "\<forall>s \<in> set ss. 0 \<le> s" "0 \<le> s"
    "socket_res w = ss @ s # ss'" "connect_res w = replicate (length bad) (-1) @ 0 # cr"
    "method_flag meth = Some fl" "\<forall>c \<in> set inp. c \<noteq> []" "data = (if meth = ''SET'' then concat inp else [])"
    "req = request_wire fl (map of_char key) data" "send_ready (length req) w"
    "answer_packet a" "\<forall>c \<in> set cs. c \<noteq> []" "concat cs = wire a" "inq w s = map RData cs @ RData [] # q"
    "\<forall>r \<in> set fwrites. 1 \<le> r" "length (ptr_bytes (pvalue a)) \<le> length fwrites"
  shows "\<exists>w' evs. client_main junk [prog, host, prt, meth, key] inp fwrites w =
       Inr (if has_flag (flags a) PKT_FLAG_ACK then 0 else -1,
            if has_flag (flags a) PKT_FLAG_ACK \<and> meth = ''GET'' then ptr_bytes (pvalue a) else [], w') \<and>
     trace w' = trace w @ map EvClose ss @ EvConnect s (ai_addr ai) # evs @ [EvClose s] \<and> sent_to s evs = req"
proof -
  define w1 where "w1 = w\<lparr>socket_res := ss', connect_res := cr, trace := trace w @ map EvClose ss @ [EvConnect s (ai_addr ai)]\<rparr>"
  have c: "connect_socket host prt w = Inr (s, w1)"
    using try_connect_first [OF assms(2-6)] assms(1) by (simp add: connect_socket_def w1_def)
  have w1: "send_ready (length req) w1" "inq w1 s = map RData cs @ RData [] # q"
    using assms(11,15) by (simp_all add: w1_def send_ready_def)
  have fl: "\<not> has_flag fl PKT_FLAG_CTRL"
    using assms(7) by (auto simp: method_flag_def has_flag_def flag_defs split: if_splits)
  have fw: "print \<longrightarrow> (\<forall>r \<in> set fwrites. 1 \<le> r) \<and> length (ptr_bytes (pvalue a)) \<le> length fwrites" for print
    using assms(16,17) by blast
  have ex: "\<exists>w' evs. bind_res (send_request junk s p w1) (handle_response junk print s fwrites) =
     Inr (if has_flag (flags a) PKT_FLAG_ACK then 0 else -1,
          if has_flag (flags a) PKT_FLAG_ACK \<and> print then ptr_bytes (pvalue a) else [], w') \<and>
     trace w' = trace w @ map EvClose ss @ EvConnect s (ai_addr ai) # evs @ [EvClose s] \<and> sent_to s evs = req"
    if "packet_serialize junk p = Inr req" for p print
    using client_exchange [OF that w1(1) assms(12-14) w1(2) fw, of print] by (simp add: w1_def)
  consider "meth = ''SET''" "fl = PKT_FLAG_SET" | "meth = ''GET''" "fl = PKT_FLAG_GET" | "meth = ''DELETE''" "fl = PKT_FLAG_DEL"
    using assms(7) by (auto simp: method_flag_def split: if_splits)
  then show ?thesis
  proof cases
    case 1
    obtain buf where b: "read_stdin junk inp = Inr (buf, length (concat inp), [])" "take (length (concat inp)) buf = concat inp"
      "length (concat inp) \<le> length buf"
      using read_stdin_loop_all [OF assms(8), of 0 "malloc junk 1024" junk] by (auto simp: read_stdin_def)
    have "packet_serialize junk ((request_packet fl key)\<lparr>pvalue := Some buf, value_len := of_nat (length (concat inp))\<rparr>) = Inr req"
      using serialize_request [OF fl b(3), of junk key] b(2) assms(9,10) 1 by simp
    from ex [OF this, of False] show ?thesis using c b(1) assms(4) 1 by (auto simp: client_main_def simp del: length_concat)
  next
    case 2
    have "packet_serialize junk (request_packet fl key) = Inr req"
      using serialize_plain_request [OF fl, of junk key] assms(9,10) 2 by simp
    from ex [OF this, of True] show ?thesis using c assms(4) 2 by (auto simp: client_main_def)
  next
    case 3
    have "packet_serialize junk (request_packet fl key) = Inr req"
      using serialize_plain_request [OF fl, of junk key] assms(9,10) 3 by simp
    from ex [OF this, of False] show ?thesis using c assms(4) 3 by (auto simp: client_main_def)
  qed
qed

text \<open>
  C32: a run of the client with a known method against a server that answers with a data
  packet: it connects to the first reachable result of the lookup, closing the sockets of the
  earlier ones; sends exactly the request packet, the flag of the method, the key cut to its
  length modulo 2^16 and, for SET, the data of standard input cut to its length modulo 2^32;
  reads the answer until the server closes; and exits with 0 exactly if the answer carries the
  ACK flag, printing the answer's value for GET and nothing otherwise.
\<close>

theorem client_run:
  assumes "gai w host prt = Some (bad @ ai # ais)" "length ss = length bad" "\<forall>s \<in> set ss. 0 \<le> s" "0 \<le> s"
    "socket_res w = ss @ s # ss'" "connect_res w = replicate (length bad) (-1) @ 0 # cr"
    "method_flag meth = Some fl" "\<forall>c \<in> set inp. c \<noteq> []" "data = (if meth = ''SET'' then concat inp else [])"
    "req = request_wire fl (map of_char key) data" "send_ready (length req) w"
    "answer_packet a" "\<forall>c \<in> set cs. c \<noteq> []" "concat cs = wire a" "inq w s = map RData cs @ RData [] # q"
    "\<forall>r \<in> set fwrites. 1 \<le> r" "length (ptr_bytes (pvalue a)) \<le> length fwrites"
  shows "\<exists>w' evs. client_main junk [prog, host, prt, meth, key] inp fwrites w =
       Inr (if has_flag (flags a) PKT_FLAG_ACK then 0 else -1,
            if has_flag (flags a) PKT_FLAG_ACK \<and> meth = ''GET'' then ptr_bytes (pvalue a) else [], w') \<and>
     trace w' = trace w @ map EvClose ss @ EvConnect s (ai_addr ai) # evs @ [EvClose s] \<and> sent_to s evs = req"
  using client_runs [OF assms] by blast

text \<open>
  C33: the client's failures: with fewer than four arguments it exits with -1 before any system
  call; a host that does not resolve, or whose every address refuses the connection, gives -1
  with all sockets closed again; an unknown method gives -1 without a byte sent, but only
  after connecting, and the connection is left open.
\<close>

theorem client_failures:
  assumes "length few < 5" "gai w host prt = None" "gai w host2 prt = Some bad" "length ss = length bad"
    "\<forall>s \<in> set ss. 0 \<le> s" "socket_res w = ss @ ss'" "connect_res w = replicate (length bad) (-1) @ cr"
    "gai w host3 prt = Some (ai # ais)" "socket_res w3 = s # ss3" "0 \<le> s" "connect_res w3 = 0 # cr3" "gai w3 = gai w"
    "method_flag meth = None"
  shows "client_main junk few inp fwrites w = Inr (-1, [], w) \<and>
     client_main junk [prog, host, prt, meth1, key] inp fwrites w = Inr (-1, [], w) \<and>
     (\<exists>w'. client_main junk [prog, host2, prt, meth1, key] inp fwrites w = Inr (-1, [], w') \<and> trace w' = trace w @ map EvClose ss) \<and>
     (\<exists>w'. client_main junk [prog, host3, prt, meth, key] inp fwrites w3 = Inr (-1, [], w') \<and>
        trace w' = trace w3 @ [EvConnect s (ai_addr ai)])"
proof (intro conjI)
  show "client_main junk few inp fwrites w = Inr (-1, [], w)" using assms(1) by (simp add: client_main_def)
  show "client_main junk [prog, host, prt, meth1, key] inp fwrites w = Inr (-1, [], w)"
    using assms(2) by (simp add: client_main_def connect_socket_def)
  have "\<exists>s w'. try_connect bad k w = Inr (False, s, w') \<and> trace w' = trace w @ map EvClose ss" for k :: int
    using assms(4-7)
  proof (induction ss bad arbitrary: w k rule: list_induct2)
    case (Cons x xs b bs)
    let ?w = "w\<lparr>socket_res := xs @ ss', connect_res := replicate (length bs) (-1) @ cr, trace := trace w @ [EvClose x]\<rparr>"
    have "try_connect (b # bs) k w = try_connect bs x ?w"
      using Cons.prems by (simp add: sys_socket_def sys_connect_def sys_close_def log_event_def)
    with Cons.IH [of ?w x] Cons.prems show ?case by simp
  qed simp
  from this [of "-1"] obtain s' w' where "try_connect bad (-1) w = Inr (False, s', w')" "trace w' = trace w @ map EvClose ss"
    by blast
  then show "\<exists>w'. client_main junk [prog, host2, prt, meth1, key] inp fwrites w = Inr (-1, [], w') \<and> trace w' = trace w @ map EvClose ss"
    using assms(3) by (simp add: client_main_def connect_socket_def)
  have "connect_socket host3 prt w3 = Inr (s, w3\<lparr>socket_res := ss3, connect_res := cr3, trace := trace w3 @ [EvConnect s (ai_addr ai)]\<rparr>)"
    using assms(8-12) by (simp add: connect_socket_def sys_socket_def sys_connect_def log_event_def)
  then show "\<exists>w'. client_main junk [prog, host3, prt, meth, key] inp fwrites w3 = Inr (-1, [], w') \<and>
        trace w' = trace w3 @ [EvConnect s (ai_addr ai)]"
    using assms(10,13) by (simp add: client_main_def method_flag_def split: if_splits)
qed

section \<open>The address printer\<close>

text \<open>The block the callers pass, \<open>INET6_ADDRSTRLEN\<close> bytes, holds every IPv4 address with its NUL.\<close>

lemma get_ip_str_v4:
  assumes "sa_family sa = AF_INET" "length s = 46"
  shows "\<exists>rest. get_ip_str ntop6 sa s 46 = Inr (True, cstr (inet_ntop (s_addr sa)) @ rest)"
proof -
  have "length (inet_ntop (s_addr sa)) < 16" by (rule length_inet_ntop)
  then show ?thesis using assms by (simp add: get_ip_str_def put_text_def store_at_def cstr_def)
qed

lemma get_ip_str_unknown:
  assumes "sa_family sa \<noteq> AF_INET" "sa_family sa \<noteq> AF_INET6" "length s = 46"
  shows "get_ip_str ntop6 sa s 46 = Inr (False, map of_char ''Unknown AF'' @ replicate 36 0)"
proof -
  have "strncpy_bytes (cstr ''Unknown AF'') 46 = Inr (map of_char ''Unknown AF'' @ replicate 36 0)" by code_simp
  then show ?thesis using assms by (simp add: get_ip_str_def store_at_def)
qed

section \<open>Witnesses\<close>

theorem read_stdin_all_witness:
  "\<exists>buf. read_stdin (\<lambda>_. 0) [[1], [2, 3]] = Inr (buf, 3, []) \<and> take 3 buf = [1, 2, 3]"
  using read_stdin_all [of "[[1], [2, 3]]" "\<lambda>_. 0"] by (auto simp: numeral_3_eq_3)

definition client_net :: net where
  "client_net = \<lparr>gai = (\<lambda>h _. if h = ''nowhere'' then None else Some [sample_ai 1, sample_ai 2]), socket_res = [3, 4],
     connect_res = [-1, 0], send_res = replicate 16 5,
     inq = (\<lambda>_. [])(4 := [RData [12, 0, 1, 0], RData [0, 0, 2, 107, 104, 105], RData []]), trace = []\<rparr>"

theorem client_run_witness:
  "\<exists>w' evs. client_main (\<lambda>_. 0) [''client'', ''peer'', ''4711'', ''GET'', ''k''] [] [1, 1] client_net = Inr (0, [104, 105], w') \<and>
     trace w' = [EvClose 3, EvConnect 4 (ai_addr (sample_ai 2))] @ evs @ [EvClose 4] \<and> sent_to 4 evs = [4, 0, 1, 0, 0, 0, 0, 107]"
proof -
  let ?a = "packet_new\<lparr>flags := 12, key_len := 1, value_len := 2, pkey := Some [107], pvalue := Some [104, 105]\<rparr>"
  have a: "answer_packet ?a" "ptr_bytes (pvalue ?a) = [104, 105]" "has_flag (flags ?a) PKT_FLAG_ACK"
    by (simp_all add: answer_packet_def has_flag_def flag_defs wf_packet_def fits_u32_def packet_new_def ptr_bytes_def)
  have wa: "concat [[12, 0, 1, 0], [0, 0, 2, 107, 104, 105]] = wire ?a" by code_simp
  have m: "method_flag ''GET'' = Some PKT_FLAG_GET" by (simp add: method_flag_def)
  have g: "gai client_net ''peer'' ''4711'' = Some ([sample_ai 1] @ sample_ai 2 # [])" "socket_res client_net = [3] @ 4 # []"
    "connect_res client_net = replicate (length [sample_ai 1]) (-1) @ 0 # []"
    "inq client_net 4 = map RData [[12, 0, 1, 0], [0, 0, 2, 107, 104, 105]] @ RData [] # []"
    by (simp_all add: client_net_def)
  have r: "request_wire PKT_FLAG_GET (map of_char ''k'') [] = [4, 0, 1, 0, 0, 0, 0, 107]"
    by (simp add: request_wire_def PKT_FLAG_GET_def be16_def be32_def)
  have s: "send_ready (length [4, 0, 1, 0, 0, 0, 0, 107 :: byte]) client_net" "trace client_net = []"
    by (simp_all add: send_ready_def client_net_def)
  from client_run [OF g(1) _ _ _ g(2,3) m _ _ r [symmetric] s(1) a(1) _ wa g(4), of "[]" "[1, 1]" "\<lambda>_. 0" "''client''"]
  show ?thesis unfolding a(2) s(2) using a(3) by auto
qed

theorem client_failures_witness:
  "client_main (\<lambda>_. 0) [''client'', ''peer''] [] [] (client_net\<lparr>connect_res := [-1, -1]\<rparr>) =
     Inr (-1, [], client_net\<lparr>connect_res := [-1, -1]\<rparr>) \<and>
   (\<exists>w'. client_main (\<lambda>_. 0) [''client'', ''peer'', ''1'', ''GET'', ''k''] [] [] (client_net\<lparr>connect_res := [-1, -1]\<rparr>) =
      Inr (-1, [], w') \<and> trace w' = [EvClose 3, EvClose 4])"
proof -
  let ?w = "client_net\<lparr>connect_res := [-1, -1]\<rparr>" and ?w3 = "client_net\<lparr>connect_res := [0]\<rparr>"
  have g: "gai ?w ''nowhere'' ''1'' = None" "gai ?w ''peer'' ''1'' = Some [sample_ai 1, sample_ai 2]"
    "socket_res ?w = [3, 4] @ []" "connect_res ?w = replicate (length [sample_ai 1, sample_ai 2]) (-1) @ []"
    "socket_res ?w3 = 3 # [4]" "connect_res ?w3 = 0 # []" "gai ?w3 = gai ?w" "trace ?w = []" "method_flag ''FOO'' = None"
    by (simp_all add: client_net_def method_flag_def)
  from client_failures [OF _ g(1,2) _ _ g(3,4,2,5) _ g(6,7,9), of "[''client'', ''peer'']" "\<lambda>_. 0" "[]" "[]" "''client''" "''GET''" "''k''"]
  show ?thesis unfolding g(8) by simp
qed

end
