(* ===== verification/End_To_End.thy ===== *)
theory End_To_End
  imports Chord_Ring Client
begin

unbundle bit_operations_syntax

text \<open>
  The client program and the peer that owns the key, put together: the bytes the client sends
  are cut into arbitrary pieces and fed to the peer's event loop, the bytes the peer sends are
  cut into arbitrary pieces and fed to the client. The theory holds the lemmas for either side;
  the properties of the whole exchange are in the root theory.
\<close>

section \<open>The peer's side\<close>

definition data_request :: "byte \<Rightarrow> byte list \<Rightarrow> byte list \<Rightarrow> packet" where
  "data_request fl k v = packet_new\<lparr>flags := fl, key_len := of_nat (length k), value_len := of_nat (length v),
     pkey := Some k, pvalue := Some v\<rparr>"

lemma data_request_ok:
  assumes "\<not> has_flag fl PKT_FLAG_CTRL" "length k < 2 ^ 16" "length k + length v < 2 ^ 31" "k \<noteq> []"
  shows "wire (data_request fl k v) = request_wire fl k v" "wf_packet (data_request fl k v)" "fits_u32 (data_request fl k v)"
    "0 < packet_body_size (data_request fl k v)" "packet_body_size (data_request fl k v) < 2 ^ 31"
proof -
  have l: "unat (of_nat (length k) :: u16) = length k" "unat (of_nat (length v) :: u32) = length v"
    using assms(2,3) by (simp_all add: unat_of_nat_mod)
  then show f: "fits_u32 (data_request fl k v)" and "wf_packet (data_request fl k v)"
    using assms(3) by (simp_all add: fits_u32_def wf_packet_def data_request_def ptr_bytes_def)
  have "packet_body_size (data_request fl k v) = length k + length v"
    using unat_body_sum [OF f] assms(1) l by (simp add: packet_body_size_def data_request_def)
  then show "0 < packet_body_size (data_request fl k v)" "packet_body_size (data_request fl k v) < 2 ^ 31"
    using assms(3,4) by simp_all
  show "wire (data_request fl k v) = request_wire fl k v"
    using assms by (simp add: wire_def data_wire_def data_request_def request_wire_def ptr_bytes_def)
qed

text \<open>What the callback gets: the same request with an empty value as \<open>NULL\<close>.\<close>

lemma request_view:
  assumes "\<not> has_flag fl PKT_FLAG_CTRL" "length k < 2 ^ 16" "length k + length v < 2 ^ 31" "k \<noteq> []"
    "p = packet_view (data_request fl k v)"
  shows "wf_packet p" "flags p = fl" "pkey p = Some k" "unat (key_len p) = length k" "ptr_bytes (pvalue p) = v"
proof -
  have l: "unat (of_nat (length k) :: u16) = length k" "unat (of_nat (length v) :: u32) = length v"
    using assms(2,3) by (simp_all add: unat_of_nat_mod)
  then show "wf_packet p" "flags p = fl" "pkey p = Some k" "unat (key_len p) = length k" "ptr_bytes (pvalue p) = v"
    using assms(1,4,5) by (simp_all add: packet_view_def data_request_def wf_packet_def clean_ptr_def ptr_bytes_def)
qed

text \<open>A peer that owns the key, with an idle client connected.\<close>

definition serving_owner :: "peer \<Rightarrow> peer \<Rightarrow> peer \<Rightarrow> byte list \<Rightarrow> client \<Rightarrow> server \<Rightarrow> world \<Rightarrow> bool" where
  "serving_owner pr me su k cl srv w \<longleftrightarrow> ring_state pr me su w \<and> world_wf w \<and> serving cl srv \<and> fresh_client cl \<and>
     (\<exists>h. pseudo_hash (Some k) (length k) = Inr h \<and> peer_is_responsible (p_node_id pr) (p_node_id me) h = 1)"

lemma feed_simps [simp]:
  "net.more (feed fd cs rest w) = net.more w" "trace (feed fd cs rest w) = trace w"
  "send_ready n (feed fd cs rest w) = send_ready n w"
  by (simp_all add: feed_def send_ready_def)

lemma feed_world [simp]:
  fixes w :: world
  shows "w_ht (feed fd cs rest w) = w_ht w" "w_rt (feed fd cs rest w) = w_rt w" "world_wf (feed fd cs rest w) = world_wf w"
    "ring_state pr me su (feed fd cs rest w) = ring_state pr me su w"
  by (simp_all add: feed_def world_wf_def ring_state_def)

text \<open>The pieces of a request lead to one call of the callback and to the end of the connection.\<close>

lemma serves_request:
  assumes c: "serving cl srv" "fresh_client cl" "world_wf w"
    and fl: "\<not> has_flag fl PKT_FLAG_CTRL" "length k < 2 ^ 16" "length k + length v < 2 ^ 31" "k \<noteq> []"
    and cs: "\<forall>x \<in> set cs. x \<noteq> []" "concat cs = request_wire fl k v"
    and handled: "\<And>srv1 cl1 w1. client_at srv1 (c_id cl) = Inr cl1 \<Longrightarrow> c_socket cl1 = c_socket cl \<Longrightarrow>
       \<exists>rd. w1 = feed (c_socket cl) rd rest w \<Longrightarrow>
       \<exists>w2. handle_packet_data junk srv1 (c_id cl) (packet_view (data_request fl k v)) w1 = Inr (CB_REMOVE_CLIENT, srv1, w2) \<and> Q w2"
  shows "\<exists>w2. loop_steps (handle_packet junk) junk (c_id cl) (srv, feed (c_socket cl) cs rest w)
     (without (c_id cl) srv, sys_close (c_socket cl) w2) \<and> Q w2"
proof -
  note p = data_request_ok [OF fl]
  show ?thesis
  proof (rule hp.loop_removed [OF c cs(1) _ disjI2 [OF conjI [OF p(2,3)]] p(4,5)])
    show "concat cs = wire (data_request fl k v)" using cs(2) p(1) by simp
    fix srv1 cl1 w1
    assume "client_at srv1 (c_id cl) = Inr cl1" "c_socket cl1 = c_socket cl" "\<exists>rd. w1 = feed (c_socket cl) rd rest w"
    then show "\<exists>w2. handle_packet junk srv1 (c_id cl) (Some (packet_view (data_request fl k v))) w1 =
        Inr (CB_REMOVE_CLIENT, srv1, w2) \<and> Q w2"
      using handled request_view(2) [OF fl refl] fl(1) by (simp add: handle_packet_def)
  qed
qed

lemma owner_serves:
  assumes own: "serving_owner pr me su k cl srv w"
    and fl: "\<not> has_flag fl PKT_FLAG_CTRL" "length k < 2 ^ 16" "length k + length v < 2 ^ 31" "k \<noteq> []"
    and cs: "\<forall>x \<in> set cs. x \<noteq> []" "concat cs = request_wire fl k v"
    and handled: "\<And>srv1 cl1 w1. client_at srv1 (c_id cl) = Inr cl1 \<Longrightarrow> c_socket cl1 = c_socket cl \<Longrightarrow>
       net.more w1 = net.more w \<Longrightarrow> trace w1 = trace w \<Longrightarrow> send_res w1 = send_res w \<Longrightarrow>
       \<exists>w2. handle_own_request junk srv1 (c_id cl) (packet_view (data_request fl k v)) w1 = Inr (CB_REMOVE_CLIENT, srv1, w2) \<and> Q w2"
  shows "\<exists>w2. loop_steps (handle_packet junk) junk (c_id cl) (srv, feed (c_socket cl) cs rest w)
     (without (c_id cl) srv, sys_close (c_socket cl) w2) \<and> Q w2"
proof (rule serves_request [OF _ _ _ fl cs])
  show "serving cl srv" "fresh_client cl" "world_wf w" using own by (simp_all add: serving_owner_def)
  fix srv1 cl1 w1
  assume at: "client_at srv1 (c_id cl) = Inr cl1" "c_socket cl1 = c_socket cl"
    and w1: "\<exists>rd. w1 = feed (c_socket cl) rd rest w"
  then obtain rd where rd: "w1 = feed (c_socket cl) rd rest w" by blast
  obtain w2 where "handle_own_request junk srv1 (c_id cl) (packet_view (data_request fl k v)) w1 = Inr (CB_REMOVE_CLIENT, srv1, w2)" "Q w2"
    using handled [OF at, of w1] by (auto simp: rd feed_def)
  then show "\<exists>w2. handle_packet_data junk srv1 (c_id cl) (packet_view (data_request fl k v)) w1 = Inr (CB_REMOVE_CLIENT, srv1, w2) \<and> Q w2"
    using own request_view(3,4) [OF fl refl] rd
    by (auto simp: handle_packet_data_def the_peer_def ring_state_def serving_owner_def feed_def)
qed

text \<open>A SET at the owner.\<close>

lemma owner_stores:
  assumes "serving_owner pr me su k cl srv w" "ut_room (w_ht w)" "send_ready 11 w"
    "k \<noteq> []" "length k < 2 ^ 16" "length k + length v < 2 ^ 31"
    "\<forall>x \<in> set cs. x \<noteq> []" "concat cs = request_wire PKT_FLAG_SET k v"
  shows "\<exists>w' evs. loop_steps (handle_packet junk) junk (c_id cl) (srv, feed (c_socket cl) cs rest w) (without (c_id cl) srv, w') \<and>
     world_wf w' \<and> ring_state pr me su w' \<and> ht_map (w_ht w') = (ht_map (w_ht w))(k \<mapsto> v) \<and>
     trace w' = trace w @ evs @ [EvClose (c_socket cl)] \<and>
     sent_to (c_socket cl) evs = wire (packet_new\<lparr>flags := PKT_FLAG_SET OR PKT_FLAG_ACK\<rparr>)"
proof -
  let ?q = "packet_view (data_request PKT_FLAG_SET k v)" and ?a = "packet_new\<lparr>flags := PKT_FLAG_SET OR PKT_FLAG_ACK\<rparr>"
  have fl: "\<not> has_flag PKT_FLAG_SET PKT_FLAG_CTRL" "length k < 2 ^ 16" "length k + length v < 2 ^ 31" "k \<noteq> []"
    using assms(4-6) by (simp_all add: has_flag_def flag_defs)
  note q = request_view [OF fl refl]
  have set: "flag_set (flags ?q) PKT_FLAG_SET" "\<not> flag_set (flags ?q) PKT_FLAG_GET"
    unfolding q(2) by (simp_all add: flag_set_def flag_defs)
  define Q where "Q w2 \<longleftrightarrow> world_wf w2 \<and> ring_state pr me su w2 \<and> ht_map (w_ht w2) = (ht_map (w_ht w))(k \<mapsto> v) \<and>
    (\<exists>evs. trace w2 = trace w @ evs \<and> sent_to (c_socket cl) evs = wire ?a)" for w2
  have "\<exists>w2. loop_steps (handle_packet junk) junk (c_id cl) (srv, feed (c_socket cl) cs rest w)
     (without (c_id cl) srv, sys_close (c_socket cl) w2) \<and> Q w2"
  proof (rule owner_serves [OF assms(1) fl assms(7,8)])
    fix srv1 cl1 w1
    assume at: "client_at srv1 (c_id cl) = Inr cl1" "c_socket cl1 = c_socket cl"
      and w1: "net.more w1 = net.more w" "trace w1 = trace w" "send_res w1 = send_res w"
    have "world_wf w1" "ut_room (w_ht w1)" "send_ready 11 w1" and r: "ring_state pr me su w1"
      using assms(1-3) world_more [OF w1(1)] world_wf_more [OF w1(1)] w1(3)
      by (simp_all add: serving_owner_def send_ready_def ring_state_def)
    from own_set_answered [OF this(1,2) q(1) at(1) set this(3), of junk]
    show "\<exists>w2. handle_own_request junk srv1 (c_id cl) ?q w1 = Inr (CB_REMOVE_CLIENT, srv1, w2) \<and> Q w2"
      using world_more(1) [OF w1(1)] w1(2) at(2) q(3,5) r by (auto simp: Q_def ptr_bytes_def ring_state_def)
  qed
  then obtain w2 evs where r: "loop_steps (handle_packet junk) junk (c_id cl) (srv, feed (c_socket cl) cs rest w)
     (without (c_id cl) srv, sys_close (c_socket cl) w2)" "world_wf w2" "ring_state pr me su w2" "ht_map (w_ht w2) = (ht_map (w_ht w))(k \<mapsto> v)"
     "trace w2 = trace w @ evs" "sent_to (c_socket cl) evs = wire ?a" by (auto simp: Q_def)
  then show ?thesis
    by (intro exI [of _ "sys_close (c_socket cl) w2"] exI [of _ evs])
      (auto simp: sys_close_def log_event_def world_wf_def ring_state_def)
qed

text \<open>The answer of the owner to a GET.\<close>

definition get_answer :: "byte list \<Rightarrow> byte list option \<Rightarrow> packet" where
  "get_answer k v = (case v of None \<Rightarrow> ack PKT_FLAG_GET | Some x \<Rightarrow> get_ack k x)"

lemma owner_answers_get:
  assumes "serving_owner pr me su k cl srv w" "k \<noteq> []" "length k < 2 ^ 16"
    "v = ht_map (w_ht w) k" "\<forall>x. v = Some x \<longrightarrow> length k + length x < 2 ^ 31"
    "send_ready (length (wire (get_answer k v))) w"
    "\<forall>x \<in> set cs. x \<noteq> []" "concat cs = request_wire PKT_FLAG_GET k []"
  shows "\<exists>w' evs. loop_steps (handle_packet junk) junk (c_id cl) (srv, feed (c_socket cl) cs rest w) (without (c_id cl) srv, w') \<and>
     w_ht w' = w_ht w \<and> w_rt w' = w_rt w \<and> trace w' = trace w @ evs @ [EvClose (c_socket cl)] \<and>
     sent_to (c_socket cl) evs = wire (get_answer k v)"
proof -
  let ?q = "packet_view (data_request PKT_FLAG_GET k [])" and ?a = "get_answer k v"
  have fl: "\<not> has_flag PKT_FLAG_GET PKT_FLAG_CTRL" "length k < 2 ^ 16" "length k + length ([] :: byte list) < 2 ^ 31" "k \<noteq> []"
    using assms(2,3) by (simp_all add: has_flag_def flag_defs)
  note q = request_view [OF fl refl]
  have get: "flag_set (flags ?q) PKT_FLAG_GET" unfolding q(2) by (simp add: flag_set_def)
  have key: "ptr_bytes (pkey ?q) = k" using q(3) by (simp add: ptr_bytes_def)
  define Q where "Q w2 \<longleftrightarrow> w_ht w2 = w_ht w \<and> w_rt w2 = w_rt w \<and>
    (\<exists>evs. trace w2 = trace w @ evs \<and> sent_to (c_socket cl) evs = wire ?a)" for w2 :: world
  have "\<exists>w2. loop_steps (handle_packet junk) junk (c_id cl) (srv, feed (c_socket cl) cs rest w)
     (without (c_id cl) srv, sys_close (c_socket cl) w2) \<and> Q w2"
  proof (rule owner_serves [OF assms(1) fl assms(7,8)])
    fix srv1 cl1 w1
    assume at: "client_at srv1 (c_id cl) = Inr cl1" "c_socket cl1 = c_socket cl"
      and w1: "net.more w1 = net.more w" "trace w1 = trace w" "send_res w1 = send_res w"
    have wf: "world_wf w1" "send_ready (length (wire ?a)) w1"
      using assms(1,6) world_wf_more [OF w1(1)] w1(3) by (simp_all add: serving_owner_def send_ready_def)
    have v: "v = ht_map (w_ht w1) (ptr_bytes (pkey ?q))" using assms(4) world_more(1) [OF w1(1)] key by simp
    have "\<forall>x. v = Some x \<longrightarrow> length x < 2 ^ 32" using assms(5) by auto
    moreover have "?a = (case v of None \<Rightarrow> ack PKT_FLAG_GET | Some x \<Rightarrow> get_ack (ptr_bytes (pkey ?q)) x)"
      unfolding key by (simp add: get_answer_def)
    ultimately have "\<exists>w2 evs. handle_own_request junk srv1 (c_id cl) ?q w1 = Inr (CB_REMOVE_CLIENT, srv1, w2) \<and>
       w_ht w2 = w_ht w1 \<and> w_rt w2 = w_rt w1 \<and> trace w2 = trace w1 @ evs \<and> sent_to (c_socket cl1) evs = wire ?a"
      by (rule own_get_answered [OF wf(1) q(1) at(1) get v _ _ wf(2)])
    then show "\<exists>w2. handle_own_request junk srv1 (c_id cl) ?q w1 = Inr (CB_REMOVE_CLIENT, srv1, w2) \<and> Q w2"
      using world_more(1,2) [OF w1(1)] w1(2) at(2) by (auto simp: Q_def)
  qed
  then obtain w2 evs where r: "loop_steps (handle_packet junk) junk (c_id cl) (srv, feed (c_socket cl) cs rest w)
     (without (c_id cl) srv, sys_close (c_socket cl) w2)" "w_ht w2 = w_ht w" "w_rt w2 = w_rt w"
     "trace w2 = trace w @ evs" "sent_to (c_socket cl) evs = wire ?a" by (auto simp: Q_def)
  then show ?thesis
    by (intro exI [of _ "sys_close (c_socket cl) w2"] exI [of _ evs])
      (simp add: sys_close_def log_event_def)
qed

section \<open>A peer between the client and the owner\<close>

text \<open>A peer whose successor owns the key, with an idle client connected.\<close>

definition serving_proxy :: "peer \<Rightarrow> peer \<Rightarrow> peer \<Rightarrow> byte list \<Rightarrow> client \<Rightarrow> server \<Rightarrow> world \<Rightarrow> bool" where
  "serving_proxy pr me su k cl srv w \<longleftrightarrow> ring_state pr me su w \<and> world_wf w \<and> serving cl srv \<and> fresh_client cl \<and>
     (\<exists>h. pseudo_hash (Some k) (length k) = Inr h \<and> peer_is_responsible (p_node_id pr) (p_node_id me) h = 0 \<and>
       peer_is_responsible (p_node_id me) (p_node_id su) h \<noteq> 0)"

text \<open>The successor can be reached on the socket \<open>s\<close> and answers a request of \<open>n\<close> bytes with \<open>ans\<close>.\<close>

definition proxy_env :: "peer \<Rightarrow> int \<Rightarrow> int \<Rightarrow> addrinfo \<Rightarrow> nat \<Rightarrow> byte list \<Rightarrow> world \<Rightarrow> bool" where
  "proxy_env su fd s ai n ans w \<longleftrightarrow> s \<noteq> fd \<and> reachable su s ai w \<and> send_ready (n + length ans) w \<and>
     length ans < 2 ^ 64 \<and> (\<exists>cs q. (\<forall>c \<in> set cs. c \<noteq> []) \<and> concat cs = ans \<and> inq w s = map RData cs @ RData [] # q)"

lemma wire_request_view:
  assumes "\<not> has_flag fl PKT_FLAG_CTRL" "length k < 2 ^ 16" "length k + length v < 2 ^ 31" "k \<noteq> []"
  shows "wire (packet_view (data_request fl k v)) = request_wire fl k v"
  using data_request_ok(1) [OF assms] assms(1,4)
  by (cases v) (simp_all add: wire_def data_wire_def packet_view_def data_request_def clean_ptr_def ptr_bytes_def)

lemma reachable_feed [simp]: "reachable p s ai (feed fd cs rest w) = reachable p s ai w"
  by (simp add: reachable_def peer_lookup_def feed_def)

lemma proxy_serves:
  assumes px: "serving_proxy pr me su k cl srv w"
    and fl: "\<not> has_flag fl PKT_FLAG_CTRL" "length k < 2 ^ 16" "length k + length v < 2 ^ 31" "k \<noteq> []"
    and cs: "\<forall>x \<in> set cs. x \<noteq> []" "concat cs = request_wire fl k v"
    and env: "proxy_env su (c_socket cl) s ai (length (concat cs)) ans w"
  shows "\<exists>w' e1 e2. loop_steps (handle_packet junk) junk (c_id cl) (srv, feed (c_socket cl) cs rest w) (without (c_id cl) srv, w') \<and>
     w_ht w' = w_ht w \<and> w_rt w' = w_rt w \<and>
     trace w' = trace w @ EvConnect s (ai_addr ai) # e1 @ [EvClose s] @ e2 @ [EvClose s, EvClose (c_socket cl)] \<and>
     sent_to s e1 = request_wire fl k v \<and> sent_to (c_socket cl) e2 = ans"
proof -
  let ?q = "packet_view (data_request fl k v)"
  note q = request_view [OF fl refl]
  define Q where "Q w2 \<longleftrightarrow> w_ht w2 = w_ht w \<and> w_rt w2 = w_rt w \<and> (\<exists>e1 e2.
     trace w2 = trace w @ EvConnect s (ai_addr ai) # e1 @ [EvClose s] @ e2 @ [EvClose s] \<and>
     sent_to s e1 = request_wire fl k v \<and> sent_to (c_socket cl) e2 = ans)" for w2 :: world
  obtain as qs where as: "\<forall>c \<in> set as. c \<noteq> []" "concat as = ans" "inq w s = map RData as @ RData [] # qs"
    using env by (auto simp: proxy_env_def)
  have "\<exists>w2. loop_steps (handle_packet junk) junk (c_id cl) (srv, feed (c_socket cl) cs rest w)
     (without (c_id cl) srv, sys_close (c_socket cl) w2) \<and> Q w2"
  proof (rule serves_request [OF _ _ _ fl cs])
    show "serving cl srv" "fresh_client cl" "world_wf w" using px by (simp_all add: serving_proxy_def)
    fix srv1 cl1 w1
    assume at: "client_at srv1 (c_id cl) = Inr cl1" "c_socket cl1 = c_socket cl"
      and "\<exists>rd. w1 = feed (c_socket cl) rd rest w"
    then obtain rd where rd: "w1 = feed (c_socket cl) rd rest w" by blast
    have "reachable su s ai w1" "inq w1 s = map RData as @ RData [] # qs" "length (concat as) < 2 ^ 64"
      "send_ready (length (wire ?q) + length (concat as)) w1"
      using env as cs(2) by (simp_all add: rd proxy_env_def wire_request_view [OF fl]) (simp add: feed_def)
    from proxy_relays [OF this(1) _ q(1) as(1) this(2-4), of junk "c_socket cl"] q(2) fl(1)
    obtain n' w2 e1 e2 where w2: "proxy_request junk (c_socket cl) ?q su w1 = Inr (CB_REMOVE_CLIENT, n', w2)"
      "trace w2 = trace w1 @ EvConnect s (ai_addr ai) # e1 @ [EvClose s] @ e2 @ [EvClose s]"
      "sent_to s e1 = wire ?q" "sent_to (c_socket cl) e2 = concat as" "net.more w2 = net.more w1"
      by auto
    have "handle_packet_data junk srv1 (c_id cl) ?q w1 = Inr (CB_REMOVE_CLIENT, srv1, w2\<lparr>w_succ := Some n'\<rparr>)"
      using px q(3,4) at w2(1) rd
      by (auto simp: handle_packet_data_def the_peer_def ring_state_def serving_proxy_def feed_def)
    moreover have "Q (w2\<lparr>w_succ := Some n'\<rparr>)"
      using w2(2-4) world_more(1,2) [OF w2(5)] as(2) rd by (auto simp: Q_def wire_request_view [OF fl])
    ultimately show "\<exists>w2. handle_packet_data junk srv1 (c_id cl) ?q w1 = Inr (CB_REMOVE_CLIENT, srv1, w2) \<and> Q w2" by blast
  qed
  then obtain w2 e1 e2 where r: "loop_steps (handle_packet junk) junk (c_id cl) (srv, feed (c_socket cl) cs rest w)
     (without (c_id cl) srv, sys_close (c_socket cl) w2)" "w_ht w2 = w_ht w" "w_rt w2 = w_rt w"
     "trace w2 = trace w @ EvConnect s (ai_addr ai) # e1 @ [EvClose s] @ e2 @ [EvClose s]"
     "sent_to s e1 = request_wire fl k v" "sent_to (c_socket cl) e2 = ans" by (auto simp: Q_def)
  then show ?thesis
    by (intro exI [of _ "sys_close (c_socket cl) w2"] exI [of _ e1] exI [of _ e2])
      (simp add: sys_close_def log_event_def)
qed

section \<open>The client's side\<close>

text \<open>A network in which the client reaches the host and gets the bytes \<open>ans\<close> back.\<close>

definition client_env :: "string \<Rightarrow> string \<Rightarrow> int \<Rightarrow> nat \<Rightarrow> byte list \<Rightarrow> nat list \<Rightarrow> 'w net_scheme \<Rightarrow> bool" where
  "client_env host prt s n ans fwrites w \<longleftrightarrow> 0 \<le> s \<and> send_ready n w \<and> (\<forall>r \<in> set fwrites. 1 \<le> r) \<and> length ans \<le> length fwrites \<and>
     (\<exists>ai ais ss cr. gai w host prt = Some (ai # ais) \<and> socket_res w = s # ss \<and> connect_res w = 0 # cr) \<and>
     (\<exists>cs q. (\<forall>c \<in> set cs. c \<noteq> []) \<and> concat cs = ans \<and> inq w s = map RData cs @ RData [] # q)"

lemma client_gets_answer:
  assumes env: "client_env host prt s (length req) (wire a) fwrites w" and a: "answer_packet a" "has_flag (flags a) PKT_FLAG_ACK"
    and m: "method_flag meth = Some fl" "\<forall>c \<in> set inp. c \<noteq> []" "data = (if meth = ''SET'' then concat inp else [])"
      "req = request_wire fl (map of_char key) data"
  shows "\<exists>w' addr evs. client_main junk [prog, host, prt, meth, key] inp fwrites w =
       Inr (0, if meth = ''GET'' then ptr_bytes (pvalue a) else [], w') \<and>
     trace w' = trace w @ EvConnect s addr # evs @ [EvClose s] \<and> sent_to s evs = req"
proof -
  obtain ai ais ss cr cs q where e: "gai w host prt = Some ([] @ ai # ais)" "socket_res w = [] @ s # ss"
    "connect_res w = replicate (length ([] :: addrinfo list)) (-1) @ 0 # cr" "\<forall>c \<in> set cs. c \<noteq> []" "concat cs = wire a"
    "inq w s = map RData cs @ RData [] # q"
    using env by (auto simp: client_env_def)
  have s: "0 \<le> s" "send_ready (length req) w" "\<forall>r \<in> set fwrites. 1 \<le> r" "length (wire a) \<le> length fwrites"
    using env by (simp_all add: client_env_def)
  have "length (ptr_bytes (pvalue a)) \<le> length (wire a)" using a(1) by (simp add: answer_packet_def wire_def data_wire_def)
  then have "length (ptr_bytes (pvalue a)) \<le> length fwrites" using s(4) by simp
  from client_runs [OF e(1) _ _ s(1) e(2,3) m s(2) a(1) e(4-6) s(3) this, of junk prog] a(2)
  show ?thesis by auto
qed

text \<open>The peer's answer to a GET is a packet the client accepts.\<close>

lemma answer_ok:
  assumes "length k < 2 ^ 16" "\<forall>x. v = Some x \<longrightarrow> length k + length x < 2 ^ 31"
  defines "a \<equiv> (case v of None \<Rightarrow> ack PKT_FLAG_GET | Some x \<Rightarrow> get_ack k x)"
  shows "answer_packet a" "has_flag (flags a) PKT_FLAG_ACK"
    "length (wire a) = 7 + (case v of None \<Rightarrow> 0 | Some x \<Rightarrow> length k + length x)"
    "ptr_bytes (pvalue a) = (case v of None \<Rightarrow> [] | Some x \<Rightarrow> nul_copy x)"
proof -
  have fl: "flags a = PKT_FLAG_GET OR PKT_FLAG_ACK"
    by (simp add: a_def ack_def get_ack_def split: option.split)
  then show "has_flag (flags a) PKT_FLAG_ACK" by (simp add: has_flag_def flag_defs)
  have c: "\<not> has_flag (flags a) PKT_FLAG_CTRL" unfolding fl by (simp add: has_flag_def flag_defs)
  have l: "unat (of_nat (length k) :: u16) = length k" "unat (of_nat (length x) :: u32) = length x" if "v = Some x" for x
    using assms(1,2) that by (simp_all add: unat_of_nat_mod)
  show "ptr_bytes (pvalue a) = (case v of None \<Rightarrow> [] | Some x \<Rightarrow> nul_copy x)"
    by (simp add: a_def ack_def get_ack_def packet_new_def ptr_bytes_def split: option.split)
  show "length (wire a) = 7 + (case v of None \<Rightarrow> 0 | Some x \<Rightarrow> length k + length x)"
    using c by (simp add: wire_def data_wire_def)
      (simp add: a_def ack_def get_ack_def packet_new_def ptr_bytes_def split: option.split)
  have "wf_packet a \<and> fits_u32 a"
  proof (cases v)
    case None
    then show ?thesis by (simp add: a_def fits_u32_def) (simp add: ack_def packet_new_def)
  next
    case (Some x)
    then show ?thesis using l [OF Some] assms(2) by (simp add: a_def wf_packet_def fits_u32_def get_ack_def ptr_bytes_def)
  qed
  then show "answer_packet a" using c by (simp add: answer_packet_def)
qed

lemma get_answer_ready:
  assumes "send_ready (7 + length k + length (case v of None \<Rightarrow> [] | Some x \<Rightarrow> x)) w"
    "length k < 2 ^ 16" "\<forall>x. v = Some x \<longrightarrow> length k + length x < 2 ^ 31"
  shows "send_ready (length (wire (get_answer k v))) w"
  using answer_ok(3) [OF assms(2,3)] assms(1) by (auto simp: send_ready_def get_answer_def split: option.splits)

text \<open>The client prints the value the owner's answer carries.\<close>

lemma client_prints_get:
  assumes "client_env host prt s (length (request_wire PKT_FLAG_GET k [])) (wire (get_answer k v)) fwrites wc"
    "k = map of_char key" "length k < 2 ^ 16" "\<forall>x. v = Some x \<longrightarrow> length k + length x < 2 ^ 31"
  shows "\<exists>wc' addr evc. client_main junk [prog, host, prt, ''GET'', key] [] fwrites wc =
       Inr (0, case v of None \<Rightarrow> [] | Some x \<Rightarrow> nul_copy x, wc') \<and>
     trace wc' = trace wc @ EvConnect s addr # evc @ [EvClose s] \<and> sent_to s evc = request_wire PKT_FLAG_GET k []"
  using client_gets_answer [OF assms(1), of "''GET''" PKT_FLAG_GET "[]" "[]" key junk prog]
    answer_ok [OF assms(3,4), folded get_answer_def] assms(2) by (simp add: method_flag_def)

end
