(* ===== verification/Ring_Bytes.thy ===== *)
theory Ring_Bytes
  imports End_To_End
begin

unbundle bit_operations_syntax

text \<open>
  The lookup protocol at the level of bytes. Control packets arrive in arbitrary pieces at the
  event loop of a peer, \<open>handle_packet_ctrl\<close> of \<open>praxis2/src/peer.c\<close> runs once on each, and what
  it sends is the next peer's input. The record \<open>ring_node\<close> is one peer of a ring with its
  process state; \<open>sends\<close> says what a peer does with the bytes it is fed.
\<close>

section \<open>Control packets\<close>

lemma ctrl_view:
  assumes "has_flag (flags p) PKT_FLAG_CTRL"
  shows "flags (packet_view p) = flags p" "hash_id (packet_view p) = hash_id p" "node_id (packet_view p) = node_id p"
    "wire (packet_view p) = wire p" "peer_from_packet (packet_view p) = peer_from_packet p"
  using assms by (simp_all add: packet_view_def wire_def ctrl_wire_def peer_from_packet_def)

section \<open>One peer and a lookup\<close>

text \<open>
  A peer of a ring: its neighbours as it knows them, its own address, the connection on which a
  lookup arrives in pieces, its server and its process state, and what the kernel answers: the
  next socket, and the addresses to which its successor and the asking peer resolve.
\<close>

record ring_node =
  nd_pred :: peer
  nd_self :: peer
  nd_succ :: peer
  nd_ip :: u32
  nd_client :: client
  nd_server :: server
  nd_world :: world
  nd_pieces :: "byte list list"
  nd_sock :: int
  nd_succ_ai :: addrinfo
  nd_asker_ai :: addrinfo

definition node_ready :: "packet \<Rightarrow> ring_node \<Rightarrow> bool" where
  "node_ready lk nd \<longleftrightarrow> ring_state (nd_pred nd) (nd_self nd) (nd_succ nd) (nd_world nd) \<and>
     world_wf (nd_world nd) \<and> serving (nd_client nd) (nd_server nd) \<and> fresh_client (nd_client nd) \<and>
     (\<forall>x \<in> set (nd_pieces nd). x \<noteq> []) \<and> concat (nd_pieces nd) = wire lk \<and> send_ready 11 (nd_world nd) \<and>
     reachable (nd_succ nd) (nd_sock nd) (nd_succ_ai nd) (nd_world nd) \<and>
     reachable (peer_from_packet lk) (nd_sock nd) (nd_asker_ai nd) (nd_world nd)"

text \<open>
  Fed the pieces of the lookup, the peer's event loop opens one connection, to the address \<open>ai\<close>, sends just
  the bytes \<open>bs\<close> on it, closes it and the connection of the lookup, and changes no table.
\<close>

definition sends :: "(nat \<Rightarrow> byte) \<Rightarrow> ring_node \<Rightarrow> addrinfo \<Rightarrow> byte list \<Rightarrow> bool" where
  "sends junk nd ai bs \<longleftrightarrow> (\<exists>w' evs.
     loop_steps (handle_packet junk) junk (c_id (nd_client nd))
       (nd_server nd, feed (c_socket (nd_client nd)) (nd_pieces nd) [] (nd_world nd)) (without (c_id (nd_client nd)) (nd_server nd), w') \<and>
     w_ht w' = w_ht (nd_world nd) \<and> w_rt w' = w_rt (nd_world nd) \<and>
     trace w' = trace (nd_world nd) @ EvConnect (nd_sock nd) (ai_addr ai) # evs @
       [EvClose (nd_sock nd), EvClose (c_socket (nd_client nd))] \<and>
     sent_to (nd_sock nd) evs = bs)"

definition reply_for :: "u16 \<Rightarrow> peer \<Rightarrow> u32 \<Rightarrow> packet" where
  "reply_for h n ip = packet_new\<lparr>flags := PKT_FLAG_CTRL OR PKT_FLAG_RPLY, hash_id := h,
     node_id := p_node_id n, node_ip := ip, node_port := port n\<rparr>"

lemma peer_get_ip_feed [simp]: "peer_get_ip p (feed fd cs rest w) = peer_get_ip p w"
  by (simp add: peer_get_ip_def peer_lookup_def feed_def)

lemma handled_sends:
  assumes nd: "node_ready lk nd" and lk: "has_flag (flags lk) PKT_FLAG_CTRL"
    and handled: "\<And>srv c w1. \<exists>rd. w1 = feed (c_socket (nd_client nd)) rd [] (nd_world nd) \<Longrightarrow>
      \<exists>w2 evs. handle_packet_ctrl junk srv c (packet_view lk) w1 = Inr (CB_REMOVE_CLIENT, srv, w2) \<and>
        w_ht w2 = w_ht w1 \<and> w_rt w2 = w_rt w1 \<and>
        trace w2 = trace w1 @ EvConnect (nd_sock nd) (ai_addr ai) # evs @ [EvClose (nd_sock nd)] \<and> sent_to (nd_sock nd) evs = bs"
  shows "sends junk nd ai bs"
proof -
  let ?cl = "nd_client nd" and ?w = "nd_world nd"
  define Q where "Q w2 \<longleftrightarrow> w_ht w2 = w_ht ?w \<and> w_rt w2 = w_rt ?w \<and>
     (\<exists>evs. trace w2 = trace ?w @ EvConnect (nd_sock nd) (ai_addr ai) # evs @ [EvClose (nd_sock nd)] \<and> sent_to (nd_sock nd) evs = bs)"
    for w2 :: world
  have c: "serving ?cl (nd_server nd)" "fresh_client ?cl" "world_wf ?w" "\<forall>x \<in> set (nd_pieces nd). x \<noteq> []" "concat (nd_pieces nd) = wire lk"
    using nd by (simp_all add: node_ready_def)
  have body: "0 < packet_body_size lk" "packet_body_size lk < 2 ^ 31" using lk by (simp_all add: packet_body_size_def)
  have "\<exists>w2. loop_steps (handle_packet junk) junk (c_id ?cl) (nd_server nd, feed (c_socket ?cl) (nd_pieces nd) [] ?w)
      (without (c_id ?cl) (nd_server nd), sys_close (c_socket ?cl) w2) \<and> Q w2"
  proof (rule hp.loop_removed [OF c disjI1 [OF lk] body])
    fix srv1 c1 w1
    assume w1: "\<exists>rd. w1 = feed (c_socket ?cl) rd [] ?w"
    from handled [OF w1] obtain w2 evs where "handle_packet_ctrl junk srv1 (c_id ?cl) (packet_view lk) w1 = Inr (CB_REMOVE_CLIENT, srv1, w2)"
        "w_ht w2 = w_ht w1" "w_rt w2 = w_rt w1"
        "trace w2 = trace w1 @ EvConnect (nd_sock nd) (ai_addr ai) # evs @ [EvClose (nd_sock nd)]" "sent_to (nd_sock nd) evs = bs"
      by blast
    then show "\<exists>w2. handle_packet junk srv1 (c_id ?cl) (Some (packet_view lk)) w1 = Inr (CB_REMOVE_CLIENT, srv1, w2) \<and> Q w2"
      using w1 lk by (auto simp: Q_def handle_packet_def ctrl_view)
  qed
  then obtain w2 evs where "loop_steps (handle_packet junk) junk (c_id ?cl) (nd_server nd, feed (c_socket ?cl) (nd_pieces nd) [] ?w)
      (without (c_id ?cl) (nd_server nd), sys_close (c_socket ?cl) w2)" "w_ht w2 = w_ht ?w" "w_rt w2 = w_rt ?w"
      "trace w2 = trace ?w @ EvConnect (nd_sock nd) (ai_addr ai) # evs @ [EvClose (nd_sock nd)]" "sent_to (nd_sock nd) evs = bs"
    by (auto simp: Q_def)
  then show ?thesis unfolding sends_def
    by (intro exI [of _ "sys_close (c_socket ?cl) w2"] exI [of _ evs]) (simp add: sys_close_def log_event_def)
qed

text \<open>The two outcomes of a lookup, by the decision \<open>lookup_hop\<close>.\<close>

lemma passes_on:
  assumes nd: "node_ready lk nd" and lk: "has_flag (flags lk) PKT_FLAG_CTRL" "has_flag (flags lk) PKT_FLAG_LKUP"
    and hop: "lookup_hop (p_node_id (nd_pred nd)) (p_node_id (nd_self nd)) (p_node_id (nd_succ nd)) (hash_id lk) = None"
  shows "sends junk nd (nd_succ_ai nd) (wire lk)"
proof (rule handled_sends [OF nd lk(1)])
  fix srv c w1
  assume "\<exists>rd. w1 = feed (c_socket (nd_client nd)) rd [] (nd_world nd)"
  then obtain rd where rd: "w1 = feed (c_socket (nd_client nd)) rd [] (nd_world nd)" by blast
  have f: "has_flag (flags (packet_view lk)) PKT_FLAG_CTRL" "has_flag (flags (packet_view lk)) PKT_FLAG_LKUP"
    using lk by (simp_all add: ctrl_view)
  have r: "peer_is_responsible (p_node_id (nd_pred nd)) (p_node_id (nd_self nd)) (hash_id (packet_view lk)) = 0"
    "peer_is_responsible (p_node_id (nd_self nd)) (p_node_id (nd_succ nd)) (hash_id (packet_view lk)) = 0"
    using hop lk by (simp_all add: lookup_hop_def ctrl_view split: if_splits)
  have w1: "ring_state (nd_pred nd) (nd_self nd) (nd_succ nd) w1" "reachable (nd_succ nd) (nd_sock nd) (nd_succ_ai nd) w1" "send_ready 11 w1"
    using nd by (simp_all add: rd node_ready_def)
  obtain w2 evs where "handle_packet junk srv c (Some (packet_view lk)) w1 = Inr (CB_REMOVE_CLIENT, srv, w2)"
     "w_ht w2 = w_ht w1" "w_rt w2 = w_rt w1"
     "trace w2 = trace w1 @ EvConnect (nd_sock nd) (ai_addr (nd_succ_ai nd)) # evs @ [EvClose (nd_sock nd)]"
     "sent_to (nd_sock nd) evs = wire (packet_view lk)"
    using lookup_forwarded [OF w1(1) f r w1(2,3), of junk srv c] by blast
  then show "\<exists>w2 evs. handle_packet_ctrl junk srv c (packet_view lk) w1 = Inr (CB_REMOVE_CLIENT, srv, w2) \<and>
        w_ht w2 = w_ht w1 \<and> w_rt w2 = w_rt w1 \<and>
        trace w2 = trace w1 @ EvConnect (nd_sock nd) (ai_addr (nd_succ_ai nd)) # evs @ [EvClose (nd_sock nd)] \<and>
        sent_to (nd_sock nd) evs = wire lk"
    using f(1) lk(1) by (auto simp: handle_packet_def ctrl_view)
qed

lemma answers_asker:
  assumes nd: "node_ready lk nd" and lk: "has_flag (flags lk) PKT_FLAG_CTRL" "has_flag (flags lk) PKT_FLAG_LKUP"
    and hop: "lookup_hop (p_node_id (nd_pred nd)) (p_node_id (nd_self nd)) (p_node_id (nd_succ nd)) (hash_id lk) \<noteq> None"
    and n: "n = (if peer_is_responsible (p_node_id (nd_pred nd)) (p_node_id (nd_self nd)) (hash_id lk) = 1 then nd_self nd else nd_succ nd)"
  shows "sends junk nd (nd_asker_ai nd) (wire (reply_for (hash_id lk) n (peer_get_ip n (nd_world nd))))"
proof (rule handled_sends [OF nd lk(1)])
  fix srv c w1
  assume "\<exists>rd. w1 = feed (c_socket (nd_client nd)) rd [] (nd_world nd)"
  then obtain rd where rd: "w1 = feed (c_socket (nd_client nd)) rd [] (nd_world nd)" by blast
  have f: "has_flag (flags (packet_view lk)) PKT_FLAG_LKUP" and h: "hash_id (packet_view lk) = hash_id lk"
    using lk by (simp_all add: ctrl_view)
  have r: "peer_is_responsible (p_node_id (nd_pred nd)) (p_node_id (nd_self nd)) (hash_id lk) = 1 \<or>
    peer_is_responsible (p_node_id (nd_self nd)) (p_node_id (nd_succ nd)) (hash_id lk) = 1"
    using hop peer_is_responsible_01 by (fastforce simp: lookup_hop_def split: if_splits)
  have w1: "ring_state (nd_pred nd) (nd_self nd) (nd_succ nd) w1" "send_ready 11 w1"
    "reachable (peer_from_packet (packet_view lk)) (nd_sock nd) (nd_asker_ai nd) w1"
    using nd lk(1) by (simp_all add: rd node_ready_def ctrl_view)
  obtain w2 evs where "handle_packet_ctrl junk srv c (packet_view lk) w1 = Inr (CB_REMOVE_CLIENT, srv, w2)"
     "net.more w2 = net.more w1"
     "trace w2 = trace w1 @ EvConnect (nd_sock nd) (ai_addr (nd_asker_ai nd)) # evs @ [EvClose (nd_sock nd)]"
     "sent_to (nd_sock nd) evs = wire (reply_for (hash_id lk) n (peer_get_ip n w1))"
    using lookup_answered [OF w1(1) f, unfolded h, OF n r w1(3,2), of junk srv c] by (auto simp: reply_for_def)
  then show "\<exists>w2 evs. handle_packet_ctrl junk srv c (packet_view lk) w1 = Inr (CB_REMOVE_CLIENT, srv, w2) \<and>
        w_ht w2 = w_ht w1 \<and> w_rt w2 = w_rt w1 \<and>
        trace w2 = trace w1 @ EvConnect (nd_sock nd) (ai_addr (nd_asker_ai nd)) # evs @ [EvClose (nd_sock nd)] \<and>
        sent_to (nd_sock nd) evs = wire (reply_for (hash_id lk) n (peer_get_ip n (nd_world nd)))"
    using world_more [of w2 w1] by (auto simp: rd)
qed

section \<open>The whole ring\<close>

definition ring_of :: "ring_node list \<Rightarrow> u16 list" where
  "ring_of nodes = map (\<lambda>nd. p_node_id (nd_self nd)) nodes"

text \<open>
  Every peer knows the ids of its neighbours in the list and the address of its successor, and
  the peers agree on the addresses.
\<close>

definition ring_layout :: "ring_node list \<Rightarrow> bool" where
  "ring_layout nodes \<longleftrightarrow> (\<forall>i < length nodes.
     p_node_id (nd_pred (nodes ! i)) = ring_of nodes ! prev_node (ring_of nodes) i \<and>
     p_node_id (nd_succ (nodes ! i)) = ring_of nodes ! next_node (ring_of nodes) i \<and>
     port (nd_succ (nodes ! i)) = port (nd_self (nodes ! next_node (ring_of nodes) i)) \<and>
     peer_get_ip (nd_self (nodes ! i)) (nd_world (nodes ! i)) = nd_ip (nodes ! i) \<and>
     peer_get_ip (nd_succ (nodes ! i)) (nd_world (nodes ! i)) = nd_ip (nodes ! next_node (ring_of nodes) i))"

lemma length_ring_of [simp]: "length (ring_of nodes) = length nodes"
  by (simp add: ring_of_def)

lemma node_hop_of:
  assumes "ring_layout nodes" "i < length nodes"
  shows "node_hop (ring_of nodes) h i =
     lookup_hop (p_node_id (nd_pred (nodes ! i))) (p_node_id (nd_self (nodes ! i))) (p_node_id (nd_succ (nodes ! i))) h"
  using assms by (simp add: ring_layout_def node_hop_def) (simp add: ring_of_def)

text \<open>The peer that answers names the owner, with the owner's own address.\<close>

lemma answer_names_owner:
  assumes ring: "ring_ids (ring_of nodes)" "ring_layout nodes" and nd: "i < length nodes" "node_ready lk (nodes ! i)"
    and lk: "has_flag (flags lk) PKT_FLAG_CTRL" "has_flag (flags lk) PKT_FLAG_LKUP"
    and hop: "node_hop (ring_of nodes) (hash_id lk) i \<noteq> None"
  shows "\<exists>j < length nodes. ring_of nodes ! j = owner (ring_of nodes) (hash_id lk) \<and>
     sends junk (nodes ! i) (nd_asker_ai (nodes ! i)) (wire (reply_for (hash_id lk) (nd_self (nodes ! j)) (nd_ip (nodes ! j))))"
proof -
  let ?ring = "ring_of nodes" and ?h = "hash_id lk" and ?nd = "nodes ! i" and ?nx = "next_node (ring_of nodes) i"
  define n where "n = (if peer_is_responsible (p_node_id (nd_pred ?nd)) (p_node_id (nd_self ?nd)) ?h = 1 then nd_self ?nd else nd_succ ?nd)"
  have snd: "sends junk ?nd (nd_asker_ai ?nd) (wire (reply_for ?h n (peer_get_ip n (nd_world ?nd))))"
    using answers_asker [OF nd(2) lk _ n_def] hop by (simp add: node_hop_of [OF ring(2) nd(1)])
  have nx: "?nx < length nodes" using next_node_bound [OF ring(1), of i] by simp
  have lay: "p_node_id (nd_pred ?nd) = ?ring ! prev_node ?ring i" "p_node_id (nd_self ?nd) = ?ring ! i"
    "p_node_id (nd_succ ?nd) = p_node_id (nd_self (nodes ! ?nx))" "port (nd_succ ?nd) = port (nd_self (nodes ! ?nx))"
    "peer_get_ip (nd_self ?nd) (nd_world ?nd) = nd_ip ?nd" "peer_get_ip (nd_succ ?nd) (nd_world ?nd) = nd_ip (nodes ! ?nx)"
    using ring(2) nd(1) nx by (simp_all add: ring_layout_def) (simp_all add: ring_of_def)
  show ?thesis
  proof (cases "responsible_at ?ring ?h i")
    case True
    then have "n = nd_self ?nd" using lay(1,2) by (simp add: n_def responsible_at_def)
    then show ?thesis using snd lay(5) nd(1) responsible_owner [OF ring(1) _ True] by (intro exI [of _ i]) simp
  next
    case False
    then have "responsible_at ?ring ?h ?nx" using hop node_hop_cases [OF ring(1), of i ?h] nd(1) by (auto split: if_splits)
    then have o: "?ring ! ?nx = owner ?ring ?h" using responsible_owner [OF ring(1)] nx by simp
    have "n = nd_succ ?nd" using lay(1,2) False by (simp add: n_def responsible_at_def)
    then have "reply_for ?h n (peer_get_ip n (nd_world ?nd)) = reply_for ?h (nd_self (nodes ! ?nx)) (nd_ip (nodes ! ?nx))"
      using lay by (simp add: reply_for_def)
    then show ?thesis using snd o nx by auto
  qed
qed

lemma lookup_ring:
  assumes ring: "ring_ids (ring_of nodes)" "ring_layout nodes" "\<forall>nd \<in> set nodes. node_ready lk nd"
    and lk: "has_flag (flags lk) PKT_FLAG_CTRL" "has_flag (flags lk) PKT_FLAG_LKUP"
    and i: "i < length nodes" "ring_of nodes ! 0 < hash_id lk"
  shows "\<exists>k j. k < length nodes \<and> j < length nodes \<and> ring_of nodes ! j = owner (ring_of nodes) (hash_id lk) \<and>
     (\<forall>d < k. sends junk (nodes ! ((i + d) mod length nodes)) (nd_succ_ai (nodes ! ((i + d) mod length nodes))) (wire lk)) \<and>
     sends junk (nodes ! ((i + k) mod length nodes)) (nd_asker_ai (nodes ! ((i + k) mod length nodes)))
       (wire (reply_for (hash_id lk) (nd_self (nodes ! j)) (nd_ip (nodes ! j))))"
proof -
  let ?ring = "ring_of nodes" and ?h = "hash_id lk" and ?at = "\<lambda>d. (i + d) mod length nodes"
  have at: "?at d < length nodes" for d using i(1) by (intro mod_less_divisor) linarith
  obtain r where r: "r < length nodes" "responsible_at ?ring ?h r" using responsible_exists [OF ring(1)] i(2) by auto
  define d where "d = (if i \<le> r then r - i else r + length nodes - i)"
  have d: "?at d = r" "d < length nodes" using r(1) i(1) by (auto simp: d_def)
  have stop: "node_hop ?ring ?h (?at d) \<noteq> None" using d(1) r by (simp add: node_hop_cases [OF ring(1)])
  define k where "k = (LEAST k. node_hop ?ring ?h (?at k) \<noteq> None)"
  have k: "node_hop ?ring ?h (?at k) \<noteq> None" "k \<le> d" unfolding k_def using stop by (rule LeastI, rule Least_le)
  have pass: "sends junk (nodes ! ?at e) (nd_succ_ai (nodes ! ?at e)) (wire lk)" if "e < k" for e
  proof -
    have "node_hop ?ring ?h (?at e) = None" using that not_less_Least unfolding k_def by blast
    then show ?thesis using passes_on [OF _ lk] ring(3) at by (simp add: node_hop_of [OF ring(2) at])
  qed
  obtain j where "j < length nodes" "?ring ! j = owner ?ring ?h"
    "sends junk (nodes ! ?at k) (nd_asker_ai (nodes ! ?at k)) (wire (reply_for ?h (nd_self (nodes ! j)) (nd_ip (nodes ! j))))"
    using answer_names_owner [OF ring(1,2) at _ lk k(1), of junk] ring(3) at by auto
  then show ?thesis using pass k(2) d(2) by (intro exI [of _ k] exI [of _ j]) auto
qed

section \<open>The asking peer\<close>

definition lookup_for :: "u16 \<Rightarrow> peer \<Rightarrow> u32 \<Rightarrow> packet" where
  "lookup_for h n ip = packet_new\<lparr>flags := PKT_FLAG_CTRL OR PKT_FLAG_LKUP, hash_id := h,
     node_id := p_node_id n, node_ip := ip, node_port := port n\<rparr>"

lemma lookup_for_simps [simp]:
  "has_flag (flags (lookup_for h n ip)) PKT_FLAG_CTRL" "has_flag (flags (lookup_for h n ip)) PKT_FLAG_LKUP"
  "hash_id (lookup_for h n ip) = h"
  by (simp_all add: lookup_for_def has_flag_def flag_defs)

lemma reply_for_simps [simp]:
  "has_flag (flags (reply_for h n ip)) PKT_FLAG_CTRL" "has_flag (flags (reply_for h n ip)) PKT_FLAG_RPLY"
  "\<not> has_flag (flags (reply_for h n ip)) PKT_FLAG_LKUP" "hash_id (reply_for h n ip) = h"
  by (simp_all add: reply_for_def has_flag_def flag_defs)

text \<open>An idle client at a peer that neither owns the key nor knows the owner, with no open request for the hash id.\<close>

definition asking :: "peer \<Rightarrow> peer \<Rightarrow> peer \<Rightarrow> byte list \<Rightarrow> u16 \<Rightarrow> client \<Rightarrow> server \<Rightarrow> world \<Rightarrow> bool" where
  "asking pr me su k h cl srv w \<longleftrightarrow> ring_state pr me su w \<and> world_wf w \<and> ut_room (w_rt w) \<and> serving cl srv \<and> fresh_client cl \<and>
     pseudo_hash (Some k) (length k) = Inr h \<and> peer_is_responsible (p_node_id pr) (p_node_id me) h = 0 \<and>
     peer_is_responsible (p_node_id me) (p_node_id su) h = 0 \<and> rt_queue (w_rt w) h = []"

text \<open>The request as the peer keeps it.\<close>

definition kept :: "byte \<Rightarrow> byte list \<Rightarrow> byte list \<Rightarrow> int \<Rightarrow> request" where
  "kept fl k v s = \<lparr>r_packet = dup_of (packet_view (data_request fl k v)), r_socket = s\<rparr>"

lemma kept_simps:
  assumes "\<not> has_flag fl PKT_FLAG_CTRL" "length k < 2 ^ 16" "length k + length v < 2 ^ 31" "k \<noteq> []"
  shows "wire (r_packet (kept fl k v s)) = request_wire fl k v" "wf_packet (r_packet (kept fl k v s))"
    "flags (r_packet (kept fl k v s)) = fl" "r_socket (kept fl k v s) = s"
proof -
  note q = request_view [OF assms refl]
  show "wf_packet (r_packet (kept fl k v s))" "flags (r_packet (kept fl k v s)) = fl" "r_socket (kept fl k v s) = s"
    using q(1,2) by (simp_all add: kept_def dup_of_def wf_packet_def ptr_bytes_def)
  have "wire (dup_of p) = wire p" for p by (simp add: dup_of_def wire_def data_wire_def ctrl_wire_def ptr_bytes_def)
  then show "wire (r_packet (kept fl k v s)) = request_wire fl k v" using wire_request_view [OF assms] by (simp add: kept_def)
qed

lemma asker_keeps:
  assumes a: "asking pr me su k h cl srv w" and r: "reachable su s ai w" "send_ready 11 w"
    and fl: "\<not> has_flag fl PKT_FLAG_CTRL" "length k < 2 ^ 16" "length k + length v < 2 ^ 31" "k \<noteq> []"
    and cs: "\<forall>x \<in> set cs. x \<noteq> []" "concat cs = request_wire fl k v"
  shows "\<exists>cl1 w1 evs. loop_steps (handle_packet junk) junk (c_id cl) (srv, feed (c_socket cl) cs rest w) (put_client cl1 srv, w1) \<and>
     fresh_client cl1 \<and> c_id cl1 = c_id cl \<and> c_socket cl1 = c_socket cl \<and> world_wf w1 \<and> w_ht w1 = w_ht w \<and>
     rt_queue (w_rt w1) = (rt_queue (w_rt w))(h := [kept fl k v (c_socket cl)]) \<and>
     trace w1 = trace w @ EvConnect s (ai_addr ai) # evs @ [EvClose s] \<and>
     sent_to s evs = wire (lookup_for h me (peer_get_ip me w))"
proof -
  let ?p = "data_request fl k v"
  note p = data_request_ok [OF fl] and q = request_view [OF fl refl]
  define Q where "Q w1 \<longleftrightarrow> world_wf w1 \<and> w_ht w1 = w_ht w \<and>
     rt_queue (w_rt w1) = (rt_queue (w_rt w))(h := [kept fl k v (c_socket cl)]) \<and>
     (\<exists>evs. trace w1 = trace w @ EvConnect s (ai_addr ai) # evs @ [EvClose s] \<and>
       sent_to s evs = wire (lookup_for h me (peer_get_ip me w)))" for w1 :: world
  have c: "serving cl srv" "fresh_client cl" "world_wf w" using a by (simp_all add: asking_def)
  have "\<exists>cl1 w1. loop_steps (handle_packet junk) junk (c_id cl) (srv, feed (c_socket cl) cs rest w) (put_client cl1 srv, w1) \<and>
     fresh_client cl1 \<and> c_id cl1 = c_id cl \<and> c_socket cl1 = c_socket cl \<and> Q w1"
  proof (rule hp.loop_kept [OF c cs(1) _ disjI2 [OF conjI [OF p(2,3)]] p(4,5)])
    show "concat cs = wire ?p" using cs(2) p(1) by simp
    fix srv1 cl1 w1
    assume at: "client_at srv1 (c_id cl) = Inr cl1" "c_socket cl1 = c_socket cl" and "\<exists>rd. w1 = feed (c_socket cl) rd rest w"
    then obtain rd where rd: "w1 = feed (c_socket cl) rd rest w" by blast
    have w1: "ring_state pr me su w1" "world_wf w1" "ut_room (w_rt w1)" "reachable su s ai w1" "send_ready 11 w1"
      and h: "pseudo_hash (pkey (packet_view ?p)) (unat (key_len (packet_view ?p))) = Inr h"
      using a r q(3,4) by (simp_all add: rd asking_def)
    have resp: "peer_is_responsible (p_node_id pr) (p_node_id me) h = 0" "peer_is_responsible (p_node_id me) (p_node_id su) h = 0"
      and emp: "rt_queue (w_rt w) h = []" using a by (simp_all add: asking_def)
    obtain w2 evs where w2: "handle_packet_data junk srv1 (c_id cl) (packet_view ?p) w1 = Inr (CB_OK, srv1, w2)" "world_wf w2"
      "w_ht w2 = w_ht w1" "rt_queue (w_rt w2) = (rt_queue (w_rt w1))(h := rt_queue (w_rt w1) h @ [kept fl k v (c_socket cl1)])"
      "trace w2 = trace w1 @ EvConnect s (ai_addr ai) # evs @ [EvClose s]" "sent_to s evs = wire (lookup_for h me (peer_get_ip me w1))"
      using request_starts_lookup [OF w1(1-3) q(1) at(1) h resp w1(4,5), of junk] unfolding kept_def lookup_for_def by blast
    have "Q w2" using w2(2-6) at(2) emp by (auto simp: Q_def rd)
    then show "\<exists>w2. handle_packet junk srv1 (c_id cl) (Some (packet_view ?p)) w1 = Inr (CB_OK, srv1, w2) \<and> Q w2"
      using w2(1) q(2) fl(1) by (auto simp: handle_packet_def)
  qed
  then show ?thesis by (auto simp: Q_def)
qed

lemma asker_completes:
  assumes d: "serving d srv" "fresh_client d" "world_wf w" and rp: "rp = reply_for h n ip"
    and cs: "\<forall>x \<in> set cs. x \<noteq> []" "concat cs = wire rp"
    and c: "c \<in> set (clients srv)" "c_id c \<noteq> c_id d" "distinct (map c_socket (clients srv))"
    and fl: "\<not> has_flag fl PKT_FLAG_CTRL" "length k < 2 ^ 16" "length k + length v < 2 ^ 31" "k \<noteq> []"
    and q: "rt_queue (w_rt w) h = [kept fl k v (c_socket c)]"
    and env: "proxy_env (peer_from_packet rp) (c_socket d) s ai (length (request_wire fl k v)) ans w"
  shows "\<exists>w' e1 e2. loop_steps (handle_packet junk) junk (c_id d) (srv, feed (c_socket d) cs rest w)
       (without (c_id c) (without (c_id d) srv), w') \<and> w_ht w' = w_ht w \<and> rt_queue (w_rt w') = (rt_queue (w_rt w))(h := []) \<and>
     trace w' = trace w @ EvConnect s (ai_addr ai) # e1 @ [EvClose s] @ e2 @ [EvClose s, EvClose (c_socket d), EvClose (c_socket c)] \<and>
     sent_to s e1 = request_wire fl k v \<and> sent_to (c_socket c) e2 = ans"
proof -
  let ?r = "kept fl k v (c_socket c)"
  note r = kept_simps [OF fl, of "c_socket c"]
  define Q where "Q w' \<longleftrightarrow> w_ht w' = w_ht w \<and> rt_queue (w_rt w') = (rt_queue (w_rt w))(h := []) \<and> (\<exists>e1 e2.
     trace w' = trace w @ EvConnect s (ai_addr ai) # e1 @ [EvClose s] @ e2 @ [EvClose s] \<and>
     sent_to s e1 = request_wire fl k v \<and> sent_to (c_socket c) e2 = ans)" for w' :: world
  obtain as qs where as: "\<forall>c \<in> set as. c \<noteq> []" "concat as = ans" "inq w s = map RData as @ RData [] # qs"
    using env by (auto simp: proxy_env_def)
  have ct: "has_flag (flags rp) PKT_FLAG_CTRL" "has_flag (flags rp) PKT_FLAG_RPLY" "\<not> has_flag (flags rp) PKT_FLAG_LKUP" "hash_id rp = h"
    by (simp_all add: rp)
  have body: "0 < packet_body_size rp" "packet_body_size rp < 2 ^ 31" using ct(1) by (simp_all add: packet_body_size_def)
  have "\<exists>w2. loop_steps (handle_packet junk) junk (c_id d) (srv, feed (c_socket d) cs rest w)
       (without (c_id c) (without (c_id d) srv), sys_close (c_socket c) (sys_close (c_socket d) w2)) \<and> Q w2"
  proof (rule hp.loop_removed_marked [OF d cs disjI1 [OF ct(1)] body c])
    fix srv1 w1
    assume "\<exists>rd. w1 = feed (c_socket d) rd rest w"
    then obtain rd where rd: "w1 = feed (c_socket d) rd rest w" by blast
    have v: "has_flag (flags (packet_view rp)) PKT_FLAG_RPLY" "\<not> has_flag (flags (packet_view rp)) PKT_FLAG_LKUP" "hash_id (packet_view rp) = h"
      using ct by (simp_all add: ctrl_view)
    have w1: "world_wf w1" "rt_queue (w_rt w1) (hash_id (packet_view rp)) = [?r]" "reachable (peer_from_packet (packet_view rp)) s ai w1"
      "inq w1 s = map RData as @ RData [] # qs" "length (concat as) < 2 ^ 64" "send_ready (length (wire (r_packet ?r)) + length (concat as)) w1"
      using d(3) q env as r(1) v(3) ct(1) by (simp_all add: rd proxy_env_def ctrl_view) (simp add: feed_def)
    have "\<not> has_flag (flags (r_packet ?r)) PKT_FLAG_CTRL" using fl(1) r(3) by simp
    from reply_completes_request [OF w1(1) v(1,2) w1(2) this r(2) w1(3) as(1) w1(4-6), of junk srv1 "c_id d"]
    obtain w2 e1 e2 where w2: "handle_packet_ctrl junk srv1 (c_id d) (packet_view rp) w1 = Inr (CB_REMOVE_CLIENT, server_close_socket srv1 (c_socket c), w2)"
       "trace w2 = trace w1 @ EvConnect s (ai_addr ai) # e1 @ [EvClose s] @ e2 @ [EvClose s]"
       "sent_to s e1 = wire (r_packet ?r)" "sent_to (c_socket c) e2 = concat as" "w_ht w2 = w_ht w1"
       "rt_queue (w_rt w2) = (rt_queue (w_rt w1))(hash_id (packet_view rp) := [])"
      unfolding r(4) by blast
    have "Q w2" using w2(2-6) r(1) as(2) v(3) by (auto simp: Q_def rd)
    then show "\<exists>w2. handle_packet junk srv1 (c_id d) (Some (packet_view rp)) w1 =
        Inr (CB_REMOVE_CLIENT, server_close_socket srv1 (c_socket c), w2) \<and> Q w2"
      using w2(1) ct(1) by (auto simp: handle_packet_def ctrl_view)
  qed
  then obtain w2 e1 e2 where l: "loop_steps (handle_packet junk) junk (c_id d) (srv, feed (c_socket d) cs rest w)
       (without (c_id c) (without (c_id d) srv), sys_close (c_socket c) (sys_close (c_socket d) w2))"
     "w_ht w2 = w_ht w" "rt_queue (w_rt w2) = (rt_queue (w_rt w))(h := [])"
     "trace w2 = trace w @ EvConnect s (ai_addr ai) # e1 @ [EvClose s] @ e2 @ [EvClose s]"
     "sent_to s e1 = request_wire fl k v" "sent_to (c_socket c) e2 = ans" by (auto simp: Q_def)
  then show ?thesis
    by (intro exI [of _ "sys_close (c_socket c) (sys_close (c_socket d) w2)"] exI [of _ e1] exI [of _ e2])
      (simp add: sys_close_def log_event_def)
qed

text \<open>The server after it kept the request and accepted the connection of the peer that answers.\<close>

lemma serving_put:
  assumes "serving cl srv" "fresh_client cl1" "c_id cl1 = c_id cl"
  shows "serving cl1 (put_client cl1 srv)"
proof -
  have f: "rb_wf (header_buf cl1)" "rb_capacity (header_buf cl1) = 7" "rb_contents (header_buf cl1) = []" "state cl1 = IDLE" "pkt_buf cl1 = None"
    using assms(2) by (simp_all add: fresh_client_def hdr_phase_def)
  then have "rb_count (header_buf cl1) = 0" using length_rb_contents [of "header_buf cl1"] by simp
  then have wf: "client_wf cl1" using f by (simp add: client_wf_def)
  have wc: "with_client cl srv" using assms(1) by (rule serving_with)
  have "srv_wf (put_client cl1 srv)"
    using put_client_wf [OF _ wf] client_at_with [OF wc] assms(1,3) by (simp add: serving_def)
  moreover have "unmarked (put_client cl1 srv)" using assms(1) f(4) by (intro unmarked_put) (simp_all add: serving_def)
  ultimately show ?thesis using with_put_client [OF wc assms(3)] assms(1) by (simp add: serving_def with_client_def)
qed

lemma serving_new:
  assumes "srv_wf srv" "active srv" "unmarked srv" "d = hd (clients (server_add_client junk fd srv))"
  shows "serving d (server_add_client junk fd srv)" "fresh_client d" "c_id d = next_id srv" "c_socket d = fd"
proof -
  have "active (server_add_client junk fd srv)" "unmarked (server_add_client junk fd srv)"
    using assms(2,3) by (simp_all add: unmarked_def server_add_client_def)
  then show "serving d (server_add_client junk fd srv)"
    using assms(4) add_client_wf [OF assms(1)] by (simp add: serving_def) (simp add: server_add_client_def)
  have "rb_wf (rb_new junk 7)" "rb_contents (rb_new junk 7) = []" "rb_capacity (rb_new junk 7) = 7"
    using rb_new_ok [of 7 junk] by simp_all
  then show "fresh_client d" "c_id d = next_id srv" "c_socket d = fd"
    using assms(4) by (simp_all add: server_add_client_def fresh_client_def hdr_phase_def PKT_HEADER_LEN_def)
qed

lemma serving_other:
  assumes "serving c srv" "c_id d = next_id srv"
  shows "c \<in> set (clients (server_add_client junk fd srv))" "c_id c \<noteq> c_id d"
  using assms by (force simp: serving_def srv_wf_def server_add_client_def)+

lemma asker_accepts_reply:
  assumes a: "asking pr me su k h cl srv w"
    and c1: "fresh_client cl1" "c_id cl1 = c_id cl" "c_socket cl1 = c_socket cl"
    and w1: "world_wf w1" "rt_queue (w_rt w1) = (rt_queue (w_rt w))(h := [kept fl k v (c_socket cl)])" "w_ht w1 = w_ht w"
    and socks: "distinct (map c_socket (clients srv))" "fd \<notin> c_socket ` set (clients srv)"
    and rp: "rp = reply_for h n ip" "\<forall>x \<in> set cr. x \<noteq> []" "concat cr = wire rp"
    and fl: "\<not> has_flag fl PKT_FLAG_CTRL" "length k < 2 ^ 16" "length k + length v < 2 ^ 31" "k \<noteq> []"
    and w2: "net.more w2 = net.more w1" "proxy_env (peer_from_packet rp) fd t ai (length (request_wire fl k v)) ans w2"
  shows "\<exists>w3 e1 e2. loop_steps (handle_packet junk) junk (next_id srv) (server_add_client junk fd (put_client cl1 srv), feed fd cr rest w2)
       (without (c_id cl) (without (next_id srv) (server_add_client junk fd (put_client cl1 srv))), w3) \<and>
     w_ht w3 = w_ht w \<and> rt_queue (w_rt w3) = rt_queue (w_rt w) \<and>
     trace w3 = trace w2 @ EvConnect t (ai_addr ai) # e1 @ [EvClose t] @ e2 @ [EvClose t, EvClose fd, EvClose (c_socket cl)] \<and>
     sent_to t e1 = request_wire fl k v \<and> sent_to (c_socket cl) e2 = ans"
proof -
  let ?srv = "server_add_client junk fd (put_client cl1 srv)"
  define d where "d = hd (clients ?srv)"
  have s: "serving cl srv" "rt_queue (w_rt w) h = []" using a by (simp_all add: asking_def)
  have s1: "serving cl1 (put_client cl1 srv)" using serving_put [OF s(1) c1(1,2)] .
  then have "srv_wf (put_client cl1 srv)" "active (put_client cl1 srv)" "unmarked (put_client cl1 srv)" by (simp_all add: serving_def)
  note d = serving_new [OF this d_def] serving_other [OF s1 serving_new(3) [OF this d_def]]
  have n: "next_id (put_client cl1 srv) = next_id srv" by (simp add: put_client_def)
  have "map c_socket (clients ?srv) = fd # map c_socket (clients srv)"
    using put_client_sockets [OF serving_with [OF s(1)] c1(2,3)] by (simp add: server_add_client_def)
  then have dist: "distinct (map c_socket (clients ?srv))" using socks by simp
  have w: "world_wf w2" "w_ht w2 = w_ht w" "rt_queue (w_rt w2) = (rt_queue (w_rt w))(h := [kept fl k v (c_socket cl)])"
    using world_wf_more [OF w2(1)] world_more(1,2) [OF w2(1)] w1 by simp_all
  have q: "rt_queue (w_rt w2) h = [kept fl k v (c_socket cl1)]" using w(3) c1(3) by simp
  have env: "proxy_env (peer_from_packet rp) (c_socket d) t ai (length (request_wire fl k v)) ans w2" using w2(2) d(4) by simp
  have restored: "(rt_queue (w_rt w2))(h := []) = rt_queue (w_rt w)" using w(3) s(2) by auto
  from asker_completes [OF d(1,2) w(1) rp d(5,6) dist fl q env, of junk rest]
  show ?thesis unfolding d(3,4) n c1(2,3) w(2) restored .
qed

text \<open>The ids on a ring are distinct, so the owner is one peer of the list.\<close>

lemma owner_unique:
  assumes "ring_ids (ring_of nodes)" "i < length nodes" "j < length nodes" "ring_of nodes ! i = a" "ring_of nodes ! j = a"
  shows "i = j"
proof -
  have "distinct (ring_of nodes)" using assms(1) by (simp add: ring_ids_def strict_sorted_iff)
  from nth_eq_iff_index_eq [OF this, of i j] show ?thesis using assms(2-5) by simp
qed

text \<open>The two halves joined: the request is kept, and completed in any later state of the network.\<close>

lemma asker_relays:
  assumes a: "asking pr me su k h cl srv w" "reachable su s ai w" "send_ready 11 w"
    and fl: "\<not> has_flag fl PKT_FLAG_CTRL" "length k < 2 ^ 16" "length k + length v < 2 ^ 31" "k \<noteq> []"
    and cs: "\<forall>x \<in> set cs. x \<noteq> []" "concat cs = request_wire fl k v"
    and reply: "distinct (map c_socket (clients srv))" "fd \<notin> c_socket ` set (clients srv)"
      "rp = reply_for h n ip" "\<forall>x \<in> set cr. x \<noteq> []" "concat cr = wire rp"
  shows "\<exists>cl1 w1 e0. loop_steps (handle_packet junk) junk (c_id cl) (srv, feed (c_socket cl) cs [] w) (put_client cl1 srv, w1) \<and>
       trace w1 = trace w @ EvConnect s (ai_addr ai) # e0 @ [EvClose s] \<and> sent_to s e0 = wire (lookup_for h me (peer_get_ip me w)) \<and>
       (\<forall>w2 t ait. net.more w2 = net.more w1 \<longrightarrow> proxy_env (peer_from_packet rp) fd t ait (length (request_wire fl k v)) ans w2 \<longrightarrow>
         (\<exists>w3 e1 e2. loop_steps (handle_packet junk) junk (next_id srv) (server_add_client junk fd (put_client cl1 srv), feed fd cr [] w2)
             (without (c_id cl) (without (next_id srv) (server_add_client junk fd (put_client cl1 srv))), w3) \<and>
           w_ht w3 = w_ht w \<and> rt_queue (w_rt w3) = rt_queue (w_rt w) \<and>
           trace w3 = trace w2 @ EvConnect t (ai_addr ait) # e1 @ [EvClose t] @ e2 @ [EvClose t, EvClose fd, EvClose (c_socket cl)] \<and>
           sent_to t e1 = request_wire fl k v \<and> sent_to (c_socket cl) e2 = ans))"
proof -
  obtain cl1 w1 e0 where p: "loop_steps (handle_packet junk) junk (c_id cl) (srv, feed (c_socket cl) cs [] w) (put_client cl1 srv, w1)"
    "fresh_client cl1" "c_id cl1 = c_id cl" "c_socket cl1 = c_socket cl" "world_wf w1" "w_ht w1 = w_ht w"
    "rt_queue (w_rt w1) = (rt_queue (w_rt w))(h := [kept fl k v (c_socket cl)])"
    "trace w1 = trace w @ EvConnect s (ai_addr ai) # e0 @ [EvClose s]" "sent_to s e0 = wire (lookup_for h me (peer_get_ip me w))"
    using asker_keeps [OF a fl cs, of junk "[]"] by blast
  show ?thesis using p(1,8,9) asker_accepts_reply [OF a(1) p(2-5,7,6) reply fl] by blast
qed

lemma lookup_to_owner:
  assumes ring: "ring_ids (ring_of nodes)" "ring_layout nodes" "\<forall>nd \<in> set nodes. node_ready lk nd"
    and lk: "has_flag (flags lk) PKT_FLAG_CTRL" "has_flag (flags lk) PKT_FLAG_LKUP"
    and i: "i < length nodes" "ring_of nodes ! 0 < hash_id lk"
    and j: "j < length nodes" "ring_of nodes ! j = owner (ring_of nodes) (hash_id lk)"
  shows "\<exists>n < length nodes. sends junk (nodes ! ((i + n) mod length nodes)) (nd_asker_ai (nodes ! ((i + n) mod length nodes)))
         (wire (reply_for (hash_id lk) (nd_self (nodes ! j)) (nd_ip (nodes ! j)))) \<and>
     (\<forall>d < n. sends junk (nodes ! ((i + d) mod length nodes)) (nd_succ_ai (nodes ! ((i + d) mod length nodes))) (wire lk))"
  using lookup_ring [OF ring lk i, of junk] owner_unique [OF ring(1) j(1)] j(2) by metis

section \<open>A lookup round the ring\<close>

text \<open>
  C10: the lookup protocol, byte for byte, for the hash ids above the smallest peer id (the
  lookups for the others are never answered, see C12). On a ring of at least two peers that know
  their neighbours, let a lookup for such a hash id arrive, cut into any pieces,
  at the event loop of any peer, and let each peer be fed what the one before it sent. Then
  fewer peers than there are pass on exactly the bytes of the lookup to their successors, and
  the next one sends the asking peer, at the address in the lookup, exactly one reply packet, with
  the id, address and port of the peer that consistent hashing makes the owner. No peer
  changes a table.
\<close>

theorem lookup_over_ring:
  assumes "ring_ids (ring_of nodes)" "ring_layout nodes" "\<forall>nd \<in> set nodes. node_ready lk nd"
    "has_flag (flags lk) PKT_FLAG_CTRL" "has_flag (flags lk) PKT_FLAG_LKUP"
    "i < length nodes" "ring_of nodes ! 0 < hash_id lk"
  shows "\<exists>k j. k < length nodes \<and> j < length nodes \<and> ring_of nodes ! j = owner (ring_of nodes) (hash_id lk) \<and>
     (\<forall>d < k. sends junk (nodes ! ((i + d) mod length nodes)) (nd_succ_ai (nodes ! ((i + d) mod length nodes))) (wire lk)) \<and>
     sends junk (nodes ! ((i + k) mod length nodes)) (nd_asker_ai (nodes ! ((i + k) mod length nodes)))
       (wire (reply_for (hash_id lk) (nd_self (nodes ! j)) (nd_ip (nodes ! j))))"
  using lookup_ring [OF assms] .

text \<open>
  C9: a request of any kind, a GET, a SET or a DELETE, over the ring, for a key whose hash id is
  above the smallest peer id (for the other hash ids no peer ever answers the lookup, see C12).
  A peer that neither owns the key nor knows the owner keeps the request and sends a lookup; the peers of the ring pass it on
  byte for byte until one answers with the address of the consistent-hashing owner; and when
  that answer arrives on a new connection, in any later state of the network, the asking peer
  sends the owner exactly the bytes the client had sent, sends the client exactly the bytes the
  owner answers, however either stream is cut, closes every connection, forgets the request and
  ends with its tables as they were.
\<close>

theorem request_over_ring:
  assumes asker: "asking pr me su k h cl srv w" "reachable su s ai w" "send_ready 11 w"
    and fl: "\<not> has_flag fl PKT_FLAG_CTRL" "length k < 2 ^ 16" "length k + length v < 2 ^ 31" "k \<noteq> []"
    and cs: "\<forall>x \<in> set cs. x \<noteq> []" "concat cs = request_wire fl k v"
    and lk: "lk = lookup_for h me (peer_get_ip me w)"
    and ring: "ring_ids (ring_of nodes)" "ring_layout nodes" "\<forall>nd \<in> set nodes. node_ready lk nd"
      "i < length nodes" "ring_of nodes ! 0 < h"
    and rp: "j < length nodes" "ring_of nodes ! j = owner (ring_of nodes) h" "rp = reply_for h (nd_self (nodes ! j)) (nd_ip (nodes ! j))"
    and reply: "distinct (map c_socket (clients srv))" "fd \<notin> c_socket ` set (clients srv)" "\<forall>x \<in> set cr. x \<noteq> []" "concat cr = wire rp"
  shows "(\<exists>cl1 w1 e0. loop_steps (handle_packet junk) junk (c_id cl) (srv, feed (c_socket cl) cs [] w) (put_client cl1 srv, w1) \<and>
       trace w1 = trace w @ EvConnect s (ai_addr ai) # e0 @ [EvClose s] \<and> sent_to s e0 = wire lk \<and>
       (\<forall>w2 t ait. net.more w2 = net.more w1 \<longrightarrow> proxy_env (peer_from_packet rp) fd t ait (length (request_wire fl k v)) ans w2 \<longrightarrow>
         (\<exists>w3 e1 e2. loop_steps (handle_packet junk) junk (next_id srv) (server_add_client junk fd (put_client cl1 srv), feed fd cr [] w2)
             (without (c_id cl) (without (next_id srv) (server_add_client junk fd (put_client cl1 srv))), w3) \<and>
           w_ht w3 = w_ht w \<and> rt_queue (w_rt w3) = rt_queue (w_rt w) \<and>
           trace w3 = trace w2 @ EvConnect t (ai_addr ait) # e1 @ [EvClose t] @ e2 @ [EvClose t, EvClose fd, EvClose (c_socket cl)] \<and>
           sent_to t e1 = request_wire fl k v \<and> sent_to (c_socket cl) e2 = ans))) \<and>
     (\<exists>n < length nodes. sends junk' (nodes ! ((i + n) mod length nodes)) (nd_asker_ai (nodes ! ((i + n) mod length nodes))) (wire rp) \<and>
       (\<forall>d < n. sends junk' (nodes ! ((i + d) mod length nodes)) (nd_succ_ai (nodes ! ((i + d) mod length nodes))) (wire lk)))"
  using asker_relays [OF asker fl cs reply(1,2) rp(3) reply(3,4), of junk ans]
    lookup_to_owner [OF ring(1-3) _ _ ring(4) _ rp(1), of junk'] ring(5) rp(2,3) lk by simp

section \<open>Witnesses\<close>

lemma serving_sample: "serving new_client one_client"
proof -
  have "srv_wf \<lparr>s_socket = 3, n_clients = 0, active = True, clients = [], next_id = 0\<rparr>" by (simp add: srv_wf_def)
  then have "srv_wf one_client" unfolding one_client_def by (intro add_client_wf)
  then show ?thesis using one_client_simps(1) by (simp add: serving_def unmarked_def)
    (simp add: one_client_def server_add_client_def new_client_def)
qed

text \<open>Four peers with the ids 10, 60, 120 and 200, each fed the same lookup.\<close>

definition sample_node :: "byte list list \<Rightarrow> u16 \<Rightarrow> u16 \<Rightarrow> u16 \<Rightarrow> ring_node" where
  "sample_node cs a b c = (let pr = ring_peer a (4000 + a); me = ring_peer b (4000 + b); su = ring_peer c (4000 + c) in
     \<lparr>nd_pred = pr, nd_self = me, nd_succ = su, nd_ip = 2130706433, nd_client = new_client, nd_server = one_client,
      nd_world = sample_world\<lparr>w_pred := Some pr, w_self := Some me, w_succ := Some su\<rparr>, nd_pieces = cs, nd_sock = 8,
      nd_succ_ai = sample_ai 16777343, nd_asker_ai = sample_ai 16777343\<rparr>)"

definition sample_nodes :: "byte list list \<Rightarrow> ring_node list" where
  "sample_nodes cs = [sample_node cs 200 10 60, sample_node cs 10 60 120, sample_node cs 60 120 200, sample_node cs 120 200 10]"

lemma sample_ip: "gai w = gai sample_world \<Longrightarrow> peer_get_ip p w = 2130706433"
  by (simp add: peer_get_ip_def peer_lookup_def sample_world_def net.defs sample_ai_def ntohl_def htonl_def)

lemma sample_nodes_ok:
  assumes "\<forall>c \<in> set cs. c \<noteq> []" "concat cs = wire lk"
  shows "ring_of (sample_nodes cs) = [10, 60, 120, 200]" "ring_ids (ring_of (sample_nodes cs))"
    "ring_layout (sample_nodes cs)" "\<forall>nd \<in> set (sample_nodes cs). node_ready lk nd"
proof -
  show r: "ring_of (sample_nodes cs) = [10, 60, 120, 200]"
    by (simp add: ring_of_def sample_nodes_def sample_node_def ring_peer_def Let_def)
  show "ring_ids (ring_of (sample_nodes cs))" unfolding r by (simp add: ring_ids_def)
  show "ring_layout (sample_nodes cs)"
    unfolding ring_layout_def r
    by (simp add: sample_nodes_def sample_node_def Let_def sample_ip less_Suc_eq all_conj_distrib numeral_eq_Suc)
      (simp add: ring_peer_def prev_node_def next_node_def)
  have "node_ready lk (sample_node cs a b c)" for a b c
    using assms serving_sample one_client_simps(3) sample_world_simps(4)
    by (simp add: node_ready_def sample_node_def Let_def ring_state_def world_wf_def send_ready_def reachable_def peer_lookup_def)
      (simp add: sample_world_def net.defs)
  then show "\<forall>nd \<in> set (sample_nodes cs). node_ready lk nd" by (simp add: sample_nodes_def)
qed

text \<open>Peer 200 asks for the hash id 100; its successor 10 passes the lookup on, 60 answers and names 120.\<close>

theorem lookup_over_ring_witness:
  "\<exists>k j. k < 4 \<and> j < 4 \<and> [10, 60, 120, 200] ! j = (120 :: u16) \<and>
     (let nodes = sample_nodes [[129, 0], [100, 0, 200, 127, 0, 0, 1], [16, 104]] in
      (\<forall>d < k. sends (\<lambda>_. 0) (nodes ! (d mod 4)) (nd_succ_ai (nodes ! (d mod 4))) [129, 0, 100, 0, 200, 127, 0, 0, 1, 16, 104]) \<and>
      sends (\<lambda>_. 0) (nodes ! (k mod 4)) (nd_asker_ai (nodes ! (k mod 4)))
        (wire (reply_for 100 (nd_self (nodes ! j)) (nd_ip (nodes ! j)))))"
proof -
  let ?cs = "[[129, 0], [100, 0, 200, 127, 0, 0, 1], [16, 104]] :: byte list list" and ?lk = "lookup_for 100 (ring_peer 200 4200) 2130706433"
  have w: "wire ?lk = [129, 0, 100, 0, 200, 127, 0, 0, 1, 16, 104]" by code_simp
  have cs: "\<forall>c \<in> set ?cs. c \<noteq> []" "concat ?cs = wire ?lk" by (simp_all add: w)
  note ok = sample_nodes_ok [OF cs]
  have l: "length (sample_nodes ?cs) = 4" by (simp add: sample_nodes_def)
  have o: "owner [10, 60, 120, 200] 100 = (120 :: u16)" by (simp add: owner_def)
  from lookup_over_ring [OF ok(2-4) lookup_for_simps(1,2), of 0 "\<lambda>_. 0"] show ?thesis
    unfolding ok(1) l w lookup_for_simps(3) o Let_def by simp
qed

text \<open>
  Peer 200 on the ring of \<open>sample_nodes\<close> is asked for the key \<open>d\<close>, which peer 120 owns; the reply
  arrives on socket 6, the owner is reached on socket 9.
\<close>

definition ask_world :: world where
  "ask_world = sample_world\<lparr>w_pred := Some (ring_peer 120 4120), w_self := Some (ring_peer 200 4200), w_succ := Some (ring_peer 10 4010)\<rparr>"

lemma ask_world_ok:
  "asking (ring_peer 120 4120) (ring_peer 200 4200) (ring_peer 10 4010) (map of_char ''d'') 100 new_client one_client ask_world"
  "reachable (ring_peer 10 4010) 8 (sample_ai 16777343) ask_world" "send_ready 11 ask_world"
  "peer_get_ip (ring_peer 200 4200) ask_world = 2130706433" "trace ask_world = []" "w_ht ask_world = ut_empty"
proof -
  show "asking (ring_peer 120 4120) (ring_peer 200 4200) (ring_peer 10 4010) (map of_char ''d'') 100 new_client one_client ask_world"
    using serving_sample one_client_simps(3) sample_world_simps(4) rt_wf_empty
    by (simp add: asking_def ask_world_def ring_state_def world_wf_def pseudo_hash_def peer_is_responsible_def ring_peer_def)
  show "reachable (ring_peer 10 4010) 8 (sample_ai 16777343) ask_world" "send_ready 11 ask_world"
    by (simp_all add: reachable_def peer_lookup_def send_ready_def ask_world_def sample_world_def net.defs)
  show "peer_get_ip (ring_peer 200 4200) ask_world = 2130706433" by (rule sample_ip) (simp add: ask_world_def)
qed (simp_all add: ask_world_def)

text \<open>A later state of the network with the same tables, in which the owner answers with the bytes \<open>cs\<close>.\<close>

definition later :: "byte list list \<Rightarrow> world \<Rightarrow> world" where
  "later cs w = w\<lparr>gai := \<lambda>_ _. Some [sample_ai 16777343], socket_res := [9], connect_res := [0], send_res := replicate 64 7,
     inq := (\<lambda>_. [])(9 := map RData cs @ [RData []]), trace := []\<rparr>"

lemma later_ok:
  assumes "\<forall>c \<in> set cs. c \<noteq> []" "n + length (concat cs) \<le> 64"
  shows "net.more (later cs w) = net.more w" "trace (later cs w) = []" "proxy_env p 6 9 (sample_ai 16777343) n (concat cs) (later cs w)"
  using assms by (auto simp: later_def proxy_env_def reachable_def peer_lookup_def send_ready_def)

text \<open>A SET of the key \<open>d\<close> at peer 200; any answer of the owner is relayed, here the acknowledgement.\<close>

theorem request_over_ring_witness:
  "\<exists>cl1 w1 e0 w3 e1 e2 n. loop_steps (handle_packet (\<lambda>_. 0)) (\<lambda>_. 0) 0 (one_client, feed 5 [[2, 0, 1], [0, 0, 0, 2, 100, 7, 0]] [] ask_world) (put_client cl1 one_client, w1) \<and>
     trace w1 = EvConnect 8 (ai_addr (sample_ai 16777343)) # e0 @ [EvClose 8] \<and>
     sent_to 8 e0 = [129, 0, 100, 0, 200, 127, 0, 0, 1, 16, 104] \<and>
     loop_steps (handle_packet (\<lambda>_. 0)) (\<lambda>_. 0) 1 (server_add_client (\<lambda>_. 0) 6 (put_client cl1 one_client),
         feed 6 [[130, 0, 100, 0, 120], [127, 0, 0, 1, 16, 24]] [] (later [[10, 0], [0, 0, 0, 0, 0]] w1))
       (without 0 (without 1 (server_add_client (\<lambda>_. 0) 6 (put_client cl1 one_client))), w3) \<and>
     sent_to 9 e1 = [2, 0, 1, 0, 0, 0, 2, 100, 7, 0] \<and> sent_to 5 e2 = [10, 0, 0, 0, 0, 0, 0] \<and>
     trace w3 = EvConnect 9 (ai_addr (sample_ai 16777343)) # e1 @ [EvClose 9] @ e2 @ [EvClose 9, EvClose 6, EvClose 5] \<and>
     n < 4 \<and> sends (\<lambda>_. 0) (sample_nodes [[129, 0], [100, 0, 200, 127, 0, 0, 1], [16, 104]] ! (n mod 4)) (sample_ai 16777343) [130, 0, 100, 0, 120, 127, 0, 0, 1, 16, 24]"
proof -
  let ?k = "map of_char ''d'' :: byte list"
  let ?req = "[2, 0, 1, 0, 0, 0, 2, 100, 7, 0] :: byte list" and ?ans = "[10, 0, 0, 0, 0, 0, 0] :: byte list"
  let ?ls = "[[129, 0], [100, 0, 200, 127, 0, 0, 1], [16, 104]] :: byte list list" and ?as = "[[10, 0], [0, 0, 0, 0, 0]] :: byte list list"
  let ?lk = "lookup_for 100 (ring_peer 200 4200) (peer_get_ip (ring_peer 200 4200) ask_world)"
  let ?rp = "reply_for 100 (nd_self (sample_nodes ?ls ! 2)) (nd_ip (sample_nodes ?ls ! 2))"
  have req: "concat [[2, 0, 1], [0, 0, 0, 2, 100, 7, 0]] = request_wire PKT_FLAG_SET ?k [7, 0]" "request_wire PKT_FLAG_SET ?k [7, 0] = ?req"
    by (simp_all add: request_wire_def PKT_FLAG_SET_def be16_def be32_def)
  have fl: "\<not> has_flag PKT_FLAG_SET PKT_FLAG_CTRL" "length ?k < 2 ^ 16" "length ?k + length [7, 0 :: byte] < 2 ^ 31" "?k \<noteq> []"
    by (simp_all add: has_flag_def flag_defs)
  have lk: "wire ?lk = concat ?ls" unfolding ask_world_ok(4) by code_simp
  have cs: "\<forall>c \<in> set ?ls. c \<noteq> []" "concat ?ls = wire ?lk" by (simp_all add: lk)
  note ok = sample_nodes_ok [OF cs]
  have l: "length (sample_nodes ?ls) = 4" by (simp add: sample_nodes_def)
  have r: "ring_of (sample_nodes ?ls) ! 2 = owner (ring_of (sample_nodes ?ls)) 100" "ring_of (sample_nodes ?ls) ! 0 < 100"
    unfolding ok(1) by (simp_all add: owner_def)
  have rp: "concat [[130, 0, 100, 0, 120], [127, 0, 0, 1, 16, 24]] = wire ?rp"
  proof -
    have n: "nd_self (sample_nodes ?ls ! 2) = ring_peer 120 4120" "nd_ip (sample_nodes ?ls ! 2) = 2130706433"
      by (simp_all add: sample_nodes_def sample_node_def Let_def)
    show ?thesis unfolding n by code_simp
  qed
  have asker: "nd_asker_ai (sample_nodes ?ls ! (n mod 4)) = sample_ai 16777343" for n
  proof -
    have "sample_nodes ?ls ! (n mod 4) \<in> set (sample_nodes ?ls)" using l by (intro nth_mem) simp
    then show ?thesis by (auto simp: sample_nodes_def sample_node_def Let_def)
  qed
  have socks: "distinct (map c_socket (clients one_client))" "6 \<notin> c_socket ` set (clients one_client)" "next_id one_client = 1"
    by (simp_all add: one_client_simps(1) new_client_socket) (simp add: one_client_def server_add_client_def)
  have n: "net.more (later ?as w1) = net.more w1" "trace (later ?as w1) = []"
    "proxy_env (peer_from_packet ?rp) 6 9 (sample_ai 16777343) (length ?req) ?ans (later ?as w1)" for w1
    using later_ok(1,2) [of ?as 0 w1] later_ok(3) [of ?as "length ?req" "peer_from_packet ?rp" w1] by simp_all
  have ne: "\<forall>x \<in> set [[2, 0, 1], [0, 0, 0, 2, 100, 7, 0 :: byte]]. x \<noteq> []" "\<forall>x \<in> set [[130, 0, 100, 0, 120], [127, 0, 0, 1, 16, 24 :: byte]]. x \<noteq> []"
    and ij: "0 < length (sample_nodes ?ls)" "2 < length (sample_nodes ?ls)" by (simp_all add: l)
  note e = request_over_ring [OF ask_world_ok(1-3) fl ne(1) req(1) refl ok(2-4) ij(1) r(2) ij(2) r(1) refl socks(1,2) ne(2) rp,
      of "\<lambda>_. 0" ?ans "\<lambda>_. 0"]
  obtain cl1 w1 e0 where a: "loop_steps (handle_packet (\<lambda>_. 0)) (\<lambda>_. 0) 0 (one_client, feed 5 [[2, 0, 1], [0, 0, 0, 2, 100, 7, 0]] [] ask_world) (put_client cl1 one_client, w1)"
    "trace w1 = EvConnect 8 (ai_addr (sample_ai 16777343)) # e0 @ [EvClose 8]" "sent_to 8 e0 = concat ?ls"
    and b: "\<And>w2 t ait. net.more w2 = net.more w1 \<Longrightarrow> proxy_env (peer_from_packet ?rp) 6 t ait (length ?req) ?ans w2 \<Longrightarrow>
      \<exists>w3 e1 e2. loop_steps (handle_packet (\<lambda>_. 0)) (\<lambda>_. 0) 1 (server_add_client (\<lambda>_. 0) 6 (put_client cl1 one_client),
          feed 6 [[130, 0, 100, 0, 120], [127, 0, 0, 1, 16, 24]] [] w2)
          (without 0 (without 1 (server_add_client (\<lambda>_. 0) 6 (put_client cl1 one_client))), w3) \<and>
        w_ht w3 = w_ht ask_world \<and> rt_queue (w_rt w3) = rt_queue (w_rt ask_world) \<and>
        trace w3 = trace w2 @ EvConnect t (ai_addr ait) # e1 @ [EvClose t] @ e2 @ [EvClose t, EvClose 6, EvClose 5] \<and>
        sent_to t e1 = ?req \<and> sent_to 5 e2 = ?ans"
    using conjunct1 [OF e] unfolding socks(3) one_client_simps(4) new_client_socket ask_world_ok(5) lk append_Nil req(2) by blast
  obtain m where m: "m < 4" "sends (\<lambda>_. 0) (sample_nodes ?ls ! (m mod 4)) (sample_ai 16777343) (concat [[130, 0, 100, 0, 120], [127, 0, 0, 1, 16, 24]])"
    using conjunct2 [OF e] unfolding l add_0 asker rp by blast
  show ?thesis using a b [OF n(1,3)] m unfolding n(2) append_Nil concat.simps append.simps by blast
qed

end
