(* ===== verification/Webserver.thy ===== *)
theory Webserver
  imports Net_IO
begin

text \<open>
  The web server of the first exercise, \<open>praxis1/webserver.c\<close>: one connection, a receive buffer
  that is scanned for the end of a request, and a second buffer for requests that arrive in
  pieces. Every operation returns its result or failure together with the sockets state, so
  that what was sent before the process ended stays visible; \<^const>\<open>None\<close> is a loop that never
  ends.

  \<open>usable n\<close> is the number of bytes the allocator really provides for \<open>malloc(n)\<close>: the
  administration structure is allocated with the size of a pointer.
\<close>

section \<open>Strings in memory\<close>

text \<open>\<open>printf("%s", b)\<close> reads up to the first NUL.\<close>

definition print_str :: "byte list \<Rightarrow> unit res" where
  "print_str b = (if 0 \<in> set b then Inr () else Inl Out_Of_Bounds)"

text \<open>\<open>strncmp(a, b, n) == 0\<close>; reading stops at the first difference and at a NUL.\<close>

fun strncmp_eq :: "byte list \<Rightarrow> byte list \<Rightarrow> nat \<Rightarrow> bool res" where
  "strncmp_eq a b 0 = Inr True"
| "strncmp_eq (x # a) (y # b) (Suc n) =
     (if x \<noteq> y then Inr False else if x = 0 then Inr True else strncmp_eq a b n)"
| "strncmp_eq a b (Suc n) = Inl Out_Of_Bounds"

text \<open>\<open>strncpy(dst + off, src + from, n)\<close>.\<close>

definition strncpy_at :: "byte list \<Rightarrow> nat \<Rightarrow> byte list \<Rightarrow> nat \<Rightarrow> nat \<Rightarrow> byte list res" where
  "strncpy_at dst off src from n = bind_res (strncpy_bytes (drop from src) n) (store_at dst off)"

section \<open>Buffers\<close>

definition BUFFER_SIZE :: int where "BUFFER_SIZE = 100"

record buf_struct =
  buffer :: "byte list"
  available_space :: int
  used_space :: int
  scanner_index :: int
  req_begin_index :: int

text \<open>The product of an \<open>int\<close> with 2, in 32 bits.\<close>

definition twice :: "int \<Rightarrow> int" where
  "twice n = signed_take_bit 31 (n * 2)"

text \<open>
  In \<open>malloc(sizeof(buf_struct))\<close> the name is already the variable: 8 bytes are requested for
  a structure of 24.
\<close>

definition buf_struct_init :: "(nat \<Rightarrow> nat) \<Rightarrow> int \<Rightarrow> buf_struct res" where
  "buf_struct_init usable buf_size =
     (if buf_size \<le> 0 then Inl (Exit 1)
      else if usable 8 < 24 then Inl Out_Of_Bounds
      else Inr \<lparr>buffer = replicate (nat buf_size) 0, available_space = buf_size, used_space = 0,
        scanner_index = 0, req_begin_index = 0\<rparr>)"

definition buf_struct_expand :: "(nat \<Rightarrow> nat) \<Rightarrow> buf_struct \<Rightarrow> buf_struct res" where
  "buf_struct_expand usable old_buf =
     bind_res (buf_struct_init usable (twice (available_space old_buf))) (\<lambda>new_buf.
     bind_res (strncpy_at (buffer new_buf) 0 (buffer old_buf) 0 (nat (used_space old_buf))) (\<lambda>b.
     bind_res (print_str (buffer old_buf)) (\<lambda>_.
     bind_res (print_str b) (\<lambda>_.
     Inr (new_buf\<lparr>buffer := b, used_space := used_space old_buf, scanner_index := scanner_index old_buf\<rparr>)))))"

text \<open>The unused comparison with the end of a buffer; \<open>valid_bytes\<close> must not be below the length.\<close>

definition cmp_buffend_terminator :: "byte list \<Rightarrow> int \<Rightarrow> byte list \<Rightarrow> int \<Rightarrow> int res" where
  "cmp_buffend_terminator b valid_bytes terminator terminator_len =
     (if valid_bytes < terminator_len then Inl Out_Of_Bounds
      else
        bind_res (strncpy_bytes (drop (nat (valid_bytes - terminator_len)) b) (nat terminator_len)) (\<lambda>last_bytes.
        bind_res (strncmp_eq last_bytes terminator (nat terminator_len)) (\<lambda>eq.
        Inr (if eq then 1 else 0))))"

section \<open>Answering\<close>

type_synonym 'a web = "net \<Rightarrow> (c_error + 'a) \<times> net"

definition http_terminator :: "byte list" where
  "http_terminator = [13, 10, 13, 10]"

definition reply_msg :: "byte list" where
  "reply_msg = [82, 101, 112, 108, 121, 13, 10]"

text \<open>\<open>sizeof(reply_msg)-1\<close> is 7, the size of a pointer less one.\<close>

definition process_request :: "byte list \<Rightarrow> int \<Rightarrow> unit web" where
  "process_request request reply_socket w =
     (case print_str request of Inl e \<Rightarrow> (Inl e, w)
      | Inr _ \<Rightarrow>
         (case sys_send reply_socket (take (8 - 1) reply_msg) w of Inl e \<Rightarrow> (Inl e, w)
          | Inr (n, w) \<Rightarrow> (if n < 0 then Inl (Exit 1) else Inr (), w)))"

text \<open>\<open>close(connection_fd); close(listener_fd); exit(1)\<close>.\<close>

definition give_up :: "int \<Rightarrow> int \<Rightarrow> 'a web" where
  "give_up connection_fd listener_fd w = (Inl (Exit 1), sys_close listener_fd (sys_close connection_fd w))"

section \<open>The two scan loops\<close>

definition terminator_at :: "buf_struct \<Rightarrow> bool res" where
  "terminator_at b = strncmp_eq (drop (nat (scanner_index b)) (buffer b)) http_terminator 4"

function recv_scan :: "int \<Rightarrow> int \<Rightarrow> buf_struct \<Rightarrow> bool \<Rightarrow> (buf_struct \<times> bool) web" where
  "recv_scan connection_fd listener_fd b fully w =
     (if scanner_index b \<le> used_space b - 4 then
        (case terminator_at b of
           Inl e \<Rightarrow> (Inl e, w)
         | Inr terminator_present \<Rightarrow>
             if terminator_present then
               (if scanner_index b = req_begin_index b then give_up connection_fd listener_fd w
                else
                  (case process_request (buffer b) connection_fd w of
                     (Inl e, w) \<Rightarrow> (Inl e, w)
                   | (Inr _, w) \<Rightarrow>
                       if scanner_index b = used_space b - 4
                       then recv_scan connection_fd listener_fd (b\<lparr>scanner_index := scanner_index b + 1\<rparr>) True w
                       else recv_scan connection_fd listener_fd
                         (b\<lparr>req_begin_index := scanner_index b + 4, scanner_index := scanner_index b + 1\<rparr>) fully w))
             else recv_scan connection_fd listener_fd (b\<lparr>scanner_index := scanner_index b + 1\<rparr>) fully w)
      else (Inr (b, fully), w))"
  by pat_completeness auto
termination
  by (relation "measure (\<lambda>(c, l, b, f, w). nat (used_space b - 3 - scanner_index b))") auto

declare recv_scan.simps [simp del]

text \<open>
  The scan of the second buffer. The loop body does not advance \<open>scanner_index\<close>: it is left
  only through a terminator at the current position. The result is \<open>terminator_present2\<close>,
  \<open>remaining\<close> and the receive buffer, into which the rest of the data is copied back.
\<close>

definition finish_request ::
  "int \<Rightarrow> buf_struct \<Rightarrow> buf_struct \<Rightarrow> (bool \<times> int \<times> buf_struct) web" where
  "finish_request connection_fd req_buf recv_buf w =
     (case process_request (buffer req_buf) connection_fd w of
        (Inl e, w) \<Rightarrow> (Inl e, w)
      | (Inr _, w) \<Rightarrow>
          let remaining = used_space req_buf - (scanner_index req_buf + 4) in
          if remaining = 0 then (Inr (True, 0, recv_buf), w)
          else
            (case strncpy_at (buffer recv_buf) 0 (buffer req_buf) (nat (used_space req_buf - remaining)) (nat remaining) of
               Inl e \<Rightarrow> (Inl e, w)
             | Inr b \<Rightarrow> (Inr (True, remaining, recv_buf\<lparr>buffer := b, used_space := remaining\<rparr>), w)))"

partial_function (option) req_scan ::
  "int \<Rightarrow> int \<Rightarrow> buf_struct \<Rightarrow> buf_struct \<Rightarrow> net \<Rightarrow> ((c_error + bool \<times> int \<times> buf_struct) \<times> net) option" where
  "req_scan connection_fd listener_fd req_buf recv_buf w =
     (if scanner_index req_buf \<le> used_space req_buf - 4 then
        (case terminator_at req_buf of
           Inl e \<Rightarrow> Some (Inl e, w)
         | Inr terminator_present2 \<Rightarrow>
             if terminator_present2 then
               (if scanner_index req_buf = 0 then Some (give_up connection_fd listener_fd w)
                else Some (finish_request connection_fd req_buf recv_buf w))
             else req_scan connection_fd listener_fd req_buf recv_buf w)
      else Some (Inr (False, 0, recv_buf), w))"

section \<open>The main loop\<close>

text \<open>A \<open>recv\<close> into the receive buffer with the checks that follow it.\<close>

definition web_recv :: "int \<Rightarrow> int \<Rightarrow> buf_struct \<Rightarrow> buf_struct web" where
  "web_recv connection_fd listener_fd b w =
     (case sys_recv connection_fd (nat (available_space b)) w of Inl e \<Rightarrow> (Inl e, w)
      | Inr (received_bytes, bs, w) \<Rightarrow>
          if received_bytes < 0 then give_up connection_fd listener_fd w
          else if received_bytes = 0 then give_up connection_fd listener_fd w
          else
            (case bind_res (store_at (buffer b) 0 bs) (\<lambda>c. bind_res (print_str c) (\<lambda>_. Inr c)) of
               Inl e \<Rightarrow> (Inl e, w)
             | Inr c \<Rightarrow> (Inr (b\<lparr>buffer := c, used_space := received_bytes\<rparr>), w)))"

text \<open>The second buffer starts with what the receive buffer holds and grows by one receive buffer at a time.\<close>

definition new_req_buf :: "(nat \<Rightarrow> nat) \<Rightarrow> buf_struct \<Rightarrow> buf_struct res" where
  "new_req_buf usable recv_buf =
     bind_res (buf_struct_init usable (twice (available_space recv_buf))) (\<lambda>req_buf.
     bind_res (strncpy_at (buffer req_buf) 0 (buffer recv_buf) 0 (nat (used_space recv_buf))) (\<lambda>b.
     Inr (req_buf\<lparr>buffer := b, used_space := used_space recv_buf\<rparr>)))"

definition append_recv :: "(nat \<Rightarrow> nat) \<Rightarrow> buf_struct \<Rightarrow> buf_struct \<Rightarrow> buf_struct res" where
  "append_recv usable req_buf recv_buf =
     bind_res (if available_space req_buf - used_space req_buf < used_space recv_buf
               then buf_struct_expand usable req_buf else Inr req_buf) (\<lambda>req_buf.
     bind_res (strncpy_at (buffer req_buf) (nat (used_space req_buf)) (buffer recv_buf) 0 (nat (used_space recv_buf))) (\<lambda>b.
     Inr (req_buf\<lparr>buffer := b, used_space := used_space req_buf + used_space recv_buf\<rparr>)))"

text \<open>
  The places between which the main program moves: the outer \<open>recv\<close>, the label
  \<open>RECV_SCAN\<close>, and the inner \<open>recv\<close> with its second buffer.
\<close>

datatype web_pc = Outer_Recv | Recv_Scan | Inner_Recv buf_struct

record web_state =
  pc :: web_pc
  recv_buf :: buf_struct
  recv_buf_fully_processed :: bool

definition web_step ::
  "(nat \<Rightarrow> nat) \<Rightarrow> int \<Rightarrow> int \<Rightarrow> web_state \<Rightarrow> net \<Rightarrow> ((c_error + web_state) \<times> net) option" where
  "web_step usable connection_fd listener_fd st w = (case pc st of
     Outer_Recv \<Rightarrow>
       (case web_recv connection_fd listener_fd (recv_buf st) w of
          (Inl e, w) \<Rightarrow> Some (Inl e, w)
        | (Inr b, w) \<Rightarrow> Some (Inr (st\<lparr>pc := Recv_Scan, recv_buf := b\<rparr>), w))
   | Recv_Scan \<Rightarrow>
       (case recv_scan connection_fd listener_fd (recv_buf st) (recv_buf_fully_processed st) w of
          (Inl e, w) \<Rightarrow> Some (Inl e, w)
        | (Inr (b, fully), w) \<Rightarrow>
            let st = st\<lparr>recv_buf := b, recv_buf_fully_processed := fully\<rparr> in
            if fully then Some (Inr (st\<lparr>pc := Outer_Recv\<rparr>), w)
            else (case new_req_buf usable b of
                Inl e \<Rightarrow> Some (Inl e, w)
              | Inr req_buf \<Rightarrow> Some (Inr (st\<lparr>pc := Inner_Recv req_buf\<rparr>), w)))
   | Inner_Recv req_buf \<Rightarrow>
       (case web_recv connection_fd listener_fd (recv_buf st) w of
          (Inl e, w) \<Rightarrow> Some (Inl e, w)
        | (Inr b, w) \<Rightarrow>
            (case append_recv usable req_buf b of
               Inl e \<Rightarrow> Some (Inl e, w)
             | Inr req_buf \<Rightarrow>
                 (case req_scan connection_fd listener_fd req_buf b w of
                    None \<Rightarrow> None
                  | Some (Inl e, w) \<Rightarrow> Some (Inl e, w)
                  | Some (Inr (terminator_present2, remaining, b), w) \<Rightarrow>
                      if \<not> terminator_present2 then Some (Inr (st\<lparr>recv_buf := b, pc := Inner_Recv req_buf\<rparr>), w)
                      else if remaining \<noteq> 0 then Some (Inr (st\<lparr>recv_buf := b, pc := Recv_Scan\<rparr>), w)
                      else Some (Inr (st\<lparr>recv_buf := b\<lparr>scanner_index := 0\<rparr>, pc := Outer_Recv\<rparr>), w)))))"

text \<open>The loop has no exit of its own: the run ends with a failure, or blocked, or never.\<close>

partial_function (option) web_run ::
  "(nat \<Rightarrow> nat) \<Rightarrow> int \<Rightarrow> int \<Rightarrow> web_state \<Rightarrow> net \<Rightarrow> (c_error \<times> net) option" where
  "web_run usable connection_fd listener_fd st w =
     (case web_step usable connection_fd listener_fd st w of
        None \<Rightarrow> None
      | Some (r, w) \<Rightarrow>
          (case r of Inl e \<Rightarrow> Some (e, w)
           | Inr st \<Rightarrow> web_run usable connection_fd listener_fd st w))"

text \<open>
  The main program: \<open>passive\<close> is the lookup of the local address for the port argument, \<open>br\<close>,
  \<open>lr\<close> and \<open>ar\<close> are the answers of \<open>bind\<close>, \<open>listen\<close> and \<open>accept\<close>.
\<close>

definition web_address :: "addrinfo list option \<Rightarrow> addrinfo res" where
  "web_address passive = (case passive of None \<Rightarrow> Inl (Exit 1) | Some [] \<Rightarrow> Inl Null_Deref
     | Some (listener_addrinfo # _) \<Rightarrow> Inr listener_addrinfo)"

definition web_main ::
  "(nat \<Rightarrow> nat) \<Rightarrow> addrinfo list option \<Rightarrow> int \<Rightarrow> int \<Rightarrow> int \<Rightarrow> net \<Rightarrow> (c_error \<times> net) option" where
  "web_main usable passive br lr ar w =
     (case web_address passive of Inl e \<Rightarrow> Some (e, w)
      | Inr listener_addrinfo \<Rightarrow>
          (case sys_socket w of Inl e \<Rightarrow> Some (e, w)
           | Inr (listener_fd, w) \<Rightarrow>
               if listener_fd < 0 then Some (Exit 1, w)
               else if br < 0 then Some (Exit 1, w)
               else if lr < 0 then Some (Exit 1, w)
               else if ar < 0 then Some (Exit 1, w)
               else
                 (case buf_struct_init usable BUFFER_SIZE of Inl e \<Rightarrow> Some (e, w)
                  | Inr b \<Rightarrow> web_run usable ar listener_fd
                      \<lparr>pc = Outer_Recv, recv_buf = b, recv_buf_fully_processed = False\<rparr> w)))"

section \<open>Where requests end\<close>

text \<open>A terminator at position \<open>i\<close> of the first \<open>n\<close> bytes, and all its positions from \<open>k\<close> on.\<close>

definition hit :: "byte list \<Rightarrow> nat \<Rightarrow> nat \<Rightarrow> bool" where
  "hit buf n i \<longleftrightarrow> i + 4 \<le> n \<and> take 4 (drop i buf) = http_terminator"

definition hits :: "byte list \<Rightarrow> nat \<Rightarrow> nat \<Rightarrow> nat list" where
  "hits buf n k = filter (hit buf n) [k..<n - 3]"

lemma hits_Cons: "k + 4 \<le> n \<Longrightarrow> hits buf n k = (if hit buf n k then [k] else []) @ hits buf n (Suc k)"
  by (simp add: hits_def upt_conv_Cons)

lemma hits_Nil: "n < k + 4 \<Longrightarrow> hits buf n k = []"
  by (simp add: hits_def)

lemma strncmp_eq_no_nul:
  "0 \<notin> set b \<Longrightarrow> length b = n \<Longrightarrow> n \<le> length a \<Longrightarrow> strncmp_eq a b n = Inr (take n a = b)"
  by (induction a b n rule: strncmp_eq.induct) auto

lemma strncmp_terminator: "4 \<le> length a \<Longrightarrow> strncmp_eq a http_terminator 4 = Inr (take 4 a = http_terminator)"
  by (rule strncmp_eq_no_nul) (simp_all add: http_terminator_def)

lemma terminator_at_hit:
  assumes "scanner_index b = int k" "k + 4 \<le> n" "n \<le> length (buffer b)"
  shows "terminator_at b = Inr (hit (buffer b) n k)"
  using assms strncmp_terminator [of "drop k (buffer b)"] by (simp add: terminator_at_def hit_def)

text \<open>No request is empty: no terminator where a request begins.\<close>

definition no_blank :: "byte list \<Rightarrow> nat \<Rightarrow> nat \<Rightarrow> int \<Rightarrow> bool" where
  "no_blank buf n k r \<longleftrightarrow> (\<forall>i. k \<le> i \<longrightarrow> hit buf n i \<longrightarrow> int i \<noteq> r) \<and>
     (\<forall>i j. k \<le> i \<longrightarrow> hit buf n i \<longrightarrow> k \<le> j \<longrightarrow> hit buf n j \<longrightarrow> i \<noteq> j + 4)"

lemma no_blank_Suc: "no_blank buf n k r \<Longrightarrow> no_blank buf n (Suc k) r"
  by (simp add: no_blank_def Suc_le_eq)

lemma no_blank_next: "no_blank buf n k r \<Longrightarrow> hit buf n k \<Longrightarrow> no_blank buf n (Suc k) (int k + 4)"
proof -
  assume nb: "no_blank buf n k r" and h: "hit buf n k"
  have "int i \<noteq> int k + 4" if "Suc k \<le> i" "hit buf n i" for i
  proof -
    have "i \<noteq> k + 4"
      using nb [unfolded no_blank_def, THEN conjunct2, rule_format, of i k] h that by linarith
    then show ?thesis by linarith
  qed
  moreover have "no_blank buf n (Suc k) r" using nb by (rule no_blank_Suc)
  ultimately show ?thesis by (simp add: no_blank_def)
qed

definition replied :: "int \<Rightarrow> nat \<Rightarrow> int list \<Rightarrow> net \<Rightarrow> net" where
  "replied c m rest w = w\<lparr>send_res := rest, trace := trace w @ replicate m (EvSend c reply_msg)\<rparr>"

lemma process_request_replies:
  assumes "0 \<in> set b" "send_res w = 7 # rest"
  shows "process_request b c w = (Inr (), replied c 1 rest w)"
  using assms by (simp add: process_request_def print_str_def sys_send_def Let_def log_event_def reply_msg_def replied_def)

lemma replied_replied: "replied c m rest' (replied c k rest w) = replied c (k + m) rest' w"
  by (simp add: replied_def replicate_add)

text \<open>The scan answers once per terminator and notes whether the data end with one.\<close>

text \<open>One round of the scan of the receive buffer, without and with a terminator at the position.\<close>

lemma recv_scan_miss:
  assumes "used_space b = int n" "n \<le> length (buffer b)" "scanner_index b = int k" "k + 4 \<le> n" "\<not> hit (buffer b) n k"
  shows "recv_scan c l b fully w = recv_scan c l (b\<lparr>scanner_index := scanner_index b + 1\<rparr>) fully w"
  using assms terminator_at_hit [of b k n] by (subst recv_scan.simps) simp

lemma recv_scan_hit:
  assumes "used_space b = int n" "n \<le> length (buffer b)" "scanner_index b = int k" "k + 4 \<le> n" "hit (buffer b) n k"
    "scanner_index b \<noteq> req_begin_index b" "process_request (buffer b) c w = (Inr (), w1)"
  shows "recv_scan c l b fully w =
    (if n = k + 4 then recv_scan c l (b\<lparr>scanner_index := scanner_index b + 1\<rparr>) True w1
     else recv_scan c l (b\<lparr>req_begin_index := scanner_index b + 4, scanner_index := scanner_index b + 1\<rparr>) fully w1)"
  using assms terminator_at_hit [of b k n] by (subst recv_scan.simps) simp

lemma recv_scan_replies:
  assumes "used_space b = int n" "n \<le> length (buffer b)" "0 \<in> set (buffer b)" "scanner_index b = int k"
    "no_blank (buffer b) n k (req_begin_index b)"
    "send_res w = replicate (length (hits (buffer b) n k)) 7 @ rest"
  shows "\<exists>x. recv_scan c l b fully w =
     (Inr (b\<lparr>scanner_index := int (max k (n - 3)), req_begin_index := x\<rparr>, fully \<or> k + 4 \<le> n \<and> hit (buffer b) n (n - 4)),
      replied c (length (hits (buffer b) n k)) rest w)"
  using assms
proof (induction "n - k" arbitrary: b k fully w rule: less_induct)
  case less
  let ?buf = "buffer b"
  show ?case
  proof (cases "k + 4 \<le> n")
    case False
    then have "int (max k (n - 3)) = scanner_index b" using less.prems(4) by simp
    moreover have "hits ?buf n k = []" using False by (simp add: hits_Nil)
    moreover have "\<not> scanner_index b \<le> used_space b - 4" using False less.prems(1,4) by simp
    ultimately show ?thesis using False less.prems(6)
      by (subst recv_scan.simps) (auto simp: replied_def intro!: exI [of _ "req_begin_index b"])
  next
    case True
    have mx: "max (Suc k) (n - 3) = max k (n - 3)" using True by simp
    have dec: "n - Suc k < n - k" using True by simp
    show ?thesis
    proof (cases "hit ?buf n k")
      case False
      let ?b = "b\<lparr>scanner_index := scanner_index b + 1\<rparr>"
      note eq = recv_scan_miss [OF less.prems(1,2,4) True False]
      have hs: "hits ?buf n k = hits ?buf n (Suc k)" using True False by (simp add: hits_Cons)
      have "k + 4 \<le> n \<and> hit ?buf n (n - 4) \<longleftrightarrow> Suc k + 4 \<le> n \<and> hit ?buf n (n - 4)"
      proof (cases "n = k + 4")
        case True
        then show ?thesis using False by simp
      qed (use True in simp)
      with less.hyps [OF dec, of ?b w fully] no_blank_Suc [OF less.prems(5)] less.prems eq hs mx
      show ?thesis by simp
    next
      case hit: True
      have ne: "scanner_index b \<noteq> req_begin_index b" using less.prems(4,5) hit by (simp add: no_blank_def)
      have hs: "hits ?buf n k = k # hits ?buf n (Suc k)" using True hit by (simp add: hits_Cons)
      obtain rest1 where rest1: "send_res w = 7 # rest1" "rest1 = replicate (length (hits ?buf n (Suc k))) 7 @ rest"
        using less.prems(6) hs by simp
      have pr: "process_request ?buf c w = (Inr (), replied c 1 rest1 w)"
        using process_request_replies less.prems(3) rest1(1) by blast
      have sr: "send_res (replied c 1 rest1 w) = replicate (length (hits ?buf n (Suc k))) 7 @ rest"
        using rest1(2) by (simp add: replied_def)
      note step = recv_scan_hit [OF less.prems(1,2,4) True hit ne pr]
      show ?thesis
      proof (cases "n = k + 4")
        case last: True
        let ?b = "b\<lparr>scanner_index := scanner_index b + 1\<rparr>"
        from step last less.hyps [OF dec, of ?b "replied c 1 rest1 w" True] no_blank_Suc [OF less.prems(5)] less.prems sr mx hs hit last
        show ?thesis by (simp add: replied_replied)
      next
        case more: False
        let ?b = "b\<lparr>req_begin_index := scanner_index b + 4, scanner_index := scanner_index b + 1\<rparr>"
        from step more less.hyps [OF dec, of ?b "replied c 1 rest1 w" fully] no_blank_next [OF less.prems(5) hit] less.prems sr mx hs True more
        show ?thesis by (simp add: replied_replied)
      qed
    qed
  qed
qed

section \<open>A loop that does not end\<close>

lemma req_scan_stuck:
  assumes "scanner_index q \<le> used_space q - 4" "terminator_at q = Inr False"
  shows "req_scan c l q b w = None"
proof (rule ccontr)
  assume "req_scan c l q b w \<noteq> None"
  then obtain y where ret: "req_scan c l q b w = Some y" by blast
  have "\<not> (scanner_index q \<le> used_space q - 4 \<and> terminator_at q = Inr False)"
    by (rule req_scan.raw_induct [where P = "\<lambda>c l q b w y. \<not> (scanner_index q \<le> used_space q - 4 \<and> terminator_at q = Inr False)", OF _ ret])
       auto
  then show False using assms by blast
qed

section \<open>Receiving\<close>

text \<open>A receive buffer of the announced size whose last byte is NUL, as \<open>printf\<close> needs it.\<close>

definition recv_ok :: "buf_struct \<Rightarrow> bool" where
  "recv_ok b \<longleftrightarrow> buffer b \<noteq> [] \<and> last (buffer b) = 0 \<and> available_space b = int (length (buffer b))"

lemma recv_ok_nul: "recv_ok b \<Longrightarrow> m < length (buffer b) \<Longrightarrow> 0 \<in> set (drop m (buffer b))"
  by (metis drop_eq_Nil2 last_drop last_in_set linorder_not_le recv_ok_def)

lemma web_recv_ok:
  assumes "recv_ok b" "inq w c = RData bs # q" "bs \<noteq> []" "length bs < length (buffer b)"
    "b' = b\<lparr>buffer := bs @ drop (length bs) (buffer b), used_space := int (length bs)\<rparr>"
  shows "web_recv c l b w = (Inr b', w\<lparr>inq := (inq w)(c := q)\<rparr>) \<and> recv_ok b'"
proof -
  have "0 \<in> set (bs @ drop (length bs) (buffer b))" using recv_ok_nul assms(1,4) by simp
  moreover have "recv_ok b'" using assms(1,4,5) by (auto simp: recv_ok_def)
  ultimately show ?thesis
    using assms by (simp add: web_recv_def sys_recv_def recv_ok_def store_at_def print_str_def)
qed

lemma web_recv_eof:
  assumes "inq w c = RData [] # q"
  shows "web_recv c l b w = (Inl (Exit 1), w\<lparr>inq := (inq w)(c := q), trace := trace w @ [EvClose c, EvClose l]\<rparr>)"
  using assms by (simp add: web_recv_def sys_recv_def give_up_def sys_close_def log_event_def)

text \<open>After a receive buffer that ended with a terminator, data that are not longer are never looked at.\<close>

lemma web_run_ignores:
  assumes "recv_ok b" "\<forall>x \<in> set later. x \<noteq> [] \<and> int (length x) \<le> scanner_index b + 3"
    "scanner_index b + 3 < int (length (buffer b))" "inq w c = map RData later @ RData [] # q"
  shows "\<exists>w'. web_run usable c l \<lparr>pc = Outer_Recv, recv_buf = b, recv_buf_fully_processed = True\<rparr> w = Some (Exit 1, w') \<and>
     trace w' = trace w @ [EvClose c, EvClose l]"
  using assms
proof (induction later arbitrary: b w)
  case Nil
  then show ?case by (subst web_run.simps) (simp add: web_step_def web_recv_eof)
next
  case (Cons x later)
  let ?b = "b\<lparr>buffer := x @ drop (length x) (buffer b), used_space := int (length x)\<rparr>"
  let ?w = "w\<lparr>inq := (inq w)(c := map RData later @ RData [] # q)\<rparr>"
  have x: "x \<noteq> []" "length x < length (buffer b)" using Cons.prems(2,3) by auto
  have inq: "inq w c = RData x # map RData later @ RData [] # q" using Cons.prems(4) by simp
  have r: "web_recv c l b w = (Inr ?b, ?w)" "recv_ok ?b"
    using web_recv_ok [OF Cons.prems(1) inq x(1,2) refl] by blast+
  have sc: "recv_scan c l ?b True ?w = (Inr (?b, True), ?w)"
    using Cons.prems(2) by (subst recv_scan.simps) auto
  have "web_run usable c l \<lparr>pc = Outer_Recv, recv_buf = b, recv_buf_fully_processed = True\<rparr> w =
      web_run usable c l \<lparr>pc = Recv_Scan, recv_buf = ?b, recv_buf_fully_processed = True\<rparr> ?w"
    by (subst web_run.simps) (simp add: web_step_def r(1))
  also have "\<dots> = web_run usable c l \<lparr>pc = Outer_Recv, recv_buf = ?b, recv_buf_fully_processed = True\<rparr> ?w"
    by (subst web_run.simps) (simp add: web_step_def sc Let_def)
  finally show ?case using Cons.IH [OF r(2), of ?w] Cons.prems(2,3) x(2) by simp
qed

section \<open>The first batch of data\<close>

lemma hit_append: "n \<le> length bs \<Longrightarrow> hit (bs @ r) n = hit bs n"
  by (rule ext) (auto simp: hit_def)

lemma hits_append: "n \<le> length bs \<Longrightarrow> hits (bs @ r) n k = hits bs n k"
  by (simp add: hits_def hit_append)

lemma no_blank_append: "n \<le> length bs \<Longrightarrow> no_blank (bs @ r) n k x = no_blank bs n k x"
  by (simp add: no_blank_def hit_append)

text \<open>
  The run from the start through the first scan: one answer per terminator. \<open>web_env\<close> collects
  that the program gets as far as its main loop.
\<close>

definition web_env :: "(nat \<Rightarrow> nat) \<Rightarrow> int \<Rightarrow> int \<Rightarrow> int \<Rightarrow> int \<Rightarrow> net \<Rightarrow> bool" where
  "web_env usable l br lr c w \<longleftrightarrow> 24 \<le> usable 8 \<and> 0 \<le> l \<and> 0 \<le> br \<and> 0 \<le> lr \<and> 0 \<le> c \<and> (\<exists>ss. socket_res w = l # ss)"

definition first_buf :: buf_struct where
  "first_buf = \<lparr>buffer = replicate 100 0, available_space = 100, used_space = 0, scanner_index = 0, req_begin_index = 0\<rparr>"

lemma recv_ok_first: "recv_ok first_buf" "length (buffer first_buf) = 100"
proof -
  have "buffer first_buf \<noteq> []" "last (replicate (Suc 99) (0 :: byte)) = 0" by (simp_all add: first_buf_def)
  then show "recv_ok first_buf" by (simp add: recv_ok_def first_buf_def)
qed (simp add: first_buf_def)

lemma web_main_start:
  assumes "web_env usable l br lr c w"
  shows "web_main usable (Some (ai # ais)) br lr c w =
     web_run usable c l \<lparr>pc = Outer_Recv, recv_buf = first_buf, recv_buf_fully_processed = False\<rparr> (w\<lparr>socket_res := tl (socket_res w)\<rparr>)"
  using assms by (auto simp: web_main_def web_address_def web_env_def sys_socket_def buf_struct_init_def BUFFER_SIZE_def first_buf_def)

lemma first_scan:
  assumes "bs \<noteq> []" "length bs < 100" "n = length bs" "no_blank bs n 0 0"
    "inq w c = RData bs # q" "send_res w = replicate (length (hits bs n 0)) 7 @ rest"
  shows "\<exists>x. let b = first_buf\<lparr>buffer := bs @ drop n (buffer first_buf), used_space := int n,
         scanner_index := int (n - 3), req_begin_index := x\<rparr>;
       w1 = replied c (length (hits bs n 0)) rest (w\<lparr>inq := (inq w)(c := q)\<rparr>); f = hit bs n (n - 4) in
     recv_ok b \<and>
     web_run usable c l \<lparr>pc = Outer_Recv, recv_buf = first_buf, recv_buf_fully_processed = False\<rparr> w =
       (if f then web_run usable c l \<lparr>pc = Outer_Recv, recv_buf = b, recv_buf_fully_processed = True\<rparr> w1
        else case new_req_buf usable b of Inl e \<Rightarrow> Some (e, w1)
          | Inr r \<Rightarrow> web_run usable c l \<lparr>pc = Inner_Recv r, recv_buf = b, recv_buf_fully_processed = False\<rparr> w1)"
proof -
  let ?b = "first_buf\<lparr>buffer := bs @ drop (length bs) (buffer first_buf), used_space := int (length bs)\<rparr>"
  let ?w = "w\<lparr>inq := (inq w)(c := q)\<rparr>"
  have r: "web_recv c l first_buf w = (Inr ?b, ?w)" "recv_ok ?b"
    using web_recv_ok [OF recv_ok_first(1) assms(5,1) _ refl] assms(2) recv_ok_first(2) by simp_all
  have nul: "0 \<in> set (buffer ?b)" using recv_ok_nul [OF r(2), of 0] r(2) by (simp add: recv_ok_def)
  obtain x where sc: "recv_scan c l ?b False ?w =
     (Inr (?b\<lparr>scanner_index := int (n - 3), req_begin_index := x\<rparr>, hit bs n (n - 4)), replied c (length (hits bs n 0)) rest ?w)"
  proof -
    have "length bs \<le> length (buffer ?b)" by simp
    moreover have "0 + 4 \<le> n \<and> hit (buffer ?b) n (n - 4) \<longleftrightarrow> hit bs n (n - 4)"
      using assms(3) by (auto simp: hit_append hit_def [of bs])
    ultimately show thesis
      using recv_scan_replies [of ?b n 0 ?w rest c l False] nul assms(3,4,6) that
      by (auto simp: hits_append no_blank_append) (auto simp: first_buf_def)
  qed
  have one: "web_run usable c l \<lparr>pc = Outer_Recv, recv_buf = first_buf, recv_buf_fully_processed = False\<rparr> w =
      web_run usable c l \<lparr>pc = Recv_Scan, recv_buf = ?b, recv_buf_fully_processed = False\<rparr> ?w"
    by (subst web_run.simps) (simp add: web_step_def r(1))
  have ok: "recv_ok (?b\<lparr>scanner_index := int (n - 3), req_begin_index := x\<rparr>)" using r(2) by (simp add: recv_ok_def)
  show ?thesis
    unfolding Let_def one
    using ok assms(3) by (intro exI [of _ x] conjI; (subst web_run.simps)?)
      (auto simp: web_step_def sc Let_def split: sum.splits)
qed

section \<open>Properties\<close>

text \<open>
  C36: requests that arrive complete in the first \<open>recv\<close> (fewer than 100 bytes that end with a
  terminator, no empty request) are each answered once, in order, with the seven bytes of the
  reply. From then on nothing is looked at: the scan position and the flag "fully processed"
  are never reset, so further requests that are not longer than the first batch get no
  answer, and when the client closes the process ends with exit code 1 and both sockets closed.
\<close>

theorem web_answers_first_batch_only:
  assumes "web_env usable l br lr c w" "inq w c = RData bs # map RData later @ RData [] # q"
    "n = length bs" "n < 100" "hit bs n (n - 4)" "no_blank bs n 0 0"
    "\<forall>x \<in> set later. x \<noteq> [] \<and> length x \<le> n" "send_res w = replicate (length (hits bs n 0)) 7 @ rest"
  shows "\<exists>w'. web_main usable (Some (ai # ais)) br lr c w = Some (Exit 1, w') \<and>
     trace w' = trace w @ replicate (length (hits bs n 0)) (EvSend c reply_msg) @ [EvClose c, EvClose l]"
proof -
  have n: "4 \<le> n" using assms(5) by (simp add: hit_def)
  then have ne: "bs \<noteq> []" using assms(3) by auto
  let ?w = "w\<lparr>socket_res := tl (socket_res w)\<rparr>"
  obtain x b w1 where b: "b = first_buf\<lparr>buffer := bs @ drop n (buffer first_buf), used_space := int n,
         scanner_index := int (n - 3), req_begin_index := x\<rparr>" "recv_ok b"
    and w1: "w1 = replied c (length (hits bs n 0)) rest (?w\<lparr>inq := (inq ?w)(c := map RData later @ RData [] # q)\<rparr>)"
    and run: "web_run usable c l \<lparr>pc = Outer_Recv, recv_buf = first_buf, recv_buf_fully_processed = False\<rparr> ?w =
       web_run usable c l \<lparr>pc = Outer_Recv, recv_buf = b, recv_buf_fully_processed = True\<rparr> w1"
    using first_scan [OF ne _ assms(3,6), of ?w c "map RData later @ RData [] # q" rest usable l] assms(2-5,8)
    by (auto simp: Let_def)
  have len: "length (buffer b) = 100" using b(1) assms(3,4) by (simp add: first_buf_def)
  have sc: "scanner_index b + 3 = int n" using b(1) n by simp
  have "\<exists>w'. web_run usable c l \<lparr>pc = Outer_Recv, recv_buf = b, recv_buf_fully_processed = True\<rparr> w1 = Some (Exit 1, w') \<and>
     trace w' = trace w1 @ [EvClose c, EvClose l]"
    by (rule web_run_ignores [OF b(2), of later]) (use assms(4,7) len in \<open>simp_all add: sc w1 replied_def\<close>)
  then show ?thesis
    using web_main_start [OF assms(1), of ai ais] run by (auto simp: w1 replied_def)
qed

lemma strncpy_bytes_first:
  "n \<le> length src \<Longrightarrow> \<exists>x. strncpy_bytes src n = Inr x \<and> length x = n \<and> (0 < n \<longrightarrow> x ! 0 = src ! 0)"
proof (induction src n rule: strncpy_bytes.induct)
  case (3 b bs n)
  then show ?case by (cases "b = 0") fastforce+
qed auto

text \<open>
  C37: a request whose bytes are split over two \<open>recv\<close> calls is never answered: if the first
  piece does not end with a terminator, the second piece makes the process spin for ever in
  the scan of the second buffer, also when the piece completes the request, since that loop
  does not advance its position. (The first byte is taken not to be a carriage return.)
\<close>

theorem web_split_request_hangs:
  assumes "web_env usable l br lr c w" "inq w c = RData bs # RData ds # q"
    "n = length bs" "0 < n" "n < 100" "\<not> hit bs n (n - 4)" "no_blank bs n 0 0" "hd bs \<noteq> 13"
    "ds \<noteq> []" "length ds < 100" "4 \<le> n + length ds" "send_res w = replicate (length (hits bs n 0)) 7 @ rest"
  shows "web_main usable (Some (ai # ais)) br lr c w = None"
proof -
  have ne: "bs \<noteq> []" using assms(3,4) by auto
  let ?w = "w\<lparr>socket_res := tl (socket_res w)\<rparr>"
  obtain x b w1 where b: "b = first_buf\<lparr>buffer := bs @ drop n (buffer first_buf), used_space := int n,
         scanner_index := int (n - 3), req_begin_index := x\<rparr>" "recv_ok b"
    and w1: "w1 = replied c (length (hits bs n 0)) rest (?w\<lparr>inq := (inq ?w)(c := RData ds # q)\<rparr>)"
    and run: "web_run usable c l \<lparr>pc = Outer_Recv, recv_buf = first_buf, recv_buf_fully_processed = False\<rparr> ?w =
       (case new_req_buf usable b of Inl e \<Rightarrow> Some (e, w1)
          | Inr r \<Rightarrow> web_run usable c l \<lparr>pc = Inner_Recv r, recv_buf = b, recv_buf_fully_processed = False\<rparr> w1)"
    using first_scan [OF ne _ assms(3,7), of ?w c "RData ds # q" rest usable l] assms(2,3,5,6,12)
    by (auto simp: Let_def)
  have len: "length (buffer b) = 100" using b(1) assms(3,5) by (simp add: first_buf_def)
  \<comment> \<open>the second buffer\<close>
  obtain y where y: "strncpy_bytes (buffer b) n = Inr y" "length y = n" "y ! 0 = bs ! 0"
    using strncpy_bytes_first [of n "buffer b"] len assms(3-5) b(1) ne by (auto simp: nth_append)
  define r where "r = \<lparr>buffer = y @ replicate (200 - n) 0, available_space = 200, used_space = int n,
     scanner_index = 0, req_begin_index = 0\<rparr>"
  have r: "new_req_buf usable b = Inr r"
    using y assms(1,5) b(1) by (simp add: new_req_buf_def buf_struct_init_def twice_def web_env_def first_buf_def
        strncpy_at_def store_at_def r_def signed_take_bit_int_eq_self)
  \<comment> \<open>the second piece\<close>
  let ?b = "b\<lparr>buffer := ds @ drop (length ds) (buffer b), used_space := int (length ds)\<rparr>"
  let ?w1 = "w1\<lparr>inq := (inq w1)(c := q)\<rparr>"
  have rc: "web_recv c l b w1 = (Inr ?b, ?w1)"
    using web_recv_ok [OF b(2), of w1 c ds q ?b l] assms(9,10) len by (simp add: w1 replied_def)
  obtain z where z: "strncpy_bytes (buffer ?b) (length ds) = Inr z" "length z = length ds"
    using strncpy_bytes_first [of "length ds" "buffer ?b"] by auto
  define r' where "r' = r\<lparr>buffer := y @ z @ replicate (200 - n - length ds) 0, used_space := int n + int (length ds)\<rparr>"
  have ap: "append_recv usable r ?b = Inr r'"
    using z assms(5,10) y(2) by (simp add: append_recv_def r_def strncpy_at_def store_at_def r'_def)
  have hd: "buffer r' ! 0 = hd bs" using y(2,3) assms(4) ne by (simp add: r'_def nth_append hd_conv_nth)
  have "\<not> hit (buffer r') (n + length ds) 0"
  proof
    assume "hit (buffer r') (n + length ds) 0"
    then have t: "take 4 (buffer r') = http_terminator" by (simp add: hit_def)
    have "buffer r' ! 0 = take 4 (buffer r') ! 0" by simp
    also have "\<dots> = 13" unfolding t by (simp add: http_terminator_def)
    finally show False using hd assms(8) by simp
  qed
  then have "terminator_at r' = Inr False"
    using terminator_at_hit [of r' 0 "n + length ds"] assms(11) y(2) z(2) by (simp add: r'_def r_def)
  then have "req_scan c l r' ?b ?w1 = None"
    using assms(11) by (intro req_scan_stuck) (simp_all add: r'_def r_def)
  then have "web_run usable c l \<lparr>pc = Inner_Recv r, recv_buf = b, recv_buf_fully_processed = False\<rparr> w1 = None"
    by (subst web_run.simps) (simp add: web_step_def rc ap)
  then show ?thesis using web_main_start [OF assms(1), of ai ais] run r by simp
qed

text \<open>
  C38: two memory errors of the web server: with an allocator that provides no more than it
  was asked for, the very first \<open>buf_struct_init\<close> writes beyond its block; and a \<open>recv\<close> that
  fills the receive buffer with 100 bytes other than NUL makes \<open>printf\<close> read beyond it.
\<close>

theorem web_memory_errors:
  assumes "0 \<le> l" "0 \<le> br" "0 \<le> lr" "0 \<le> c" "socket_res w = l # ss"
    "usable 8 < 24 \<or> (\<exists>bs q. inq w c = RData bs # q \<and> 100 \<le> length bs \<and> 0 \<notin> set (take 100 bs))"
  shows "\<exists>w'. web_main usable (Some (ai # ais)) br lr c w = Some (Out_Of_Bounds, w') \<and> trace w' = trace w"
proof (cases "usable 8 < 24")
  case True
  then show ?thesis using assms(1-5) by (simp add: web_main_def web_address_def sys_socket_def buf_struct_init_def BUFFER_SIZE_def)
next
  case False
  then obtain bs q where bs: "inq w c = RData bs # q" "100 \<le> length bs" "0 \<notin> set (take 100 bs)" using assms(6) by blast
  have "web_env usable l br lr c w" using False assms(1-5) by (simp add: web_env_def)
  moreover have "web_run usable c l \<lparr>pc = Outer_Recv, recv_buf = first_buf, recv_buf_fully_processed = False\<rparr>
      (w\<lparr>socket_res := ss\<rparr>) = Some (Out_Of_Bounds, w\<lparr>socket_res := ss, inq := (inq w)(c := if length bs = 100 then q else RData (drop 100 bs) # q)\<rparr>)"
    using bs by (subst web_run.simps)
      (auto simp: web_step_def web_recv_def sys_recv_def first_buf_def store_at_def print_str_def)
  ultimately show ?thesis using assms(5) web_main_start [of usable l br lr c w ai ais] by simp
qed

section \<open>Witnesses\<close>

lemma hit_hits: "hit buf n i \<longleftrightarrow> i \<in> set (hits buf n 0)"
  by (auto simp: hits_def hit_def)

lemma no_blank_hits:
  "no_blank buf n 0 r \<longleftrightarrow> (\<forall>i \<in> set (hits buf n 0). int i \<noteq> r \<and> (\<forall>j \<in> set (hits buf n 0). i \<noteq> j + 4))"
  by (auto simp: no_blank_def hit_hits)

definition two_requests :: "byte list" where
  "two_requests = [65, 13, 10, 13, 10, 66, 13, 10, 13, 10]"

definition any_address :: addrinfo where
  "any_address = \<lparr>ai_family = 2, ai_socktype = 1, ai_protocol = 6,
     ai_addr = \<lparr>sa_family = 2, sin_port = 80, s_addr = 0\<rparr>, ai_addrlen = 16\<rparr>"

definition web_net :: "recv_res list \<Rightarrow> net" where
  "web_net q = \<lparr>gai = (\<lambda>_ _. None), socket_res = [3], connect_res = [], send_res = [7, 7], inq = (\<lambda>_. [])(4 := q), trace = []\<rparr>"

lemma two_requests_hits: "hits two_requests 10 0 = [1, 6]" "hits two_requests 9 0 = [1]" "length two_requests = 10"
  by code_simp+

lemma web_net_env: "web_env (\<lambda>n. max n 24) 3 0 0 4 (web_net q)" "trace (web_net q) = []" "inq (web_net q) 4 = q"
  "send_res (web_net q) = [7, 7]"
  by (simp_all add: web_env_def web_net_def)

text \<open>Two requests at once are answered; a third one afterwards is not.\<close>

theorem web_answers_first_batch_only_witness:
  "\<exists>w'. web_main (\<lambda>n. max n 24) (Some [any_address]) 0 0 4 (web_net [RData two_requests, RData [67, 13, 10, 13, 10], RData []]) = Some (Exit 1, w') \<and>
     trace w' = [EvSend 4 reply_msg, EvSend 4 reply_msg, EvClose 4, EvClose 3]"
proof -
  let ?w = "web_net [RData two_requests, RData [67, 13, 10, 13, 10], RData []]"
  have q: "inq ?w 4 = RData two_requests # map RData [[67, 13, 10, 13, 10]] @ RData [] # []" by (simp add: web_net_env)
  have h: "hit two_requests 10 (10 - 4)" "no_blank two_requests 10 0 0"
    by (simp_all add: hit_hits no_blank_hits two_requests_hits)
  have s: "send_res ?w = replicate (length (hits two_requests 10 0)) 7 @ []" by (simp add: web_net_env two_requests_hits)
  from web_answers_first_batch_only [OF web_net_env(1) q two_requests_hits(3) [symmetric] _ h _ s, of any_address "[]"]
  show ?thesis by (simp add: web_net_env two_requests_hits numeral_2_eq_2)
qed

text \<open>The same request in two pieces.\<close>

theorem web_split_request_hangs_witness:
  "web_main (\<lambda>n. max n 24) (Some [any_address]) 0 0 4 (web_net [RData [65, 13], RData [10, 13, 10], RData []]) = None"
proof -
  let ?w = "web_net [RData [65, 13], RData [10, 13, 10], RData []]"
  have h: "hits [65, 13] 2 0 = []" by code_simp
  have n: "\<not> hit [65, 13] 2 (2 - 4)" "no_blank [65, 13] 2 0 0" by (simp_all add: hit_hits no_blank_hits h)
  have s: "send_res ?w = replicate (length (hits [65, 13] 2 0)) 7 @ [7, 7]" by (simp add: web_net_env h)
  from web_split_request_hangs [OF web_net_env(1) web_net_env(3) _ _ _ n _ _ _ _ s, of any_address "[]"] show ?thesis by simp
qed

theorem web_memory_errors_witness:
  "\<exists>w'. web_main (\<lambda>n. n) (Some [any_address]) 0 0 4 (web_net []) = Some (Out_Of_Bounds, w') \<and> trace w' = []"
  using web_memory_errors [of 3 0 0 4 "web_net []" "[]" "\<lambda>n. n" any_address "[]"] by (simp add: web_net_def)

end
