(* ===== verification/Uthash_Links.thy ===== *)
theory Uthash_Links
  imports Uthash
begin

text \<open>
  The macros of \<open>praxis2/include/uthash.h\<close> on the pointers they patch: the fields \<open>next\<close> and
  \<open>prev\<close> of the application order with the head pointer of the user and the \<open>tail\<close> of the
  table, the fields \<open>hh_next\<close> and \<open>hh_prev\<close> of the bucket chains with the \<open>hh_head\<close> of every
  bucket, and the \<open>tbl\<close> pointers of the elements. The theory shows that every operation refines
  the operation of the same name in \<open>Uthash\<close>, where a chain is a list of addresses, and that the
  complete integrity test \<open>HASH_FSCK\<close>, back links included, passes after each of them.
\<close>

section \<open>The state\<close>

text \<open>One pair of link fields of all handles; a handle and its element share their address.\<close>

record dlinks =
  l_next :: "addr \<Rightarrow> addr option"
  l_prev :: "addr \<Rightarrow> addr option"

record hh_bucket =
  hh_head :: "addr option"
  hh_count :: u32
  hh_expand_mult :: u32

record hh_table =
  tb_buckets :: "hh_bucket list"
  tb_num_buckets :: u32
  tb_log2_num_buckets :: u32
  tb_num_items :: u32
  tb_tail :: "addr option"
  tb_ideal_chain_maxlen :: u32
  tb_nonideal_items :: u32
  tb_ineff_expands :: u32
  tb_noexpand :: bool

text \<open>
  The memory: the elements with the data fields of their handles (\<open>hash_mem\<close>), the link fields
  \<open>next\<close>, \<open>prev\<close> (\<open>app_links\<close>) and \<open>hh_next\<close>, \<open>hh_prev\<close> (\<open>bkt_links\<close>), the \<open>tbl\<close> fields (\<open>hh_tbl\<close>), the tables that
  are allocated, and the user's head pointer.
\<close>

record 'd hash_ptrs =
  hash_mem :: "addr \<Rightarrow> 'd elmt option"
  app_links :: dlinks
  bkt_links :: dlinks
  hh_tbl :: "addr \<Rightarrow> nat option"
  hh_tables :: "nat \<Rightarrow> hh_table option"
  hash_head :: "addr option"
  next_elmt :: addr
  next_table :: nat

section \<open>The macros\<close>

text \<open>Every access through a pointer to an element needs the element to be there.\<close>

definition at_elmt :: "(addr \<Rightarrow> 'd elmt option) \<Rightarrow> addr option \<Rightarrow> addr res" where
  "at_elmt hp p = (case p of None \<Rightarrow> Inl Null_Deref | Some a \<Rightarrow> bind_res (deref hp a) (\<lambda>_. Inr a))"

text \<open>The table \<open>(head)->hh.tbl\<close>, with its address.\<close>

definition tbl_of :: "'d hash_ptrs \<Rightarrow> addr option \<Rightarrow> (nat \<times> hh_table) res" where
  "tbl_of s p = bind_res (at_elmt (hash_mem s) p) (\<lambda>a.
     case hh_tbl s a of None \<Rightarrow> Inl Null_Deref
     | Some k \<Rightarrow> (case hh_tables s k of None \<Rightarrow> Inl Use_After_Free | Some t \<Rightarrow> Inr (k, t)))"

definition put_tbl :: "'d hash_ptrs \<Rightarrow> nat \<Rightarrow> hh_table \<Rightarrow> 'd hash_ptrs" where
  "put_tbl s k t = s\<lparr>hh_tables := (hh_tables s)(k \<mapsto> t)\<rparr>"

definition hh_bucket_at :: "hh_bucket list \<Rightarrow> nat \<Rightarrow> hh_bucket res" where
  "hh_bucket_at bs i = (if i < length bs then Inr (bs ! i) else Inl Out_Of_Bounds)"

definition no_bucket :: hh_bucket where
  "no_bucket = \<lparr>hh_head = None, hh_count = 0, hh_expand_mult = 0\<rparr>"

definition HASH_MAKE_TABLE_hh :: "'d hash_ptrs \<Rightarrow> addr \<Rightarrow> 'd hash_ptrs" where
  "HASH_MAKE_TABLE_hh s a =
     (let k = next_table s;
          t = \<lparr>tb_buckets = replicate 32 no_bucket, tb_num_buckets = 32, tb_log2_num_buckets = 5,
               tb_num_items = 0, tb_tail = Some a, tb_ideal_chain_maxlen = 0, tb_nonideal_items = 0,
               tb_ineff_expands = 0, tb_noexpand = False\<rparr>
      in s\<lparr>hh_tbl := (hh_tbl s)(a \<mapsto> k), hh_tables := (hh_tables s)(k \<mapsto> t), next_table := k + 1\<rparr>)"

definition HASH_APPEND_LIST_hh :: "'d hash_ptrs \<Rightarrow> addr \<Rightarrow> 'd hash_ptrs res" where
  "HASH_APPEND_LIST_hh s a =
     bind_res (at_elmt (hash_mem s) (Some a)) (\<lambda>_.
     let s = s\<lparr>app_links := (app_links s)\<lparr>l_next := (l_next (app_links s))(a := None)\<rparr>\<rparr> in
     bind_res (tbl_of s (hash_head s)) (\<lambda>(k, t).
     let s = s\<lparr>app_links := (app_links s)\<lparr>l_prev := (l_prev (app_links s))(a := tb_tail t)\<rparr>\<rparr> in
     bind_res (at_elmt (hash_mem s) (tb_tail t)) (\<lambda>l.
     let s = s\<lparr>app_links := (app_links s)\<lparr>l_next := (l_next (app_links s))(l := Some a)\<rparr>\<rparr> in
     Inr (put_tbl s k (t\<lparr>tb_tail := Some a\<rparr>)))))"

text \<open>
  The element \<open>a\<close> becomes the first of a chain: the assignments to \<open>hh_next\<close>, \<open>hh_prev\<close> and to
  the \<open>hh_prev\<close> of the old first element in \<open>HASH_ADD_TO_BKT\<close> and in \<open>HASH_EXPAND_BUCKETS\<close>.
\<close>

definition link_front ::
  "(addr \<Rightarrow> 'd elmt option) \<Rightarrow> dlinks \<Rightarrow> addr option \<Rightarrow> addr \<Rightarrow> dlinks res" where
  "link_front hp L first a =
     bind_res (at_elmt hp (Some a)) (\<lambda>_.
     let L = L\<lparr>l_next := (l_next L)(a := first), l_prev := (l_prev L)(a := None)\<rparr> in
     case first of None \<Rightarrow> Inr L
     | Some x \<Rightarrow> bind_res (at_elmt hp (Some x)) (\<lambda>_. Inr (L\<lparr>l_prev := (l_prev L)(x := Some a)\<rparr>)))"

text \<open>The body of the inner loop of \<open>HASH_EXPAND_BUCKETS\<close>, for the element \<open>a\<close> at \<open>_he_thh\<close>.\<close>

definition expand_one_hh ::
  "(addr \<Rightarrow> 'd elmt option) \<Rightarrow> u32 \<Rightarrow> u32 \<Rightarrow> addr \<Rightarrow> hh_bucket list \<times> u32 \<times> dlinks \<Rightarrow>
    (hh_bucket list \<times> u32 \<times> dlinks) res" where
  "expand_one_hh hp new_num ideal a = (\<lambda>(bs, nonideal, L).
     bind_res (deref hp a) (\<lambda>e.
     let i = HASH_TO_BKT (hh_hashv e) new_num in
     bind_res (hh_bucket_at bs i) (\<lambda>b.
     let b = b\<lparr>hh_count := hh_count b + 1\<rparr>;
         over = hh_count b > ideal;
         nonideal = (if over then nonideal + 1 else nonideal);
         b = (if over \<and> hh_count b > hh_expand_mult b * ideal
              then b\<lparr>hh_expand_mult := hh_expand_mult b + 1\<rparr> else b)
     in bind_res (link_front hp L (hh_head b) a) (\<lambda>L.
        Inr (bs[i := b\<lparr>hh_head := Some a\<rparr>], nonideal, L)))))"

text \<open>The inner loop: \<open>_he_hh_nxt\<close> is read before the element moves.\<close>

partial_function (option) expand_chain_hh ::
  "(addr \<Rightarrow> 'd elmt option) \<Rightarrow> u32 \<Rightarrow> u32 \<Rightarrow> addr option \<Rightarrow> hh_bucket list \<times> u32 \<times> dlinks \<Rightarrow>
    (hh_bucket list \<times> u32 \<times> dlinks) res option" where
  "expand_chain_hh hp new_num ideal thh st =
     (case thh of None \<Rightarrow> Some (Inr st)
      | Some a \<Rightarrow>
          (case expand_one_hh hp new_num ideal a st of
             Inl err \<Rightarrow> Some (Inl err)
           | Inr st' \<Rightarrow> expand_chain_hh hp new_num ideal (l_next (snd (snd st)) a) st'))"

text \<open>Sequencing of steps that may fail or not return.\<close>

definition then_do :: "'a res option \<Rightarrow> ('a \<Rightarrow> 'b res option) \<Rightarrow> 'b res option" where
  "then_do m f = (case m of None \<Rightarrow> None
     | Some r \<Rightarrow> (case r of Inl err \<Rightarrow> Some (Inl err) | Inr x \<Rightarrow> f x))"

lemma then_do_simps [simp]:
  "then_do None f = None" "then_do (Some (Inl err)) f = Some (Inl err)" "then_do (Some (Inr x)) f = f x"
  by (simp_all add: then_do_def)

text \<open>The outer loop, over the indices \<open>js\<close> of the old buckets \<open>old\<close>.\<close>

fun expand_buckets_hh ::
  "(addr \<Rightarrow> 'd elmt option) \<Rightarrow> hh_bucket list \<Rightarrow> u32 \<Rightarrow> u32 \<Rightarrow> nat list \<Rightarrow>
    hh_bucket list \<times> u32 \<times> dlinks \<Rightarrow> (hh_bucket list \<times> u32 \<times> dlinks) res option" where
  "expand_buckets_hh hp old new_num ideal [] st = Some (Inr st)"
| "expand_buckets_hh hp old new_num ideal (i # js) st =
     then_do (Some (hh_bucket_at old i)) (\<lambda>b.
     then_do (expand_chain_hh hp new_num ideal (hh_head b) st)
       (expand_buckets_hh hp old new_num ideal js))"

text \<open>The allocator refuses an array of 2^32 buckets, as in \<open>Uthash\<close>.\<close>

definition HASH_EXPAND_BUCKETS_hh ::
  "(addr \<Rightarrow> 'd elmt option) \<Rightarrow> dlinks \<Rightarrow> hh_table \<Rightarrow> (dlinks \<times> hh_table) res option" where
  "HASH_EXPAND_BUCKETS_hh hp L t =
    (if unat (tb_log2_num_buckets t) \<ge> 31 then Some (Inl (Exit (-1))) else
     let new_num = tb_num_buckets t * 2;
         ideal = drop_bit (unat (tb_log2_num_buckets t + 1)) (tb_num_items t)
           + (if tb_num_items t AND (new_num - 1) \<noteq> 0 then 1 else 0)
     in then_do (expand_buckets_hh hp (tb_buckets t) new_num ideal [0..<unat (tb_num_buckets t)]
          (replicate (2 * unat (tb_num_buckets t)) no_bucket, 0, L)) (\<lambda>(bs, nonideal, L).
        let ineff = (if nonideal > drop_bit 1 (tb_num_items t) then tb_ineff_expands t + 1 else 0)
        in Some (Inr (L, t\<lparr>tb_buckets := bs, tb_num_buckets := new_num,
             tb_log2_num_buckets := tb_log2_num_buckets t + 1, tb_ideal_chain_maxlen := ideal,
             tb_nonideal_items := nonideal, tb_ineff_expands := ineff,
             tb_noexpand := (tb_noexpand t \<or> ineff > 1)\<rparr>))))"

definition HASH_ADD_TO_BKT_hh ::
  "(addr \<Rightarrow> 'd elmt option) \<Rightarrow> dlinks \<Rightarrow> hh_table \<Rightarrow> nat \<Rightarrow> addr \<Rightarrow> (dlinks \<times> hh_table) res option"
  where
  "HASH_ADD_TO_BKT_hh hp L t i a =
     then_do (Some (hh_bucket_at (tb_buckets t) i)) (\<lambda>b.
     let b = b\<lparr>hh_count := hh_count b + 1\<rparr> in
     then_do (Some (link_front hp L (hh_head b) a)) (\<lambda>L.
     let b = b\<lparr>hh_head := Some a\<rparr>;
         t = t\<lparr>tb_buckets := (tb_buckets t)[i := b]\<rparr>
     in if hh_count b \<ge> (hh_expand_mult b + 1) * 10 \<and> \<not> tb_noexpand t
        then HASH_EXPAND_BUCKETS_hh hp L t else Some (Inr (L, t))))"

definition HASH_ADD_TO_TABLE_hh ::
  "'d hash_ptrs \<Rightarrow> u32 \<Rightarrow> addr \<Rightarrow> 'd hash_ptrs res option" where
  "HASH_ADD_TO_TABLE_hh s hashval a =
     then_do (Some (tbl_of s (hash_head s))) (\<lambda>(k, t).
     let t = t\<lparr>tb_num_items := tb_num_items t + 1\<rparr> in
     then_do (HASH_ADD_TO_BKT_hh (hash_mem s) (bkt_links s) t (HASH_TO_BKT hashval (tb_num_buckets t)) a)
       (\<lambda>(L, t). Some (Inr (put_tbl (s\<lparr>bkt_links := L\<rparr>) k t))))"

text \<open>The first half of \<open>HASH_ADD_KEYPTR\<close>, up to \<open>HASH_ADD_TO_TABLE\<close>.\<close>

definition add_last_hh :: "'d hash_ptrs \<Rightarrow> byte list \<Rightarrow> addr \<Rightarrow> 'd hash_ptrs res" where
  "add_last_hh s key a =
     bind_res (deref (hash_mem s) a) (\<lambda>e.
     let hashv = HASH_JEN key;
         s = s\<lparr>hash_mem := (hash_mem s)(a \<mapsto>
               e\<lparr>hh_hashv := hashv, hh_key := key, hh_keylen := of_nat (length key)\<rparr>)\<rparr>
     in case hash_head s of
            None \<Rightarrow>
              let s = s\<lparr>app_links := \<lparr>l_next = (l_next (app_links s))(a := None), l_prev = (l_prev (app_links s))(a := None)\<rparr>\<rparr>
              in Inr ((HASH_MAKE_TABLE_hh s a)\<lparr>hash_head := Some a\<rparr>)
          | Some _ \<Rightarrow>
              bind_res (tbl_of s (hash_head s)) (\<lambda>(k, t).
              HASH_APPEND_LIST_hh (s\<lparr>hh_tbl := (hh_tbl s)(a \<mapsto> k)\<rparr>) a))"

definition HASH_ADD_KEYPTR_hh ::
  "'d hash_ptrs \<Rightarrow> byte list \<Rightarrow> addr \<Rightarrow> 'd hash_ptrs res option" where
  "HASH_ADD_KEYPTR_hh s key a =
     then_do (Some (add_last_hh s key a)) (\<lambda>s. HASH_ADD_TO_TABLE_hh s (HASH_JEN key) a)"

definition HASH_DEL_IN_BKT_hh ::
  "(addr \<Rightarrow> 'd elmt option) \<Rightarrow> dlinks \<Rightarrow> hh_table \<Rightarrow> nat \<Rightarrow> addr \<Rightarrow> (dlinks \<times> hh_table) res" where
  "HASH_DEL_IN_BKT_hh hp L t i a =
     bind_res (hh_bucket_at (tb_buckets t) i) (\<lambda>b.
     bind_res (at_elmt hp (Some a)) (\<lambda>_.
     let b = b\<lparr>hh_count := hh_count b - 1\<rparr>;
         b = (if hh_head b = Some a then b\<lparr>hh_head := l_next L a\<rparr> else b);
         t = t\<lparr>tb_buckets := (tb_buckets t)[i := b]\<rparr>
     in bind_res (case l_prev L a of None \<Rightarrow> Inr L
          | Some p \<Rightarrow> bind_res (at_elmt hp (Some p)) (\<lambda>_. Inr (L\<lparr>l_next := (l_next L)(p := l_next L a)\<rparr>))) (\<lambda>L.
        bind_res (case l_next L a of None \<Rightarrow> Inr L
          | Some n \<Rightarrow> bind_res (at_elmt hp (Some n)) (\<lambda>_. Inr (L\<lparr>l_prev := (l_prev L)(n := l_prev L a)\<rparr>))) (\<lambda>L.
        Inr (L, t)))))"

text \<open>
  \<open>HASH_DELETE\<close>: the table of the only element is freed; otherwise the order is patched around
  the element, with the \<open>tail\<close> and the head pointer, and then its bucket chain.
\<close>

definition patch_order :: "'d hash_ptrs \<Rightarrow> addr \<Rightarrow> 'd hash_ptrs res" where
  "patch_order s a =
     bind_res (case l_prev (app_links s) a of
         None \<Rightarrow> Inr (s\<lparr>hash_head := l_next (app_links s) a\<rparr>)
       | Some p \<Rightarrow> bind_res (at_elmt (hash_mem s) (Some p)) (\<lambda>_.
           Inr (s\<lparr>app_links := (app_links s)\<lparr>l_next := (l_next (app_links s))(p := l_next (app_links s) a)\<rparr>\<rparr>))) (\<lambda>s.
     case l_next (app_links s) a of
         None \<Rightarrow> Inr s
       | Some n \<Rightarrow> bind_res (at_elmt (hash_mem s) (Some n)) (\<lambda>_.
           Inr (s\<lparr>app_links := (app_links s)\<lparr>l_prev := (l_prev (app_links s))(n := l_prev (app_links s) a)\<rparr>\<rparr>)))"

definition HASH_DELETE_HH :: "'d hash_ptrs \<Rightarrow> addr \<Rightarrow> 'd hash_ptrs res" where
  "HASH_DELETE_HH s a =
     bind_res (at_elmt (hash_mem s) (Some a)) (\<lambda>_.
     if l_prev (app_links s) a = None \<and> l_next (app_links s) a = None then
       bind_res (tbl_of s (hash_head s)) (\<lambda>(k, t).
       Inr (s\<lparr>hh_tables := (hh_tables s)(k := None), hash_head := None\<rparr>))
     else
       bind_res (tbl_of s (hash_head s)) (\<lambda>(k, t).
       let s = (if tb_tail t = Some a then put_tbl s k (t\<lparr>tb_tail := l_prev (app_links s) a\<rparr>) else s) in
       bind_res (patch_order s a) (\<lambda>s.
       bind_res (deref (hash_mem s) a) (\<lambda>e.
       bind_res (tbl_of s (hash_head s)) (\<lambda>(k, t).
       bind_res (HASH_DEL_IN_BKT_hh (hash_mem s) (bkt_links s) t
           (HASH_TO_BKT (hh_hashv e) (tb_num_buckets t)) a) (\<lambda>(L, t).
       Inr (put_tbl (s\<lparr>bkt_links := L\<rparr>) k (t\<lparr>tb_num_items := tb_num_items t - 1\<rparr>))))))))"

text \<open>Searching one chain, and the search of the table.\<close>

partial_function (option) HASH_FIND_IN_BKT_hh ::
  "(addr \<Rightarrow> 'd elmt option) \<Rightarrow> dlinks \<Rightarrow> addr option \<Rightarrow> byte list \<Rightarrow> u32 \<Rightarrow> addr option res option"
  where
  "HASH_FIND_IN_BKT_hh hp L out key hashval =
     (case out of None \<Rightarrow> Some (Inr None)
      | Some a \<Rightarrow>
          (case deref hp a of Inl err \<Rightarrow> Some (Inl err)
           | Inr e \<Rightarrow>
               if hh_hashv e = hashval \<and> unat (hh_keylen e) = length key \<and> hh_key e = key
               then Some (Inr (Some a))
               else HASH_FIND_IN_BKT_hh hp L (l_next L a) key hashval))"

definition HASH_FIND_hh :: "'d hash_ptrs \<Rightarrow> byte list \<Rightarrow> addr option res option" where
  "HASH_FIND_hh s key =
     (case hash_head s of None \<Rightarrow> Some (Inr None)
      | Some _ \<Rightarrow>
          let hashv = HASH_JEN key in
          then_do (Some (tbl_of s (hash_head s))) (\<lambda>(k, t).
          then_do (Some (hh_bucket_at (tb_buckets t) (HASH_TO_BKT hashv (tb_num_buckets t)))) (\<lambda>b.
          HASH_FIND_IN_BKT_hh (hash_mem s) (bkt_links s) (hh_head b) key hashv)))"

text \<open>
  The integrity test. A walk along one list compares every back link with the element before
  it and counts; \<open>HASH_OOPS\<close> ends the process with status \<open>-1\<close>.
\<close>

partial_function (option) fsck_walk ::
  "(addr \<Rightarrow> 'd elmt option) \<Rightarrow> dlinks \<Rightarrow> addr option \<Rightarrow> addr option \<Rightarrow> u32 \<Rightarrow> u32 res option"
  where
  "fsck_walk hp L prev thh cnt =
     (case thh of None \<Rightarrow> Some (Inr cnt)
      | Some a \<Rightarrow>
          (case deref hp a of Inl err \<Rightarrow> Some (Inl err)
           | Inr e \<Rightarrow>
               if prev \<noteq> l_prev L a then Some (Inl (Exit (-1)))
               else fsck_walk hp L (Some a) (l_next L a) (cnt + 1)))"

fun fsck_buckets ::
  "(addr \<Rightarrow> 'd elmt option) \<Rightarrow> dlinks \<Rightarrow> hh_bucket list \<Rightarrow> nat list \<Rightarrow> u32 \<Rightarrow> u32 res option"
  where
  "fsck_buckets hp L bs [] cnt = Some (Inr cnt)"
| "fsck_buckets hp L bs (i # js) cnt =
     then_do (Some (hh_bucket_at bs i)) (\<lambda>b.
     then_do (fsck_walk hp L None (hh_head b) 0) (\<lambda>bkt_count.
     if hh_count b \<noteq> bkt_count then Some (Inl (Exit (-1)))
     else fsck_buckets hp L bs js (cnt + bkt_count)))"

definition HASH_FSCK :: "'d hash_ptrs \<Rightarrow> unit res option" where
  "HASH_FSCK s =
     (case hash_head s of None \<Rightarrow> Some (Inr ())
      | Some _ \<Rightarrow>
          then_do (Some (tbl_of s (hash_head s))) (\<lambda>(k, t).
          then_do (fsck_buckets (hash_mem s) (bkt_links s) (tb_buckets t) [0..<unat (tb_num_buckets t)] 0) (\<lambda>cnt.
          if cnt \<noteq> tb_num_items t then Some (Inl (Exit (-1))) else
          then_do (fsck_walk (hash_mem s) (app_links s) None (hash_head s) 0) (\<lambda>cnt.
          if cnt \<noteq> tb_num_items t then Some (Inl (Exit (-1))) else Some (Inr ())))))"

text \<open>Allocating an element, whose link fields are not set, and freeing it.\<close>

definition hh_malloc :: "'d hash_ptrs \<Rightarrow> 'd \<Rightarrow> addr \<times> 'd hash_ptrs" where
  "hh_malloc s d = (next_elmt s, s\<lparr>next_elmt := Suc (next_elmt s), hash_mem :=
     (hash_mem s)(next_elmt s \<mapsto> \<lparr>e_data = d, hh_key = [], hh_keylen = 0, hh_hashv = 0\<rparr>)\<rparr>)"

definition hh_add :: "'d hash_ptrs \<Rightarrow> byte list \<Rightarrow> 'd \<Rightarrow> 'd hash_ptrs res option" where
  "hh_add s key d = (case hh_malloc s d of (a, s) \<Rightarrow> HASH_ADD_KEYPTR_hh s key a)"

definition hh_free :: "'d hash_ptrs \<Rightarrow> addr \<Rightarrow> 'd hash_ptrs" where
  "hh_free s a = s\<lparr>hash_mem := (hash_mem s)(a := None)\<rparr>"

definition hh_empty :: "'d hash_ptrs" where
  "hh_empty = \<lparr>hash_mem = (\<lambda>_. None), app_links = \<lparr>l_next = (\<lambda>_. None), l_prev = (\<lambda>_. None)\<rparr>,
     bkt_links = \<lparr>l_next = (\<lambda>_. None), l_prev = (\<lambda>_. None)\<rparr>, hh_tbl = (\<lambda>_. None), hh_tables = (\<lambda>_. None),
     hash_head = None, next_elmt = 0, next_table = 0\<rparr>"

section \<open>Doubly linked lists\<close>

text \<open>
  The pointer \<open>q\<close> leads to the elements \<open>as\<close>, the back link of the first one is \<open>p\<close>, and the
  last one is followed by nothing.
\<close>

fun dlist :: "dlinks \<Rightarrow> addr option \<Rightarrow> addr option \<Rightarrow> addr list \<Rightarrow> bool" where
  "dlist L p q [] \<longleftrightarrow> q = None"
| "dlist L p q (a # as) \<longleftrightarrow> q = Some a \<and> l_prev L a = p \<and> dlist L (Some a) (l_next L a) as"

text \<open>The same with the part before \<open>q'\<close> only, whose last element is \<open>p'\<close>.\<close>

fun dseg :: "dlinks \<Rightarrow> addr option \<Rightarrow> addr option \<Rightarrow> addr list \<Rightarrow> addr option \<Rightarrow> addr option \<Rightarrow> bool" where
  "dseg L p q [] p' q' \<longleftrightarrow> p' = p \<and> q' = q"
| "dseg L p q (a # as) p' q' \<longleftrightarrow> q = Some a \<and> l_prev L a = p \<and> dseg L (Some a) (l_next L a) as p' q'"

lemma dlist_append: "dlist L p q (xs @ ys) \<longleftrightarrow> (\<exists>p' q'. dseg L p q xs p' q' \<and> dlist L p' q' ys)"
  by (induction xs arbitrary: p q) auto

lemma dseg_snoc: "dseg L p q (xs @ [x]) p' q' \<longleftrightarrow>
    (\<exists>r. dseg L p q xs r (Some x) \<and> l_prev L x = r \<and> p' = Some x \<and> q' = l_next L x)"
  by (induction xs arbitrary: p q) auto

text \<open>Only the links of the elements of a list matter to it.\<close>

lemma dlist_cong:
  assumes "\<And>a. a \<in> set as \<Longrightarrow> l_next L' a = l_next L a \<and> l_prev L' a = l_prev L a"
  shows "dlist L' p q as \<longleftrightarrow> dlist L p q as"
  using assms by (induction as arbitrary: p q) auto

lemma dseg_cong:
  assumes "\<And>a. a \<in> set as \<Longrightarrow> l_next L' a = l_next L a \<and> l_prev L' a = l_prev L a"
  shows "dseg L' p q as p' q' \<longleftrightarrow> dseg L p q as p' q'"
  using assms by (induction as arbitrary: p q) auto

lemma dlist_Nil_iff: "dlist L p q as \<Longrightarrow> as = [] \<longleftrightarrow> q = None"
  by (cases as) auto

lemma dlist_first: "dlist L p q as \<Longrightarrow> q = (case as of [] \<Rightarrow> None | a # _ \<Rightarrow> Some a)"
  by (cases as) auto

text \<open>The two neighbours of an element.\<close>

lemma dlist_neighbours:
  assumes "dlist L p q (xs @ a # ys)"
  shows "l_prev L a = (if xs = [] then p else Some (last xs))"
    and "l_next L a = (case ys of [] \<Rightarrow> None | y # _ \<Rightarrow> Some y)"
proof -
  obtain p' q' where s: "dseg L p q xs p' q'" "dlist L p' q' (a # ys)"
    using assms by (auto simp: dlist_append)
  have "p' = (if xs = [] then p else Some (last xs))"
    using s(1) by (cases xs rule: rev_cases) (auto simp: dseg_snoc)
  then show "l_prev L a = (if xs = [] then p else Some (last xs))" using s(2) by simp
  show "l_next L a = (case ys of [] \<Rightarrow> None | y # _ \<Rightarrow> Some y)" using s(2) dlist_first by fastforce
qed

text \<open>Patching the links around an element takes it out.\<close>

lemma dlist_unlink:
  assumes d: "dlist L None q (xs @ a # ys)" and dist: "distinct (xs @ a # ys)"
    and L1: "L1 = (case l_prev L a of None \<Rightarrow> L | Some u \<Rightarrow> L\<lparr>l_next := (l_next L)(u := l_next L a)\<rparr>)"
    and L2: "L2 = (case l_next L a of None \<Rightarrow> L1 | Some v \<Rightarrow> L1\<lparr>l_prev := (l_prev L1)(v := l_prev L a)\<rparr>)"
  shows "dlist L2 None (if l_prev L a = None then l_next L a else q) (xs @ ys)"
proof -
  note nb = dlist_neighbours [OF d]
  obtain p' q' where s: "dseg L None q xs p' q'" "dlist L p' q' (a # ys)"
    using d by (auto simp: dlist_append)
  have off: "last xs \<notin> set (a # ys)" if "xs \<noteq> []"
    using dist last_in_set [OF that] by auto
  have tail: "dlist L2 (l_prev L a) (l_next L a) ys"
  proof (cases ys)
    case Nil
    then show ?thesis using nb(2) by simp
  next
    case (Cons v ys')
    have "dlist L (Some v) (l_next L v) ys'" using s(2) Cons by simp
    then have "dlist L2 (Some v) (l_next L v) ys'"
      using dist Cons nb off by (subst dlist_cong [of _ _ L]) (auto simp: L1 L2 split: option.split)
    moreover have "l_next L2 v = l_next L v" "l_prev L2 v = l_prev L a"
      using dist Cons nb off by (auto simp: L1 L2 split: option.split)
    ultimately show ?thesis using nb(2) Cons by simp
  qed
  show ?thesis
  proof (cases xs rule: rev_cases)
    case Nil
    then show ?thesis using tail nb(1) by simp
  next
    case (snoc xs' u)
    then obtain r where r: "dseg L None q xs' r (Some u)" "l_prev L u = r"
      using s(1) by (auto simp: dseg_snoc)
    have pa: "l_prev L a = Some u" using nb(1) snoc by simp
    have "dseg L2 None q xs' r (Some u)"
      using r(1) dist snoc nb(2) pa
      by (subst dseg_cong [of _ _ L]) (auto simp: L1 L2 split: option.split list.split)
    moreover have "l_prev L2 u = r" "l_next L2 u = l_next L a"
      using r(2) dist snoc nb(2) pa by (auto simp: L1 L2 split: option.split list.split)
    ultimately have "dseg L2 None q (xs' @ [u]) (Some u) (l_next L a)" by (auto simp: dseg_snoc)
    then show ?thesis using tail pa snoc dlist_append [of L2 None q xs ys] by auto
  qed
qed

text \<open>Appending behind the last element.\<close>

lemma dlist_snoc:
  assumes d: "dlist L None q as" and ne: "as \<noteq> []" and new: "a \<notin> set as" and dist: "distinct as"
    and L': "L' = L\<lparr>l_prev := (l_prev L)(a := Some (last as)), l_next := (l_next L)(a := None, last as := Some a)\<rparr>"
  shows "dlist L' None q (as @ [a])"
proof -
  obtain xs l where as: "as = xs @ [l]" using ne by (cases as rule: rev_cases) auto
  obtain r where r: "dseg L None q xs r (Some l)" "l_prev L l = r"
    using d as by (auto simp: dlist_append)
  have "dseg L' None q xs r (Some l)"
    using r(1) new dist as by (subst dseg_cong [of _ _ L]) (auto simp: L')
  then have "dseg L' None q as (Some l) (Some a)" using r(2) new as by (auto simp: dseg_snoc L')
  moreover have "dlist L' (Some l) (Some a) [a]" using new as by (auto simp: L')
  ultimately show ?thesis using dlist_append [of L' None q as "[a]"] by blast
qed

text \<open>A new first element.\<close>

lemma link_front_dlist:
  assumes d: "dlist L None q as" and new: "a \<notin> set as" and dist: "distinct as"
    and mem: "hp a \<noteq> None" "\<forall>x \<in> set as. hp x \<noteq> None"
  shows "\<exists>L'. link_front hp L q a = Inr L' \<and> dlist L' None (Some a) (a # as) \<and>
     (\<forall>x. x \<noteq> a \<longrightarrow> l_next L' x = l_next L x) \<and> (\<forall>x. x \<notin> set (a # as) \<longrightarrow> l_prev L' x = l_prev L x)"
proof (cases as)
  case Nil
  then show ?thesis using d mem by (auto simp: link_front_def at_elmt_def)
next
  case (Cons x xs)
  let ?L = "L\<lparr>l_next := (l_next L)(a := q), l_prev := (l_prev L)(a := None, x := Some a)\<rparr>"
  have "dlist ?L (Some x) (l_next L x) xs"
    using d Cons new dist by (subst dlist_cong [of _ _ L]) auto
  then have "dlist ?L None (Some a) (a # as)" using d Cons new by auto
  moreover have "link_front hp L q a = Inr ?L"
    using d Cons mem by (auto simp: link_front_def at_elmt_def)
  ultimately show ?thesis using Cons by fastforce
qed
section \<open>The buckets\<close>

definition bkt_rel :: "dlinks \<Rightarrow> hh_bucket \<Rightarrow> ut_bucket \<Rightarrow> bool" where
  "bkt_rel L pb b \<longleftrightarrow> dlist L None (hh_head pb) (chain b) \<and> hh_count pb = bcount b \<and>
     hh_expand_mult pb = expand_mult b"

definition bkts_rel :: "dlinks \<Rightarrow> hh_bucket list \<Rightarrow> ut_bucket list \<Rightarrow> bool" where
  "bkts_rel L pbs bs \<longleftrightarrow> length pbs = length bs \<and> (\<forall>i < length bs. bkt_rel L (pbs ! i) (bs ! i))"

lemma bkts_relD:
  assumes "bkts_rel L pbs bs" "i < length bs"
  shows "hh_bucket_at pbs i = Inr (pbs ! i)" "dlist L None (hh_head (pbs ! i)) (chain (bs ! i))"
    "hh_count (pbs ! i) = bcount (bs ! i)" "hh_expand_mult (pbs ! i) = expand_mult (bs ! i)"
  using assms by (auto simp: bkts_rel_def bkt_rel_def hh_bucket_at_def)

lemma bkts_rel_replicate: "bkts_rel L (replicate n no_bucket) (replicate n empty_bucket)"
  by (simp add: bkts_rel_def bkt_rel_def no_bucket_def empty_bucket_def)

text \<open>Two buckets have no element in common.\<close>

lemma chains_disjoint:
  assumes "distinct (items bs)" "i < length bs"
  shows "distinct (chain (bs ! i))"
    and "j < length bs \<Longrightarrow> j \<noteq> i \<Longrightarrow> x \<in> set (chain (bs ! j)) \<Longrightarrow> x \<notin> set (chain (bs ! i))"
proof -
  have "distinct (chain (bs ! i)) \<and>
      (\<forall>j < length bs. j \<noteq> i \<longrightarrow> set (chain (bs ! j)) \<inter> set (chain (bs ! i)) = {})"
    using assms
  proof (induction bs arbitrary: i)
    case (Cons c bs)
    have sub: "set (chain (bs ! j)) \<inter> set (chain c) = {}" if "j < length bs" for j
      using Cons.prems(1) that by (fastforce simp: items_def)
    have "distinct (items bs)" using Cons.prems(1) by (simp add: items_def)
    then show ?case using Cons sub
      by (cases i) (auto simp: items_def nth_Cons split: nat.splits)
  qed simp
  then show "distinct (chain (bs ! i))"
    "j < length bs \<Longrightarrow> j \<noteq> i \<Longrightarrow> x \<in> set (chain (bs ! j)) \<Longrightarrow> x \<notin> set (chain (bs ! i))"
    by auto
qed

text \<open>Changing one bucket and no link of the elements of the others.\<close>

lemma bkts_rel_update:
  assumes rel: "bkts_rel L pbs bs" and i: "i < length bs" and b: "bkt_rel L' pb b"
    and off: "\<And>j x. j < length bs \<Longrightarrow> j \<noteq> i \<Longrightarrow> x \<in> set (chain (bs ! j)) \<Longrightarrow>
      l_next L' x = l_next L x \<and> l_prev L' x = l_prev L x"
  shows "bkts_rel L' (pbs[i := pb]) (bs[i := b])"
proof -
  have "bkt_rel L' (pbs ! j) (bs ! j)" if "j < length bs" "j \<noteq> i" for j
    using rel that dlist_cong [of "chain (bs ! j)" L' L] off [OF that]
    by (simp add: bkts_rel_def bkt_rel_def)
  then show ?thesis using rel i b by (simp add: bkts_rel_def nth_list_update)
qed

lemma push_rel:
  assumes rel: "bkts_rel L pbs bs" and i: "i < length bs" and new: "a \<notin> set (items bs)"
    and dist: "distinct (items bs)" and mem: "hp a \<noteq> None" "\<forall>x \<in> set (items bs). hp x \<noteq> None"
  shows "\<exists>L'. link_front hp L (hh_head (pbs ! i)) a = Inr L' \<and> (\<forall>x. x \<noteq> a \<longrightarrow> l_next L' x = l_next L x) \<and>
     (\<forall>pb b. hh_head pb = Some a \<longrightarrow> chain b = a # chain (bs ! i) \<longrightarrow> hh_count pb = bcount b \<longrightarrow>
        hh_expand_mult pb = expand_mult b \<longrightarrow> bkts_rel L' (pbs[i := pb]) (bs[i := b]))"
proof -
  have sub: "set (chain (bs ! j)) \<subseteq> set (items bs)" if "j < length bs" for j
    using that by (auto simp: in_items_iff)
  obtain L' where L': "link_front hp L (hh_head (pbs ! i)) a = Inr L'"
    "dlist L' None (Some a) (a # chain (bs ! i))" "\<forall>x. x \<noteq> a \<longrightarrow> l_next L' x = l_next L x"
    "\<forall>x. x \<notin> set (a # chain (bs ! i)) \<longrightarrow> l_prev L' x = l_prev L x"
    using link_front_dlist [OF bkts_relD(2) [OF rel i], of a hp] sub [OF i] new mem
      chains_disjoint(1) [OF dist i] by blast
  have off: "l_next L' x = l_next L x \<and> l_prev L' x = l_prev L x"
    if "j < length bs" "j \<noteq> i" "x \<in> set (chain (bs ! j))" for j x
    using chains_disjoint(2) [OF dist i that] sub [OF that(1)] that(3) new L'(3,4) by auto
  have "bkts_rel L' (pbs[i := pb]) (bs[i := b])"
    if "hh_head pb = Some a" "chain b = a # chain (bs ! i)" "hh_count pb = bcount b"
      "hh_expand_mult pb = expand_mult b" for pb b
    using that L'(2) by (intro bkts_rel_update [OF rel i]) (auto simp: bkt_rel_def off)
  then show ?thesis using L'(1,3) by blast
qed

section \<open>Doubling the array\<close>

lemma expand_one_mset:
  assumes "expand_one hp num ideal a (bs, m) = Inr (bs', m')"
  shows "mset (items bs') = add_mset a (mset (items bs))"
proof -
  obtain i b where "i < length bs" "bs' = bs[i := b]" "chain b = a # chain (bs ! i)"
    using assms by (auto simp: expand_one_def Let_def bind_res_Inr_iff bucket_at_def split: if_splits)
  then show ?thesis using mset_items_update [of i bs b] by simp
qed

lemma expand_one_hh_rel:
  assumes rel: "bkts_rel L pbs bs" and new: "a \<notin> set (items bs)"
    and dist: "distinct (items bs)" and mem: "\<forall>x \<in> set (items bs). hp x \<noteq> None"
    and run: "expand_one hp num ideal a (bs, m) = Inr (bs', m')"
  shows "\<exists>pbs' L'. expand_one_hh hp num ideal a (pbs, m, L) = Inr (pbs', m', L') \<and>
     bkts_rel L' pbs' bs' \<and> (\<forall>x. x \<noteq> a \<longrightarrow> l_next L' x = l_next L x)"
proof -
  obtain e where e: "hp a = Some e" using run by (cases "hp a") (auto simp: expand_one_def deref_def)
  define i where "i = HASH_TO_BKT (hh_hashv e) num"
  have i: "i < length bs"
    using run e by (auto simp: expand_one_def Let_def bind_res_Inr_iff bucket_at_def i_def split: if_splits)
  note at = bkts_relD [OF rel i]
  obtain L' where L': "link_front hp L (hh_head (pbs ! i)) a = Inr L'" "\<forall>x. x \<noteq> a \<longrightarrow> l_next L' x = l_next L x"
    "\<And>pb b. hh_head pb = Some a \<Longrightarrow> chain b = a # chain (bs ! i) \<Longrightarrow> hh_count pb = bcount b \<Longrightarrow>
        hh_expand_mult pb = expand_mult b \<Longrightarrow> bkts_rel L' (pbs[i := pb]) (bs[i := b])"
    using push_rel [OF rel i new dist _ mem] e by blast
  have bkt_links: "bucket_at bs i = Inr (bs ! i)" using i by (simp add: bucket_at_def)
  show ?thesis
    using run e L'(1,2) at(1,3,4) bkt_links
    by (auto simp: expand_one_def expand_one_hh_def Let_def i_def [symmetric] intro!: L'(3))
qed

text \<open>The elements that a walk along a \<open>next\<close> field meets: the part of a chain still to be moved.\<close>

fun fwd :: "(addr \<Rightarrow> addr option) \<Rightarrow> addr option \<Rightarrow> addr list \<Rightarrow> bool" where
  "fwd f q [] \<longleftrightarrow> q = None"
| "fwd f q (a # as) \<longleftrightarrow> q = Some a \<and> fwd f (f a) as"

lemma fwd_cong: "(\<And>a. a \<in> set as \<Longrightarrow> g a = f a) \<Longrightarrow> fwd g q as \<longleftrightarrow> fwd f q as"
  by (induction as arbitrary: q) auto

lemma dlist_fwd: "dlist L p q as \<Longrightarrow> fwd (l_next L) q as"
  by (induction as arbitrary: p q) auto

lemma expand_chain_hh_rel:
  assumes "fwd (l_next L) q ch" "bkts_rel L pbs bs" "distinct (ch @ items bs)"
    and "\<forall>x \<in> set (ch @ items bs). hp x \<noteq> None"
    and "expand_all hp num ideal ch (bs, m) = Inr (bs', m')"
  shows "\<exists>pbs' L'. expand_chain_hh hp num ideal q (pbs, m, L) = Some (Inr (pbs', m', L')) \<and>
     bkts_rel L' pbs' bs' \<and> (\<forall>x. x \<notin> set ch \<longrightarrow> l_next L' x = l_next L x) \<and>
     mset (items bs') = mset (ch @ items bs)"
  using assms
proof (induction ch arbitrary: q L pbs bs m)
  case Nil
  then show ?case by (simp add: expand_chain_hh.simps)
next
  case (Cons a ch)
  obtain bs1 m1 where one: "expand_one hp num ideal a (bs, m) = Inr (bs1, m1)"
    "expand_all hp num ideal ch (bs1, m1) = Inr (bs', m')"
    using Cons.prems(5) by (auto simp: bind_res_Inr_iff)
  have ms: "mset (items bs1) = add_mset a (mset (items bs))" by (rule expand_one_mset [OF one(1)])
  obtain pbs1 L1 where L1: "expand_one_hh hp num ideal a (pbs, m, L) = Inr (pbs1, m1, L1)"
    "bkts_rel L1 pbs1 bs1" "\<forall>x. x \<noteq> a \<longrightarrow> l_next L1 x = l_next L x"
    using expand_one_hh_rel [OF Cons.prems(2) _ _ _ one(1)] Cons.prems(3,4) by auto
  have "l_next L1 x = l_next L x" if "x \<in> set ch" for x using that Cons.prems(3) L1(3) by auto
  then have "fwd (l_next L1) (l_next L a) ch" using Cons.prems(1) fwd_cong [of ch "l_next L1" "l_next L"] by simp
  moreover have "mset (ch @ items bs1) = mset ((a # ch) @ items bs)" using ms by simp
  then have "distinct (ch @ items bs1)" "set (ch @ items bs1) = set ((a # ch) @ items bs)"
    using Cons.prems(3) mset_eq_imp_distinct_iff mset_eq_setD by blast+
  moreover from this have "\<forall>x \<in> set (ch @ items bs1). hp x \<noteq> None" using Cons.prems(4) by simp
  ultimately obtain pbs' L' where
    "expand_chain_hh hp num ideal (l_next L a) (pbs1, m1, L1) = Some (Inr (pbs', m', L'))"
    "bkts_rel L' pbs' bs'" "\<forall>x. x \<notin> set ch \<longrightarrow> l_next L' x = l_next L1 x" "mset (items bs') = mset (ch @ items bs1)"
    using Cons.IH [OF _ L1(2) _ _ one(2)] by blast
  then show ?case
    using Cons.prems(1) L1 ms by (auto simp: expand_chain_hh.simps [of hp num ideal "Some a"])
qed

lemma expand_all_append:
  "expand_all hp num ideal (xs @ ys) st =
     bind_res (expand_all hp num ideal xs st) (expand_all hp num ideal ys)"
  by (induction xs arbitrary: st) (auto simp: bind_res_assoc [symmetric] bind_res_def split: sum.split)

lemma expand_buckets_hh_rel:
  assumes "\<forall>j \<in> set js. j < length old \<and> fwd (l_next L) (hh_head (old ! j)) (ch j)"
    and "bkts_rel L pbs bs" "distinct (concat (map ch js) @ items bs)"
    and "\<forall>x \<in> set (concat (map ch js) @ items bs). hp x \<noteq> None"
    and "expand_all hp num ideal (concat (map ch js)) (bs, m) = Inr (bs', m')"
  shows "\<exists>pbs' L'. expand_buckets_hh hp old num ideal js (pbs, m, L) = Some (Inr (pbs', m', L')) \<and>
     bkts_rel L' pbs' bs'"
  using assms
proof (induction js arbitrary: L pbs bs m)
  case (Cons j js)
  obtain bs1 m1 where one: "expand_all hp num ideal (ch j) (bs, m) = Inr (bs1, m1)"
    "expand_all hp num ideal (concat (map ch js)) (bs1, m1) = Inr (bs', m')"
    using Cons.prems(5) by (auto simp: expand_all_append bind_res_Inr_iff)
  obtain pbs1 L1 where L1: "expand_chain_hh hp num ideal (hh_head (old ! j)) (pbs, m, L) = Some (Inr (pbs1, m1, L1))"
    "bkts_rel L1 pbs1 bs1" "\<forall>x. x \<notin> set (ch j) \<longrightarrow> l_next L1 x = l_next L x"
    "mset (items bs1) = mset (ch j @ items bs)"
  proof -
    have "fwd (l_next L) (hh_head (old ! j)) (ch j)" "distinct (ch j @ items bs)"
      "\<forall>x \<in> set (ch j @ items bs). hp x \<noteq> None"
      using Cons.prems(1,3,4) by auto
    from expand_chain_hh_rel [OF this(1) Cons.prems(2) this(2,3) one(1)] show ?thesis using that by blast
  qed
  have "fwd (l_next L1) (hh_head (old ! i)) (ch i)" if "i \<in> set js" for i
  proof -
    have "l_next L1 x = l_next L x" if "x \<in> set (ch i)" for x
      using L1(3) Cons.prems(3) \<open>i \<in> set js\<close> that by auto
    then show ?thesis using Cons.prems(1) that fwd_cong [of "ch i" "l_next L1" "l_next L"] by simp
  qed
  moreover have "mset (concat (map ch js) @ items bs1) = mset (concat (map ch (j # js)) @ items bs)"
    using L1(4) by (simp add: ac_simps)
  then have "distinct (concat (map ch js) @ items bs1)"
    "set (concat (map ch js) @ items bs1) = set (concat (map ch (j # js)) @ items bs)"
    using Cons.prems(3) mset_eq_imp_distinct_iff mset_eq_setD by blast+
  ultimately obtain pbs' L' where "expand_buckets_hh hp old num ideal js (pbs1, m1, L1) = Some (Inr (pbs', m', L'))"
    "bkts_rel L' pbs' bs'"
    using Cons.IH [OF _ L1(2) _ _ one(2)] Cons.prems(1,4) by auto
  then show ?case using L1(1) Cons.prems(1) by (simp add: hh_bucket_at_def)
qed simp
text \<open>The same table up to the links, the order and the \<open>tail\<close>.\<close>

definition tbl_rel :: "dlinks \<Rightarrow> hh_table \<Rightarrow> ut_table \<Rightarrow> bool" where
  "tbl_rel L pt t \<longleftrightarrow> bkts_rel L (tb_buckets pt) (buckets t) \<and> tb_num_buckets pt = num_buckets t \<and>
     tb_log2_num_buckets pt = log2_num_buckets t \<and> tb_num_items pt = num_items t \<and>
     tb_ideal_chain_maxlen pt = ideal_chain_maxlen t \<and> tb_nonideal_items pt = nonideal_items t \<and>
     tb_ineff_expands pt = ineff_expands t \<and> tb_noexpand pt = noexpand t"

lemma HASH_EXPAND_BUCKETS_rel:
  assumes rel: "tbl_rel L pt t" and len: "length (buckets t) = unat (num_buckets t)"
    and dist: "distinct (items (buckets t))" and mem: "\<forall>x \<in> set (items (buckets t)). hp x \<noteq> None"
    and run: "HASH_EXPAND_BUCKETS hp t = Inr t'"
  shows "\<exists>L' pt'. HASH_EXPAND_BUCKETS_hh hp L pt = Some (Inr (L', pt')) \<and> tbl_rel L' pt' t' \<and>
     tb_tail pt' = tb_tail pt"
proof -
  define num where "num = num_buckets t * 2"
  define ideal where "ideal = drop_bit (unat (log2_num_buckets t + 1)) (num_items t)
      + (if num_items t AND (num - 1) \<noteq> 0 then 1 else 0)"
  let ?n = "unat (num_buckets t)" and ?ch = "\<lambda>j. chain (buckets t ! j)"
  have small: "\<not> 31 \<le> unat (log2_num_buckets t)"
    using run by (auto simp: HASH_EXPAND_BUCKETS_def)
  have "map ?ch [0..<?n] = map chain (buckets t)"
    by (rule nth_equalityI) (simp_all add: len)
  then have ch: "concat (map ?ch [0..<?n]) = items (buckets t)" by (simp add: items_def)
  obtain bs m where all: "expand_all hp num ideal (items (buckets t)) (replicate (2 * ?n) empty_bucket, 0) = Inr (bs, m)"
    and t': "t' = (let ineff = (if m > drop_bit 1 (num_items t) then ineff_expands t + 1 else 0)
        in t\<lparr>buckets := bs, num_buckets := num,
             log2_num_buckets := log2_num_buckets t + 1, ideal_chain_maxlen := ideal,
             nonideal_items := m, ineff_expands := ineff,
             noexpand := (noexpand t \<or> ineff > 1)\<rparr>)"
    using run small
    by (auto simp: HASH_EXPAND_BUCKETS_def Let_def bind_res_Inr_iff items_def [symmetric]
        num_def [symmetric] ideal_def [symmetric])
  have rel_b: "bkts_rel L (tb_buckets pt) (buckets t)" using rel by (simp add: tbl_rel_def)
  have "\<forall>j \<in> set [0..<?n]. j < length (tb_buckets pt) \<and> fwd (l_next L) (hh_head (tb_buckets pt ! j)) (?ch j)"
    using rel_b dlist_fwd [OF bkts_relD(2) [OF rel_b]] by (simp add: len [symmetric] bkts_rel_def)
  from expand_buckets_hh_rel [OF this bkts_rel_replicate [of L "2 * ?n"], unfolded ch, OF _ _ all]
  obtain pbs' L' where "expand_buckets_hh hp (tb_buckets pt) num ideal [0..<?n]
      (replicate (2 * ?n) no_bucket, 0, L) = Some (Inr (pbs', m, L'))" "bkts_rel L' pbs' bs"
    using dist mem by (auto simp: items_replicate)
  then show ?thesis
    using rel small
    by (simp add: HASH_EXPAND_BUCKETS_hh_def tbl_rel_def Let_def num_def [symmetric]
        ideal_def [symmetric] t')
qed

lemma HASH_ADD_TO_BKT_rel:
  assumes rel: "tbl_rel L pt t" and l: "unat (log2_num_buckets t) = l" "l < 32" and nb: "num_buckets t = 2 ^ l"
    and ok: "bkts_ok hp l (buckets t)" and dist: "distinct (a # items (buckets t))"
    and e: "hp a = Some e" and i: "i = HASH_TO_BKT (hh_hashv e) (num_buckets t)"
  shows "(\<exists>t' L' pt'. HASH_ADD_TO_BKT hp t i a = Inr t' \<and>
       HASH_ADD_TO_BKT_hh hp L pt i a = Some (Inr (L', pt')) \<and> tbl_rel L' pt' t' \<and> tb_tail pt' = tb_tail pt) \<or>
     HASH_ADD_TO_BKT hp t i a = Inl (Exit (-1)) \<and> HASH_ADD_TO_BKT_hh hp L pt i a = Some (Inl (Exit (-1)))"
proof -
  let ?b = "buckets t ! i" and ?pb = "tb_buckets pt ! i"
  define b where "b = ?b\<lparr>bcount := bcount ?b + 1, chain := a # chain ?b\<rparr>"
  define pb where "pb = ?pb\<lparr>hh_count := hh_count ?pb + 1, hh_head := Some a\<rparr>"
  define t1 where "t1 = t\<lparr>buckets := (buckets t)[i := b]\<rparr>"
  define pt1 where "pt1 = pt\<lparr>tb_buckets := (tb_buckets pt)[i := pb]\<rparr>"
  have i': "i = unat (hh_hashv e) mod 2 ^ l" by (simp add: i nb HASH_TO_BKT_mod [OF l(2)])
  have lt: "i < length (buckets t)" using ok by (simp add: i' bkts_ok_def)
  have mem: "\<forall>x \<in> set (items (buckets t)). hp x \<noteq> None" by (rule items_in_heap [OF ok])
  have rel_b: "bkts_rel L (tb_buckets pt) (buckets t)" using rel by (simp add: tbl_rel_def)
  note at = bkts_relD [OF rel_b lt]
  obtain L1 where L1: "link_front hp L (hh_head ?pb) a = Inr L1"
    "bkts_rel L1 ((tb_buckets pt)[i := pb]) ((buckets t)[i := b])"
    using push_rel [OF rel_b lt, of a hp] dist mem e at(3,4) by (auto simp: b_def pb_def)
  have rel1: "tbl_rel L1 pt1 t1" using rel L1(2) by (simp add: tbl_rel_def pt1_def t1_def)
  have push: "bkts_ok hp l ((buckets t)[i := b])"
    "mset (items ((buckets t)[i := b])) = mset (a # items (buckets t))"
    using push_chain_ok [OF ok e i', of b] by (simp_all add: b_def)
  have dist1: "distinct (items (buckets t1))"
    using dist mset_eq_imp_distinct_iff [OF push(2)] by (simp add: t1_def)
  define grow where "grow \<longleftrightarrow> (expand_mult b + 1) * 10 \<le> bcount b \<and> \<not> noexpand t"
  have run: "HASH_ADD_TO_BKT hp t i a = (if grow then HASH_EXPAND_BUCKETS hp t1 else Inr t1)"
    using lt by (simp add: HASH_ADD_TO_BKT_def bucket_at_def Let_def b_def t1_def grow_def)
  have run': "HASH_ADD_TO_BKT_hh hp L pt i a =
      (if grow then HASH_EXPAND_BUCKETS_hh hp L1 pt1 else Some (Inr (L1, pt1)))"
    using at L1(1) rel
    by (simp add: HASH_ADD_TO_BKT_hh_def Let_def pb_def pt1_def grow_def b_def tbl_rel_def)
  show ?thesis
  proof (cases "grow \<and> l < 31")
    case True
    have "unat (log2_num_buckets t1) < 31" "num_buckets t1 = 2 ^ unat (log2_num_buckets t1)"
      "bkts_ok hp (unat (log2_num_buckets t1)) (buckets t1)"
      using True nb push(1) l(1) by (simp_all add: t1_def)
    then obtain t' where t': "HASH_EXPAND_BUCKETS hp t1 = Inr t'"
      using HASH_EXPAND_BUCKETS_keeps [of t1 hp] by blast
    have "length (buckets t1) = unat (num_buckets t1)"
      using push(1) nb l(2) by (simp add: t1_def bkts_ok_def unat_pow2)
    moreover have "\<forall>x \<in> set (items (buckets t1)). hp x \<noteq> None"
      using items_in_heap [OF push(1)] by (simp add: t1_def)
    ultimately show ?thesis
      using HASH_EXPAND_BUCKETS_rel [OF rel1 _ dist1 _ t'] run run' t' True by (auto simp: pt1_def)
  next
    case False
    have "HASH_EXPAND_BUCKETS hp t1 = Inl (Exit (-1)) \<and> HASH_EXPAND_BUCKETS_hh hp L1 pt1 = Some (Inl (Exit (-1)))"
      if "\<not> l < 31"
      using that rel1 l(1) by (simp add: HASH_EXPAND_BUCKETS_def HASH_EXPAND_BUCKETS_hh_def tbl_rel_def t1_def)
    then show ?thesis using run run' rel1 False by (auto simp: pt1_def)
  qed
qed
section \<open>The whole structure\<close>

text \<open>
  The pointers \<open>s\<close> represent the table \<open>h\<close>: the same elements, the application order linked
  from the head to the \<open>tail\<close> in both directions, every chain linked from its bucket in both
  directions, and all \<open>tbl\<close> pointers on the one table.
\<close>

definition represents :: "'d hash_ptrs \<Rightarrow> 'd ut_hash \<Rightarrow> bool" where
  "represents s h \<longleftrightarrow> hash_mem s = heap h \<and> next_elmt s = next_addr h \<and>
     (case head h of None \<Rightarrow> hash_head s = None
      | Some t \<Rightarrow> app_order t \<noteq> [] \<and> dlist (app_links s) None (hash_head s) (app_order t) \<and>
          (\<exists>k pt. (\<forall>a \<in> set (app_order t). hh_tbl s a = Some k) \<and> hh_tables s k = Some pt \<and>
             tb_tail pt = Some (last (app_order t)) \<and> tbl_rel (bkt_links s) pt t))"

lemma representsI:
  assumes "hash_mem s = heap h" "next_elmt s = next_addr h" "head h = Some t" "app_order t \<noteq> []"
    "dlist (app_links s) None (hash_head s) (app_order t)" "\<forall>a \<in> set (app_order t). hh_tbl s a = Some k"
    "hh_tables s k = Some pt" "tb_tail pt = Some (last (app_order t))" "tbl_rel (bkt_links s) pt t"
  shows "represents s h"
  unfolding represents_def using assms by auto

lemma represents_table:
  assumes "represents s h" "head h = Some t" "ut_wf h"
  obtains x k pt where "hash_head s = Some x" "x \<in> set (app_order t)" "tbl_of s (hash_head s) = Inr (k, pt)"
    "\<forall>a \<in> set (app_order t). hh_tbl s a = Some k" "hh_tables s k = Some pt"
    "tb_tail pt = Some (last (app_order t))" "tbl_rel (bkt_links s) pt t"
    "dlist (app_links s) None (hash_head s) (app_order t)" "app_order t \<noteq> []"
    "\<forall>a \<in> set (app_order t). \<exists>e. hash_mem s a = Some e"
proof -
  have live_all: "\<forall>a \<in> set (app_order t). \<exists>e. hash_mem s a = Some e"
    using assms by (auto simp: represents_def ut_wf_def elmts_ok_def order_of_def)
  obtain k pt where k: "app_order t \<noteq> []" "dlist (app_links s) None (hash_head s) (app_order t)"
    "\<forall>a \<in> set (app_order t). hh_tbl s a = Some k" "hh_tables s k = Some pt"
    "tb_tail pt = Some (last (app_order t))" "tbl_rel (bkt_links s) pt t"
    using assms(1,2) by (auto simp: represents_def)
  then obtain x where x: "hash_head s = Some x" "x \<in> set (app_order t)"
    by (cases "app_order t") auto
  then have "tbl_of s (hash_head s) = Inr (k, pt)"
    using k(3,4) live_all by (auto simp: tbl_of_def at_elmt_def)
  then show ?thesis using that x k live_all by blast
qed

lemma represents_head: "represents s h \<Longrightarrow> hash_head s = None \<longleftrightarrow> head h = None"
  by (cases "head h") (auto simp: represents_def dest: dlist_Nil_iff)

lemma at_elmt_Some [simp]: "hp a = Some e \<Longrightarrow> at_elmt hp (Some a) = Inr a"
  by (simp add: at_elmt_def)

text \<open>\<open>HASH_APPEND_LIST\<close>.\<close>

lemma append_list_rel:
  assumes d: "dlist (app_links s) None (hash_head s) as" and ne: "as \<noteq> []" and new: "a \<notin> set as"
    and dist: "distinct as" and mem: "hash_mem s a = Some e" "hash_mem s (last as) = Some e'"
    and t: "tbl_of s (hash_head s) = Inr (k, t)" "tb_tail t = Some (last as)"
  shows "\<exists>L. HASH_APPEND_LIST_hh s a = Inr (put_tbl (s\<lparr>app_links := L\<rparr>) k (t\<lparr>tb_tail := Some a\<rparr>)) \<and>
     dlist L None (hash_head s) (as @ [a])"
proof -
  let ?L = "(app_links s)\<lparr>l_prev := (l_prev (app_links s))(a := Some (last as)), l_next := (l_next (app_links s))(a := None, last as := Some a)\<rparr>"
  have "tbl_of (s\<lparr>app_links := L\<rparr>) p = tbl_of s p" for L p
    by (simp add: tbl_of_def cong: option.case_cong)
  then have "HASH_APPEND_LIST_hh s a = Inr (put_tbl (s\<lparr>app_links := ?L\<rparr>) k (t\<lparr>tb_tail := Some a\<rparr>))"
    using mem t by (simp add: HASH_APPEND_LIST_hh_def Let_def)
  then show ?thesis using dlist_snoc [OF d ne new dist refl] by blast
qed

text \<open>
  The first half of an addition: the element is the last of the order, the table is there.
\<close>

lemma add_start_rel:
  assumes rep: "represents s h" and wf: "ut_wf h" and new: "a \<notin> set (order_of h)"
    and e0: "heap h a = Some e0" and hp: "hp = (heap h)(a \<mapsto> keyed key e0)" and t0: "t0 = add_table h a"
  shows "\<exists>s0 k pt. add_last_hh s key a = Inr s0 \<and>
      hash_mem s0 = hp \<and> next_elmt s0 = next_addr h \<and> dlist (app_links s0) None (hash_head s0) (app_order t0) \<and>
      (\<forall>x \<in> set (app_order t0). hh_tbl s0 x = Some k) \<and> hh_tables s0 k = Some pt \<and>
      tb_tail pt = Some (last (app_order t0)) \<and> tbl_rel (bkt_links s0) pt t0"
proof (cases "head h")
  case None
  define s0 where "s0 = (HASH_MAKE_TABLE_hh (s\<lparr>hash_mem := hp,
      app_links := \<lparr>l_next = (l_next (app_links s))(a := None), l_prev = (l_prev (app_links s))(a := None)\<rparr>\<rparr>) a)\<lparr>hash_head := Some a\<rparr>"
  have "add_last_hh s key a = Inr s0"
    using rep None e0
    by (simp add: add_last_hh_def represents_def Let_def s0_def hp keyed_def)
  moreover have "hash_mem s0 = hp" "next_elmt s0 = next_addr h" "app_order t0 = [a]"
    "dlist (app_links s0) None (hash_head s0) [a]" "hh_tbl s0 a = Some (next_table s)"
    using rep None by (simp_all add: s0_def HASH_MAKE_TABLE_hh_def Let_def represents_def t0 add_table_def HASH_MAKE_TABLE_def)
  moreover have "\<exists>pt. hh_tables s0 (next_table s) = Some pt \<and> tb_tail pt = Some a \<and> tbl_rel (bkt_links s0) pt t0"
    using None bkts_rel_replicate [of "bkt_links s0" 32]
    by (simp add: s0_def HASH_MAKE_TABLE_hh_def Let_def t0 add_table_def HASH_MAKE_TABLE_def tbl_rel_def)
  ultimately show ?thesis by auto
next
  case (Some t)
  obtain x k pt where r: "hash_head s = Some x" "x \<in> set (app_order t)" "tbl_of s (hash_head s) = Inr (k, pt)"
    "\<forall>y \<in> set (app_order t). hh_tbl s y = Some k" "hh_tables s k = Some pt"
    "tb_tail pt = Some (last (app_order t))" "tbl_rel (bkt_links s) pt t"
    "dlist (app_links s) None (hash_head s) (app_order t)" "app_order t \<noteq> []"
    "\<forall>y \<in> set (app_order t). \<exists>e. hash_mem s y = Some e"
    using represents_table [OF rep Some wf] by metis
  have new': "a \<notin> set (app_order t)" "distinct (app_order t)"
    using new Some ut_wf_distinct [OF wf] by (simp_all add: order_of_def)
  define s1 where "s1 = s\<lparr>hash_mem := hp, hh_tbl := (hh_tbl s)(a \<mapsto> k)\<rparr>"
  have mem: "hash_mem s1 a = Some (keyed key e0)" "hash_mem s1 y = hash_mem s y" if "y \<in> set (app_order t)" for y
    using that rep new' by (auto simp: s1_def hp represents_def)
  have at: "tbl_of s1 (hash_head s1) = Inr (k, pt)"
    using r(1,2,4,5,10) mem by (auto simp: tbl_of_def at_elmt_def s1_def deref_def)
  have at': "tbl_of (s\<lparr>hash_mem := hp\<rparr>) (hash_head s) = Inr (k, pt)"
    using r(1,2,4,5,10) mem by (auto simp: tbl_of_def at_elmt_def s1_def deref_def)
  obtain L where L: "HASH_APPEND_LIST_hh s1 a = Inr (put_tbl (s1\<lparr>app_links := L\<rparr>) k (pt\<lparr>tb_tail := Some a\<rparr>))"
    "dlist L None (hash_head s1) (app_order t @ [a])"
    using append_list_rel [of s1 "app_order t" a "keyed key e0" _ k pt] r(6,8,9,10) new' mem at
    by (auto simp: s1_def) (metis last_in_set)
  have "add_last_hh s key a = HASH_APPEND_LIST_hh s1 a"
    using r(1) at' e0 rep
    by (simp add: add_last_hh_def Let_def s1_def represents_def hp keyed_def)
  then show ?thesis
    using L r new' rep Some
    by (intro exI [of _ "put_tbl (s1\<lparr>app_links := L\<rparr>) k (pt\<lparr>tb_tail := Some a\<rparr>)"] exI [of _ k]
          exI [of _ "pt\<lparr>tb_tail := Some a\<rparr>"])
      (auto simp: put_tbl_def s1_def t0 add_table_def tbl_rel_def represents_def)
qed

text \<open>The table in the middle of an addition is one that \<^const>\<open>HASH_ADD_TO_BKT\<close> can work on.\<close>

lemma add_table_ok:
  assumes wf: "ut_wf h" and new: "a \<notin> set (order_of h)" and hp: "hp = (heap h)(a \<mapsto> e)"
    and t0: "t0 = add_table h a"
  shows "unat (log2_num_buckets t0) < 32 \<and> num_buckets t0 = 2 ^ unat (log2_num_buckets t0) \<and>
     bkts_ok hp (unat (log2_num_buckets t0)) (buckets t0) \<and> distinct (a # items (buckets t0)) \<and>
     app_order t0 \<noteq> [] \<and> (\<forall>x \<in> set (app_order t0). \<exists>e. hp x = Some e)"
proof (cases "head h")
  case None
  have "bkts_ok hp 5 (replicate 32 empty_bucket)" using bkts_ok_replicate [of hp 5] by simp
  moreover have "unat (5 :: u32) = 5" by simp
  ultimately show ?thesis using None hp by (simp add: t0 add_table_def HASH_MAKE_TABLE_def items_replicate)
next
  case (Some t)
  then have t: "table_ok (heap h) t" "a \<notin> set (app_order t)" using wf new by (simp_all add: ut_wf_def order_of_def)
  then have "bkts_ok hp (unat (log2_num_buckets t)) (buckets t)"
    by (intro table_ok_cong [OF t(1)]) (auto simp: hp)
  moreover have "distinct (items (buckets t))"
    using t(1) mset_eq_imp_distinct_iff [of "items (buckets t)" "app_order t"] by (simp add: table_ok_def)
  moreover note table_items [OF t(1)]
  moreover have "\<forall>x \<in> set (app_order t). \<exists>e. hp x = Some e"
    using wf Some by (auto simp: hp ut_wf_def elmts_ok_def order_of_def)
  ultimately show ?thesis using Some t hp by (simp add: t0 add_table_def table_ok_def)
qed

text \<open>\<open>HASH_ADD_KEYPTR\<close>: the pointers do what the operation on lists does, failure included.\<close>

theorem HASH_ADD_KEYPTR_refines:
  assumes rep: "represents s h" and wf: "ut_wf h" and new: "a \<notin> set (order_of h)"
    and e0: "heap h a = Some e0"
  shows "(\<exists>h' s'. HASH_ADD_KEYPTR h key a = Inr h' \<and> HASH_ADD_KEYPTR_hh s key a = Some (Inr s') \<and>
       represents s' h') \<or>
     HASH_ADD_KEYPTR h key a = Inl (Exit (-1)) \<and> HASH_ADD_KEYPTR_hh s key a = Some (Inl (Exit (-1)))"
proof -
  define hp where "hp = (heap h)(a \<mapsto> keyed key e0)"
  define t0 where "t0 = add_table h a"
  define t1 where "t1 = t0\<lparr>num_items := num_items t0 + 1\<rparr>"
  let ?i = "HASH_TO_BKT (HASH_JEN key) (num_buckets t1)" and ?l = "unat (log2_num_buckets t1)"
  have e: "hp a = Some (keyed key e0)" "hh_hashv (keyed key e0) = HASH_JEN key"
    by (simp_all add: hp_def keyed_def)
  have run: "HASH_ADD_KEYPTR h key a =
      bind_res (HASH_ADD_TO_BKT hp t1 ?i a) (\<lambda>t. Inr (h\<lparr>heap := hp, head := Some t\<rparr>))"
    using e0 by (simp add: HASH_ADD_KEYPTR_def HASH_ADD_TO_TABLE_def Let_def hp_def keyed_def t0_def t1_def
        add_table_def)
  obtain s0 k pt where s0: "add_last_hh s key a = Inr s0"
    "hash_mem s0 = hp" "next_elmt s0 = next_addr h" "dlist (app_links s0) None (hash_head s0) (app_order t0)"
    "\<forall>x \<in> set (app_order t0). hh_tbl s0 x = Some k" "hh_tables s0 k = Some pt"
    "tb_tail pt = Some (last (app_order t0))" "tbl_rel (bkt_links s0) pt t0"
    using add_start_rel [OF rep wf new e0 hp_def t0_def] by blast
  have tab: "?l < 32" "num_buckets t1 = 2 ^ ?l" "bkts_ok hp ?l (buckets t1)"
    "distinct (a # items (buckets t1))" and ne: "app_order t0 \<noteq> []"
    and mem: "\<forall>x \<in> set (app_order t0). \<exists>e. hp x = Some e"
    using add_table_ok [OF wf new hp_def t0_def] by (simp_all add: t1_def)
  define pt1 where "pt1 = pt\<lparr>tb_num_items := tb_num_items pt + 1\<rparr>"
  have rel1: "tbl_rel (bkt_links s0) pt1 t1" using s0(8) by (simp add: tbl_rel_def pt1_def t1_def)
  have hd: "\<exists>x. hash_head s0 = Some x \<and> x \<in> set (app_order t0)"
    using s0(4) ne by (cases "app_order t0") auto
  have at: "tbl_of s0 (hash_head s0) = Inr (k, pt)"
    using hd mem s0(2,5,6) by (auto simp: tbl_of_def at_elmt_def deref_def)
  have run': "HASH_ADD_KEYPTR_hh s key a =
      then_do (HASH_ADD_TO_BKT_hh hp (bkt_links s0) pt1 ?i a)
        (\<lambda>(L, t). Some (Inr (put_tbl (s0\<lparr>bkt_links := L\<rparr>) k t)))"
    using s0(1,2) at rel1 by (simp add: HASH_ADD_KEYPTR_hh_def HASH_ADD_TO_TABLE_hh_def Let_def pt1_def tbl_rel_def)
  have "?i = HASH_TO_BKT (hh_hashv (keyed key e0)) (num_buckets t1)" by (simp add: e(2))
  from HASH_ADD_TO_BKT_rel [OF rel1 refl tab e(1) this] show ?thesis
  proof (elim disjE exE conjE)
    fix t' L' pt'
    assume t': "HASH_ADD_TO_BKT hp t1 ?i a = Inr t'"
      "HASH_ADD_TO_BKT_hh hp (bkt_links s0) pt1 ?i a = Some (Inr (L', pt'))" "tbl_rel L' pt' t'" "tb_tail pt' = tb_tail pt1"
    then have ord: "app_order t' = app_order t0"
      using HASH_ADD_TO_BKT_ok [OF refl tab(1,2,3) e(1)] by (auto simp: e(2) t1_def)
    have "represents (put_tbl (s0\<lparr>bkt_links := L'\<rparr>) k pt') (h\<lparr>heap := hp, head := Some t'\<rparr>)"
      using s0 t'(3,4) ord ne by (simp add: represents_def put_tbl_def pt1_def)
    then show ?thesis using run run' t'(1,2) by auto
  qed (simp_all add: e(2) run run')
qed
section \<open>Deleting\<close>

text \<open>The links after the two assignments that patch them around \<open>a\<close>.\<close>

definition patched :: "dlinks \<Rightarrow> addr \<Rightarrow> dlinks" where
  "patched L a =
     (let L1 = (case l_prev L a of None \<Rightarrow> L | Some u \<Rightarrow> L\<lparr>l_next := (l_next L)(u := l_next L a)\<rparr>)
      in case l_next L a of None \<Rightarrow> L1 | Some v \<Rightarrow> L1\<lparr>l_prev := (l_prev L1)(v := l_prev L a)\<rparr>)"

lemma patched_dlist:
  assumes d: "dlist L None q as" and a: "a \<in> set as" and dist: "distinct as"
  shows "dlist (patched L a) None (if q = Some a then l_next L a else q) (remove1 a as)"
    and "l_prev L a = None \<longleftrightarrow> q = Some a"
    and "x \<notin> set as \<Longrightarrow> l_next (patched L a) x = l_next L x \<and> l_prev (patched L a) x = l_prev L x"
    and "l_prev L a = Some x \<or> l_next L a = Some x \<Longrightarrow> x \<in> set as \<and> x \<noteq> a"
    and "l_prev L a = None \<and> l_next L a = None \<longleftrightarrow> as = [a]"
    and "as \<noteq> [a] \<Longrightarrow> Some (last (remove1 a as)) = (if last as = a then l_prev L a else Some (last as))"
proof -
  obtain xs ys where as: "as = xs @ a # ys" using a by (auto simp: in_set_conv_decomp)
  have d': "dlist L None q (xs @ a # ys)" and dist': "distinct (xs @ a # ys)" using d dist as by simp_all
  note nb = dlist_neighbours [OF d']
  have rem: "remove1 a as = xs @ ys" using dist' as by (simp add: remove1_append)
  show pv_None: "l_prev L a = None \<longleftrightarrow> q = Some a"
    using nb(1) dlist_first [OF d'] dist' by (cases xs) auto
  show "dlist (patched L a) None (if q = Some a then l_next L a else q) (remove1 a as)"
    using dlist_unlink [OF d' dist' refl refl] by (simp add: pv_None rem patched_def Let_def)
  show "x \<notin> set as \<Longrightarrow> l_next (patched L a) x = l_next L x \<and> l_prev (patched L a) x = l_prev L x"
    using nb as by (auto simp: patched_def Let_def split: option.split list.splits if_splits)
  show "l_prev L a = Some x \<or> l_next L a = Some x \<Longrightarrow> x \<in> set as \<and> x \<noteq> a"
    using nb as dist' by (auto split: list.splits if_splits)
  show "l_prev L a = None \<and> l_next L a = None \<longleftrightarrow> as = [a]"
    using nb as by (auto split: list.splits if_splits)
  show "as \<noteq> [a] \<Longrightarrow> Some (last (remove1 a as)) = (if last as = a then l_prev L a else Some (last as))"
    using nb(1) as rem dist' by (cases ys rule: rev_cases) auto
qed

lemma HASH_DEL_IN_BKT_hh_patched:
  assumes b: "hh_bucket_at (tb_buckets t) i = Inr b" and e: "hp a = Some e"
    and nb: "\<forall>x. l_prev L a = Some x \<longrightarrow> hp x \<noteq> None \<and> x \<noteq> a"
      "\<forall>x. l_next L a = Some x \<longrightarrow> hp x \<noteq> None \<and> x \<noteq> a"
  shows "HASH_DEL_IN_BKT_hh hp L t i a = Inr (patched L a, t\<lparr>tb_buckets := (tb_buckets t)[i :=
     b\<lparr>hh_count := hh_count b - 1, hh_head := (if hh_head b = Some a then l_next L a else hh_head b)\<rparr>]\<rparr>)"
  using assms
  by (cases "l_prev L a"; cases "l_next L a") (auto simp: HASH_DEL_IN_BKT_hh_def Let_def patched_def)

lemma HASH_DEL_IN_BKT_rel:
  assumes rel: "tbl_rel L pt t" and i: "i < length (buckets t)" and a: "a \<in> set (chain (buckets t ! i))"
    and dist: "distinct (items (buckets t))" and mem: "\<forall>x \<in> set (items (buckets t)). hp x \<noteq> None"
  shows "\<exists>t' L' pt'. HASH_DEL_IN_BKT t i a = Inr t' \<and> HASH_DEL_IN_BKT_hh hp L pt i a = Inr (L', pt') \<and>
     tbl_rel L' pt' t' \<and> tb_tail pt' = tb_tail pt"
proof -
  let ?b = "buckets t ! i" and ?pb = "tb_buckets pt ! i"
  define b where "b = ?b\<lparr>bcount := bcount ?b - 1, chain := remove1 a (chain ?b)\<rparr>"
  define pb where "pb = ?pb\<lparr>hh_count := hh_count ?pb - 1,
      hh_head := (if hh_head ?pb = Some a then l_next L a else hh_head ?pb)\<rparr>"
  have rel_b: "bkts_rel L (tb_buckets pt) (buckets t)" using rel by (simp add: tbl_rel_def)
  note at = bkts_relD [OF rel_b i]
  have cd: "distinct (chain ?b)" by (rule chains_disjoint(1) [OF dist i])
  note pat = patched_dlist [OF at(2) a cd]
  have sub: "set (chain ?b) \<subseteq> set (items (buckets t))" using i by (auto simp: in_items_iff)
  obtain e where "hp a = Some e" using mem a sub by blast
  moreover have "\<forall>x. l_prev L a = Some x \<longrightarrow> hp x \<noteq> None \<and> x \<noteq> a" "\<forall>x. l_next L a = Some x \<longrightarrow> hp x \<noteq> None \<and> x \<noteq> a"
    using pat(4) mem sub by blast+
  ultimately have "HASH_DEL_IN_BKT_hh hp L pt i a = Inr (patched L a, pt\<lparr>tb_buckets := (tb_buckets pt)[i := pb]\<rparr>)"
    unfolding pb_def by (rule HASH_DEL_IN_BKT_hh_patched [OF at(1)])
  moreover have "HASH_DEL_IN_BKT t i a = Inr (t\<lparr>buckets := (buckets t)[i := b]\<rparr>)"
    using i by (simp add: HASH_DEL_IN_BKT_def bucket_at_def b_def)
  moreover have "bkts_rel (patched L a) ((tb_buckets pt)[i := pb]) ((buckets t)[i := b])"
  proof (rule bkts_rel_update [OF rel_b i])
    show "bkt_rel (patched L a) pb b" using pat(1) at(3,4) by (simp add: bkt_rel_def pb_def b_def)
    show "l_next (patched L a) x = l_next L x \<and> l_prev (patched L a) x = l_prev L x"
      if "j < length (buckets t)" "j \<noteq> i" "x \<in> set (chain (buckets t ! j))" for j x
      using pat(3) chains_disjoint(2) [OF dist i that] by blast
  qed
  ultimately show ?thesis using rel by (simp add: tbl_rel_def)
qed

lemma put_tbl_same [simp]: "hh_tables s k = Some t \<Longrightarrow> put_tbl s k t = s"
  by (simp add: put_tbl_def fun_upd_idem)

lemma put_tbl_simps [simp]:
  "hash_mem (put_tbl s k t) = hash_mem s" "app_links (put_tbl s k t) = app_links s" "bkt_links (put_tbl s k t) = bkt_links s"
  "hash_head (put_tbl s k t) = hash_head s"
  by (simp_all add: put_tbl_def)

text \<open>Both branches of the patching of the order, in one equation.\<close>

lemma patch_order_patched:
  assumes "\<forall>x. l_prev (app_links s) a = Some x \<longrightarrow> (\<exists>e. hash_mem s x = Some e) \<and> x \<noteq> a"
    "\<forall>x. l_next (app_links s) a = Some x \<longrightarrow> (\<exists>e. hash_mem s x = Some e) \<and> x \<noteq> a"
  shows "patch_order s a = Inr (s\<lparr>hash_head := (if l_prev (app_links s) a = None then l_next (app_links s) a else hash_head s),
     app_links := patched (app_links s) a\<rparr>)"
  using assms by (cases "l_prev (app_links s) a"; cases "l_next (app_links s) a") (auto simp: patch_order_def patched_def Let_def)

lemma HASH_DELETE_HH_patched:
  assumes e: "hash_mem s a = Some e" and two: "l_prev (app_links s) a \<noteq> None \<or> l_next (app_links s) a \<noteq> None"
    and nb: "\<forall>x. l_prev (app_links s) a = Some x \<longrightarrow> (\<exists>e. hash_mem s x = Some e) \<and> x \<noteq> a"
      "\<forall>x. l_next (app_links s) a = Some x \<longrightarrow> (\<exists>e. hash_mem s x = Some e) \<and> x \<noteq> a"
    and at: "tbl_of s (hash_head s) = Inr (k, t)" "hh_tables s k = Some t"
    and t1: "t1 = (if tb_tail t = Some a then t\<lparr>tb_tail := l_prev (app_links s) a\<rparr> else t)"
    and s1: "s1 = (put_tbl s k t1)\<lparr>hash_head := (if l_prev (app_links s) a = None then l_next (app_links s) a else hash_head s),
        app_links := patched (app_links s) a\<rparr>"
    and at1: "tbl_of s1 (hash_head s1) = Inr (k, t1)"
  shows "HASH_DELETE_HH s a =
     bind_res (HASH_DEL_IN_BKT_hh (hash_mem s) (bkt_links s) t1 (HASH_TO_BKT (hh_hashv e) (tb_num_buckets t1)) a)
       (\<lambda>(L, t). Inr (put_tbl (s1\<lparr>bkt_links := L\<rparr>) k (t\<lparr>tb_num_items := tb_num_items t - 1\<rparr>)))"
proof -
  have single: "\<not> (l_prev (app_links s) a = None \<and> l_next (app_links s) a = None)" using two by blast
  have patch: "patch_order (put_tbl s k t1) a = Inr s1"
    using patch_order_patched [of "put_tbl s k t1" a] nb by (simp add: s1)
  have s1': "hash_mem s1 = hash_mem s" "bkt_links s1 = bkt_links s" by (simp_all add: s1)
  have start: "(if tb_tail t = Some a then put_tbl s k (t\<lparr>tb_tail := l_prev (app_links s) a\<rparr>) else s) = put_tbl s k t1"
    using at(2) by (simp add: t1)
  show ?thesis
    unfolding HASH_DELETE_HH_def if_not_P [OF single] Let_def
    by (simp only: at(1) bind_res_simps prod.case start patch s1' at1 at_elmt_Some [of "hash_mem s", OF e]
        deref_Some [of "hash_mem s", OF e])
qed

text \<open>The order without \<open>a\<close>, when there is another element, whatever happens in the bucket of \<open>a\<close>.\<close>

lemma HASH_DELETE_HH_order:
  assumes d: "dlist (app_links s) None (hash_head s) as" and a: "a \<in> set as" and dist: "distinct as"
    and two: "as \<noteq> [a]" and k: "\<forall>y \<in> set as. hh_tbl s y = Some k" "hh_tables s k = Some pt"
    and mem: "\<forall>y \<in> set as. \<exists>e. hash_mem s y = Some e" and tail: "tb_tail pt = Some (last as)"
    and e: "hash_mem s a = Some e"
    and del: "HASH_DEL_IN_BKT_hh (hash_mem s) (bkt_links s) (pt\<lparr>tb_tail := Some (last (remove1 a as))\<rparr>)
      (HASH_TO_BKT (hh_hashv e) (tb_num_buckets pt)) a = Inr (L', pt')"
  shows "\<exists>s'. HASH_DELETE_HH s a = Inr s' \<and> hash_mem s' = hash_mem s \<and> next_elmt s' = next_elmt s \<and>
     hh_tbl s' = hh_tbl s \<and> bkt_links s' = L' \<and> dlist (app_links s') None (hash_head s') (remove1 a as) \<and>
     remove1 a as \<noteq> [] \<and> hh_tables s' k = Some (pt'\<lparr>tb_num_items := tb_num_items pt' - 1\<rparr>)"
proof -
  note pat = patched_dlist [OF d a dist]
  define hd' where "hd' = (if hash_head s = Some a then l_next (app_links s) a else hash_head s)"
  define pt1 where "pt1 = pt\<lparr>tb_tail := Some (last (remove1 a as))\<rparr>"
  define s1 where "s1 = (put_tbl s k pt1)\<lparr>hash_head := hd', app_links := patched (app_links s) a\<rparr>"
  have ne: "remove1 a as \<noteq> []" using two a by (cases as) (auto split: if_splits)
  have d1: "dlist (patched (app_links s) a) None hd' (remove1 a as)" using pat(1) by (simp add: hd'_def)
  obtain x where "hash_head s = Some x" "x \<in> set as" using d a by (cases as) auto
  then have at: "tbl_of s (hash_head s) = Inr (k, pt)" using k mem by (auto simp: tbl_of_def at_elmt_def deref_def)
  obtain y ys where ys: "remove1 a as = y # ys" using ne by (cases "remove1 a as") auto
  have "hd' = Some y" "y \<in> set as" using d1 ys set_remove1_subset [of a as] by auto
  then have at1: "tbl_of s1 (hash_head s1) = Inr (k, pt1)"
    using k mem by (auto simp: tbl_of_def at_elmt_def s1_def put_tbl_def deref_def)
  have nb: "\<forall>x. l_prev (app_links s) a = Some x \<longrightarrow> (\<exists>e. hash_mem s x = Some e) \<and> x \<noteq> a"
    "\<forall>x. l_next (app_links s) a = Some x \<longrightarrow> (\<exists>e. hash_mem s x = Some e) \<and> x \<noteq> a"
    using pat(4) mem by blast+
  have "pt1 = (if tb_tail pt = Some a then pt\<lparr>tb_tail := l_prev (app_links s) a\<rparr> else pt)"
    using pat(6) [OF two] tail by (auto simp: pt1_def)
  from HASH_DELETE_HH_patched [OF e _ nb at k(2) this _ at1] have
    "HASH_DELETE_HH s a = Inr (put_tbl (s1\<lparr>bkt_links := L'\<rparr>) k (pt'\<lparr>tb_num_items := tb_num_items pt' - 1\<rparr>))"
    using pat(2,5) two del by (simp add: s1_def hd'_def pt1_def)
  then show ?thesis using d1 ne by (simp add: s1_def put_tbl_def)
qed

text \<open>\<open>HASH_DELETE\<close>: the last element takes the table with it.\<close>

theorem HASH_DELETE_refines:
  assumes rep: "represents s h" and wf: "ut_wf h" and a: "a \<in> set (order_of h)"
  shows "\<exists>h' s'. HASH_DELETE h a = Inr h' \<and> HASH_DELETE_HH s a = Inr s' \<and> represents s' h' \<and>
     (order_of h = [a] \<longrightarrow> (\<forall>k. hh_tbl s a = Some k \<longrightarrow> hh_tables s' k = None))"
proof -
  obtain t where hd: "head h = Some t" using a by (cases "head h") (auto simp: order_of_def)
  have at: "a \<in> set (app_order t)" using a hd by (simp add: order_of_def)
  obtain x k pt where r: "tbl_of s (hash_head s) = Inr (k, pt)"
    "\<forall>y \<in> set (app_order t). hh_tbl s y = Some k" "hh_tables s k = Some pt"
    "tb_tail pt = Some (last (app_order t))" "tbl_rel (bkt_links s) pt t"
    "dlist (app_links s) None (hash_head s) (app_order t)"
    "\<forall>y \<in> set (app_order t). \<exists>e. hash_mem s y = Some e"
    using represents_table [OF rep hd wf] by metis
  have dist: "distinct (app_order t)" using ut_wf_distinct [OF wf] hd by (simp add: order_of_def)
  obtain e where e: "hash_mem s a = Some e" using r(7) at by blast
  have eh: "heap h a = Some e" using e rep by (simp add: represents_def)
  show ?thesis
  proof (cases "app_order t = [a]")
    case True
    then show ?thesis
      using patched_dlist(5) [OF r(6) at dist] r(1,2) e hd rep
      by (auto simp: HASH_DELETE_def HASH_DELETE_HH_def represents_def order_of_def)
  next
    case False
    let ?i = "HASH_TO_BKT (hh_hashv e) (num_buckets t)"
    define t1 where "t1 = t\<lparr>app_order := remove1 a (app_order t)\<rparr>"
    define pt1 where "pt1 = pt\<lparr>tb_tail := Some (last (remove1 a (app_order t)))\<rparr>"
    have t: "table_ok (heap h) t" using wf hd by (simp add: ut_wf_def)
    have rel1: "tbl_rel (bkt_links s) pt1 t1" using r(5) by (simp add: tbl_rel_def pt1_def t1_def)
    have i: "?i < length (buckets t1)" "a \<in> set (chain (buckets t1 ! ?i))" "distinct (items (buckets t1))"
      "\<forall>x \<in> set (items (buckets t1)). hash_mem s x \<noteq> None"
      using t in_bucket [OF t at eh] items_in_heap [of "heap h" _ "buckets t"] rep
        mset_eq_imp_distinct_iff [of "items (buckets t)" "app_order t"]
      by (simp_all add: t1_def table_ok_def HASH_TO_BKT_mod bkts_ok_def represents_def)
    obtain t' L' pt' where t': "HASH_DEL_IN_BKT t1 ?i a = Inr t'"
      "HASH_DEL_IN_BKT_hh (hash_mem s) (bkt_links s) pt1 ?i a = Inr (L', pt')" "tbl_rel L' pt' t'" "tb_tail pt' = tb_tail pt1"
      using HASH_DEL_IN_BKT_rel [OF rel1 i] by blast
    have ord: "app_order t' = remove1 a (app_order t)"
      using t'(1) i(1) by (auto simp: HASH_DEL_IN_BKT_def bucket_at_def t1_def)
    have nb: "tb_num_buckets pt = num_buckets t" using r(5) by (simp add: tbl_rel_def)
    obtain s' where s': "HASH_DELETE_HH s a = Inr s'" "hash_mem s' = hash_mem s" "next_elmt s' = next_elmt s"
      "hh_tbl s' = hh_tbl s" "bkt_links s' = L'" "dlist (app_links s') None (hash_head s') (remove1 a (app_order t))"
      "remove1 a (app_order t) \<noteq> []" "hh_tables s' k = Some (pt'\<lparr>tb_num_items := tb_num_items pt' - 1\<rparr>)"
      using HASH_DELETE_HH_order [OF r(6) at dist False r(2,3,7,4) e, unfolded nb pt1_def [symmetric], OF t'(2)]
      by blast
    have "\<forall>y \<in> set (remove1 a (app_order t)). hh_tbl s y = Some k"
      using r(2) set_remove1_subset [of a "app_order t"] by blast
    then have "represents s' (h\<lparr>head := Some (t'\<lparr>num_items := num_items t' - 1\<rparr>)\<rparr>)"
      using rep t'(3,4) ord s'
      by (intro representsI [where t = "t'\<lparr>num_items := num_items t' - 1\<rparr>", OF _ _ _ _ _ _ s'(8)]) (simp_all add: represents_def tbl_rel_def pt1_def)
    moreover have "HASH_DELETE h a = Inr (h\<lparr>head := Some (t'\<lparr>num_items := num_items t' - 1\<rparr>)\<rparr>)"
      using hd False eh t'(1) by (simp add: HASH_DELETE_def t1_def)
    ultimately show ?thesis using s'(1) False hd by (simp add: order_of_def)
  qed
qed

section \<open>The integrity test and the search\<close>

lemma fsck_walk_dlist:
  assumes "dlist L p q as" "\<forall>x \<in> set as. hp x \<noteq> None"
  shows "fsck_walk hp L p q cnt = Some (Inr (cnt + of_nat (length as)))"
  using assms
proof (induction as arbitrary: p q cnt)
  case (Cons a as)
  then obtain e where "hp a = Some e" by auto
  then show ?case using Cons by (simp add: fsck_walk.simps [of hp L p "Some a"] ac_simps)
qed (simp add: fsck_walk.simps)

text \<open>The walk is an exact test: it passes on doubly linked lists of live elements only.\<close>

lemma fsck_walk_exact:
  assumes "fsck_walk hp L p q cnt = Some (Inr n)"
  shows "\<exists>as. dlist L p q as \<and> (\<forall>x \<in> set as. hp x \<noteq> None) \<and> n = cnt + of_nat (length as)"
proof -
  have "r = Inr n \<longrightarrow> (\<exists>as. dlist L p q as \<and> (\<forall>x \<in> set as. hp x \<noteq> None) \<and> n = cnt + of_nat (length as))"
    if "fsck_walk hp L p q cnt = Some r" for r
  proof (rule fsck_walk.raw_induct [OF _ that, where P = "\<lambda>hp L p q cnt r. r = Inr n \<longrightarrow>
      (\<exists>as. dlist L p q as \<and> (\<forall>x \<in> set as. hp x \<noteq> None) \<and> n = cnt + of_nat (length as))"])
    fix walk hp L prev thh cnt r
    assume 1: "\<And>hp L prev thh cnt r. walk hp L prev thh cnt = Some r \<Longrightarrow> r = Inr n \<longrightarrow>
        (\<exists>as. dlist L prev thh as \<and> (\<forall>x \<in> set as. hp x \<noteq> None) \<and> n = cnt + of_nat (length as))"
      "(case thh of None \<Rightarrow> Some (Inr cnt)
      | Some a \<Rightarrow>
          (case deref hp a of Inl err \<Rightarrow> Some (Inl err)
           | Inr e \<Rightarrow>
               if prev \<noteq> l_prev L a then Some (Inl (Exit (-1)))
               else walk hp L (Some a) (l_next L a) (cnt + 1))) = Some r"
    show "r = Inr n \<longrightarrow> (\<exists>as. dlist L prev thh as \<and> (\<forall>x \<in> set as. hp x \<noteq> None) \<and> n = cnt + of_nat (length as))"
    proof (cases thh)
      case None
      then show ?thesis using 1(2) by (auto intro!: exI [of _ "[]"])
    next
      case (Some a)
      show ?thesis
      proof (cases "hp a = None \<or> prev \<noteq> l_prev L a")
        case True
        then show ?thesis using 1(2) Some by (auto simp: deref_def split: option.splits)
      next
        case False
        then obtain e where e: "hp a = Some e" "prev = l_prev L a" by auto
        then have "walk hp L (Some a) (l_next L a) (cnt + 1) = Some r" using 1(2) Some by simp
        from 1(1) [OF this] show ?thesis
        proof (intro impI; elim impE exE conjE)
          fix as assume "dlist L (Some a) (l_next L a) as" "\<forall>x \<in> set as. hp x \<noteq> None"
            "n = cnt + 1 + of_nat (length as)"
          then show "\<exists>as. dlist L prev thh as \<and> (\<forall>x \<in> set as. hp x \<noteq> None) \<and> n = cnt + of_nat (length as)"
            using e Some by (intro exI [of _ "a # as"]) (simp add: ac_simps)
        qed simp
      qed
    qed
  qed
  then show ?thesis using assms by blast
qed

lemma fsck_buckets_rel:
  assumes "bkts_rel L pbs bs" "\<forall>i \<in> set js. i < length bs" "\<forall>x \<in> set (items bs). hp x \<noteq> None"
    "\<forall>b \<in> set bs. bcount b = of_nat (length (chain b))"
  shows "fsck_buckets hp L pbs js cnt = Some (Inr (cnt + of_nat (length (concat (map (\<lambda>i. chain (bs ! i)) js)))))"
  using assms
proof (induction js arbitrary: cnt)
  case (Cons i js)
  then have i: "i < length bs" by simp
  note at = bkts_relD [OF Cons.prems(1) i]
  have "\<forall>x \<in> set (chain (bs ! i)). hp x \<noteq> None" using Cons.prems(3) i by (auto simp: in_items_iff)
  from fsck_walk_dlist [OF at(2) this, of 0] show ?case using Cons at i by (simp add: ac_simps)
qed simp

theorem represents_FSCK:
  assumes rep: "represents s h" and wf: "ut_wf h"
  shows "HASH_FSCK s = Some (Inr ())"
proof (cases "head h")
  case None
  then show ?thesis using rep by (simp add: HASH_FSCK_def represents_def)
next
  case (Some t)
  obtain x k pt where r: "hash_head s = Some x" "tbl_of s (hash_head s) = Inr (k, pt)" "tbl_rel (bkt_links s) pt t"
    "dlist (app_links s) None (hash_head s) (app_order t)" "\<forall>y \<in> set (app_order t). \<exists>e. hash_mem s y = Some e"
    using represents_table [OF rep Some wf] by metis
  have t: "table_ok (heap h) t" using wf Some by (simp add: ut_wf_def)
  have len: "length (buckets t) = unat (num_buckets t)" using t by (simp add: table_ok_def bkts_ok_def unat_pow2)
  have n: "length (items (buckets t)) = length (app_order t)" using t unfolding table_ok_def by (metis size_mset)
  have "map (\<lambda>i. chain (buckets t ! i)) [0..<unat (num_buckets t)] = map chain (buckets t)"
    by (rule nth_equalityI) (simp_all add: len)
  moreover have "\<forall>x \<in> set (items (buckets t)). hash_mem s x \<noteq> None"
    using r(5) table_items [OF t] by simp
  moreover have "\<forall>b \<in> set (buckets t). bcount b = of_nat (length (chain b))"
    using t by (simp add: table_ok_def bkts_ok_def)
  ultimately have "fsck_buckets (hash_mem s) (bkt_links s) (tb_buckets pt) [0..<unat (tb_num_buckets pt)] 0 =
      Some (Inr (of_nat (length (app_order t))))"
    using fsck_buckets_rel [of "bkt_links s" "tb_buckets pt" "buckets t" "[0..<unat (num_buckets t)]" "hash_mem s" 0]
      r(3) n by (simp add: tbl_rel_def len items_def)
  moreover have "fsck_walk (hash_mem s) (app_links s) None (hash_head s) 0 = Some (Inr (of_nat (length (app_order t))))"
    using fsck_walk_dlist [OF r(4), of "hash_mem s" 0] r(5) by simp
  ultimately show ?thesis using r(1,2,3) t by (simp add: HASH_FSCK_def tbl_rel_def table_ok_def)
qed

lemma HASH_FIND_IN_BKT_rel:
  assumes "dlist L p q as"
  shows "HASH_FIND_IN_BKT_hh hp L q key hashval = Some (HASH_FIND_IN_BKT hp as key hashval)"
  using assms
proof (induction as arbitrary: p q)
  case (Cons a as)
  then show ?case
    using Cons.IH [of "Some a" "l_next L a"]
    by (cases "hp a") (simp_all add: HASH_FIND_IN_BKT_hh.simps [of hp L "Some a"] deref_def)
qed (simp add: HASH_FIND_IN_BKT_hh.simps)

theorem HASH_FIND_refines:
  assumes rep: "represents s h" and wf: "ut_wf h"
  shows "HASH_FIND_hh s key = Some (HASH_FIND h key)"
proof (cases "head h")
  case None
  then show ?thesis using rep by (simp add: HASH_FIND_hh_def HASH_FIND_def represents_def)
next
  case (Some t)
  obtain x k pt where r: "hash_head s = Some x" "tbl_of s (hash_head s) = Inr (k, pt)" "tbl_rel (bkt_links s) pt t"
    using represents_table [OF rep Some wf] by metis
  have t: "table_ok (heap h) t" using wf Some by (simp add: ut_wf_def)
  let ?i = "HASH_TO_BKT (HASH_JEN key) (num_buckets t)"
  have i: "?i < length (buckets t)" using t by (simp add: table_ok_def bkts_ok_def HASH_TO_BKT_mod)
  have rb: "bkts_rel (bkt_links s) (tb_buckets pt) (buckets t)" using r(3) by (simp add: tbl_rel_def)
  note at = bkts_relD [OF rb i]
  from HASH_FIND_IN_BKT_rel [OF at(2), of "hash_mem s" key "HASH_JEN key"] show ?thesis
    using r at(1) i Some rep
    by (simp add: HASH_FIND_hh_def HASH_FIND_def Let_def tbl_rel_def bucket_at_def represents_def)
qed

section \<open>Properties\<close>

lemma represents_empty: "represents hh_empty ut_empty"
  by (simp add: represents_def hh_empty_def ut_empty_def)

lemma represents_cong:
  assumes "represents s h" "hash_mem s' = heap h'" "next_elmt s' = next_addr h'" "head h' = head h"
    "app_links s' = app_links s" "bkt_links s' = bkt_links s" "hh_tbl s' = hh_tbl s" "hh_tables s' = hh_tables s" "hash_head s' = hash_head s"
  shows "represents s' h'"
  using assms by (cases "head h") (simp_all add: represents_def)

lemma represents_malloc:
  assumes "represents s h" "ut_malloc h d = (a, h1)" "hh_malloc s d = (b, s1)"
  shows "b = a \<and> represents s1 h1"
proof -
  have "represents s1 h1"
    by (rule represents_cong [OF assms(1)])
      (use assms in \<open>auto simp: represents_def ut_malloc_def hh_malloc_def\<close>)
  then show ?thesis using assms by (auto simp: represents_def ut_malloc_def hh_malloc_def)
qed

lemma represents_free:
  assumes "represents s h"
  shows "represents (hh_free s a) (ut_free h a)"
  by (rule represents_cong [OF assms]) (use assms in \<open>simp_all add: represents_def hh_free_def ut_free_def\<close>)

lemma hh_add_refines:
  assumes rep: "represents s h" and wf: "ut_wf h"
  shows "(\<exists>h' s'. ut_add h key d = Inr h' \<and> hh_add s key d = Some (Inr s') \<and> represents s' h') \<or>
     ut_add h key d = Inl (Exit (-1)) \<and> hh_add s key d = Some (Inl (Exit (-1)))"
proof -
  obtain a h1 where m: "ut_malloc h d = (a, h1)" by fastforce
  obtain s1 where m': "hh_malloc s d = (a, s1)" "represents s1 h1"
    using represents_malloc [OF rep m] by (metis surj_pair)
  note ok = ut_malloc_ok [OF wf m]
  then obtain e where "heap h1 a = Some e" by blast
  from HASH_ADD_KEYPTR_refines [OF m'(2) _ _ this, of key] ok show ?thesis
    by (auto simp: ut_add_def hh_add_def m m'(1))
qed

lemma hh_add_cases:
  assumes "represents s h" "ut_wf h" "length key < 2 ^ 32" "ut_map h key = None"
  shows "(\<exists>s' h'. hh_add s key d = Some (Inr s') \<and> ut_add h key d = Inr h' \<and> represents s' h' \<and>
       ut_wf h' \<and> ut_map h' = (ut_map h)(key \<mapsto> d) \<and> order_of h' = order_of h @ [next_elmt s] \<and>
       next_elmt s' = Suc (next_elmt s)) \<or>
     hh_add s key d = Some (Inl (Exit (-1))) \<and> \<not> ut_room h"
proof -
  obtain a h1 where m: "ut_malloc h d = (a, h1)" by fastforce
  note ok = ut_malloc_ok [OF assms(2) m]
  then obtain e where e: "heap h1 a = Some e" "e_data e = d" by blast
  have a: "a = next_elmt s" "next_addr h1 = Suc (next_elmt s)"
    using m assms(1) by (auto simp: ut_malloc_def represents_def)
  have h1: "ut_wf h1" "ut_map h1 = ut_map h" "ut_room h1 = ut_room h" "order_of h1 = order_of h"
    "a \<notin> set (order_of h1)" "ut_map h1 key = None"
    using ok assms(4) by auto
  from HASH_ADD_KEYPTR_cases [OF h1(1,5) e(1) assms(3) h1(6), unfolded h1(2-4) e(2)] show ?thesis
  proof (elim disjE exE conjE)
    fix h' assume "HASH_ADD_KEYPTR h1 key a = Inr h'" "ut_wf h'" "ut_map h' = (ut_map h)(key \<mapsto> d)"
      "order_of h' = order_of h @ [a]" "next_addr h' = next_addr h1"
    moreover from this(1) obtain s' where "hh_add s key d = Some (Inr s')" "represents s' h'"
      using hh_add_refines [OF assms(1,2), of key d] m by (auto simp: ut_add_def)
    moreover from this(2) have "next_elmt s' = next_addr h'" by (simp add: represents_def)
    ultimately show ?thesis using a m by (auto simp: ut_add_def)
  next
    assume "HASH_ADD_KEYPTR h1 key a = Inl (Exit (- 1))" "\<not> ut_room h"
    then show ?thesis using hh_add_refines [OF assms(1,2), of key d] m by (simp add: ut_add_def)
  qed
qed

text \<open>
  C23: on the pointers: adding an element under a key that is not yet there ends without touching
  a block that is not allocated, also when it doubles the bucket array and relinks every chain,
  and leaves pointers that represent a well-formed table with exactly that key mapped to the new
  value and the element last in the application order. The complete integrity test of the macros
  then passes: every \<open>hh_prev\<close> and every \<open>prev\<close> points back to the element before, and all counters
  are right. The one failure is the exit when the allocator refuses a bucket array of 2^32.
\<close>

theorem uthash_add_sound:
  fixes s :: "'d hash_ptrs"
  assumes "represents s h" "ut_wf h" "length key < 2 ^ 32" "ut_map h key = None"
  shows "(\<exists>s' h'. hh_add s key d = Some (Inr s') \<and> HASH_FSCK s' = Some (Inr ()) \<and>
       represents s' h' \<and> ut_wf h' \<and> ut_map h' = (ut_map h)(key \<mapsto> d) \<and>
       order_of h' = order_of h @ [next_elmt s]) \<or>
     hh_add s key d = Some (Inl (Exit (-1))) \<and> \<not> ut_room h"
  using hh_add_cases [OF assms, of d] represents_FSCK by blast

text \<open>
  C24: on the pointers: deleting an element that is in the table never follows a bad pointer,
  patches both lists so that the complete integrity test passes (back links, \<open>tail\<close>, counters),
  removes exactly the key of the element and keeps the order of the others. Deleting the only
  element frees the table and sets the head pointer to \<open>NULL\<close>, deleting another one does not.
  No link to the element is left: after it is freed the integrity test still passes.
\<close>

theorem uthash_delete_sound:
  fixes s :: "'d hash_ptrs"
  assumes "represents s h" "ut_wf h" "linked h a k"
  shows "\<exists>s' h'. HASH_DELETE_HH s a = Inr s' \<and> HASH_FSCK s' = Some (Inr ()) \<and> represents s' h' \<and>
     order_of h' = remove1 a (order_of h) \<and>
     (hash_head s' = None \<longleftrightarrow> order_of h = [a]) \<and>
     (order_of h = [a] \<longrightarrow> (\<exists>i. hh_tbl s a = Some i \<and> hh_tables s i \<noteq> None \<and> hh_tables s' i = None)) \<and>
     represents (hh_free s' a) (ut_free h' a) \<and> HASH_FSCK (hh_free s' a) = Some (Inr ()) \<and>
     ut_wf (ut_free h' a) \<and> ut_map (ut_free h' a) = (ut_map h)(k := None)"
proof -
  have a: "a \<in> set (order_of h)" using assms(3) by (simp add: linked_def)
  obtain h' s' where h': "HASH_DELETE h a = Inr h'" "HASH_DELETE_HH s a = Inr s'" "represents s' h'"
    "order_of h = [a] \<longrightarrow> (\<forall>i. hh_tbl s a = Some i \<longrightarrow> hh_tables s' i = None)"
    using HASH_DELETE_refines [OF assms(1,2) a] by blast
  have "\<exists>i. hh_tbl s a = Some i \<and> hh_tables s i \<noteq> None"
  proof -
    obtain t where t: "head h = Some t" "a \<in> set (app_order t)" using a by (cases "head h") (auto simp: order_of_def)
    obtain k pt where "\<forall>x \<in> set (app_order t). hh_tbl s x = Some k" "hh_tables s k = Some pt"
      using represents_table [OF assms(1) t(1) assms(2)] by metis
    with t(2) show ?thesis by blast
  qed
  then have tbl: "order_of h = [a] \<longrightarrow> (\<exists>i. hh_tbl s a = Some i \<and> hh_tables s i \<noteq> None \<and> hh_tables s' i = None)"
    using h'(4) by blast
  have ok: "ut_wf h'" "order_of h' = remove1 a (order_of h)" "ut_map h' = (ut_map h)(k := None)"
    using HASH_DELETE_ok [OF assms(2) a] ut.unlink_law [OF assms(2,3)] h'(1) by auto
  have off: "a \<notin> set (order_of h')" using ok(2) ut_wf_distinct [OF assms(2)] by simp
  note free = ut_free_ok [OF ok(1) off] represents_free [OF h'(3), of a]
  have "hash_head s' = None \<longleftrightarrow> order_of h' = []"
    using represents_head [OF h'(3)] h'(3) by (auto simp: order_of_def represents_def split: option.splits)
  moreover have "order_of h' = [] \<longleftrightarrow> order_of h = [a]"
    using a ok(2) by (cases "order_of h") auto
  ultimately show ?thesis
    using h'(1-3) tbl ok free represents_FSCK [OF h'(3) ok(1)] represents_FSCK [OF free(2)] by auto
qed

section \<open>Witnesses\<close>

theorem uthash_add_sound_witness:
  "\<exists>s' h'. hh_add (hh_empty :: nat hash_ptrs) [1, 2] 7 = Some (Inr s') \<and> HASH_FSCK s' = Some (Inr ()) \<and>
     represents s' h' \<and> ut_map h' = [[1, 2] \<mapsto> 7] \<and> order_of h' = [0]"
  using uthash_add_sound [OF represents_empty ut_empty_ok(1), of "[1, 2]" 7]
  by (simp add: order_of_def [of ut_empty] hh_empty_def) (auto simp: ut_empty_def)

text \<open>Two additions, then both deletions.\<close>

theorem uthash_delete_sound_witness:
  "\<exists>s h s' s''. represents (s :: nat hash_ptrs) h \<and> order_of h = [0, 1] \<and>
     HASH_DELETE_HH s 0 = Inr s' \<and> HASH_FSCK s' = Some (Inr ()) \<and> hash_head s' \<noteq> None \<and>
     HASH_DELETE_HH (hh_free s' 0) 1 = Inr s'' \<and> hash_head s'' = None"
proof -
  have lvl: "ut_level (ut_empty :: nat ut_hash) = 5" by (simp add: ut_level_def ut_empty_def)
  have start: "order_of (ut_empty :: nat ut_hash) = []" "next_elmt (hh_empty :: nat hash_ptrs) = 0"
    by (simp_all add: order_of_def ut_empty_def hh_empty_def)
  obtain s1 :: "nat hash_ptrs" and h1 where 1: "represents s1 h1" "ut_add ut_empty [1] 7 = Inr h1" "ut_wf h1"
    "ut_map h1 = [[1] \<mapsto> 7]" "order_of h1 = [0]" "next_elmt s1 = 1"
    using hh_add_cases [OF represents_empty ut_empty_ok(1), of "[1]" "7 :: nat"] start by auto
  have "ut_room h1" using ut_add_level [OF 1(2)] lvl by (intro ut_level_room) simp
  then obtain s :: "nat hash_ptrs" and h where 2: "represents s h" "ut_wf h" "order_of h = [0, 1]"
    using hh_add_cases [OF 1(1,3), of "[2]" "8 :: nat"] 1(4,5,6) by auto
  have "linked h 0 (key_at (heap h) 0)" using 2(3) by (simp add: linked_def)
  from uthash_delete_sound [OF 2(1,2) this] 2(3) obtain s' h' where 3: "HASH_DELETE_HH s 0 = Inr s'"
    "HASH_FSCK s' = Some (Inr ())" "hash_head s' \<noteq> None" "order_of h' = [1]"
    "represents (hh_free s' 0) (ut_free h' 0)" "ut_wf (ut_free h' 0)" by auto
  have "order_of (ut_free h' 0) = [1]" using 3(4) by (simp add: order_of_def ut_free_def)
  then have "linked (ut_free h' 0) 1 (key_at (heap (ut_free h' 0)) 1)" by (simp add: linked_def)
  from uthash_delete_sound [OF 3(5,6) this] \<open>order_of (ut_free h' 0) = [1]\<close> 2(1,3) 3(1,2,3) show ?thesis
    by (metis)
qed

end
