(* ===== verification/Uthash_Sort.thy ===== *)
theory Uthash_Sort
  imports Uthash_Links
begin

text \<open>
  The sort macro \<open>HASH_SRT\<close> of \<open>praxis2/include/uthash.h\<close>: a bottom-up merge sort that
  relinks the doubly linked application order in place. The model keeps the pointers: the
  \<open>next\<close> and \<open>prev\<close> fields of the handles, the head of the list under construction and its
  tail. The theory shows that the relinking implements the pure merge passes on lists, that the
  loops end, and that the result is the stable sort of the order, linked in both directions.
\<close>

section \<open>The macro\<close>

text \<open>The fields \<open>next\<close> and \<open>prev\<close> of the handles, with \<open>_hs_list\<close> and \<open>_hs_tail\<close>.\<close>

record hs_links =
  hs_next :: "addr \<Rightarrow> addr option"
  hs_prev :: "addr \<Rightarrow> addr option"
  hs_list :: "addr option"
  hs_tail :: "addr option"

text \<open>The conditional expressions that step a pointer forward.\<close>

definition hs_adv :: "(addr \<Rightarrow> addr option) \<Rightarrow> addr option \<Rightarrow> addr option" where
  "hs_adv nx p = (case p of None \<Rightarrow> None | Some a \<Rightarrow> nx a)"

text \<open>The \<open>for\<close> loop that steps over the first run: \<open>n\<close> is \<open>_hs_insize - _hs_i\<close>.\<close>

fun hs_chunk :: "(addr \<Rightarrow> addr option) \<Rightarrow> nat \<Rightarrow> addr option \<Rightarrow> nat \<Rightarrow> nat \<times> addr option" where
  "hs_chunk nx 0 q psize = (psize, q)"
| "hs_chunk nx (Suc n) q psize =
     (let psize = psize + 1; q = hs_adv nx q
      in if q = None then (psize, q) else hs_chunk nx n q psize)"

text \<open>Appending the element \<open>_hs_e\<close> to the list under construction.\<close>

definition hs_emit :: "addr option \<Rightarrow> hs_links \<Rightarrow> hs_links" where
  "hs_emit e L =
    (let L = (case hs_tail L of Some t \<Rightarrow> L\<lparr>hs_next := (hs_next L)(t := e)\<rparr>
              | None \<Rightarrow> L\<lparr>hs_list := e\<rparr>);
         L = (case e of Some a \<Rightarrow> L\<lparr>hs_prev := (hs_prev L)(a := hs_tail L)\<rparr> | None \<Rightarrow> L)
     in L\<lparr>hs_tail := e\<rparr>)"

definition hs_cmp :: "(addr \<Rightarrow> addr \<Rightarrow> int res) \<Rightarrow> addr option \<Rightarrow> addr option \<Rightarrow> int res" where
  "hs_cmp cmp p q = (case p of None \<Rightarrow> Inl Null_Deref
     | Some a \<Rightarrow> (case q of None \<Rightarrow> Inl Null_Deref | Some b \<Rightarrow> cmp a b))"

text \<open>
  The merge of two runs; the result holds \<open>_hs_q\<close>. The sizes never exceed \<open>_hs_insize\<close>, so that
  natural numbers are their exact values.
\<close>

function hs_merge ::
  "(addr \<Rightarrow> addr \<Rightarrow> int res) \<Rightarrow> nat \<Rightarrow> nat \<Rightarrow> addr option \<Rightarrow> addr option \<Rightarrow> hs_links \<Rightarrow>
    (addr option \<times> hs_links) res" where
  "hs_merge cmp psize qsize p q L =
     (if psize \<noteq> 0 \<or> qsize \<noteq> 0 \<and> q \<noteq> None then
        if psize = 0 then
          hs_merge cmp psize (qsize - 1) p (hs_adv (hs_next L) q) (hs_emit q L)
        else if qsize = 0 \<or> q = None then
          hs_merge cmp (psize - 1) qsize (hs_adv (hs_next L) p) q (hs_emit p L)
        else (case hs_cmp cmp p q of
            Inl err \<Rightarrow> Inl err
          | Inr c \<Rightarrow>
              if c \<le> 0 then
                hs_merge cmp (psize - 1) qsize (hs_adv (hs_next L) p) q (hs_emit p L)
              else
                hs_merge cmp psize (qsize - 1) p (hs_adv (hs_next L) q) (hs_emit q L))
      else Inr (q, L))"
  by pat_completeness auto
termination by (relation "measure (\<lambda>(cmp, psize, qsize, p, q, L). psize + qsize)") auto

declare hs_merge.simps [simp del]

text \<open>One pass over the list: \<open>nmerges\<close> is \<open>_hs_nmerges\<close>.\<close>

partial_function (option) hs_pass ::
  "(addr \<Rightarrow> addr \<Rightarrow> int res) \<Rightarrow> u32 \<Rightarrow> addr option \<Rightarrow> u32 \<Rightarrow> hs_links \<Rightarrow> (u32 \<times> hs_links) res option"
  where
  "hs_pass cmp insize p nmerges L =
     (if p = None then Some (Inr (nmerges, L))
      else case hs_chunk (hs_next L) (unat insize) p 0 of
        (psize, q) \<Rightarrow>
          (case hs_merge cmp psize (unat insize) p q L of
             Inl err \<Rightarrow> Some (Inl err)
           | Inr r \<Rightarrow> hs_pass cmp insize (fst r) (nmerges + 1) (snd r)))"

text \<open>The statement after a pass: the tail of the new list ends it.\<close>

definition hs_close :: "hs_links \<Rightarrow> hs_links" where
  "hs_close L = (case hs_tail L of None \<Rightarrow> L | Some t \<Rightarrow> L\<lparr>hs_next := (hs_next L)(t := None)\<rparr>)"

text \<open>The loop over the passes, with a run size that doubles and may wrap.\<close>

partial_function (option) hs_loop ::
  "(addr \<Rightarrow> addr \<Rightarrow> int res) \<Rightarrow> u32 \<Rightarrow> hs_links \<Rightarrow> hs_links res option" where
  "hs_loop cmp insize L =
     (case hs_pass cmp insize (hs_list L) 0 (L\<lparr>hs_list := None, hs_tail := None\<rparr>) of
        None \<Rightarrow> None
      | Some r \<Rightarrow>
          (case r of
             Inl err \<Rightarrow> Some (Inl err)
           | Inr (nmerges, L) \<Rightarrow>
               if nmerges \<le> 1 then Some (Inr (hs_close L))
               else hs_loop cmp (insize * 2) (hs_close L)))"

text \<open>
  The macro on a table: the application order as its links, the comparison on the elements,
  and the order read back from the new head. The bucket chains are not touched.
\<close>

definition order_links :: "addr list \<Rightarrow> hs_links" where
  "order_links as = \<lparr>hs_next = map_of (zip (butlast as) (tl as)),
     hs_prev = map_of (zip (tl as) (butlast as)), hs_list = Some (hd as), hs_tail = None\<rparr>"

primrec hs_walk :: "(addr \<Rightarrow> addr option) \<Rightarrow> nat \<Rightarrow> addr option \<Rightarrow> addr list" where
  "hs_walk nx 0 p = []"
| "hs_walk nx (Suc n) p = (case p of None \<Rightarrow> [] | Some a \<Rightarrow> a # hs_walk nx n (nx a))"

definition cmp_elmts :: "(addr \<Rightarrow> 'd elmt option) \<Rightarrow> ('d elmt \<Rightarrow> 'd elmt \<Rightarrow> int) \<Rightarrow> addr \<Rightarrow> addr \<Rightarrow> int res" where
  "cmp_elmts hp cmpfcn a b = bind_res (deref hp a) (\<lambda>x. bind_res (deref hp b) (\<lambda>y. Inr (cmpfcn x y)))"

definition HASH_SRT :: "('d elmt \<Rightarrow> 'd elmt \<Rightarrow> int) \<Rightarrow> 'd ut_hash \<Rightarrow> 'd ut_hash res option" where
  "HASH_SRT cmpfcn h =
     (case head h of None \<Rightarrow> Some (Inr h)
      | Some t \<Rightarrow>
          (case hs_loop (cmp_elmts (heap h) cmpfcn) 1 (order_links (app_order t)) of
             None \<Rightarrow> None
           | Some r \<Rightarrow> Some (bind_res r (\<lambda>L. Inr (h\<lparr>head := Some (t\<lparr>app_order :=
               hs_walk (hs_next L) (length (app_order t)) (hs_list L)\<rparr>)\<rparr>)))))"

text \<open>
  The macro on the pointers of a table: \<open>_hs_list\<close> starts at the head element, and at the end the
  \<open>tail\<close> of the table and the head pointer are set. The bucket chains are not touched.
\<close>

definition HASH_SRT_hh :: "('d elmt \<Rightarrow> 'd elmt \<Rightarrow> int) \<Rightarrow> 'd hash_ptrs \<Rightarrow> 'd hash_ptrs res option" where
  "HASH_SRT_hh cmpfcn s =
     (case hash_head s of None \<Rightarrow> Some (Inr s)
      | Some _ \<Rightarrow>
          then_do (Some (tbl_of s (hash_head s))) (\<lambda>(k, t).
          then_do (hs_loop (cmp_elmts (hash_mem s) cmpfcn) 1
              \<lparr>hs_next = l_next (app_links s), hs_prev = l_prev (app_links s), hs_list = hash_head s, hs_tail = None\<rparr>) (\<lambda>L.
          Some (Inr (put_tbl (s\<lparr>app_links := \<lparr>l_next = hs_next L, l_prev = hs_prev L\<rparr>, hash_head := hs_list L\<rparr>) k
            (t\<lparr>tb_tail := hs_tail L\<rparr>))))))"

section \<open>The passes on lists\<close>

fun merge_runs :: "(addr \<Rightarrow> addr \<Rightarrow> int) \<Rightarrow> addr list \<Rightarrow> addr list \<Rightarrow> addr list" where
  "merge_runs cf [] ys = ys"
| "merge_runs cf (x # xs) [] = x # xs"
| "merge_runs cf (x # xs) (y # ys) =
     (if cf x y \<le> 0 then x # merge_runs cf xs (y # ys) else y # merge_runs cf (x # xs) ys)"

function merge_pass :: "(addr \<Rightarrow> addr \<Rightarrow> int) \<Rightarrow> nat \<Rightarrow> addr list \<Rightarrow> addr list" where
  "merge_pass cf s xs = (if xs = [] \<or> s = 0 then []
     else merge_runs cf (take s xs) (take s (drop s xs)) @ merge_pass cf s (drop (2 * s) xs))"
  by pat_completeness auto
termination by (relation "measure (\<lambda>(cf, s, xs). length xs)") auto

function merges :: "nat \<Rightarrow> nat \<Rightarrow> nat" where
  "merges s n = (if n = 0 \<or> s = 0 then 0 else Suc (merges s (n - 2 * s)))"
  by pat_completeness auto
termination by (relation "measure (\<lambda>(s, n). n)") auto

text \<open>The list cut into runs of \<open>s\<close> elements, each run sorted.\<close>

function sorted_runs :: "(addr \<Rightarrow> 'k::linorder) \<Rightarrow> nat \<Rightarrow> addr list \<Rightarrow> addr list" where
  "sorted_runs key s xs = (if xs = [] \<or> s = 0 then []
     else sort_key key (take s xs) @ sorted_runs key s (drop s xs))"
  by pat_completeness auto
termination by (relation "measure (\<lambda>(key, s, xs). length xs)") auto

declare merge_pass.simps [simp del] merges.simps [simp del] sorted_runs.simps [simp del]

lemma mset_merge_runs [simp]: "mset (merge_runs cf xs ys) = mset xs + mset ys"
  by (induction cf xs ys rule: merge_runs.induct) auto

lemma merge_runs_Nil [simp]: "merge_runs cf xs [] = xs"
  by (cases xs) simp_all

lemma set_merge_runs [simp]: "set (merge_runs cf xs ys) = set xs \<union> set ys"
  by (metis mset_merge_runs set_mset_mset set_mset_union)

lemma mset_merge_pass: "0 < s \<Longrightarrow> mset (merge_pass cf s xs) = mset xs"
proof (induction cf s xs rule: merge_pass.induct)
  case (1 cf s xs)
  have "mset xs = mset (take s xs) + mset (take s (drop s xs)) + mset (drop (2 * s) xs)"
    by (metis append_take_drop_id mset_append drop_drop mult_2 add.assoc)
  with 1 show ?case by (subst merge_pass.simps) auto
qed

lemma merges_le: "merges s n \<le> n"
  by (induction s n rule: merges.induct) (subst merges.simps, auto)

lemma merges_le_1: "0 < s \<Longrightarrow> merges s n \<le> 1 \<longleftrightarrow> n \<le> 2 * s"
  by (subst merges.simps, subst merges.simps) auto

lemma merge_runs_sort_key:
  assumes "sorted (map key xs)" "sorted (map key ys)"
    "\<And>x y. x \<in> set xs \<Longrightarrow> y \<in> set ys \<Longrightarrow> cf x y \<le> 0 \<longleftrightarrow> key x \<le> key y"
  shows "sorted (map key (merge_runs cf xs ys)) \<and>
     filter (\<lambda>x. key k = key x) (merge_runs cf xs ys) = filter (\<lambda>x. key k = key x) (xs @ ys)"
  using assms
proof (induction cf xs ys rule: merge_runs.induct)
  case (3 cf x xs y ys)
  show ?case
  proof (cases "cf x y \<le> 0")
    case True
    then have "key x \<le> key y" using 3(5) by simp
    with 3 True show ?thesis by fastforce
  next
    case False
    then have less: "key y < key x" using 3(5) by simp
    then have "key z \<noteq> key y" if "z \<in> set (x # xs)" for z using 3(3) that by auto
    then have no: "filter (\<lambda>z. key k = key z) (x # xs) = []" if "key k = key y"
      using that by (metis (mono_tags, lifting) filter_False)
    have IH: "sorted (map key (merge_runs cf (x # xs) ys)) \<and>
      filter (\<lambda>z. key k = key z) (merge_runs cf (x # xs) ys) = filter (\<lambda>z. key k = key z) ((x # xs) @ ys)"
      using 3 False by simp
    have "\<forall>z \<in> set (x # xs) \<union> set ys. key y \<le> key z" using 3(3,4) less by force
    with IH False no show ?thesis by auto
  qed
qed auto

lemma merge_sorted_runs:
  assumes "\<And>x y. x \<in> set (xs @ ys) \<Longrightarrow> y \<in> set (xs @ ys) \<Longrightarrow> cf x y \<le> 0 \<longleftrightarrow> key x \<le> key y"
  shows "merge_runs cf (sort_key key xs) (sort_key key ys) = sort_key key (xs @ ys)"
proof (rule properties_for_sort_key [symmetric])
  show "mset (merge_runs cf (sort_key key xs) (sort_key key ys)) = mset (xs @ ys)" by simp
  have st: "filter (\<lambda>x. key k = key x) (sort_key key zs) = filter (\<lambda>x. key k = key x) zs" for k zs
    using sort_key_stable [of key "key k" zs] by (simp add: eq_commute)
  note m = merge_runs_sort_key [of key "sort_key key xs" "sort_key key ys" cf] 
  show "sorted (map key (merge_runs cf (sort_key key xs) (sort_key key ys)))"
    using m assms by simp
  show "filter (\<lambda>x. key k = key x) (merge_runs cf (sort_key key xs) (sort_key key ys)) =
      filter (\<lambda>x. key k = key x) (xs @ ys)" for k
    using m [of k] assms st by simp
qed

text \<open>A pass turns sorted runs into sorted runs of twice the size.\<close>

lemma merge_pass_sorted_runs:
  assumes "0 < s" "\<And>x y. x \<in> set xs \<Longrightarrow> y \<in> set xs \<Longrightarrow> cf x y \<le> 0 \<longleftrightarrow> key x \<le> key y"
  shows "merge_pass cf s (sorted_runs key s xs) = sorted_runs key (2 * s) xs"
  using assms(2)
proof (induction xs rule: length_induct)
  case (1 xs)
  show ?case
  proof (cases "xs = []")
    case True
    then show ?thesis by (simp add: merge_pass.simps sorted_runs.simps)
  next
    case False
    let ?a = "take s xs" and ?b = "take s (drop s xs)" and ?r = "drop (2 * s) xs"
    let ?S = "sorted_runs key s"
    have S: "?S ys = sort_key key (take s ys) @ ?S (drop s ys)" for ys
      using assms(1) by (cases "ys = []") (simp_all add: sorted_runs.simps)
    have dd: "drop s (drop s xs) = ?r" by (simp add: mult_2)
    have nil: "ys = [] \<Longrightarrow> ?S ys = []" for ys by (simp add: sorted_runs.simps)
    have e: "?S xs = sort_key key ?a @ sort_key key ?b @ ?S ?r"
      using S [of xs] S [of "drop s xs"] dd by simp
    have t1: "take s (?S xs) = sort_key key ?a"
      unfolding e using nil [of ?r] by (cases "s \<le> length xs") auto
    have t2: "take s (drop s (?S xs)) = sort_key key ?b \<and> drop (2 * s) (?S xs) = ?S ?r"
      unfolding e using nil [of ?r] by (cases "2 * s \<le> length xs") (auto simp: min_def)
    have ab: "take (2 * s) xs = ?a @ ?b" by (simp add: mult_2 take_add)
    have sub: "set (?a @ ?b) \<subseteq> set xs" using set_take_subset [of "2 * s" xs] ab by simp
    have "merge_runs cf (sort_key key ?a) (sort_key key ?b) = sort_key key (take (2 * s) xs)"
      unfolding ab by (rule merge_sorted_runs) (use 1(2) sub in blast)
    moreover have "merge_pass cf s (?S ?r) = sorted_runs key (2 * s) ?r"
    proof (rule 1(1) [rule_format])
      show "length ?r < length xs" using False assms(1) by simp
      show "cf x y \<le> 0 \<longleftrightarrow> key x \<le> key y" if "x \<in> set ?r" "y \<in> set ?r" for x y
        using that 1(2) by (meson in_set_dropD)
    qed
    moreover have "length (?S xs) \<noteq> 0" unfolding S [of xs] using False assms(1) by simp
    then have "?S xs \<noteq> []" by auto
    ultimately show ?thesis
      using False assms(1) t1 t2
      by (simp add: merge_pass.simps [of cf s "?S xs"] sorted_runs.simps [of key "2 * s" xs])
  qed
qed

lemma sorted_runs_1: "sorted_runs key 1 xs = xs"
proof (induction xs)
  case (Cons x xs)
  then show ?case by (subst sorted_runs.simps) simp
qed (simp add: sorted_runs.simps)

lemma sorted_runs_all: "length xs \<le> s \<Longrightarrow> sorted_runs key s xs = sort_key key xs"
  by (cases "xs = []"; cases "s = 0") (simp_all add: sorted_runs.simps)

section \<open>The pointers\<close>

primrec seg :: "(addr \<Rightarrow> addr option) \<Rightarrow> addr option \<Rightarrow> addr list \<Rightarrow> addr option \<Rightarrow> bool" where
  "seg nx p [] r \<longleftrightarrow> p = r"
| "seg nx p (x # xs) r \<longleftrightarrow> p = Some x \<and> seg nx (nx x) xs r"

lemma seg_append: "seg nx p (xs @ ys) r \<longleftrightarrow> (\<exists>m. seg nx p xs m \<and> seg nx m ys r)"
  by (induction xs arbitrary: p) auto

lemma seg_upd: "a \<notin> set xs \<Longrightarrow> seg (nx(a := v)) p xs r \<longleftrightarrow> seg nx p xs r"
  by (induction xs arbitrary: p) auto

text \<open>Neighbours in the list point at each other.\<close>

fun chained :: "(addr \<Rightarrow> addr option) \<Rightarrow> (addr \<Rightarrow> addr option) \<Rightarrow> addr list \<Rightarrow> bool" where
  "chained nx pv (x # y # zs) \<longleftrightarrow> nx x = Some y \<and> pv y = Some x \<and> chained nx pv (y # zs)"
| "chained nx pv xs \<longleftrightarrow> True"

lemma chained_snoc:
  "chained nx pv (xs @ [t, e]) \<longleftrightarrow> chained nx pv (xs @ [t]) \<and> nx t = Some e \<and> pv e = Some t"
  by (induction nx pv xs rule: chained.induct) auto

lemma chained_upd:
  "t \<notin> set xs \<Longrightarrow> e \<notin> set (xs @ [t]) \<Longrightarrow>
    chained (nx(t := v)) (pv(e := w)) (xs @ [t]) \<longleftrightarrow> chained nx pv (xs @ [t])"
  by (induction nx pv xs rule: chained.induct) auto

lemma chained_seg: "chained nx pv (x # xs) \<Longrightarrow> nx (last (x # xs)) = r \<Longrightarrow> seg nx (Some x) (x # xs) r"
  by (induction nx pv "x # xs" arbitrary: x xs rule: chained.induct) auto

text \<open>The list under construction, and a complete doubly linked list.\<close>

definition emitted :: "hs_links \<Rightarrow> addr list \<Rightarrow> bool" where
  "emitted L ds \<longleftrightarrow> hs_list L = (if ds = [] then None else Some (hd ds)) \<and>
     hs_tail L = (if ds = [] then None else Some (last ds)) \<and>
     (ds \<noteq> [] \<longrightarrow> hs_prev L (hd ds) = None) \<and> chained (hs_next L) (hs_prev L) ds"

definition dll :: "hs_links \<Rightarrow> addr list \<Rightarrow> bool" where
  "dll L as \<longleftrightarrow> as \<noteq> [] \<and> distinct as \<and> hs_list L = Some (hd as) \<and> hs_prev L (hd as) = None \<and>
     chained (hs_next L) (hs_prev L) as \<and> hs_next L (last as) = None"

lemma emitted_emit:
  assumes "emitted L ds" "distinct (ds @ [e])"
  shows "emitted (hs_emit (Some e) L) (ds @ [e])"
proof (cases ds rule: rev_cases)
  case Nil
  then show ?thesis using assms by (simp add: emitted_def hs_emit_def)
next
  case (snoc xs t)
  have "chained ((hs_next L)(t := Some e)) ((hs_prev L)(e := Some t)) (xs @ [t, e])"
    unfolding chained_snoc using assms snoc by (simp add: chained_upd emitted_def)
  then show ?thesis
    using assms snoc by (cases xs) (simp_all add: emitted_def hs_emit_def)
qed

lemma seg_emit:
  assumes "emitted L ds" "set xs \<inter> set ds = {}"
  shows "seg (hs_next (hs_emit e L)) p xs r \<longleftrightarrow> seg (hs_next L) p xs r"
proof -
  have "t \<notin> set xs" if "hs_tail L = Some t" for t
    using assms that by (auto simp: emitted_def split: if_splits)
  then show ?thesis
    by (cases "hs_tail L"; cases e) (simp_all add: hs_emit_def seg_upd)
qed

lemma dll_seg: "dll L as \<Longrightarrow> seg (hs_next L) (hs_list L) as None"
  using chained_seg [of "hs_next L" "hs_prev L" "hd as" "tl as" None] by (cases as) (simp_all add: dll_def)

lemma emitted_close: "emitted L ds \<Longrightarrow> ds \<noteq> [] \<Longrightarrow> distinct ds \<Longrightarrow> dll (hs_close L) ds"
proof (cases ds rule: rev_cases)
  case (snoc xs t)
  assume "emitted L ds" "distinct ds"
  moreover have "chained (nx(t := None)) pv (xs @ [t]) \<longleftrightarrow> chained nx pv (xs @ [t])"
    if "t \<notin> set xs" for nx pv
    using that by (induction nx pv xs rule: chained.induct) auto
  ultimately show ?thesis using snoc by (simp add: emitted_def dll_def hs_close_def)
qed simp

text \<open>The chunk loop stops after \<open>s\<close> elements or at the end of the list.\<close>

lemma hs_chunk_seg:
  assumes "seg nx p xs None" "xs \<noteq> []"
  shows "\<exists>q. hs_chunk nx (Suc n) p k = (k + length (take (Suc n) xs), q) \<and>
     seg nx q (drop (Suc n) xs) None \<and> seg nx p (take (Suc n) xs) q"
  using assms
proof (induction n arbitrary: p k xs)
  case 0
  then show ?case by (cases xs) (auto simp: hs_adv_def Let_def)
next
  case (Suc n)
  then obtain x ys where xs: "xs = x # ys" "p = Some x" "seg nx (nx x) ys None" by (cases xs) auto
  show ?case
  proof (cases "ys = []")
    case True
    then show ?thesis using xs by (simp add: hs_adv_def)
  next
    case False
    then have "nx x \<noteq> None" using xs(3) by (cases ys) auto
    then have "hs_chunk nx (Suc (Suc n)) p k = hs_chunk nx (Suc n) (nx x) (k + 1)"
      by (simp add: hs_adv_def xs(2) Let_def)
    with Suc.IH [OF xs(3) False, of "k + 1"] show ?thesis by (simp add: xs)
  qed
qed

lemma hs_merge_second:
  "qsize \<noteq> 0 \<Longrightarrow> hs_merge cmp 0 qsize p (Some y) L =
    hs_merge cmp 0 (qsize - 1) p (hs_adv (hs_next L) (Some y)) (hs_emit (Some y) L)"
  by (subst hs_merge.simps) simp

lemma hs_merge_first:
  "qsize = 0 \<or> q = None \<Longrightarrow> hs_merge cmp (Suc n) qsize (Some x) q L =
    hs_merge cmp n qsize (hs_adv (hs_next L) (Some x)) q (hs_emit (Some x) L)"
  by (subst hs_merge.simps) auto

lemma hs_merge_both:
  "qsize \<noteq> 0 \<Longrightarrow> cmp x y = Inr c \<Longrightarrow> hs_merge cmp (Suc n) qsize (Some x) (Some y) L =
    (if c \<le> 0 then hs_merge cmp n qsize (hs_adv (hs_next L) (Some x)) (Some y) (hs_emit (Some x) L)
     else hs_merge cmp (Suc n) (qsize - 1) (Some x) (hs_adv (hs_next L) (Some y)) (hs_emit (Some y) L))"
  by (subst hs_merge.simps) (simp add: hs_cmp_def)

text \<open>
  The invariant of the merge loop: \<open>ds\<close> has been emitted, \<open>ps\<close> is left of the first run, \<open>qs\<close> of the
  second, \<open>rest\<close> comes after it. The last link of the first run is not looked at.
\<close>

definition merging ::
  "hs_links \<Rightarrow> addr list \<Rightarrow> addr option \<Rightarrow> addr list \<Rightarrow> nat \<Rightarrow> addr option \<Rightarrow> addr list \<Rightarrow> addr list \<Rightarrow> bool" where
  "merging L ds p ps qsize q qs rest \<longleftrightarrow> emitted L ds \<and> (\<exists>r. seg (hs_next L) p ps r) \<and>
     seg (hs_next L) q (qs @ rest) None \<and> (length qs = qsize \<or> length qs \<le> qsize \<and> rest = []) \<and>
     distinct (ds @ ps @ qs @ rest)"

lemma merging_second:
  assumes "merging L ds p ps qsize q (y # ys) rest"
  shows "q = Some y \<and> qsize \<noteq> 0 \<and>
    merging (hs_emit (Some y) L) (ds @ [y]) p ps (qsize - 1) (hs_adv (hs_next L) (Some y)) ys rest"
proof -
  have m: "emitted L ds" "distinct (ds @ ps @ (y # ys) @ rest)" using assms by (simp_all add: merging_def)
  have "emitted (hs_emit (Some y) L) (ds @ [y])" using m by (intro emitted_emit) auto
  moreover have "seg (hs_next (hs_emit (Some y) L)) p ps r \<longleftrightarrow> seg (hs_next L) p ps r"
    "seg (hs_next (hs_emit (Some y) L)) z (ys @ rest) None \<longleftrightarrow> seg (hs_next L) z (ys @ rest) None" for r z
    using m by (auto intro!: seg_emit [OF m(1)])
  ultimately show ?thesis using assms by (auto simp: merging_def hs_adv_def)
qed

lemma merging_first:
  assumes "merging L ds p (x # xs) qsize q qs rest"
  shows "p = Some x \<and>
    merging (hs_emit (Some x) L) (ds @ [x]) (hs_adv (hs_next L) (Some x)) xs qsize q qs rest"
proof -
  have m: "emitted L ds" "distinct (ds @ (x # xs) @ qs @ rest)" using assms by (simp_all add: merging_def)
  have "emitted (hs_emit (Some x) L) (ds @ [x])" using m by (intro emitted_emit) auto
  moreover have "seg (hs_next (hs_emit (Some x) L)) z xs r \<longleftrightarrow> seg (hs_next L) z xs r"
    "seg (hs_next (hs_emit (Some x) L)) q (qs @ rest) None \<longleftrightarrow> seg (hs_next L) q (qs @ rest) None" for r z
    using m by (auto intro!: seg_emit [OF m(1)])
  ultimately show ?thesis using assms by (auto simp: merging_def hs_adv_def)
qed

text \<open>The merge loop emits the pure merge of the two runs and stops in front of the rest.\<close>

lemma hs_merge_emits:
  assumes "merging L ds p ps qsize q qs rest"
    "\<And>a b. a \<in> set (ps @ qs) \<Longrightarrow> b \<in> set (ps @ qs) \<Longrightarrow> cmp a b = Inr (cf a b)"
  shows "\<exists>q' L'. hs_merge cmp (length ps) qsize p q L = Inr (q', L') \<and>
     emitted L' (ds @ merge_runs cf ps qs) \<and> seg (hs_next L') q' rest None"
  using assms
proof (induction "length ps + length qs" arbitrary: L ds p ps q qs qsize)
  case 0
  then show ?case by (subst hs_merge.simps) (cases rest; auto simp: merging_def)
next
  case (Suc n)
  have second: ?case if qs: "qs = y # ys" and m: "merge_runs cf ps qs = y # merge_runs cf ps ys"
    and step: "hs_merge cmp (length ps) qsize p q L =
      hs_merge cmp (length ps) (qsize - 1) p (hs_adv (hs_next L) (Some y)) (hs_emit (Some y) L)" for y ys
    using Suc.hyps(1) [of ps ys "hs_emit (Some y) L" "ds @ [y]" p "qsize - 1"] Suc.hyps(2) Suc.prems(2)
      merging_second [OF Suc.prems(1) [unfolded qs]] unfolding step m by (simp add: qs)
  have first: ?case if ps: "ps = x # xs" and m: "merge_runs cf ps qs = x # merge_runs cf xs qs"
    and step: "hs_merge cmp (length ps) qsize p q L =
      hs_merge cmp (length xs) qsize (hs_adv (hs_next L) (Some x)) q (hs_emit (Some x) L)" for x xs
    using Suc.hyps(1) [of xs qs "hs_emit (Some x) L" "ds @ [x]" _ qsize q] Suc.hyps(2) Suc.prems(2)
      merging_first [OF Suc.prems(1) [unfolded ps]] unfolding step m by (simp add: ps)
  consider (Q) y ys where "ps = []" "qs = y # ys" | (P) x xs where "ps = x # xs" "qs = []"
    | (PQ) x xs y ys where "ps = x # xs" "qs = y # ys"
    using Suc.hyps(2) by (cases ps; cases qs) auto
  then show ?case
  proof cases
    case Q
    have "q = Some y" "qsize \<noteq> 0" using merging_second [OF Suc.prems(1) [unfolded Q]] by simp_all
    with Q show ?thesis by (intro second) (simp_all add: hs_merge_second)
  next
    case P
    then have "qsize = 0 \<or> q = None" using Suc.prems(1) by (auto simp: merging_def)
    moreover have "p = Some x" using merging_first [OF Suc.prems(1) [unfolded P]] by simp
    ultimately show ?thesis using P by (intro first) (simp_all add: hs_merge_first)
  next
    case PQ
    have "p = Some x" "q = Some y" "qsize \<noteq> 0"
      using merging_first [OF Suc.prems(1) [unfolded PQ]] merging_second [OF Suc.prems(1) [unfolded PQ]] by simp_all
    moreover have "cmp x y = Inr (cf x y)" using Suc.prems(2) by (simp add: PQ)
    ultimately show ?thesis
      using first [OF PQ(1)] second [OF PQ(2)] by (cases "cf x y \<le> 0") (simp_all add: PQ hs_merge_both)
  qed
qed

text \<open>A pass over a list of elements emits the pure pass and counts its merges.\<close>

lemma hs_pass_emits:
  assumes "unat insize = Suc m" "emitted L ds" "seg (hs_next L) p xs None" "distinct (ds @ xs)"
    "\<And>a b. a \<in> set xs \<Longrightarrow> b \<in> set xs \<Longrightarrow> cmp a b = Inr (cf a b)"
  shows "\<exists>L'. hs_pass cmp insize p k L =
       Some (Inr (k + of_nat (merges (Suc m) (length xs)), L')) \<and>
     emitted L' (ds @ merge_pass cf (Suc m) xs)"
  using assms(2-)
proof (induction "length xs" arbitrary: xs L ds p k rule: less_induct)
  case less
  show ?case
  proof (cases "xs = []")
    case True
    then show ?thesis using less.prems
      by (subst hs_pass.simps) (simp add: merges.simps merge_pass.simps)
  next
    case False
    let ?a = "take (Suc m) xs" and ?r = "drop (Suc m) xs"
    let ?b = "take (Suc m) ?r" and ?c = "drop (Suc m) ?r"
    have sets: "set ?a \<subseteq> set xs" "set ?b \<subseteq> set xs" "set ?c \<subseteq> set xs"
      by (auto dest!: in_set_takeD in_set_dropD)
    obtain q where q: "hs_chunk (hs_next L) (Suc m) p 0 = (length ?a, q)"
      "seg (hs_next L) q ?r None" "seg (hs_next L) p ?a q"
      using hs_chunk_seg [OF less.prems(2) False, of m 0] by auto
    have abc: "?a @ ?b @ ?c = xs" by (simp only: append_take_drop_id)
    have "distinct (ds @ ?a @ ?b @ ?c)" unfolding abc by (rule less.prems(3))
    moreover have "seg (hs_next L) q (?b @ ?c) None" using q(2) by (simp only: append_take_drop_id)
    ultimately have "merging L ds p ?a (Suc m) q ?b ?c"
      unfolding merging_def using less.prems(1) q(3) by (auto simp del: drop_drop)
    moreover have "cmp x y = Inr (cf x y)" if "x \<in> set (?a @ ?b)" "y \<in> set (?a @ ?b)" for x y
      using that sets less.prems(4) unfolding set_append by blast
    ultimately obtain q' L1 where m: "hs_merge cmp (length ?a) (Suc m) p q L = Inr (q', L1)"
      "emitted L1 (ds @ merge_runs cf ?a ?b)" "seg (hs_next L1) q' ?c None"
      using hs_merge_emits [of L ds p ?a "Suc m" q ?b ?c cmp cf] by blast
    have p: "(p = None) = False" using less.prems(2) False by (cases xs) auto
    have step: "hs_pass cmp insize p k L = hs_pass cmp insize q' (k + 1) L1"
      by (subst hs_pass.simps) (simp add: p assms(1) q(1) m(1) del: hs_chunk.simps length_take)
    have "mset ((ds @ merge_runs cf ?a ?b) @ ?c) = mset (ds @ xs)"
      using arg_cong [OF abc, of mset] by (simp add: ac_simps)
    then have d: "distinct ((ds @ merge_runs cf ?a ?b) @ ?c)"
      using less.prems(3) by (metis mset_eq_imp_distinct_iff)
    obtain L2 where L2: "hs_pass cmp insize q' (k + 1) L1 =
        Some (Inr (k + 1 + of_nat (merges (Suc m) (length ?c)), L2))"
      "emitted L2 ((ds @ merge_runs cf ?a ?b) @ merge_pass cf (Suc m) ?c)"
      using less.hyps [OF _ m(2,3) d, of "k + 1"] less.prems(4) sets False by (auto simp: subset_iff)
    have "length ?c = length xs - 2 * Suc m" "?c = drop (2 * Suc m) xs" by (simp_all add: mult_2 add.commute)
    then show ?thesis
      using L2 False by (simp add: step merges.simps [of "Suc m" "length xs"] merge_pass.simps [of cf "Suc m" xs]
          add.assoc)
  qed
qed

text \<open>
  The loop over the passes: a predicate that every pass keeps while the run size doubles holds
  for the result, for a run size that reaches the length of the list.
\<close>

lemma hs_loop_ends:
  assumes "k < 32" "dll L xs" "length xs < 2 ^ 32" "P (2 ^ k) xs"
    and cmp: "\<And>a b. a \<in> set xs \<Longrightarrow> b \<in> set xs \<Longrightarrow> cmp a b = Inr (cf a b)"
    and pass: "\<And>s ys. 0 < s \<Longrightarrow> set ys = set xs \<Longrightarrow> P s ys \<Longrightarrow> P (2 * s) (merge_pass cf s ys)"
  shows "\<exists>L' ys s. hs_loop cmp (2 ^ k) L = Some (Inr L') \<and> dll L' ys \<and> mset ys = mset xs \<and>
     P s ys \<and> length ys \<le> s \<and> hs_tail L' = Some (last ys)"
  using assms
proof (induction "32 - k" arbitrary: k L xs)
  case (Suc n)
  let ?L = "L\<lparr>hs_list := None, hs_tail := None\<rparr>"
  define ys where "ys = merge_pass cf (2 ^ k) xs"
  have m: "unat (2 ^ k :: u32) = Suc (2 ^ k - 1)" using Suc.prems(1) by (simp add: unat_pow2)
  have "distinct xs" "xs \<noteq> []" using Suc.prems(2) by (simp_all add: dll_def)
  then obtain L' where L': "hs_pass cmp (2 ^ k) (hs_list L) 0 ?L =
      Some (Inr (of_nat (merges (2 ^ k) (length xs)), L'))" "emitted L' ys"
    using hs_pass_emits [OF m, of ?L "[]" "hs_list L" xs cmp cf 0] dll_seg [OF Suc.prems(2)] Suc.prems(5)
    by (auto simp: emitted_def ys_def)
  have ms: "mset ys = mset xs" by (simp add: ys_def mset_merge_pass)
  then have ys: "set ys = set xs" "length ys = length xs" "distinct ys" "ys \<noteq> []"
    using \<open>distinct xs\<close> \<open>xs \<noteq> []\<close> by (auto dest: mset_eq_setD mset_eq_length mset_eq_imp_distinct_iff)
  have dll: "dll (hs_close L') ys" by (rule emitted_close [OF L'(2) ys(4,3)])
  have tail: "hs_tail (hs_close L') = Some (last ys)"
    using L'(2) ys(4) by (simp add: emitted_def hs_close_def split: option.split)
  have P: "P (2 * 2 ^ k) ys" using Suc.prems(4,6) by (simp add: ys_def)
  have "merges (2 ^ k) (length xs) < 2 ^ 32" using merges_le Suc.prems(3) by (rule le_less_trans)
  then have le1: "(of_nat (merges (2 ^ k) (length xs)) :: u32) \<le> 1 \<longleftrightarrow> length xs \<le> 2 * 2 ^ k"
    by (simp add: word_le_nat_alt unat_of_nat merges_le_1 [of "2 ^ k", simplified, symmetric])
  show ?case
  proof (cases "length xs \<le> 2 * 2 ^ k")
    case True
    then have "hs_loop cmp (2 ^ k) L = Some (Inr (hs_close L'))"
      using L'(1) le1 by (subst hs_loop.simps) simp
    then show ?thesis using dll ms P True ys(2) tail by (intro exI [of _ ys] exI conjI) auto
  next
    case False
    then have "hs_loop cmp (2 ^ k) L = hs_loop cmp (2 ^ Suc k) (hs_close L')"
      using L'(1) le1 by (subst hs_loop.simps) (simp add: mult.commute)
    moreover have "Suc k < 32"
    proof (rule ccontr)
      assume "\<not> Suc k < 32"
      then have "(2::nat) ^ 32 \<le> 2 ^ Suc k" by (intro power_increasing) auto
      then show False using False Suc.prems(3) by simp
    qed
    ultimately show ?thesis
      using Suc.hyps(1) [of "Suc k" "hs_close L'" ys] Suc.hyps(2) dll P ms ys Suc.prems(3,5,6) by simp
  qed
qed simp

section \<open>The order of a table\<close>

lemma chained_nth: "chained nx pv xs \<longleftrightarrow>
    (\<forall>i. Suc i < length xs \<longrightarrow> nx (xs ! i) = Some (xs ! Suc i) \<and> pv (xs ! Suc i) = Some (xs ! i))"
proof (induction nx pv xs rule: chained.induct)
  case (1 nx pv x y zs)
  then show ?case by (auto simp: less_Suc_eq_0_disj)
qed auto

lemma order_links_dll:
  assumes "distinct as" "as \<noteq> []"
  shows "dll (order_links as) as"
proof -
  have len: "length (butlast as) = length (tl as)" by simp
  have d: "distinct (butlast as)" "distinct (tl as)"
    using assms(1) by (simp_all add: distinct_butlast distinct_tl)
  have "map_of (zip (butlast as) (tl as)) (as ! i) = Some (as ! Suc i) \<and>
      map_of (zip (tl as) (butlast as)) (as ! Suc i) = Some (as ! i)" if "Suc i < length as" for i
    using map_of_zip_nth [OF len d(1), of i] map_of_zip_nth [OF len [symmetric] d(2), of i] that
    by (simp add: nth_butlast nth_tl)
  moreover have "last as \<notin> set (butlast as)" using assms by (cases as rule: rev_cases) auto
  moreover have "hd as \<notin> set (tl as)" using assms by (cases as) auto
  moreover have "map_of (zip (butlast as) (tl as)) a = None \<longleftrightarrow> a \<notin> set (butlast as)"
    "map_of (zip (tl as) (butlast as)) a = None \<longleftrightarrow> a \<notin> set (tl as)" for a
    by (rule map_of_zip_is_None, simp)+
  ultimately show ?thesis using assms by (simp add: dll_def order_links_def chained_nth)
qed

lemma hs_walk_dll: "dll L as \<Longrightarrow> hs_walk (hs_next L) (length as) (hs_list L) = as"
proof -
  have "seg nx p as None \<Longrightarrow> hs_walk nx (length as) p = as" for nx p
    by (induction as arbitrary: p) auto
  then show "dll L as \<Longrightarrow> ?thesis" by (auto dest: dll_seg)
qed

text \<open>Only the order of iteration depends on the application order.\<close>

lemma reorder_ok:
  assumes wf: "ut_wf h" and hd: "head h = Some t" and ms: "mset as = mset (app_order t)"
    and h': "h' = h\<lparr>head := Some (t\<lparr>app_order := as\<rparr>)\<rparr>"
  shows "ut_wf h' \<and> ut_map h' = ut_map h \<and> (\<forall>k. HASH_FIND h' k = HASH_FIND h k)"
proof -
  have ord: "order_of h' = as" "heap h' = heap h" "order_of h = app_order t"
    by (simp_all add: h' hd order_of_def)
  have same: "set as = set (app_order t)" "length as = length (app_order t)"
    "distinct as = distinct (app_order t)"
    using ms by (auto dest: mset_eq_setD mset_eq_length mset_eq_imp_distinct_iff)
  have "table_ok (heap h) t" using wf hd by (simp add: ut_wf_def)
  then have "table_ok (heap h) (t\<lparr>app_order := as\<rparr>)" using same ms by (simp add: table_ok_def)
  then have wf': "ut_wf h'" using wf ord same by (simp add: ut_wf_def h' elmts_ok_def)
  have "ut_map h' k = ut_map h k" for k
  proof (cases "\<exists>a. linked h a k")
    case True
    then obtain a where "linked h a k" by blast
    moreover from this have "linked h' a k" using ord same by (simp add: linked_def)
    ultimately show ?thesis using linked_map [OF wf] linked_map [OF wf'] ord(2) by simp
  next
    case False
    then have "ut_map h k = None" "ut_map h' k = None"
      using ord same by (auto simp: ut_map_None_iff linked_def)
    then show ?thesis by simp
  qed
  with wf' show ?thesis by (auto simp: HASH_FIND_def h' hd)
qed

text \<open>Sorting the order of a table, with the invariant of the passes as a parameter.\<close>

lemma HASH_SRT_ends:
  fixes h :: "'d ut_hash"
  assumes wf: "ut_wf h" and len: "length (order_of h) < 2 ^ 32" and ne: "order_of h \<noteq> []"
    and P: "P 1 (order_of h)"
    and pass: "\<And>s ys. 0 < s \<Longrightarrow> set ys = set (order_of h) \<Longrightarrow> P s ys \<Longrightarrow>
      P (2 * s) (merge_pass (\<lambda>a b. cmpfcn (the (heap h a)) (the (heap h b))) s ys)"
  shows "\<exists>h' s. HASH_SRT cmpfcn h = Some (Inr h') \<and> ut_wf h' \<and> ut_map h' = ut_map h \<and>
     (\<forall>k. HASH_FIND h' k = HASH_FIND h k) \<and> mset (order_of h') = mset (order_of h) \<and>
     P s (order_of h') \<and> length (order_of h') \<le> s"
proof -
  let ?cf = "\<lambda>a b. cmpfcn (the (heap h a)) (the (heap h b))"
  obtain t where hd: "head h = Some t" using ne by (cases "head h") (auto simp: order_of_def)
  have ord: "order_of h = app_order t" by (simp add: hd order_of_def)
  have dll: "dll (order_links (app_order t)) (app_order t)"
    using ne ut_wf_distinct [OF wf] by (intro order_links_dll) (simp_all add: ord)
  have cmp: "cmp_elmts (heap h) cmpfcn a b = Inr (?cf a b)" if ab: "a \<in> set (app_order t)" "b \<in> set (app_order t)" for a b
  proof -
    have "\<exists>e. heap h c = Some e" if "c \<in> set (app_order t)" for c
      using wf that by (auto simp: ut_wf_def elmts_ok_def ord)
    then obtain x y where "heap h a = Some x" "heap h b = Some y" using ab by blast
    then show ?thesis by (simp add: cmp_elmts_def)
  qed
  obtain L ys s where L: "hs_loop (cmp_elmts (heap h) cmpfcn) 1 (order_links (app_order t)) = Some (Inr L)"
    "dll L ys" "mset ys = mset (app_order t)" "P s ys" "length ys \<le> s"
    using hs_loop_ends [of 0 "order_links (app_order t)" "app_order t" P "cmp_elmts (heap h) cmpfcn" ?cf]
      dll cmp len P pass by (auto simp: ord)
  define h' where "h' = h\<lparr>head := Some (t\<lparr>app_order := ys\<rparr>)\<rparr>"
  have "hs_walk (hs_next L) (length (app_order t)) (hs_list L) = ys"
    using hs_walk_dll [OF L(2)] mset_eq_length [OF L(3)] by simp
  then have "HASH_SRT cmpfcn h = Some (Inr h')" by (simp add: HASH_SRT_def hd L(1) h'_def)
  moreover have "order_of h' = ys" by (simp add: h'_def order_of_def)
  ultimately show ?thesis
    using reorder_ok [OF wf hd L(3) h'_def] L(3-5) ord by auto
qed

section \<open>Properties\<close>

section \<open>The sort on the pointers of a table\<close>

lemma dlist_chained:
  "dlist L p q (a # as) \<longleftrightarrow> q = Some a \<and> l_prev L a = p \<and> chained (l_next L) (l_prev L) (a # as) \<and>
     l_next L (last (a # as)) = None"
  by (induction as arbitrary: p q a) auto

lemma dlist_dll:
  assumes "dlist L None q as" "as \<noteq> []" "distinct as"
  shows "dll \<lparr>hs_next = l_next L, hs_prev = l_prev L, hs_list = q, hs_tail = x\<rparr> as"
  using assms by (cases as) (auto simp: dll_def dlist_chained simp del: dlist.simps)

lemma dll_dlist:
  assumes "dll L as"
  shows "dlist \<lparr>l_next = hs_next L, l_prev = hs_prev L\<rparr> None (hs_list L) as"
  using assms by (cases as) (auto simp: dll_def dlist_chained simp del: dlist.simps)

lemma HASH_SRT_order:
  assumes "HASH_SRT cmpfcn h = Some (Inr h')" "head h = Some t"
  shows "h' = h\<lparr>head := Some (t\<lparr>app_order := order_of h'\<rparr>)\<rparr>"
  using assms by (auto simp: HASH_SRT_def order_of_def bind_res_Inr_iff split: option.splits)

lemma cmp_elmts_live:
  assumes "ut_wf h" "a \<in> set (order_of h)" "b \<in> set (order_of h)"
  shows "cmp_elmts (heap h) cmpfcn a b = Inr (cmpfcn (the (heap h a)) (the (heap h b)))"
proof -
  have "\<exists>e. heap h c = Some e" if "c \<in> set (order_of h)" for c
    using assms(1) that by (auto simp: ut_wf_def elmts_ok_def)
  then obtain x y where "heap h a = Some x" "heap h b = Some y" using assms(2,3) by blast
  then show ?thesis by (simp add: cmp_elmts_def)
qed

lemma HASH_SRT_hh_stable:
  fixes h :: "'d ut_hash" and key :: "'d elmt \<Rightarrow> 'k::linorder"
  assumes rep: "represents s h" and wf: "ut_wf h" and hd: "head h = Some t"
    and len: "length (order_of h) < 2 ^ 32" and cmp: "\<forall>x y. cmpfcn x y \<le> 0 \<longleftrightarrow> key x \<le> key y"
  shows "\<exists>s'. HASH_SRT_hh cmpfcn s = Some (Inr s') \<and> represents s'
     (h\<lparr>head := Some (t\<lparr>app_order := sort_key (\<lambda>a. key (the (heap h a))) (order_of h)\<rparr>)\<rparr>)"
proof -
  let ?key = "\<lambda>a. key (the (heap h a))" and ?cf = "\<lambda>a b. cmpfcn (the (heap h a)) (the (heap h b))"
  let ?ys = "sort_key ?key (app_order t)"
  obtain x k pt where r: "hash_head s = Some x" "tbl_of s (hash_head s) = Inr (k, pt)"
    "\<forall>a \<in> set (app_order t). hh_tbl s a = Some k" "hh_tables s k = Some pt" "tbl_rel (bkt_links s) pt t"
    "dlist (app_links s) None (hash_head s) (app_order t)" "app_order t \<noteq> []"
    using represents_table [OF rep hd wf] by metis
  have ord: "order_of h = app_order t" by (simp add: hd order_of_def)
  define L where "L = \<lparr>hs_next = l_next (app_links s), hs_prev = l_prev (app_links s), hs_list = hash_head s, hs_tail = None\<rparr>"
  have dll: "dll L (app_order t)"
    using dlist_dll [OF r(6,7)] ut_wf_distinct [OF wf] by (simp add: L_def ord)
  obtain L' ys n where L': "hs_loop (cmp_elmts (heap h) cmpfcn) 1 L = Some (Inr L')" "dll L' ys"
    "ys = sorted_runs ?key n (app_order t)" "mset ys = mset (app_order t)" "length ys \<le> n"
    "hs_tail L' = Some (last ys)"
    using hs_loop_ends [of 0 L "app_order t" "\<lambda>s ys. ys = sorted_runs ?key s (app_order t)" "cmp_elmts (heap h) cmpfcn" ?cf]
      dll len cmp cmp_elmts_live [OF wf] sorted_runs_1 [of ?key "app_order t"]
      merge_pass_sorted_runs [of _ "app_order t" ?cf ?key] ord by auto
  have ne: "?ys \<noteq> []" using r(7) by (metis length_0_conv length_sort)
  have ys: "ys = ?ys" using L'(3,5) mset_eq_length [OF L'(4)] by (simp add: sorted_runs_all)
  define s' where "s' = put_tbl (s\<lparr>app_links := \<lparr>l_next = hs_next L', l_prev = hs_prev L'\<rparr>, hash_head := hs_list L'\<rparr>) k
      (pt\<lparr>tb_tail := hs_tail L'\<rparr>)"
  have mem: "hash_mem s = heap h" "next_elmt s = next_addr h" using rep by (simp_all add: represents_def)
  then have "HASH_SRT_hh cmpfcn s = Some (Inr s')"
    using r(1,2) L'(1) by (simp add: HASH_SRT_hh_def L_def s'_def)
  moreover have "represents s' (h\<lparr>head := Some (t\<lparr>app_order := ?ys\<rparr>)\<rparr>)"
  proof (rule representsI [where t = "t\<lparr>app_order := ?ys\<rparr>" and k = k and pt = "pt\<lparr>tb_tail := hs_tail L'\<rparr>"])
    show "dlist (app_links s') None (hash_head s') (app_order (t\<lparr>app_order := ?ys\<rparr>))"
      using dll_dlist [OF L'(2)] ys by (simp add: s'_def put_tbl_def)
  qed (use mem r L'(6) ys ne in \<open>auto simp: s'_def put_tbl_def tbl_rel_def\<close>)
  ultimately show ?thesis by (auto simp: ord)
qed

text \<open>
  C26: relinking an arbitrary doubly linked list of fewer than 2^32 handles in place ends, without
  following a null pointer and without the run size wrapping, in a list that is doubly linked
  again and is the stable sort of the old one; head, tail end and both directions agree.
\<close>

theorem sort_relinks_stably:
  fixes key :: "addr \<Rightarrow> 'k::linorder"
  assumes "dll L as" "length as < 2 ^ 32"
    "\<forall>a \<in> set as. \<forall>b \<in> set as. \<exists>c. cmp a b = Inr c \<and> (c \<le> 0 \<longleftrightarrow> key a \<le> key b)"
  shows "\<exists>L'. hs_loop cmp 1 L = Some (Inr L') \<and> dll L' (sort_key key as)"
proof -
  define cf where "cf a b = (case cmp a b of Inr c \<Rightarrow> c | Inl _ \<Rightarrow> 0)" for a b
  have cf: "cmp a b = Inr (cf a b)" "cf a b \<le> 0 \<longleftrightarrow> key a \<le> key b" if "a \<in> set as" "b \<in> set as" for a b
    using assms(3) that by (force simp: cf_def)+
  obtain L' ys s where L': "hs_loop cmp 1 L = Some (Inr L')" "dll L' ys" "ys = sorted_runs key s as"
    "mset ys = mset as" "length ys \<le> s"
    using hs_loop_ends [of 0 L as "\<lambda>s ys. ys = sorted_runs key s as" cmp cf] assms(1,2) cf
      merge_pass_sorted_runs [of _ as cf key] sorted_runs_1 [of key as] by auto
  then show ?thesis using mset_eq_length [OF L'(4)] by (simp add: sorted_runs_all)
qed

text \<open>
  C25: sorting a table by a comparison that agrees with a key ends and leaves the table well
  formed, with the same content; every search gives the same element as before; the elements
  are then iterated in the stable order of the keys.
\<close>

theorem uthash_sort_stable:
  fixes h :: "'d ut_hash" and key :: "'d elmt \<Rightarrow> 'k::linorder"
  assumes "ut_wf h" "order_of h \<noteq> []" "length (order_of h) < 2 ^ 32"
    "\<forall>x y. cmpfcn x y \<le> 0 \<longleftrightarrow> key x \<le> key y"
  shows "\<exists>h'. HASH_SRT cmpfcn h = Some (Inr h') \<and> ut_wf h' \<and> fsck_counts h' \<and> ut_map h' = ut_map h \<and>
     (\<forall>k. HASH_FIND h' k = HASH_FIND h k) \<and>
     order_of h' = sort_key (\<lambda>a. key (the (heap h a))) (order_of h) \<and>
     (\<forall>s. represents s h \<longrightarrow> (\<exists>s'. HASH_SRT_hh cmpfcn s = Some (Inr s') \<and> represents s' h' \<and>
        HASH_FSCK s' = Some (Inr ())))"
proof -
  let ?key = "\<lambda>a. key (the (heap h a))"
  let ?P = "\<lambda>s ys. ys = sorted_runs ?key s (order_of h)"
  obtain h' s where h': "HASH_SRT cmpfcn h = Some (Inr h')" "ut_wf h'" "ut_map h' = ut_map h"
    "\<forall>k. HASH_FIND h' k = HASH_FIND h k" "mset (order_of h') = mset (order_of h)"
    "?P s (order_of h')" "length (order_of h') \<le> s"
    using HASH_SRT_ends [of h ?P cmpfcn] assms sorted_runs_1 [of ?key "order_of h"]
      merge_pass_sorted_runs [of _ "order_of h" _ ?key] by auto
  then have srt: "order_of h' = sort_key ?key (order_of h)"
    using mset_eq_length [OF h'(5)] by (simp add: sorted_runs_all)
  obtain t where hd: "head h = Some t" using assms(2) by (cases "head h") (auto simp: order_of_def)
  have "\<exists>s'. HASH_SRT_hh cmpfcn s = Some (Inr s') \<and> represents s' h' \<and> HASH_FSCK s' = Some (Inr ())"
    if "represents s h" for s
    using HASH_SRT_hh_stable [OF that assms(1) hd assms(3,4)] HASH_SRT_order [OF h'(1) hd]
      represents_FSCK [OF _ h'(2)] by (metis srt)
  then show ?thesis using h'(1-4) srt ut_wf_counts [OF h'(2)] by blast
qed

text \<open>
  whatever the comparison answers, even inconsistently, sorting a table ends, keeps the table
  well formed with the same content, and only permutes the order of its elements.
\<close>

theorem uthash_sort_total:
  fixes h :: "'d ut_hash"
  assumes "ut_wf h" "order_of h \<noteq> []" "length (order_of h) < 2 ^ 32"
  shows "\<exists>h'. HASH_SRT cmpfcn h = Some (Inr h') \<and> ut_wf h' \<and> fsck_counts h' \<and> ut_map h' = ut_map h \<and>
     mset (order_of h') = mset (order_of h)"
  using HASH_SRT_ends [of h "\<lambda>_ _. True" cmpfcn] assms ut_wf_counts by blast

section \<open>Witnesses\<close>

theorem sort_relinks_stably_witness:
  "\<exists>L'. hs_loop (\<lambda>a b. Inr (int a - int b)) 1 (order_links [7, 3, 5]) = Some (Inr L') \<and> dll L' [3, 5, 7]"
  using sort_relinks_stably [of "order_links [7, 3, 5]" "[7, 3, 5]" "\<lambda>a b. Inr (int a - int b)" "\<lambda>a. a"]
    order_links_dll [of "[7, 3, 5]"] by simp

text \<open>A table with two elements, built by the macros.\<close>

definition fresh_elmt :: "'d \<Rightarrow> 'd elmt" where
  "fresh_elmt d = \<lparr>e_data = d, hh_key = [], hh_keylen = 0, hh_hashv = 0\<rparr>"

lemma ut_add_fresh:
  assumes "ut_wf h" "ut_level h < 31" "length key < 2 ^ 32" "ut_map h key = None"
  shows "\<exists>h'. ut_add h key d = Inr h' \<and> ut_wf h' \<and> ut_level h' \<le> Suc (ut_level h) \<and>
     ut_map h' = (ut_map h)(key \<mapsto> d) \<and> order_of h' = order_of h @ [next_addr h] \<and>
     next_addr h' = Suc (next_addr h) \<and> heap h' = (heap h)(next_addr h \<mapsto> keyed key (fresh_elmt d))"
proof -
  obtain a h1 where m: "ut_malloc h d = (a, h1)" by fastforce
  then have h1: "a = next_addr h" "next_addr h1 = Suc (next_addr h)" "heap h1 = (heap h)(a \<mapsto> fresh_elmt d)"
    by (auto simp: ut_malloc_def fresh_elmt_def)
  obtain h' where h': "HASH_ADD_KEYPTR h1 key a = Inr h'" "ut_wf h'" "ut_map h' = (ut_map h)(key \<mapsto> d)"
      "order_of h' = order_of h @ [a]" "heap h' = (heap h1)(a \<mapsto> keyed key (fresh_elmt d))"
      "next_addr h' = Suc (next_addr h)"
    using HASH_ADD_KEYPTR_cases [of h1 a "fresh_elmt d" key] ut_malloc_ok [OF assms(1) m] assms(3,4)
      ut_level_room [OF assms(2)] h1 by (auto simp: fresh_elmt_def)
  moreover have "ut_add h key d = Inr h'" by (simp add: ut_add_def m h'(1))
  ultimately show ?thesis using ut_add_level [of h key d h'] h1 by simp
qed

lemma one_element:
  "\<exists>h. ut_add ut_empty [1] (9 :: nat) = Inr h \<and> ut_wf h \<and> ut_room h \<and> ut_level h \<le> 6 \<and> ut_map h = [[1] \<mapsto> 9] \<and>
     order_of h = [0] \<and> next_addr h = 1 \<and> heap h 0 = Some (keyed [1] (fresh_elmt 9))"
proof -
  have e: "ut_level (ut_empty :: nat ut_hash) = 5" "order_of (ut_empty :: nat ut_hash) = []"
    "next_addr (ut_empty :: nat ut_hash) = 0"
    by (simp_all add: ut_level_def ut_empty_def order_of_def)
  from ut_add_fresh [of ut_empty "[1]" "9 :: nat"] e show ?thesis
    by (auto intro!: ut_level_room)
qed

lemma two_elements:
  "\<exists>h. ut_wf h \<and> order_of h = [0, 1] \<and> heap h 0 = Some (keyed [1] (fresh_elmt (9 :: nat))) \<and>
     heap h 1 = Some (keyed [2] (fresh_elmt 4))"
proof -
  obtain h where h: "ut_wf h" "ut_level h \<le> 6" "ut_map h = [[1] \<mapsto> 9 :: nat]" "order_of h = [0]"
    "next_addr h = 1" "heap h 0 = Some (keyed [1] (fresh_elmt 9))"
    using one_element by blast
  from ut_add_fresh [OF h(1), of "[2]" 4] h(2-) show ?thesis by auto
qed

theorem uthash_sort_stable_witness:
  "\<exists>(h :: nat ut_hash) h'. order_of h = [0, 1] \<and>
     HASH_SRT (\<lambda>x y. int (e_data x) - int (e_data y)) h = Some (Inr h') \<and> order_of h' = [1, 0]"
proof -
  obtain h :: "nat ut_hash" where h: "ut_wf h" "order_of h = [0, 1]"
    "heap h 0 = Some (keyed [1] (fresh_elmt 9))" "heap h 1 = Some (keyed [2] (fresh_elmt 4))"
    using two_elements by blast
  from uthash_sort_stable [OF h(1), of "\<lambda>x y. int (e_data x) - int (e_data y)" e_data] h
  show ?thesis by (auto simp: keyed_def fresh_elmt_def)
qed

theorem uthash_sort_total_witness:
  "\<exists>(h :: nat ut_hash) h'. order_of h = [0, 1] \<and> HASH_SRT (\<lambda>x y. 1) h = Some (Inr h') \<and>
     mset (order_of h') = {#0, 1#}"
proof -
  obtain h :: "nat ut_hash" where h: "ut_wf h" "order_of h = [0, 1]"
    using two_elements by blast
  from uthash_sort_total [OF h(1), of "\<lambda>x y. 1"] h(2) show ?thesis by auto
qed

end
