(* ===== verification/Uthash_More.thy ===== *)
theory Uthash_More
  imports Uthash_Sort
begin

unbundle bit_operations_syntax

text \<open>
  The rest of the interface of \<open>praxis2/include/uthash.h\<close>: ordered insertion, replacement,
  iteration that is safe for deletion, counting, clearing, and the selectable hash functions.
\<close>

section \<open>Other hash functions\<close>

definition HASH_BER :: "byte list \<Rightarrow> u32" where
  "HASH_BER key = foldl (\<lambda>hashv b. (push_bit 5 hashv + hashv) + ucast b) 0 key"

definition HASH_SAX :: "byte list \<Rightarrow> u32" where
  "HASH_SAX key = foldl (\<lambda>hashv b. hashv XOR (push_bit 5 hashv + drop_bit 2 hashv + ucast b)) 0 key"

definition HASH_FNV :: "byte list \<Rightarrow> u32" where
  "HASH_FNV key = foldl (\<lambda>hashv b. (hashv XOR ucast b) * 16777619) 2166136261 key"

definition HASH_OAT :: "byte list \<Rightarrow> u32" where
  "HASH_OAT key =
    (let hashv = foldl (\<lambda>hashv b.
           let hashv = hashv + ucast b; hashv = hashv + push_bit 10 hashv
           in hashv XOR drop_bit 6 hashv) 0 key;
         hashv = hashv + push_bit 3 hashv;
         hashv = hashv XOR drop_bit 11 hashv
     in hashv + push_bit 15 hashv)"

lemma HASH_BER_step: "push_bit 5 hashv + hashv = hashv * (33 :: u32)"
  by (simp add: push_bit_eq_mult)

lemma HASH_BER_foldl:
  "foldl (\<lambda>hashv b. (push_bit 5 hashv + hashv) + ucast b) (h :: u32) key =
     h * 33 ^ length key + HASH_BER key"
proof (induction key rule: rev_induct)
  case (snoc b key)
  then show ?case
    unfolding foldl_append foldl.simps HASH_BER_def [of "key @ [b]"] HASH_BER_step
    by (simp add: HASH_BER_def HASH_BER_step distrib_right)
qed (simp add: HASH_BER_def)

lemma HASH_BER_append: "HASH_BER (xs @ ys) = HASH_BER xs * 33 ^ length ys + HASH_BER ys"
  using HASH_BER_foldl [of "HASH_BER xs" ys] by (simp only: HASH_BER_def foldl_append)

lemma FNV_step_inj:
  fixes g h :: u32
  assumes "(g XOR x) * 16777619 = (h XOR y) * 16777619"
  shows "g XOR x = h XOR y"
proof -
  have "(16777619 :: u32) * 899433627 = 1" by simp
  then have "z * 16777619 * 899433627 = z" for z :: u32 by (simp only: mult.assoc mult_1_right)
  then show ?thesis using assms by metis
qed

lemma FNV_foldl_inj:
  "foldl (\<lambda>hashv b. (hashv XOR ucast b) * 16777619) (g :: u32) key =
   foldl (\<lambda>hashv b. (hashv XOR ucast b) * 16777619) h key \<Longrightarrow> g = h"
proof (induction key arbitrary: g h)
  case (Cons b key)
  then have "(g XOR ucast b) * 16777619 = (h XOR ucast b) * 16777619" by simp
  then have "g XOR ucast b = h XOR ucast b" by (rule FNV_step_inj)
  then have "(g XOR ucast b) XOR ucast b = (h XOR ucast b) XOR ucast b" by simp
  then show ?case by (simp add: xor.assoc)
qed simp

section \<open>Ordered insertion\<close>

text \<open>The search for the first element that the comparison puts after the new one.\<close>

fun HASH_AKBI_INNER_LOOP ::
  "(addr \<Rightarrow> 'd elmt option) \<Rightarrow> ('d elmt \<Rightarrow> 'd elmt \<Rightarrow> int) \<Rightarrow> 'd elmt \<Rightarrow> addr list \<Rightarrow> addr list \<Rightarrow>
    (addr list \<times> addr list) res" where
  "HASH_AKBI_INNER_LOOP hp cmpfcn new pre [] = Inr (pre, [])"
| "HASH_AKBI_INNER_LOOP hp cmpfcn new pre (a # as) =
     bind_res (deref hp a) (\<lambda>e.
     if cmpfcn e new > 0 then Inr (pre, a # as)
     else HASH_AKBI_INNER_LOOP hp cmpfcn new (pre @ [a]) as)"

definition HASH_APPEND_LIST :: "ut_table \<Rightarrow> addr \<Rightarrow> ut_table" where
  "HASH_APPEND_LIST t a = t\<lparr>app_order := app_order t @ [a]\<rparr>"

definition HASH_ADD_KEYPTR_BYHASHVALUE_INORDER ::
  "('d elmt \<Rightarrow> 'd elmt \<Rightarrow> int) \<Rightarrow> 'd ut_hash \<Rightarrow> byte list \<Rightarrow> u32 \<Rightarrow> addr \<Rightarrow> 'd ut_hash res" where
  "HASH_ADD_KEYPTR_BYHASHVALUE_INORDER cmpfcn h key hashval a =
     bind_res (deref (heap h) a) (\<lambda>e.
     let e = e\<lparr>hh_hashv := hashval, hh_key := key, hh_keylen := of_nat (length key)\<rparr>;
         hp = (heap h)(a \<mapsto> e)
     in bind_res (case head h of None \<Rightarrow> Inr (HASH_MAKE_TABLE a)
          | Some t \<Rightarrow> bind_res (HASH_AKBI_INNER_LOOP hp cmpfcn e [] (app_order t)) (\<lambda>(pre, rest).
              Inr (if rest \<noteq> [] then t\<lparr>app_order := pre @ a # rest\<rparr> else HASH_APPEND_LIST t a))) (\<lambda>t.
        bind_res (HASH_ADD_TO_TABLE hp t hashval a) (\<lambda>t.
        Inr (h\<lparr>heap := hp, head := Some t\<rparr>))))"

definition HASH_ADD_KEYPTR_INORDER ::
  "('d elmt \<Rightarrow> 'd elmt \<Rightarrow> int) \<Rightarrow> 'd ut_hash \<Rightarrow> byte list \<Rightarrow> addr \<Rightarrow> 'd ut_hash res" where
  "HASH_ADD_KEYPTR_INORDER cmpfcn h key a = HASH_ADD_KEYPTR_BYHASHVALUE_INORDER cmpfcn h key (HASH_JEN key) a"

lemma HASH_ADD_TO_TABLE_order:
  "HASH_ADD_TO_TABLE hp (t\<lparr>app_order := as\<rparr>) hv a =
     bind_res (HASH_ADD_TO_TABLE hp t hv a) (\<lambda>t. Inr (t\<lparr>app_order := as\<rparr>))"
  by (cases "bucket_at (buckets t) (HASH_TO_BKT hv (num_buckets t))")
    (auto simp: HASH_ADD_TO_TABLE_def HASH_ADD_TO_BKT_def HASH_EXPAND_BUCKETS_def Let_def
      bind_res_def split: sum.splits)

text \<open>The loop splits the order at the first element that belongs after the new one.\<close>

lemma HASH_AKBI_INNER_LOOP_splits:
  assumes "\<forall>a \<in> set as. hp a \<noteq> None"
  shows "HASH_AKBI_INNER_LOOP hp cmpfcn new pre as =
     Inr (pre @ takeWhile (\<lambda>a. cmpfcn (the (hp a)) new \<le> 0) as,
          dropWhile (\<lambda>a. cmpfcn (the (hp a)) new \<le> 0) as)"
  using assms by (induction as arbitrary: pre) (auto simp: not_le)

text \<open>
  Ordered insertion is the addition followed by a change of the order; with an empty table
  there is nothing to compare with.
\<close>

lemma HASH_ADD_KEYPTR_INORDER_split:
  fixes h :: "'d ut_hash"
  assumes wf: "ut_wf h" and fresh: "a \<notin> set (order_of h)" and e0: "heap h a = Some e0"
    and P: "P = (\<lambda>x. cmpfcn (the (heap h x)) (keyed key e0) \<le> 0)"
  shows "HASH_ADD_KEYPTR_INORDER cmpfcn h key a = bind_res (HASH_ADD_KEYPTR h key a) (\<lambda>h'.
     Inr (case head h' of None \<Rightarrow> h' | Some t \<Rightarrow> h'\<lparr>head := Some (t\<lparr>app_order :=
       takeWhile P (order_of h) @ a # dropWhile P (order_of h)\<rparr>)\<rparr>))"
proof -
  define hp where "hp = (heap h)(a \<mapsto> keyed key e0)"
  have same: "\<forall>x \<in> set (order_of h). hp x = heap h x" using fresh by (auto simp: hp_def)
  have live: "\<forall>x \<in> set (order_of h). hp x \<noteq> None"
    using wf same by (auto simp: ut_wf_def elmts_ok_def)
  have cong: "takeWhile (\<lambda>x. cmpfcn (the (hp x)) (keyed key e0) \<le> 0) (order_of h) = takeWhile P (order_of h)"
    "dropWhile (\<lambda>x. cmpfcn (the (hp x)) (keyed key e0) \<le> 0) (order_of h) = dropWhile P (order_of h)"
    using same P by (auto intro!: takeWhile_cong dropWhile_cong)
  have loop: "HASH_AKBI_INNER_LOOP hp cmpfcn (keyed key e0) [] (order_of h) =
      Inr (takeWhile P (order_of h), dropWhile P (order_of h))"
    unfolding HASH_AKBI_INNER_LOOP_splits [OF live] cong by simp
  define X where "X = takeWhile P (order_of h) @ a # dropWhile P (order_of h)"
  define t0 where "t0 = (case head h of None \<Rightarrow> HASH_MAKE_TABLE a
        | Some t \<Rightarrow> t\<lparr>app_order := app_order t @ [a]\<rparr>)"
  have add: "HASH_ADD_KEYPTR h key a = bind_res (HASH_ADD_TO_TABLE hp t0 (HASH_JEN key) a)
      (\<lambda>t. Inr (h\<lparr>heap := hp, head := Some t\<rparr>))"
    using e0 by (simp add: HASH_ADD_KEYPTR_def Let_def hp_def keyed_def t0_def)
  have at_end: "X = order_of h @ [a]" if "dropWhile P (order_of h) = []"
    using that takeWhile_dropWhile_id [of P "order_of h"] by (simp add: X_def)
  have order: "(case head h of None \<Rightarrow> Inr (HASH_MAKE_TABLE a)
      | Some t \<Rightarrow> bind_res (HASH_AKBI_INNER_LOOP hp cmpfcn (keyed key e0) [] (app_order t)) (\<lambda>(pre, rest).
          Inr (if rest \<noteq> [] then t\<lparr>app_order := pre @ a # rest\<rparr> else HASH_APPEND_LIST t a))) =
      Inr (t0\<lparr>app_order := X\<rparr>)"
  proof (cases "head h")
    case None
    then show ?thesis by (simp add: t0_def X_def order_of_def HASH_MAKE_TABLE_def)
  next
    case (Some t)
    then have "order_of h = app_order t" by (simp add: order_of_def)
    moreover have "X = takeWhile P (order_of h) @ a # dropWhile P (order_of h)" by (rule X_def)
    ultimately show ?thesis
      using loop at_end Some
      by (cases "dropWhile P (order_of h)") (simp_all add: t0_def HASH_APPEND_LIST_def
          takeWhile_eq_all_conv [THEN iffD2] dropWhile_eq_Nil_conv [THEN iffD2])
  qed
  have "HASH_ADD_KEYPTR_INORDER cmpfcn h key a =
      bind_res (HASH_ADD_TO_TABLE hp (t0\<lparr>app_order := X\<rparr>) (HASH_JEN key) a)
        (\<lambda>t. Inr (h\<lparr>heap := hp, head := Some t\<rparr>))"
    using e0 order [unfolded hp_def keyed_def]
    by (simp add: HASH_ADD_KEYPTR_INORDER_def HASH_ADD_KEYPTR_BYHASHVALUE_INORDER_def Let_def
        hp_def keyed_def)
  then show ?thesis
    by (simp add: add HASH_ADD_TO_TABLE_order bind_res_assoc X_def)
qed

text \<open>A new element with the data \<open>d\<close>, inserted in order.\<close>

definition ut_add_inorder ::
  "('d elmt \<Rightarrow> 'd elmt \<Rightarrow> int) \<Rightarrow> 'd ut_hash \<Rightarrow> byte list \<Rightarrow> 'd \<Rightarrow> 'd ut_hash res" where
  "ut_add_inorder cmpfcn h key d = (case ut_malloc h d of (a, h) \<Rightarrow> HASH_ADD_KEYPTR_INORDER cmpfcn h key a)"

lemma sorted_insert_split:
  assumes "sorted (map f xs)" "\<forall>x \<in> set xs. P x \<longleftrightarrow> f x \<le> (k :: 'k::linorder)" "f a = k"
  shows "sorted (map f (takeWhile P xs @ a # dropWhile P xs))"
proof -
  let ?ys = "takeWhile P xs" and ?zs = "dropWhile P xs"
  have "sorted (map f (?ys @ ?zs))" using assms(1) by simp
  then have s: "sorted (map f ?ys)" "sorted (map f ?zs)" "\<forall>y \<in> set ?ys. \<forall>z \<in> set ?zs. f y \<le> f z"
    by (auto simp only: map_append sorted_append set_map)
  have y: "\<forall>y \<in> set ?ys. f y \<le> k" using assms(2) set_takeWhileD by fastforce
  have "\<forall>z \<in> set ?zs. k \<le> f z"
  proof (cases ?zs)
    case (Cons z zs)
    then have "\<not> P z" by (metis dropWhile_eq_Cons_conv)
    moreover have "z \<in> set xs" using Cons by (metis list.set_intros(1) set_dropWhileD)
    ultimately have "k \<le> f z" using assms(2) by auto
    then show ?thesis using s(2) Cons by auto
  next
    case Nil
    then show ?thesis by (simp only: list.set) simp
  qed
  with s y assms(3) show ?thesis by (auto simp: sorted_append)
qed

section \<open>Replacing\<close>

text \<open>The element that was replaced is handed to the caller, who releases it.\<close>

definition HASH_REPLACE ::
  "'d ut_hash \<Rightarrow> byte list \<Rightarrow> addr \<Rightarrow> (addr option \<times> 'd ut_hash) res" where
  "HASH_REPLACE h key a =
     bind_res (HASH_FIND h key) (\<lambda>replaced.
     bind_res (case replaced of None \<Rightarrow> Inr h | Some b \<Rightarrow> HASH_DELETE h b) (\<lambda>h.
     bind_res (HASH_ADD_KEYPTR h key a) (\<lambda>h. Inr (replaced, h))))"

definition ut_replace :: "'d ut_hash \<Rightarrow> byte list \<Rightarrow> 'd \<Rightarrow> (addr option \<times> 'd ut_hash) res" where
  "ut_replace h key d = (case ut_malloc h d of (a, h) \<Rightarrow> HASH_REPLACE h key a)"

section \<open>Iterating, counting, clearing\<close>

definition el_next :: "'d ut_hash \<Rightarrow> addr option \<Rightarrow> addr option res" where
  "el_next h p = (case p of None \<Rightarrow> Inr None
     | Some a \<Rightarrow> bind_res (deref (heap h) a) (\<lambda>e.
         Inr (map_of (zip (butlast (order_of h)) (tl (order_of h))) a)))"

definition el_head :: "'d ut_hash \<Rightarrow> addr option" where
  "el_head h = (case order_of h of [] \<Rightarrow> None | a # as \<Rightarrow> Some a)"

text \<open>The successor \<open>tmp\<close> is read before the body runs, the one after it when the body is done.\<close>

partial_function (option) iter_loop ::
  "(addr \<Rightarrow> 'd ut_hash \<Rightarrow> 'd ut_hash res) \<Rightarrow> addr option \<Rightarrow> addr option \<Rightarrow> 'd ut_hash \<Rightarrow> 'd ut_hash res option"
  where
  "iter_loop body el tmp h =
     (case el of None \<Rightarrow> Some (Inr h)
      | Some a \<Rightarrow>
          (case bind_res (body a h) (\<lambda>h. bind_res (el_next h tmp) (\<lambda>n. Inr (h, n))) of
             Inl err \<Rightarrow> Some (Inl err)
           | Inr r \<Rightarrow> iter_loop body tmp (snd r) (fst r)))"

definition HASH_ITER :: "(addr \<Rightarrow> 'd ut_hash \<Rightarrow> 'd ut_hash res) \<Rightarrow> 'd ut_hash \<Rightarrow> 'd ut_hash res option" where
  "HASH_ITER body h = (case el_next h (el_head h) of
     Inl err \<Rightarrow> Some (Inl err) | Inr tmp \<Rightarrow> iter_loop body (el_head h) tmp h)"

definition HASH_CNT :: "'d ut_hash \<Rightarrow> u32" where
  "HASH_CNT h = (case head h of None \<Rightarrow> 0 | Some t \<Rightarrow> num_items t)"

text \<open>The sizes of a handle, a bucket and a table are those of a 64-bit target.\<close>

definition HASH_OVERHEAD :: "'d ut_hash \<Rightarrow> u64" where
  "HASH_OVERHEAD h = (case head h of None \<Rightarrow> 0
     | Some t \<Rightarrow> ucast (num_items t) * 56 + ucast (num_buckets t) * 16 + 64)"

definition HASH_CLEAR :: "'d ut_hash \<Rightarrow> 'd ut_hash" where
  "HASH_CLEAR h = (case head h of None \<Rightarrow> h | Some t \<Rightarrow> h\<lparr>head := None\<rparr>)"

lemma dom_ut_map: "dom (ut_map h) = key_at (heap h) ` set (order_of h)"
  by (auto simp: dom_def ut_map_find find_None_iff image_iff dest: find_SomeD)

lemma HASH_CNT_card:
  assumes "ut_wf h"
  shows "HASH_CNT h = of_nat (card (dom (ut_map h)))"
proof -
  have "inj_on (key_at (heap h)) (set (order_of h))"
    using assms by (simp add: ut_wf_def elmts_ok_def key_at_def [abs_def])
  then have "card (dom (ut_map h)) = length (order_of h)"
    using distinct_card [OF ut_wf_distinct [OF assms]] by (simp add: dom_ut_map card_image)
  then show ?thesis
    using assms by (cases "head h") (auto simp: HASH_CNT_def order_of_def ut_wf_def table_ok_def)
qed

lemma HASH_CLEAR_ok: "ut_wf h \<Longrightarrow> ut_wf (HASH_CLEAR h) \<and> ut_map (HASH_CLEAR h) = Map.empty \<and> HASH_CNT (HASH_CLEAR h) = 0"
  by (cases "head h") (simp_all add: HASH_CLEAR_def ut_wf_def order_of_def elmts_ok_def ut_map_def HASH_CNT_def)

section \<open>Properties\<close>

text \<open>Ordered insertion of an element that is already allocated.\<close>

lemma HASH_ADD_KEYPTR_INORDER_sorted:
  fixes h :: "'d ut_hash" and f :: "'d elmt \<Rightarrow> 'k::linorder"
  assumes wf: "ut_wf h" and room: "ut_room h" and len: "length key < 2 ^ 32" and new: "ut_map h key = None"
    and a: "a \<notin> set (order_of h)" and e: "heap h a = Some e"
    and cmp: "\<forall>x y. cmpfcn x y \<le> 0 \<longleftrightarrow> f x \<le> f y"
    and srt: "sorted (map (\<lambda>a. f (the (heap h a))) (order_of h))"
  shows "\<exists>h' pre rest. HASH_ADD_KEYPTR_INORDER cmpfcn h key a = Inr h' \<and> ut_wf h' \<and>
     ut_map h' = (ut_map h)(key \<mapsto> e_data e) \<and> order_of h = pre @ rest \<and> order_of h' = pre @ a # rest \<and>
     heap h' = (heap h)(a \<mapsto> keyed key e) \<and> sorted (map (\<lambda>a. f (the (heap h' a))) (order_of h'))"
proof -
  define P where "P = (\<lambda>x. cmpfcn (the (heap h x)) (keyed key e) \<le> 0)"
  let ?X = "takeWhile P (order_of h) @ a # dropWhile P (order_of h)"
  obtain h2 where h2: "HASH_ADD_KEYPTR h key a = Inr h2" "ut_wf h2" "ut_map h2 = (ut_map h)(key \<mapsto> e_data e)"
      "order_of h2 = order_of h @ [a]" "heap h2 = (heap h)(a \<mapsto> keyed key e)"
    using HASH_ADD_KEYPTR_cases [OF wf a e len new] room by auto
  obtain t where t: "head h2 = Some t" using h2(4) by (cases "head h2") (auto simp: order_of_def)
  define h' where "h' = h2\<lparr>head := Some (t\<lparr>app_order := ?X\<rparr>)\<rparr>"
  have add: "HASH_ADD_KEYPTR_INORDER cmpfcn h key a = Inr h'"
    using HASH_ADD_KEYPTR_INORDER_split [of h a e P cmpfcn key] wf a e P_def h2(1) t by (simp add: h'_def)
  have "app_order t = order_of h @ [a]" using h2(4) t by (simp add: order_of_def)
  moreover have "mset (takeWhile P (order_of h)) + mset (dropWhile P (order_of h)) = mset (order_of h)"
    by (metis mset_append takeWhile_dropWhile_id)
  ultimately have "mset ?X = mset (app_order t)" by simp
  note re = reorder_ok [OF h2(2) t this h'_def]
  have ord: "order_of h' = ?X" "heap h' = (heap h)(a \<mapsto> keyed key e)" by (simp_all add: h'_def order_of_def h2(5))
  have same: "heap h' x = heap h x" if "x \<in> set (order_of h)" for x
    using that a by (auto simp: ord(2))
  have "sorted (map (\<lambda>a. f (the (heap h' a))) ?X)"
  proof (rule sorted_insert_split)
    show "sorted (map (\<lambda>a. f (the (heap h' a))) (order_of h))"
      using srt same by (metis (mono_tags, lifting) map_cong)
    show "\<forall>x \<in> set (order_of h). P x \<longleftrightarrow> f (the (heap h' x)) \<le> f (keyed key e)"
      using same cmp by (simp add: P_def)
    show "f (the (heap h' a)) = f (keyed key e)" by (simp add: ord(2))
  qed
  then have srt': "sorted (map (\<lambda>a. f (the (heap h' a))) (order_of h'))" by (simp only: ord(1))
  have "order_of h = takeWhile P (order_of h) @ dropWhile P (order_of h)" by simp
  moreover have "ut_map h' = (ut_map h)(key \<mapsto> e_data e)" using re h2(3) by simp
  ultimately show ?thesis using add re ord srt' by blast
qed

text \<open>
  ordered insertion into a table that is in the order of a key, by a comparison that agrees
  with the key, puts the new element after the last one that is not greater: the table stays in
  order, every other element keeps its place, and the content gains exactly the new key.
\<close>

theorem uthash_add_inorder_sorted:
  fixes h :: "'d ut_hash" and f :: "'d elmt \<Rightarrow> 'k::linorder"
  assumes wf: "ut_wf h" and room: "ut_room h" and len: "length key < 2 ^ 32" and new: "ut_map h key = None"
    and cmp: "\<forall>x y. cmpfcn x y \<le> 0 \<longleftrightarrow> f x \<le> f y"
    and srt: "sorted (map (\<lambda>a. f (the (heap h a))) (order_of h))"
  shows "\<exists>h' a pre rest. ut_add_inorder cmpfcn h key d = Inr h' \<and> ut_wf h' \<and> fsck_counts h' \<and>
     ut_map h' = (ut_map h)(key \<mapsto> d) \<and> order_of h = pre @ rest \<and> order_of h' = pre @ a # rest \<and>
     key_at (heap h') a = key \<and> sorted (map (\<lambda>a. f (the (heap h' a))) (order_of h'))"
proof -
  obtain a h1 where m: "ut_malloc h d = (a, h1)" by fastforce
  have m1: "ut_wf h1" "ut_map h1 = ut_map h" "ut_room h1 = ut_room h" "order_of h1 = order_of h"
    "a \<notin> set (order_of h)" using ut_malloc_ok [OF wf m] by auto
  obtain e where e: "heap h1 a = Some e" "e_data e = d" using ut_malloc_ok [OF wf m] by blast
  have "heap h1 x = heap h x" if "x \<in> set (order_of h)" for x using that m m1(5) by (auto simp: ut_malloc_def)
  then have "sorted (map (\<lambda>a. f (the (heap h1 a))) (order_of h1))"
    using srt unfolding m1(4) by (metis (mono_tags, lifting) map_cong)
  with HASH_ADD_KEYPTR_INORDER_sorted [OF m1(1) _ len _ _ e(1) cmp] m1 room new
  obtain h' pre rest where h': "HASH_ADD_KEYPTR_INORDER cmpfcn h1 key a = Inr h'" "ut_wf h'"
    "ut_map h' = (ut_map h)(key \<mapsto> d)" "order_of h = pre @ rest" "order_of h' = pre @ a # rest"
    "heap h' = (heap h1)(a \<mapsto> keyed key e)" "sorted (map (\<lambda>a. f (the (heap h' a))) (order_of h'))"
    using e(2) by auto
  moreover have "key_at (heap h') a = key" by (simp add: h'(6) key_at_def keyed_def)
  ultimately show ?thesis using ut_wf_counts [OF h'(2)] m by (auto simp: ut_add_inorder_def)
qed

text \<open>
  replacing an element keeps the table well formed and maps exactly the key to the new value;
  the element replaced is handed out, holds the old value, and is no longer linked, so that it
  can be freed; nothing is handed out exactly when the key was new.
\<close>

theorem uthash_replace_sound:
  fixes h :: "'d ut_hash"
  assumes wf: "ut_wf h" and room: "ut_room h" and len: "length key < 2 ^ 32"
  shows "\<exists>r h'. ut_replace h key d = Inr (r, h') \<and> ut_wf h' \<and> ut_map h' = (ut_map h)(key \<mapsto> d) \<and>
     (case r of None \<Rightarrow> ut_map h key = None
      | Some a \<Rightarrow> ut_read h' a = (case ut_map h key of None \<Rightarrow> Inl Null_Deref | Some v \<Rightarrow> Inr v) \<and>
          ut_wf (ut_free h' a) \<and> ut_map (ut_free h' a) = ut_map h')"
proof -
  obtain b h1 where m: "ut_malloc h d = (b, h1)" by fastforce
  have m1: "ut_wf h1" "ut_map h1 = ut_map h" "ut_room h1" "b \<notin> set (order_of h1)"
    using ut_malloc_ok [OF wf m] room by auto
  obtain e where e: "heap h1 b = Some e" "e_data e = d" using ut_malloc_ok [OF wf m] by blast
  show ?thesis
  proof (cases "ut_map h key")
    case None
    then have "HASH_FIND h1 key = Inr None" using ut.find_miss [OF m1(1)] m1(2) by simp
    then show ?thesis
      using HASH_ADD_KEYPTR_cases [OF m1(1,4) e(1) len] None m1(2,3) e(2)
      by (auto simp: ut_replace_def m HASH_REPLACE_def)
  next
    case (Some v)
    then obtain a where a: "HASH_FIND h1 key = Inr (Some a)" "linked h1 a key" "ut_read h1 a = Inr v"
      using ut.find_hit [OF m1(1), of key v] m1(2) by auto
    obtain h2 where h2: "HASH_DELETE h1 a = Inr h2" "ut_wf h2" "heap h2 = heap h1"
        "order_of h2 = remove1 a (order_of h1)" "ut_room h2"
      using HASH_DELETE_ok [OF m1(1), of a] a(2) m1(3) by (auto simp: linked_def)
    have m2: "ut_map h2 = (ut_map h)(key := None)" using ut_map_unlink [OF m1(1) a(2) h2(3,4)] m1(2) by simp
    have b: "b \<notin> set (order_of h2)" using m1(4) h2(4) by (metis notin_set_remove1)
    obtain h3 where h3: "HASH_ADD_KEYPTR h2 key b = Inr h3" "ut_wf h3" "ut_map h3 = (ut_map h)(key \<mapsto> d)"
        "order_of h3 = order_of h2 @ [b]" "heap h3 = (heap h2)(b \<mapsto> keyed key e)"
      using HASH_ADD_KEYPTR_cases [OF h2(2) b _ len, of e] e h2(3,5) m2 by auto
    have ab: "a \<noteq> b" using a(2) m1(4) by (auto simp: linked_def)
    then have "a \<notin> set (order_of h3)"
      using h3(4) h2(4) ut_wf_distinct [OF m1(1)] by simp
    note free = ut_free_ok [OF h3(2) this]
    have "ut_read h3 a = Inr v" using a(3) ab by (simp add: ut_read_def deref_def h3(5) h2(3))
    then show ?thesis
      using a(1) h2(1) h3 free Some
      by (intro exI [of _ "Some a"] exI [of _ h3]) (simp add: ut_replace_def m HASH_REPLACE_def)
  qed
qed

section \<open>Emptying a table while iterating\<close>

text \<open>The loop body that deletes and releases the element it is given.\<close>

definition delete_and_free :: "addr \<Rightarrow> 'd ut_hash \<Rightarrow> 'd ut_hash res" where
  "delete_and_free a h = bind_res (HASH_DELETE h a) (\<lambda>h. Inr (ut_free h a))"

lemma delete_and_free_ok:
  assumes wf: "ut_wf h" and ord: "order_of h = a # as"
  shows "\<exists>h'. delete_and_free a h = Inr h' \<and> ut_wf h' \<and> order_of h' = as \<and> heap h' = (heap h)(a := None)"
proof -
  obtain h1 where h1: "HASH_DELETE h a = Inr h1" "ut_wf h1" "heap h1 = heap h" "order_of h1 = as"
    using HASH_DELETE_ok [OF wf, of a] ord by auto
  have "a \<notin> set as" using ut_wf_distinct [OF wf] ord by simp
  then show ?thesis
    using ut_free_ok [OF h1(2), of a] h1 by (auto simp: delete_and_free_def ut_free_def order_of_def)
qed

lemma el_next_Cons:
  assumes "ut_wf h" "order_of h = a # as"
  shows "el_next h (Some a) = Inr (case as of [] \<Rightarrow> None | b # bs \<Rightarrow> Some b)"
proof -
  obtain e where "heap h a = Some e" using assms by (auto simp: ut_wf_def elmts_ok_def)
  then show ?thesis by (cases as) (simp_all add: el_next_def assms(2))
qed

lemma iter_delete:
  assumes "ut_wf h" "order_of h = as" "el = (case as of [] \<Rightarrow> None | a # _ \<Rightarrow> Some a)"
    "tmp = (case as of a # b # _ \<Rightarrow> Some b | _ \<Rightarrow> None)"
  shows "\<exists>h'. iter_loop delete_and_free el tmp h = Some (Inr h') \<and> ut_wf h' \<and> order_of h' = [] \<and>
     heap h' = (\<lambda>a. if a \<in> set as then None else heap h a)"
  using assms
proof (induction as arbitrary: h el tmp)
  case Nil
  then show ?case by (subst iter_loop.simps) simp
next
  case (Cons a as)
  obtain h1 where h1: "delete_and_free a h = Inr h1" "ut_wf h1" "order_of h1 = as"
    "heap h1 = (heap h)(a := None)"
    using delete_and_free_ok [OF Cons.prems(1,2)] by blast
  have tmp: "tmp = (case as of [] \<Rightarrow> None | b # _ \<Rightarrow> Some b)" using Cons.prems(4) by (simp split: list.splits)
  define n where "n = (case as of b # c # _ \<Rightarrow> Some c | _ \<Rightarrow> None)"
  have n: "el_next h1 tmp = Inr n"
    using el_next_Cons [OF h1(2), of "hd as" "tl as"] h1(3) tmp
    by (cases as) (auto simp: el_next_def n_def split: list.splits)
  have "iter_loop delete_and_free el tmp h = iter_loop delete_and_free tmp n h1"
    using Cons.prems(3) by (subst iter_loop.simps) (simp add: h1(1) n)
  with Cons.IH [OF h1(2,3) tmp n_def] h1(4) show ?case by (auto simp: fun_eq_iff)
qed

text \<open>
  C27: the loop that deletes and frees every element while it iterates, as the macro promises
  (``safe for deletion''), ends without touching a freed element: the table is empty, each of its
  elements has been freed, and no other element has.
\<close>

theorem uthash_iter_delete_all:
  fixes h :: "'d ut_hash"
  assumes "ut_wf h"
  shows "\<exists>h'. HASH_ITER delete_and_free h = Some (Inr h') \<and> ut_wf h' \<and> ut_map h' = Map.empty \<and>
     heap h' = (\<lambda>a. if a \<in> set (order_of h) then None else heap h a)"
proof -
  define tmp where "tmp = (case order_of h of a # b # _ \<Rightarrow> Some b | _ \<Rightarrow> None)"
  have "el_next h (el_head h) = Inr tmp"
    using el_next_Cons [OF assms, of "hd (order_of h)" "tl (order_of h)"]
    by (cases "order_of h") (auto simp: el_next_def el_head_def tmp_def split: list.splits)
  then show ?thesis
    using iter_delete [OF assms refl _ tmp_def, of "el_head h"]
    by (auto simp: HASH_ITER_def el_head_def ut_map_def split: list.splits)
qed

text \<open>Counting and clearing; \<open>HASH_FNV\<close> separates keys that differ in one byte.\<close>

theorem uthash_count_and_clear:
  fixes h :: "'d ut_hash"
  assumes "ut_wf h"
  shows "HASH_CNT h = of_nat (card (dom (ut_map h))) \<and> ut_wf (HASH_CLEAR h) \<and>
     ut_map (HASH_CLEAR h) = Map.empty \<and> HASH_CNT (HASH_CLEAR h) = 0 \<and> heap (HASH_CLEAR h) = heap h"
  using HASH_CNT_card [OF assms] HASH_CLEAR_ok [OF assms]
  by (cases "head h") (simp_all add: HASH_CLEAR_def)

theorem fnv_one_byte_no_collision:
  assumes "HASH_FNV (xs @ b # ys) = HASH_FNV (xs @ c # ys)"
  shows "b = c"
proof -
  let ?f = "\<lambda>hashv b. (hashv XOR ucast (b :: byte)) * (16777619 :: u32)"
  let ?h = "foldl ?f 2166136261 xs"
  have "?f ?h b = ?f ?h c" using assms FNV_foldl_inj [of "?f ?h b" ys "?f ?h c"] by (simp add: HASH_FNV_def)
  then have "?h XOR ucast b = ?h XOR ucast c" by (rule FNV_step_inj)
  then have "?h XOR (?h XOR ucast b) = ?h XOR (?h XOR ucast c)" by simp
  then have "(ucast b :: u32) = ucast c" by (simp flip: xor.assoc)
  moreover have "(ucast (ucast z :: u32) :: byte) = z" for z :: byte by transfer simp
  ultimately show ?thesis by metis
qed

section \<open>Witnesses\<close>

theorem uthash_add_inorder_sorted_witness:
  "\<exists>h h' a. ut_add ut_empty [1] (9 :: nat) = Inr h \<and>
     ut_add_inorder (\<lambda>x y. int (e_data x) - int (e_data y)) h [2] 4 = Inr h' \<and>
     mset (order_of h') = {#a, 0#} \<and> ut_map h' = [[1] \<mapsto> 9, [2] \<mapsto> 4]"
proof -
  obtain h where h: "ut_add ut_empty [1] (9 :: nat) = Inr h" "ut_wf h" "ut_room h" "ut_map h = [[1] \<mapsto> 9]"
    "order_of h = [0]" "heap h 0 = Some (keyed [1] (fresh_elmt 9))"
    using one_element by blast
  from uthash_add_inorder_sorted [OF h(2,3), of "[2]" "\<lambda>x y. int (e_data x) - int (e_data y)" e_data 4] h
  obtain h' a pre rest where i: "ut_add_inorder (\<lambda>x y. int (e_data x) - int (e_data y)) h [2] 4 = Inr h'"
    "ut_map h' = [[1] \<mapsto> 9, [2] \<mapsto> 4]" "[0] = pre @ rest" "order_of h' = pre @ a # rest"
    by auto
  have "mset (pre @ rest) = {#0#}" using i(3) by (metis mset_single_iff)
  then have "mset (order_of h') = {#a, 0#}" by (simp add: i(4))
  with h(1) i show ?thesis by blast
qed

theorem uthash_replace_sound_witness:
  "\<exists>h a h'. ut_add ut_empty [1] (9 :: nat) = Inr h \<and> ut_replace h [1] 4 = Inr (Some a, h') \<and>
     ut_map h' = [[1] \<mapsto> 4] \<and> ut_read h' a = Inr 9"
proof -
  obtain h where h: "ut_add ut_empty [1] (9 :: nat) = Inr h" "ut_wf h" "ut_room h" "ut_map h = [[1] \<mapsto> 9]"
    using one_element by blast
  from uthash_replace_sound [OF h(2,3), of "[1]" 4] h(1,4) show ?thesis
    by (auto split: option.splits)
qed

theorem uthash_iter_delete_all_witness:
  "\<exists>h h'. ut_add ut_empty [1] (9 :: nat) = Inr h \<and> HASH_ITER delete_and_free h = Some (Inr h') \<and>
     heap h 0 \<noteq> None \<and> heap h' 0 = None \<and> ut_map h' = Map.empty"
proof -
  obtain h where h: "ut_add ut_empty [1] (9 :: nat) = Inr h" "ut_wf h"
    "order_of h = [0]" "heap h 0 = Some (keyed [1] (fresh_elmt 9))"
    using one_element by blast
  from uthash_iter_delete_all [OF h(2)] h show ?thesis by auto
qed

theorem uthash_count_and_clear_witness:
  "\<exists>h. ut_add ut_empty [1] (9 :: nat) = Inr h \<and> HASH_CNT h = 1 \<and> ut_map (HASH_CLEAR h) = Map.empty"
proof -
  obtain h where h: "ut_add ut_empty [1] (9 :: nat) = Inr h" "ut_wf h" "ut_map h = [[1] \<mapsto> 9]"
    using one_element by blast
  from uthash_count_and_clear [OF h(2)] h show ?thesis by simp
qed

theorem fnv_one_byte_no_collision_witness: "HASH_FNV ([1] @ 2 # [3]) \<noteq> HASH_FNV ([1] @ 4 # [3])"
  using fnv_one_byte_no_collision [of "[1]" 2 "[3]" 4] by fastforce

end
