(* ===== verification/Uthash_Hashes.thy ===== *)
theory Uthash_Hashes
  imports Uthash_More
begin

unbundle bit_operations_syntax

text \<open>
  The two remaining selectable hash functions of \<open>praxis2/include/uthash.h\<close>, \<open>HASH_SFH\<close> and
  \<open>HASH_MUR\<close>. The second reads the key in blocks of four bytes, in a way that depends on the
  processor: directly on x86, through aligned words elsewhere. It runs on a memory of bytes, so
  that reads beside the key are visible. The theory shows that the aligned reads put the block
  together correctly, that on x86 a changed block always changes the hash, and that elsewhere
  the blocks of an unaligned key are not read at all.
\<close>

section \<open>The Paul Hsieh hash\<close>

definition get16bits :: "byte \<Rightarrow> byte \<Rightarrow> u32" where
  "get16bits d0 d1 = push_bit 8 (ucast d1) + ucast d0"

text \<open>The main loop takes four bytes per round; what is left are the end cases.\<close>

fun sfh_loop :: "u32 \<Rightarrow> byte list \<Rightarrow> u32 \<times> byte list" where
  "sfh_loop hashv (a # b # c # d # key) =
    (let hashv = hashv + get16bits a b;
         sfh_tmp = push_bit 11 (get16bits c d) XOR hashv;
         hashv = push_bit 16 hashv XOR sfh_tmp
     in sfh_loop (hashv + drop_bit 11 hashv) key)"
| "sfh_loop hashv key = (hashv, key)"

definition sfh_end :: "u32 \<Rightarrow> byte list \<Rightarrow> u32" where
  "sfh_end hashv key =
    (case key of
       [a, b, c] \<Rightarrow>
         let hashv = hashv + get16bits a b;
             hashv = hashv XOR push_bit 16 hashv;
             hashv = hashv XOR push_bit 18 (ucast c)
         in hashv + drop_bit 11 hashv
     | [a, b] \<Rightarrow>
         let hashv = hashv + get16bits a b;
             hashv = hashv XOR push_bit 11 hashv
         in hashv + drop_bit 17 hashv
     | [a] \<Rightarrow>
         let hashv = hashv + ucast a;
             hashv = hashv XOR push_bit 10 hashv
         in hashv + drop_bit 1 hashv
     | _ \<Rightarrow> hashv)"

definition HASH_SFH :: "byte list \<Rightarrow> u32" where
  "HASH_SFH key =
    (case sfh_loop 0xcafebabe key of (hashv, rest) \<Rightarrow>
      let hashv = sfh_end hashv rest;
          hashv = hashv XOR push_bit 3 hashv;
          hashv = hashv + drop_bit 5 hashv;
          hashv = hashv XOR push_bit 4 hashv;
          hashv = hashv + drop_bit 17 hashv;
          hashv = hashv XOR push_bit 25 hashv
      in hashv + drop_bit 6 hashv)"

section \<open>MurmurHash\<close>

type_synonym memory = "nat \<Rightarrow> byte"

datatype mur_cpu = Intel | Little_Endian | Big_Endian

text \<open>A 32-bit load in the byte order of the processor.\<close>

definition load32 :: "mur_cpu \<Rightarrow> memory \<Rightarrow> nat \<Rightarrow> u32" where
  "load32 cpu m a =
    (if cpu = Big_Endian
     then push_bit 24 (ucast (m a)) OR push_bit 16 (ucast (m (a + 1))) OR
          push_bit 8 (ucast (m (a + 2))) OR ucast (m (a + 3))
     else ucast (m a) OR push_bit 8 (ucast (m (a + 1))) OR
          push_bit 16 (ucast (m (a + 2))) OR push_bit 24 (ucast (m (a + 3))))"

definition WP :: "nat \<Rightarrow> nat" where
  "WP p = p - p mod 4"

definition MUR_THREE_ONE :: "mur_cpu \<Rightarrow> memory \<Rightarrow> nat \<Rightarrow> u32" where
  "MUR_THREE_ONE cpu m p =
    (if cpu = Big_Endian
     then push_bit 8 (load32 cpu m (WP p) AND 0x00ffffff) OR
          drop_bit 24 (load32 cpu m (WP p + 4) AND 0xff000000)
     else drop_bit 8 (load32 cpu m (WP p) AND 0xffffff00) OR
          push_bit 24 (load32 cpu m (WP p + 4) AND 0x000000ff))"

definition MUR_TWO_TWO :: "mur_cpu \<Rightarrow> memory \<Rightarrow> nat \<Rightarrow> u32" where
  "MUR_TWO_TWO cpu m p =
    (if cpu = Big_Endian
     then push_bit 16 (load32 cpu m (WP p) AND 0x0000ffff) OR
          drop_bit 16 (load32 cpu m (WP p + 4) AND 0xffff0000)
     else drop_bit 16 (load32 cpu m (WP p) AND 0xffff0000) OR
          push_bit 16 (load32 cpu m (WP p + 4) AND 0x0000ffff))"

definition MUR_ONE_THREE :: "mur_cpu \<Rightarrow> memory \<Rightarrow> nat \<Rightarrow> u32" where
  "MUR_ONE_THREE cpu m p =
    (if cpu = Big_Endian
     then push_bit 24 (load32 cpu m (WP p) AND 0x000000ff) OR
          drop_bit 8 (load32 cpu m (WP p + 4) AND 0xffffff00)
     else drop_bit 24 (load32 cpu m (WP p) AND 0xff000000) OR
          push_bit 8 (load32 cpu m (WP p + 4) AND 0x00ffffff))"

text \<open>\<open>p\<close> points behind the blocks, \<open>i\<close> is negative; the unaligned cases do not use \<open>i\<close>.\<close>

definition MUR_GETBLOCK :: "mur_cpu \<Rightarrow> memory \<Rightarrow> nat \<Rightarrow> int \<Rightarrow> u32" where
  "MUR_GETBLOCK cpu m p i =
    (if cpu = Intel \<or> p mod 4 = 0 then load32 cpu m (nat (int p + 4 * i))
     else if p mod 4 = 1 then MUR_THREE_ONE cpu m p
     else if p mod 4 = 2 then MUR_TWO_TWO cpu m p
     else MUR_ONE_THREE cpu m p)"

definition MUR_ROTL32 :: "u32 \<Rightarrow> nat \<Rightarrow> u32" where
  "MUR_ROTL32 x r = push_bit r x OR drop_bit (32 - r) x"

definition MUR_FMIX :: "u32 \<Rightarrow> u32" where
  "MUR_FMIX h =
    (let h = h XOR drop_bit 16 h;
         h = h * 0x85ebca6b;
         h = h XOR drop_bit 13 h;
         h = h * 0xc2b2ae35
     in h XOR drop_bit 16 h)"

text \<open>The three statements that prepare a block, and the three that fold it into the state.\<close>

definition mur_scramble :: "u32 \<Rightarrow> u32" where
  "mur_scramble k1 = MUR_ROTL32 (k1 * 0xcc9e2d51) 15 * 0x1b873593"

definition mur_step :: "u32 \<Rightarrow> u32 \<Rightarrow> u32" where
  "mur_step h1 k1 = MUR_ROTL32 (h1 XOR mur_scramble k1) 13 * 5 + 0xe6546b64"

text \<open>The loop over the blocks: \<open>k\<close> is \<open>- _mur_i\<close>.\<close>

fun mur_loop :: "mur_cpu \<Rightarrow> memory \<Rightarrow> nat \<Rightarrow> nat \<Rightarrow> u32 \<Rightarrow> u32" where
  "mur_loop cpu m blocks 0 h1 = h1"
| "mur_loop cpu m blocks (Suc k) h1 =
     mur_loop cpu m blocks k (mur_step h1 (MUR_GETBLOCK cpu m blocks (- int (Suc k))))"

text \<open>The \<open>switch\<close> on the last bytes, with its fall-through.\<close>

definition mur_tail :: "memory \<Rightarrow> nat \<Rightarrow> nat \<Rightarrow> u32" where
  "mur_tail m tail rest =
    (let k1 = (if rest = 3 then push_bit 16 (ucast (m (tail + 2))) else 0);
         k1 = (if rest \<ge> 2 then k1 XOR push_bit 8 (ucast (m (tail + 1))) else k1)
     in k1 XOR ucast (m tail))"

text \<open>The key has \<open>keylen < 2^31\<close> bytes from address \<open>key\<close> on.\<close>

definition HASH_MUR :: "mur_cpu \<Rightarrow> memory \<Rightarrow> nat \<Rightarrow> nat \<Rightarrow> u32" where
  "HASH_MUR cpu m key keylen =
    (let nblocks = keylen div 4;
         tail = key + nblocks * 4;
         h1 = mur_loop cpu m tail nblocks 0xf88D5353;
         rest = keylen mod 4;
         h1 = (if rest = 0 then h1 else h1 XOR mur_scramble (mur_tail m tail rest))
     in MUR_FMIX (h1 XOR of_nat keylen))"

section \<open>Putting an unaligned block together\<close>

lemma WP_add: "p mod 4 = r \<Longrightarrow> p = WP p + r"
  by (auto simp: WP_def)

text \<open>The masks of the macros drop bits that the shifts drop anyway.\<close>

lemma mask_then_shift:
  fixes w :: u32
  shows "push_bit 8 (w AND 0x00ffffff) = push_bit 8 w" "push_bit 16 (w AND 0x0000ffff) = push_bit 16 w"
    "push_bit 24 (w AND 0x000000ff) = push_bit 24 w" "drop_bit 8 (w AND 0xffffff00) = drop_bit 8 w"
    "drop_bit 16 (w AND 0xffff0000) = drop_bit 16 w" "drop_bit 24 (w AND 0xff000000) = drop_bit 24 w"
proof -
  have m: "0x00ffffff = (mask 24 :: u32)" "0x0000ffff = (mask 16 :: u32)" "0x000000ff = (mask 8 :: u32)"
    by (simp_all add: mask_eq_exp_minus_1)
  have d: "drop_bit 8 0xffffff00 = (mask 24 :: u32)" "drop_bit 16 0xffff0000 = (mask 16 :: u32)"
    "drop_bit 24 0xff000000 = (mask 8 :: u32)"
    by (simp_all add: mask_eq_exp_minus_1)
  show "push_bit 8 (w AND 0x00ffffff) = push_bit 8 w" "push_bit 16 (w AND 0x0000ffff) = push_bit 16 w"
    "push_bit 24 (w AND 0x000000ff) = push_bit 24 w"
    unfolding m by (rule bit_word_eqI; auto simp: bit_simps)+
  show "drop_bit 8 (w AND 0xffffff00) = drop_bit 8 w" "drop_bit 16 (w AND 0xffff0000) = drop_bit 16 w"
    "drop_bit 24 (w AND 0xff000000) = drop_bit 24 w"
    unfolding drop_bit_and d by (rule bit_word_eqI; auto simp: bit_simps dest: bit_imp_le_length)+
qed

text \<open>Two aligned loads contain every byte of the unaligned one.\<close>

lemma byte_bit: "8 \<le> n \<Longrightarrow> bit (b :: byte) n = False"
  using bit_imp_le_length by fastforce

lemma u32_eqI:
  fixes v w :: u32
  assumes "\<And>n. n < 8 \<Longrightarrow> bit v n = bit w n \<and> bit v (n + 8) = bit w (n + 8) \<and>
    bit v (n + 16) = bit w (n + 16) \<and> bit v (n + 24) = bit w (n + 24)"
  shows "v = w"
proof (rule bit_word_eqI)
  fix n assume "n < LENGTH(32)"
  then consider "n < 8" | k where "k < 8" "n = k + 8" | k where "k < 8" "n = k + 16"
    | k where "k < 8" "n = k + 24"
    using that(2) [of "n - 8"] that(3) [of "n - 16"] that(4) [of "n - 24"] that(1) by fastforce
  then show "bit v n = bit w n" using assms by cases auto
qed

lemma load32_bits:
  assumes "n < 8"
  shows "bit (load32 cpu m q) n = bit (m (if cpu = Big_Endian then q + 3 else q)) n"
    "bit (load32 cpu m q) (n + 8) = bit (m (if cpu = Big_Endian then q + 2 else q + 1)) n"
    "bit (load32 cpu m q) (n + 16) = bit (m (if cpu = Big_Endian then q + 1 else q + 2)) n"
    "bit (load32 cpu m q) (n + 24) = bit (m (if cpu = Big_Endian then q else q + 3)) n"
  using assms by (simp_all add: load32_def bit_simps byte_bit)

lemma bit_drop_bit: "bit (drop_bit k w) n = bit (w :: u32) (n + k)"
  by (simp add: bit_drop_bit_eq add.commute)

lemma load32_split:
  "cpu \<noteq> Big_Endian \<Longrightarrow> drop_bit 8 (load32 cpu m q) OR push_bit 24 (load32 cpu m (q + 4)) = load32 cpu m (q + 1)"
  "cpu \<noteq> Big_Endian \<Longrightarrow> drop_bit 16 (load32 cpu m q) OR push_bit 16 (load32 cpu m (q + 4)) = load32 cpu m (q + 2)"
  "cpu \<noteq> Big_Endian \<Longrightarrow> drop_bit 24 (load32 cpu m q) OR push_bit 8 (load32 cpu m (q + 4)) = load32 cpu m (q + 3)"
  "push_bit 8 (load32 Big_Endian m q) OR drop_bit 24 (load32 Big_Endian m (q + 4)) = load32 Big_Endian m (q + 1)"
  "push_bit 16 (load32 Big_Endian m q) OR drop_bit 16 (load32 Big_Endian m (q + 4)) = load32 Big_Endian m (q + 2)"
  "push_bit 24 (load32 Big_Endian m q) OR drop_bit 8 (load32 Big_Endian m (q + 4)) = load32 Big_Endian m (q + 3)"
proof -
  note bits = bit_or_iff bit_drop_bit bit_push_bit_iff load32_bits add.assoc
    load32_bits(2) [unfolded add.commute [of _ 8]] load32_bits(3) [unfolded add.commute [of _ 16]]
    load32_bits(4) [unfolded add.commute [of _ 24]]
  have out: "bit w n = False" if "32 \<le> n" for w :: u32 and n using that by (simp add: impossible_bit)
  show "drop_bit 8 (load32 cpu m q) OR push_bit 24 (load32 cpu m (q + 4)) = load32 cpu m (q + 1)"
    if "cpu \<noteq> Big_Endian"
    using that by (intro u32_eqI) (simp add: bits out del: One_nat_def add_2_eq_Suc add_2_eq_Suc')
  show "drop_bit 16 (load32 cpu m q) OR push_bit 16 (load32 cpu m (q + 4)) = load32 cpu m (q + 2)"
    if "cpu \<noteq> Big_Endian"
    using that by (intro u32_eqI) (simp add: bits out del: One_nat_def add_2_eq_Suc add_2_eq_Suc')
  show "drop_bit 24 (load32 cpu m q) OR push_bit 8 (load32 cpu m (q + 4)) = load32 cpu m (q + 3)"
    if "cpu \<noteq> Big_Endian"
    using that by (intro u32_eqI) (simp add: bits out del: One_nat_def add_2_eq_Suc add_2_eq_Suc')
  show "push_bit 8 (load32 Big_Endian m q) OR drop_bit 24 (load32 Big_Endian m (q + 4)) = load32 Big_Endian m (q + 1)"
    by (intro u32_eqI) (simp add: bits out del: One_nat_def add_2_eq_Suc add_2_eq_Suc')
  show "push_bit 16 (load32 Big_Endian m q) OR drop_bit 16 (load32 Big_Endian m (q + 4)) = load32 Big_Endian m (q + 2)"
    by (intro u32_eqI) (simp add: bits out del: One_nat_def add_2_eq_Suc add_2_eq_Suc')
  show "push_bit 24 (load32 Big_Endian m q) OR drop_bit 8 (load32 Big_Endian m (q + 4)) = load32 Big_Endian m (q + 3)"
    by (intro u32_eqI) (simp add: bits out del: One_nat_def add_2_eq_Suc add_2_eq_Suc')
qed

lemma MUR_unaligned:
  "p mod 4 = 1 \<Longrightarrow> MUR_THREE_ONE cpu m p = load32 cpu m p"
  "p mod 4 = 2 \<Longrightarrow> MUR_TWO_TWO cpu m p = load32 cpu m p"
  "p mod 4 = 3 \<Longrightarrow> MUR_ONE_THREE cpu m p = load32 cpu m p"
proof -
  have p: "load32 cpu m (WP p + r) = load32 cpu m p" if "p mod 4 = r" for r
    using WP_add [OF that] by simp
  have be: "cpu = Big_Endian \<or> cpu \<noteq> Big_Endian" by simp
  show "p mod 4 = 1 \<Longrightarrow> MUR_THREE_ONE cpu m p = load32 cpu m p"
    unfolding MUR_THREE_ONE_def mask_then_shift using be load32_split(1,4) p by (metis (full_types))
  show "p mod 4 = 2 \<Longrightarrow> MUR_TWO_TWO cpu m p = load32 cpu m p"
    unfolding MUR_TWO_TWO_def mask_then_shift using be load32_split(2,5) p by (metis (full_types))
  show "p mod 4 = 3 \<Longrightarrow> MUR_ONE_THREE cpu m p = load32 cpu m p"
    unfolding MUR_ONE_THREE_def mask_then_shift using be load32_split(3,6) p by (metis (full_types))
qed

section \<open>The steps are injective\<close>

lemma xorshift_inj:
  fixes x y :: u32
  assumes "x XOR drop_bit n x = y XOR drop_bit n y" "0 < n"
  shows "x = y"
proof (rule bit_word_eqI)
  have eq: "(bit x i \<noteq> bit x (i + n)) = (bit y i \<noteq> bit y (i + n))" for i
    using arg_cong [OF assms(1), of "\<lambda>z. bit z i"] by (simp only: bit_xor_iff bit_drop_bit)
  have "\<forall>i. 32 - i = k \<longrightarrow> bit x i = bit y i" for k
  proof (induction k rule: less_induct)
    case (less k)
    show ?case
    proof (intro allI impI)
      fix i assume i: "32 - i = k"
      show "bit x i = bit y i"
      proof (cases "i < 32")
        case True
        then have "32 - (i + n) < k" using i assms(2) by simp
        then have "bit x (i + n) = bit y (i + n)" using less by blast
        with eq [of i] show ?thesis by blast
      qed (simp add: impossible_bit)
    qed
  qed
  then show "bit x i = bit y i" for i by blast
qed

lemma odd_mult_inj:
  fixes x y :: u32
  assumes "x * c = y * c" "c * d = 1"
  shows "x = y"
proof -
  have "x * c * d = y * c * d" using assms(1) by simp
  then show ?thesis by (simp only: mult.assoc assms(2) mult_1_right)
qed

lemma MUR_ROTL32_inj:
  assumes "MUR_ROTL32 x r = MUR_ROTL32 y r" "0 < r" "r < 32"
  shows "x = y"
proof (rule bit_word_eqI)
  have b: "bit (MUR_ROTL32 z r) j = (if r \<le> j then bit z (j - r) else bit z (j + (32 - r)))"
    if "j < 32" for z j
    using that assms(2,3) by (auto simp: MUR_ROTL32_def bit_simps impossible_bit add.commute)
  fix i assume i: "i < LENGTH(32)"
  show "bit x i = bit y i"
  proof (cases "i + r < 32")
    case True
    then show ?thesis using b [of "i + r" x] b [of "i + r" y] assms(1) by simp
  next
    case False
    define j where "j = i + r - 32"
    have "j < 32" "j < r" "j + (32 - r) = i" using False i assms(2,3) by (simp_all add: j_def)
    then show ?thesis using b [of j x] b [of j y] assms(1) by simp
  qed
qed

lemma MUR_FMIX_inj:
  assumes "MUR_FMIX x = MUR_FMIX y"
  shows "x = y"
proof -
  define f where "f n z = z XOR drop_bit n z" for n and z :: u32
  have f: "f n u = f n v \<Longrightarrow> 0 < n \<Longrightarrow> u = v" for n u v
    unfolding f_def by (rule xorshift_inj)
  have "f 16 (f 13 (f 16 x * 0x85ebca6b) * 0xc2b2ae35) = f 16 (f 13 (f 16 y * 0x85ebca6b) * 0xc2b2ae35)"
    using assms by (simp only: MUR_FMIX_def Let_def f_def)
  then have "f 13 (f 16 x * 0x85ebca6b) * 0xc2b2ae35 = f 13 (f 16 y * 0x85ebca6b) * 0xc2b2ae35"
    by (rule f) simp
  then have "f 13 (f 16 x * 0x85ebca6b) = f 13 (f 16 y * 0x85ebca6b)"
    by (rule odd_mult_inj [where d = 2127672349]) simp
  then have "f 16 x * 0x85ebca6b = f 16 y * 0x85ebca6b" by (rule f) simp
  then have "f 16 x = f 16 y" by (rule odd_mult_inj [where d = 2781581891]) simp
  then show ?thesis by (rule f) simp
qed

lemma mur_scramble_inj:
  assumes "mur_scramble x = mur_scramble y"
  shows "x = y"
proof -
  have "MUR_ROTL32 (x * 0xcc9e2d51) 15 = MUR_ROTL32 (y * 0xcc9e2d51) 15"
    using assms unfolding mur_scramble_def by (rule odd_mult_inj [where d = 1458385051]) simp
  then have "x * 0xcc9e2d51 = y * 0xcc9e2d51" by (rule MUR_ROTL32_inj) simp_all
  then show ?thesis by (rule odd_mult_inj [where d = 3739302833]) simp
qed

lemma xor_left_inj:
  fixes h x y :: u32
  assumes "h XOR x = h XOR y"
  shows "x = y"
proof -
  have "h XOR (h XOR x) = h XOR (h XOR y)" using assms by simp
  then show ?thesis by (simp flip: xor.assoc)
qed

lemma xor_right_inj: "x XOR h = y XOR h \<Longrightarrow> x = (y :: u32)"
  by (simp add: xor.commute [of _ h]) (rule xor_left_inj)

lemma mur_step_inj:
  assumes "mur_step g k = mur_step h l"
  shows "g XOR mur_scramble k = h XOR mur_scramble l"
proof -
  have "MUR_ROTL32 (g XOR mur_scramble k) 13 * 5 = MUR_ROTL32 (h XOR mur_scramble l) 13 * 5"
    using assms by (simp add: mur_step_def)
  then have "MUR_ROTL32 (g XOR mur_scramble k) 13 = MUR_ROTL32 (h XOR mur_scramble l) 13"
    by (rule odd_mult_inj [where d = 3435973837]) simp
  then show ?thesis by (rule MUR_ROTL32_inj) simp_all
qed

section \<open>Reading the blocks\<close>

lemma MUR_GETBLOCK_unaligned:
  assumes "p mod 4 \<noteq> 0"
  shows "MUR_GETBLOCK cpu m p i = load32 cpu m (if cpu = Intel then nat (int p + 4 * i) else p)"
proof -
  have "p mod 4 < 4" by simp
  with assms consider "p mod 4 = 1" | "p mod 4 = 2" | "p mod 4 = 3" by linarith
  then show ?thesis by cases (simp_all add: MUR_GETBLOCK_def MUR_unaligned)
qed

lemma All_less_4: "(\<forall>i < (4 :: nat). P i) \<longleftrightarrow> P 0 \<and> P 1 \<and> P 2 \<and> P 3"
  by (auto simp: numeral_eq_Suc All_less_Suc)

text \<open>Off x86 every round of the loop folds the same word, the one behind the blocks.\<close>

lemma mur_loop_unaligned:
  assumes "cpu \<noteq> Intel" "p mod 4 \<noteq> 0"
  shows "mur_loop cpu m p k h = ((\<lambda>h. mur_step h (load32 cpu m p)) ^^ k) h"
  using assms by (induction k arbitrary: h) (simp_all add: MUR_GETBLOCK_unaligned funpow_Suc_right del: funpow.simps(2))

lemma load32_cong:
  assumes "\<forall>i < 4. m (a + i) = m' (a + i)"
  shows "load32 cpu m a = load32 cpu m' a"
  using assms by (simp add: load32_def All_less_4)

text \<open>A load determines its four bytes.\<close>

lemma load32_inj:
  assumes "load32 cpu m a = load32 cpu m' a" "i < 4"
  shows "m (a + i) = m' (a + i)"
proof -
  note eq = arg_cong [OF assms(1), of "\<lambda>w. bit w _"]
  have "m (a + i) = m' (a + i)" if "\<And>n. n < 8 \<Longrightarrow> bit (m (a + i)) n = bit (m' (a + i)) n" for i
    by (rule bit_word_eqI) (use that in simp)
  moreover have "bit (m (a + i)) n = bit (m' (a + i)) n" if "n < 8" for n
  proof -
    consider "i = 0" | "i = 1" | "i = 2" | "i = 3" using assms(2) by linarith
    then show ?thesis
      using eq [of n] eq [of "n + 8"] eq [of "n + 16"] eq [of "n + 24"]
      by cases (auto simp only: load32_bits [OF that] add_0_right split: if_splits)
  qed
  ultimately show ?thesis .
qed


text \<open>Where blocks are read in place, the loop folds the words of the key.\<close>

definition in_place :: "mur_cpu \<Rightarrow> nat \<Rightarrow> bool" where
  "in_place cpu key \<longleftrightarrow> cpu = Intel \<or> key mod 4 = 0"

definition mur_words :: "mur_cpu \<Rightarrow> memory \<Rightarrow> nat \<Rightarrow> nat list \<Rightarrow> u32 list" where
  "mur_words cpu m key bs = map (\<lambda>b. load32 cpu m (key + 4 * b)) bs"

lemma mur_loop_foldl:
  assumes "in_place cpu key" "k \<le> n"
  shows "mur_loop cpu m (key + n * 4) k h = foldl mur_step h (mur_words cpu m key [n - k..<n])"
  using assms(2)
proof (induction k arbitrary: h)
  case (Suc k)
  have "nat (int (key + n * 4) + 4 * (- int (Suc k))) = key + 4 * (n - Suc k)"
    using Suc.prems by (simp add: of_nat_diff nat_eq_iff algebra_simps)
  then have "MUR_GETBLOCK cpu m (key + n * 4) (- int (Suc k)) = load32 cpu m (key + 4 * (n - Suc k))"
    using assms(1) by (auto simp: MUR_GETBLOCK_def in_place_def mod_add_eq [symmetric] simp del: of_nat_Suc of_nat_add)
  moreover have "[n - Suc k..<n] = (n - Suc k) # [n - k..<n]"
    using Suc.prems by (simp add: upt_conv_Cons Suc_diff_Suc)
  ultimately show ?case using Suc by (simp add: mur_words_def del: upt_Suc)
qed (simp add: mur_words_def)

lemma foldl_mur_inj: "foldl mur_step g ks = foldl mur_step h ks \<Longrightarrow> g = h"
proof (induction ks arbitrary: g h)
  case (Cons k ks)
  then have "mur_step g k = mur_step h k" by simp
  then show ?case by (blast dest: mur_step_inj xor_right_inj)
qed simp

lemma mur_step_right_inj: "mur_step h k = mur_step h l \<Longrightarrow> k = l"
  by (blast dest: mur_step_inj xor_left_inj mur_scramble_inj)

definition mur_state :: "mur_cpu \<Rightarrow> memory \<Rightarrow> nat \<Rightarrow> nat \<Rightarrow> u32" where
  "mur_state cpu m key n = foldl mur_step 0xf88D5353 (mur_words cpu m key [0..<n])"

lemma mur_state_block:
  assumes "mur_state cpu m key n = mur_state cpu m' key n" "j < n"
    and same: "\<And>b. b < n \<Longrightarrow> b \<noteq> j \<Longrightarrow> load32 cpu m (key + 4 * b) = load32 cpu m' (key + 4 * b)"
  shows "load32 cpu m (key + 4 * j) = load32 cpu m' (key + 4 * j)"
proof -
  have split: "[0..<n] = [0..<j] @ j # [Suc j..<n]"
    using assms(2) by (metis less_imp_le upt_add_eq_append upt_conv_Cons le_add_diff_inverse le0)
  have pre: "mur_words cpu m key [0..<j] = mur_words cpu m' key [0..<j]"
    and post: "mur_words cpu m key [Suc j..<n] = mur_words cpu m' key [Suc j..<n]"
    using same assms(2) by (auto simp: mur_words_def)
  have words: "mur_words cpu m key (xs @ x # ys) = mur_words cpu m key xs @
      load32 cpu m (key + 4 * x) # mur_words cpu m key ys" for m xs x ys by (simp add: mur_words_def)
  let ?s = "foldl mur_step 0xf88D5353 (mur_words cpu m key [0..<j])"
  have "foldl mur_step (mur_step ?s (load32 cpu m (key + 4 * j))) (mur_words cpu m' key [Suc j..<n]) =
      foldl mur_step (mur_step ?s (load32 cpu m' (key + 4 * j))) (mur_words cpu m' key [Suc j..<n])"
    using assms(1) pre post unfolding mur_state_def split words foldl_append foldl.simps by simp
  then show ?thesis by (blast dest: foldl_mur_inj mur_step_right_inj)
qed

lemma mur_tail_inj:
  assumes "mur_tail m t r = mur_tail m' t r" "0 < r" "r < 4" "i < r"
  shows "m (t + i) = m' (t + i)"
proof -
  have bits: "bit (mur_tail m t r) n = bit (m t) n"
    "bit (mur_tail m t r) (n + 8) = (2 \<le> r \<and> bit (m (t + 1)) n)"
    "bit (mur_tail m t r) (n + 16) = (r = 3 \<and> bit (m (t + 2)) n)" if "n < 8" for m n
    using that assms(3) by (auto simp: mur_tail_def bit_simps byte_bit)
  have "bit (m (t + i)) n = bit (m' (t + i)) n" if n: "n < 8" for n
  proof -
    consider "i = 0" | "i = 1" "2 \<le> r" | "i = 2" "r = 3" using assms by linarith
    then show ?thesis
      using bits [OF n, of m] bits [OF n, of m'] assms(1) by cases auto
  qed
  then show ?thesis by (intro bit_word_eqI) simp
qed

lemma mur_tail_cong:
  assumes "\<And>i. i < r \<Longrightarrow> m (t + i) = m' (t + i)" "0 < r"
  shows "mur_tail m t r = mur_tail m' t r"
  using assms(1) [of 0] assms(1) [of 1] assms(1) [of 2] assms(2) by (auto simp: mur_tail_def)

lemma HASH_MUR_state:
  assumes "in_place cpu key" "HASH_MUR cpu m key keylen = HASH_MUR cpu m' key keylen"
  defines "n \<equiv> keylen div 4" and "r \<equiv> keylen mod 4"
  defines "f \<equiv> \<lambda>m. if r = 0 then mur_state cpu m key n
    else mur_state cpu m key n XOR mur_scramble (mur_tail m (key + n * 4) r)"
  shows "f m = f m'"
proof -
  have "HASH_MUR cpu x key keylen = MUR_FMIX (f x XOR of_nat keylen)" for x
    using mur_loop_foldl [OF assms(1), of n n x]
    by (simp add: HASH_MUR_def Let_def f_def n_def r_def mur_state_def)
  with assms(2) show ?thesis by (metis MUR_FMIX_inj xor_right_inj)
qed


section \<open>Properties\<close>

text \<open>
  off x86 a block is put together from two aligned words; for each of the three
  misalignments and both byte orders the result is the word that a direct load of the four bytes
  gives.
\<close>

theorem mur_getblock_unaligned:
  assumes "p mod 4 \<noteq> 0" "cpu \<noteq> Intel"
  shows "MUR_GETBLOCK cpu m p i = load32 cpu m p"
  using MUR_GETBLOCK_unaligned [OF assms(1)] assms(2) by simp

text \<open>
  where the blocks are read in place (on x86, or for an aligned key), changing any bytes
  within one block of the key, or within the bytes after the last block, always changes the hash.
\<close>

theorem mur_one_block_no_collision:
  assumes "cpu = Intel \<or> key mod 4 = 0"
    and "\<forall>i < keylen. i div 4 \<noteq> j \<longrightarrow> m (key + i) = m' (key + i)"
    and "HASH_MUR cpu m key keylen = HASH_MUR cpu m' key keylen"
  shows "\<forall>i < keylen. m (key + i) = m' (key + i)"
proof -
  let ?n = "keylen div 4" and ?r = "keylen mod 4"
  let ?t = "\<lambda>m. mur_tail m (key + ?n * 4) ?r"
  have state: "(if ?r = 0 then mur_state cpu m key ?n else mur_state cpu m key ?n XOR mur_scramble (?t m)) =
      (if ?r = 0 then mur_state cpu m' key ?n else mur_state cpu m' key ?n XOR mur_scramble (?t m'))"
    using HASH_MUR_state [OF _ assms(3)] assms(1) by (simp add: in_place_def)
  have word: "load32 cpu m (key + 4 * b) = load32 cpu m' (key + 4 * b)" if "b < ?n" "b \<noteq> j" for b
  proof (rule load32_cong, intro allI impI)
    fix i :: nat assume "i < 4"
    then have "4 * b + i < keylen" "(4 * b + i) div 4 = b" using that(1) by auto
    then show "m (key + 4 * b + i) = m' (key + 4 * b + i)" using assms(2) that(2) by (simp add: add.assoc)
  qed
  have rest: "m (key + ?n * 4 + i) = m' (key + ?n * 4 + i)" if "i < ?r" "?n \<noteq> j" for i
  proof -
    have "?n * 4 + i < keylen" using that(1) div_mult_mod_eq [of keylen 4] by linarith
    moreover have "i < 4" using that(1) by (meson mod_less_divisor less_trans zero_less_numeral)
    then have "(?n * 4 + i) div 4 = ?n" by simp
    ultimately have "?n * 4 + i < keylen" "(?n * 4 + i) div 4 = ?n" .
    then show ?thesis using assms(2) that(2) by (simp add: add.assoc)
  qed
  show ?thesis
  proof (intro allI impI)
    fix i assume i: "i < keylen"
    show "m (key + i) = m' (key + i)"
    proof (cases "i div 4 = j")
      case False
      then show ?thesis using assms(2) i by blast
    next
      case j: True
      have parts: "i = 4 * j + i mod 4" "i mod 4 < 4" using j by auto
      show ?thesis
      proof (cases "j < ?n")
        case True
        then have "?t m = ?t m'" if "?r \<noteq> 0" 
          using mur_tail_cong [of ?r m "key + ?n * 4" m'] rest that True by simp
        then have "mur_state cpu m key ?n = mur_state cpu m' key ?n"
          using state by (auto split: if_splits dest: xor_right_inj)
        then have "load32 cpu m (key + 4 * j) = load32 cpu m' (key + 4 * j)"
          by (rule mur_state_block) (use True word in auto)
        from load32_inj [OF this parts(2)] show ?thesis using parts(1) by (simp add: add.assoc)
      next
        case False
        have "i div 4 \<le> ?n" using i by (simp add: div_le_mono)
        with False j have n: "j = ?n" by simp
        then have r: "i mod 4 < ?r" using i j div_mult_mod_eq [of keylen 4] parts(1) by linarith
        have "mur_words cpu m key [0..<?n] = mur_words cpu m' key [0..<?n]"
          using word n by (auto simp: mur_words_def)
        then have "mur_state cpu m key ?n = mur_state cpu m' key ?n" by (simp add: mur_state_def)
        with state r have "?t m = ?t m'" by (auto split: if_splits dest: xor_left_inj mur_scramble_inj)
        from mur_tail_inj [OF this _ _ r] r n parts(1) show ?thesis by (simp add: add.assoc mult.commute)
      qed
    qed
  qed
qed

text \<open>
  off x86 the blocks of an unaligned key are not read: \<^const>\<open>MUR_GETBLOCK\<close> ignores the block
  number and loads the four bytes behind the last block, once per block. Keys with the same
  length and the same last bytes collide; the hash of a four-byte key is a function of the four
  bytes that happen to lie behind it.
\<close>

theorem mur_unaligned_reads_behind_key:
  assumes "cpu \<noteq> Intel" "key mod 4 \<noteq> 0"
  shows "((\<forall>i < 4. m (key + keylen div 4 * 4 + i) = m' (key + keylen div 4 * 4 + i)) \<longrightarrow>
      HASH_MUR cpu m key keylen = HASH_MUR cpu m' key keylen) \<and>
    (HASH_MUR cpu m key 4 = HASH_MUR cpu m' key 4 \<longleftrightarrow> (\<forall>i < 4. m (key + 4 + i) = m' (key + 4 + i)))"
proof
  define t where "t = key + keylen div 4 * 4"
  have t: "t mod 4 \<noteq> 0" using assms(2) by (simp add: t_def)
  show "(\<forall>i < 4. m (key + keylen div 4 * 4 + i) = m' (key + keylen div 4 * 4 + i)) \<longrightarrow>
      HASH_MUR cpu m key keylen = HASH_MUR cpu m' key keylen"
  proof
    assume "\<forall>i < 4. m (key + keylen div 4 * 4 + i) = m' (key + keylen div 4 * 4 + i)"
    then have same: "\<forall>i < 4. m (t + i) = m' (t + i)" by (simp add: t_def)
    have "mur_tail m t r = mur_tail m' t r" if "r < 4" "r \<noteq> 0" for r
      using same that by (intro mur_tail_cong) auto
    then show "HASH_MUR cpu m key keylen = HASH_MUR cpu m' key keylen"
      using mur_loop_unaligned [OF assms(1) t] load32_cong [OF same]
      by (simp add: HASH_MUR_def Let_def t_def [symmetric])
  qed
  have four: "HASH_MUR cpu x key 4 = MUR_FMIX (mur_step 0xf88D5353 (load32 cpu x (key + 4)) XOR 4)" for x
    using mur_loop_unaligned [OF assms(1), of "key + 4" x "Suc 0"] assms(2)
    by (simp add: HASH_MUR_def Let_def)
  show "HASH_MUR cpu m key 4 = HASH_MUR cpu m' key 4 \<longleftrightarrow> (\<forall>i < 4. m (key + 4 + i) = m' (key + 4 + i))"
  proof
    assume "HASH_MUR cpu m key 4 = HASH_MUR cpu m' key 4"
    then have "load32 cpu m (key + 4) = load32 cpu m' (key + 4)"
      unfolding four by (blast dest: MUR_FMIX_inj xor_right_inj mur_step_right_inj)
    then show "\<forall>i < 4. m (key + 4 + i) = m' (key + 4 + i)" using load32_inj by blast
  next
    assume "\<forall>i < 4. m (key + 4 + i) = m' (key + 4 + i)"
    then show "HASH_MUR cpu m key 4 = HASH_MUR cpu m' key 4" unfolding four by (simp only: load32_cong)
  qed
qed

section \<open>Witnesses\<close>

theorem mur_getblock_unaligned_witness:
  "MUR_GETBLOCK Little_Endian (\<lambda>a. of_nat a) 5 (- 1) = 0x08070605 \<and>
   MUR_GETBLOCK Big_Endian (\<lambda>a. of_nat a) 5 (- 1) = 0x05060708"
  using mur_getblock_unaligned [of 5 Little_Endian "\<lambda>a. of_nat a" "- 1"]
    mur_getblock_unaligned [of 5 Big_Endian "\<lambda>a. of_nat a" "- 1"]
  by (simp add: load32_def)

theorem mur_one_block_no_collision_witness:
  "HASH_MUR Intel (\<lambda>a. of_nat a) 5 9 \<noteq> HASH_MUR Intel (\<lambda>a. if a = 7 then 0 else of_nat a) 5 9"
proof
  assume "HASH_MUR Intel (\<lambda>a. of_nat a) 5 9 = HASH_MUR Intel (\<lambda>a. if a = 7 then 0 else of_nat a) 5 9"
  from mur_one_block_no_collision [OF _ _ this, of 0, rule_format, of 2] show False by force
qed

theorem mur_unaligned_reads_behind_key_witness:
  "HASH_MUR Big_Endian (\<lambda>a. if a < 9 then of_nat a else 0) 1 8 =
     HASH_MUR Big_Endian (\<lambda>a. if a < 9 then 7 else 0) 1 8 \<and>
   HASH_MUR Big_Endian (\<lambda>a. if a < 5 then 3 else 0) 1 4 \<noteq>
     HASH_MUR Big_Endian (\<lambda>a. if a < 5 then 3 else 1) 1 4"
  using mur_unaligned_reads_behind_key [of Big_Endian 1 "\<lambda>a. if a < 9 then of_nat a else 0" 8
      "\<lambda>a. if a < 9 then 7 else 0"]
    mur_unaligned_reads_behind_key [of Big_Endian 1 "\<lambda>a. if a < 5 then 3 else 0" 4
      "\<lambda>a. if a < 5 then 3 else 1"]
  by (auto dest: spec [of _ 0])

end
