(* ===== verification/Uthash_Bloom.thy ===== *)
theory Uthash_Bloom
  imports Uthash_More
begin

unbundle bit_operations_syntax

text \<open>
  The Bloom filter of \<open>praxis2/include/uthash.h\<close>, which a program gets by defining
  \<open>HASH_BLOOM\<close>: a bit vector of \<open>2^HASH_BLOOM\<close> bits beside the table, in which every added
  hash value sets a bit, and which a lookup tests before it walks a bucket. The theory shows that
  the bit index stays inside the vector and that the filter is invisible: a table with a filter
  goes through the same states and gives the same answers as one without.
\<close>

section \<open>The filter\<close>

record bloom =
  bloom_nbits :: byte
  bloom_bv :: "byte list"

text \<open>\<open>nb\<close> stands for the constant \<open>HASH_BLOOM\<close>.\<close>

definition HASH_BLOOM_BITLEN :: "nat \<Rightarrow> u64" where
  "HASH_BLOOM_BITLEN nb = push_bit nb 1"

definition HASH_BLOOM_BYTELEN :: "nat \<Rightarrow> u64" where
  "HASH_BLOOM_BYTELEN nb = HASH_BLOOM_BITLEN nb div 8 + (if HASH_BLOOM_BITLEN nb mod 8 \<noteq> 0 then 1 else 0)"

definition HASH_BLOOM_MAKE :: "nat \<Rightarrow> bloom" where
  "HASH_BLOOM_MAKE nb = \<lparr>bloom_nbits = of_nat nb, bloom_bv = replicate (unat (HASH_BLOOM_BYTELEN nb)) 0\<rparr>"

definition HASH_BLOOM_BITSET :: "byte list \<Rightarrow> u32 \<Rightarrow> byte list res" where
  "HASH_BLOOM_BITSET bv idx = bind_res (byte_at bv (unat (idx div 8))) (\<lambda>b.
     Inr (bv[unat (idx div 8) := ucast ((ucast b :: u32) OR push_bit (unat (idx mod 8)) 1)]))"

definition HASH_BLOOM_BITTEST :: "byte list \<Rightarrow> u32 \<Rightarrow> u32 res" where
  "HASH_BLOOM_BITTEST bv idx = bind_res (byte_at bv (unat (idx div 8))) (\<lambda>b.
     Inr (ucast b AND push_bit (unat (idx mod 8)) 1))"

definition bloom_index :: "bloom \<Rightarrow> u32 \<Rightarrow> u32" where
  "bloom_index f hashv = hashv AND ucast (push_bit (unat (bloom_nbits f)) 1 - 1 :: u64)"

definition HASH_BLOOM_ADD :: "bloom \<Rightarrow> u32 \<Rightarrow> bloom res" where
  "HASH_BLOOM_ADD f hashv = bind_res (HASH_BLOOM_BITSET (bloom_bv f) (bloom_index f hashv)) (\<lambda>bv.
     Inr (f\<lparr>bloom_bv := bv\<rparr>))"

definition HASH_BLOOM_TEST :: "bloom \<Rightarrow> u32 \<Rightarrow> u32 res" where
  "HASH_BLOOM_TEST f hashv = HASH_BLOOM_BITTEST (bloom_bv f) (bloom_index f hashv)"

section \<open>Tables with a filter\<close>

text \<open>The filter lives as long as the table: \<^const>\<open>None\<close> while the head is \<open>NULL\<close>.\<close>

record 'd bl_hash =
  bl_table :: "'d ut_hash"
  bl_filter :: "bloom option"

definition the_filter :: "'d bl_hash \<Rightarrow> bloom res" where
  "the_filter s = (case bl_filter s of None \<Rightarrow> Inl Null_Deref | Some f \<Rightarrow> Inr f)"

definition BL_FIND :: "'d bl_hash \<Rightarrow> byte list \<Rightarrow> addr option res" where
  "BL_FIND s key =
     (case head (bl_table s) of None \<Rightarrow> Inr None
      | Some t \<Rightarrow> bind_res (the_filter s) (\<lambda>f.
          bind_res (HASH_BLOOM_TEST f (HASH_JEN key)) (\<lambda>r.
          if r \<noteq> 0 then HASH_FIND (bl_table s) key else Inr None)))"

definition BL_ADD_KEYPTR :: "nat \<Rightarrow> 'd bl_hash \<Rightarrow> byte list \<Rightarrow> addr \<Rightarrow> 'd bl_hash res" where
  "BL_ADD_KEYPTR nb s key a =
     (let s = (if head (bl_table s) = None then s\<lparr>bl_filter := Some (HASH_BLOOM_MAKE nb)\<rparr> else s)
      in bind_res (HASH_ADD_KEYPTR (bl_table s) key a) (\<lambda>h.
         bind_res (the_filter s) (\<lambda>f.
         bind_res (HASH_BLOOM_ADD f (HASH_JEN key)) (\<lambda>f.
         Inr \<lparr>bl_table = h, bl_filter = Some f\<rparr>))))"

definition BL_DELETE :: "'d bl_hash \<Rightarrow> addr \<Rightarrow> 'd bl_hash res" where
  "BL_DELETE s a = bind_res (HASH_DELETE (bl_table s) a) (\<lambda>h.
     Inr \<lparr>bl_table = h, bl_filter = (if head h = None then None else bl_filter s)\<rparr>)"

text \<open>
  A client of the table, on a plain table and on one with a filter: storing a value under a key,
  after an element with that key has been unlinked and freed, and removing a key.
\<close>

datatype 'd tab_op = Put "byte list" 'd | Del "byte list"

primrec tab_step :: "'d ut_hash \<Rightarrow> 'd tab_op \<Rightarrow> 'd ut_hash res" where
  "tab_step h (Put key d) = bind_res (HASH_FIND h key) (\<lambda>r.
     bind_res (case r of None \<Rightarrow> Inr h | Some a \<Rightarrow> bind_res (HASH_DELETE h a) (\<lambda>h. Inr (ut_free h a))) (\<lambda>h.
     case ut_malloc h d of (a, h) \<Rightarrow> HASH_ADD_KEYPTR h key a))"
| "tab_step h (Del key) = bind_res (HASH_FIND h key) (\<lambda>r.
     case r of None \<Rightarrow> Inr h | Some a \<Rightarrow> bind_res (HASH_DELETE h a) (\<lambda>h. Inr (ut_free h a)))"

definition bl_free :: "'d bl_hash \<Rightarrow> addr \<Rightarrow> 'd bl_hash" where
  "bl_free s a = s\<lparr>bl_table := ut_free (bl_table s) a\<rparr>"

definition bl_malloc :: "'d bl_hash \<Rightarrow> 'd \<Rightarrow> addr \<times> 'd bl_hash" where
  "bl_malloc s d = (case ut_malloc (bl_table s) d of (a, h) \<Rightarrow> (a, s\<lparr>bl_table := h\<rparr>))"

primrec bl_step :: "nat \<Rightarrow> 'd bl_hash \<Rightarrow> 'd tab_op \<Rightarrow> 'd bl_hash res" where
  "bl_step nb s (Put key d) = bind_res (BL_FIND s key) (\<lambda>r.
     bind_res (case r of None \<Rightarrow> Inr s | Some a \<Rightarrow> bind_res (BL_DELETE s a) (\<lambda>s. Inr (bl_free s a))) (\<lambda>s.
     case bl_malloc s d of (a, s) \<Rightarrow> BL_ADD_KEYPTR nb s key a))"
| "bl_step nb s (Del key) = bind_res (BL_FIND s key) (\<lambda>r.
     case r of None \<Rightarrow> Inr s | Some a \<Rightarrow> bind_res (BL_DELETE s a) (\<lambda>s. Inr (bl_free s a)))"

section \<open>Bits\<close>

lemma bloom_bit_iff: "((ucast b :: u32) AND push_bit k 1 \<noteq> 0) = bit (b :: byte) k" if "k < 8"
proof -
  have "((ucast b :: u32) AND push_bit k 1) = push_bit k (of_bool (bit b k))"
    using that by (intro bit_word_eqI) (auto simp: bit_simps)
  then show ?thesis using that by (simp add: push_bit_eq_mult)
qed

definition bloom_ok :: "nat \<Rightarrow> bloom \<Rightarrow> bool" where
  "bloom_ok nb f \<longleftrightarrow> nb < 64 \<and> bloom_nbits f = of_nat nb \<and>
     length (bloom_bv f) = unat (HASH_BLOOM_BYTELEN nb)"

text \<open>The bit that stands for a hash value.\<close>

definition bloom_has :: "bloom \<Rightarrow> u32 \<Rightarrow> bool" where
  "bloom_has f hashv = (let idx = bloom_index f hashv in bit (bloom_bv f ! unat (idx div 8)) (unat (idx mod 8)))"

lemma unat_BITLEN:
  assumes "nb < 64"
  shows "unat (HASH_BLOOM_BITLEN nb) = 2 ^ nb"
proof -
  have "(2::nat) ^ nb < 2 ^ 64" using assms by (rule power_strict_increasing) simp
  moreover have "HASH_BLOOM_BITLEN nb = of_nat (2 ^ nb)" by (simp add: HASH_BLOOM_BITLEN_def push_bit_eq_mult)
  ultimately show ?thesis by (simp only: unat_of_nat) simp
qed

lemma BYTELEN_cover:
  assumes "nb < 64" "i < 2 ^ nb"
  shows "i div 8 < unat (HASH_BLOOM_BYTELEN nb)"
proof (cases "nb < 3")
  case True
  then have "nb = 0 \<or> nb = 1 \<or> nb = 2" by linarith
  then have "unat (HASH_BLOOM_BITLEN nb mod 8) \<noteq> 0" "unat (HASH_BLOOM_BITLEN nb div 8) = 0"
    using unat_BITLEN [OF assms(1)] by (auto simp: unat_mod unat_div)
  then have "HASH_BLOOM_BITLEN nb mod 8 \<noteq> 0" "HASH_BLOOM_BITLEN nb div 8 = 0"
    by (auto simp only: unsigned_0 unat_eq_zero)
  then have "HASH_BLOOM_BYTELEN nb = 1" by (simp only: HASH_BLOOM_BYTELEN_def) simp
  moreover have "(2::nat) ^ nb \<le> 8" using \<open>nb = 0 \<or> nb = 1 \<or> nb = 2\<close> by auto
  ultimately show ?thesis using assms(2) by simp
next
  case False
  then obtain k where k: "nb = k + 3" by (metis add.commute le_Suc_ex not_less)
  have "unat (HASH_BLOOM_BITLEN nb mod 8) = 0" using unat_BITLEN [OF assms(1)] k by (simp add: unat_mod power_add)
  then have "HASH_BLOOM_BITLEN nb mod 8 = 0" by (simp add: unat_eq_zero)
  then have "unat (HASH_BLOOM_BYTELEN nb) = 2 ^ k"
    using unat_BITLEN [OF assms(1)] k by (simp add: HASH_BLOOM_BYTELEN_def unat_div power_add)
  then show ?thesis using assms(2) k by (simp add: less_mult_imp_div_less power_add)
qed

lemma bloom_index_bound:
  assumes "bloom_ok nb f"
  shows "unat (bloom_index f hashv div 8) < length (bloom_bv f)"
proof -
  have nb: "nb < 64" "unat (bloom_nbits f) = nb" using assms by (simp_all add: bloom_ok_def unat_of_nat)
  let ?w = "push_bit nb 1 - 1 :: u64"
  have "push_bit nb 1 = HASH_BLOOM_BITLEN nb" by (simp add: HASH_BLOOM_BITLEN_def)
  moreover have "unat (HASH_BLOOM_BITLEN nb - 1) = 2 ^ nb - 1"
    using unat_BITLEN [OF nb(1)] by (metis power_eq_0_iff unat_eq_zero unat_minus_one zero_neq_numeral)
  ultimately have w: "unat ?w = 2 ^ nb - 1" by simp
  have "bloom_index f hashv \<le> ucast ?w" by (simp add: bloom_index_def nb(2) word_and_le1)
  then have "unat (bloom_index f hashv) \<le> unat (ucast ?w :: u32)" by (simp add: word_le_nat_alt)
  also have "\<dots> \<le> unat ?w" by (simp add: unsigned_ucast_eq take_bit_nat_less_eq_self)
  finally have "unat (bloom_index f hashv) < 2 ^ nb" using w by (simp add: nat_less_le le_diff_conv2)
  from BYTELEN_cover [OF nb(1) this] show ?thesis using assms by (simp add: bloom_ok_def unat_div)
qed

lemma HASH_BLOOM_MAKE_ok: "nb < 64 \<Longrightarrow> bloom_ok nb (HASH_BLOOM_MAKE nb)"
  by (simp add: bloom_ok_def HASH_BLOOM_MAKE_def)

lemma HASH_BLOOM_TEST_ok:
  assumes "bloom_ok nb f"
  shows "\<exists>r. HASH_BLOOM_TEST f hashv = Inr r \<and> (r \<noteq> 0 \<longleftrightarrow> bloom_has f hashv)"
proof -
  have "unat (bloom_index f hashv mod 8) < 8" by (simp add: unat_mod)
  then show ?thesis
    using bloom_index_bound [OF assms, of hashv] bloom_bit_iff
    by (simp add: HASH_BLOOM_TEST_def HASH_BLOOM_BITTEST_def bloom_has_def Let_def)
qed

lemma HASH_BLOOM_ADD_ok:
  assumes "bloom_ok nb f"
  shows "\<exists>f'. HASH_BLOOM_ADD f hashv = Inr f' \<and> bloom_ok nb f' \<and> bloom_has f' hashv \<and>
     (\<forall>v. bloom_has f v \<longrightarrow> bloom_has f' v)"
proof -
  define i where "i = bloom_index f hashv"
  define b where "b = (ucast ((ucast (bloom_bv f ! unat (i div 8)) :: u32) OR push_bit (unat (i mod 8)) 1) :: byte)"
  define f' where "f' = f\<lparr>bloom_bv := (bloom_bv f)[unat (i div 8) := b]\<rparr>"
  have lt: "unat (i div 8) < length (bloom_bv f)" using bloom_index_bound [OF assms] by (simp add: i_def)
  have k: "unat (i mod 8) < 8" by (simp add: unat_mod)
  have bits: "bit b n \<longleftrightarrow> bit (bloom_bv f ! unat (i div 8)) n \<or> n = unat (i mod 8)" if "n < 8" for n
    using that by (auto simp: b_def bit_simps)
  have add: "HASH_BLOOM_ADD f hashv = Inr f'"
    using lt by (simp add: HASH_BLOOM_ADD_def HASH_BLOOM_BITSET_def f'_def b_def i_def)
  have index: "bloom_index f' v = bloom_index f v" for v by (simp add: f'_def bloom_index_def)
  have "bloom_has f' hashv"
    unfolding bloom_has_def Let_def index i_def [symmetric] using lt bits [OF k] by (simp add: f'_def)
  moreover have "bloom_has f' v" if "bloom_has f v" for v
  proof -
    have "unat (bloom_index f v mod 8) < 8" by (simp add: unat_mod)
    then show ?thesis
      using that bits unfolding bloom_has_def Let_def index by (auto simp: f'_def nth_list_update lt)
  qed
  moreover have "bloom_ok nb f'" using assms by (simp add: bloom_ok_def f'_def)
  ultimately show ?thesis using add by blast
qed

section \<open>The filter covers the table\<close>

definition bl_inv :: "nat \<Rightarrow> 'd bl_hash \<Rightarrow> bool" where
  "bl_inv nb s \<longleftrightarrow> nb < 64 \<and> ut_wf (bl_table s) \<and>
     (head (bl_table s) \<noteq> None \<longrightarrow> (\<exists>f. bl_filter s = Some f \<and> bloom_ok nb f \<and>
        (\<forall>a \<in> set (order_of (bl_table s)). bloom_has f (HASH_JEN (key_at (heap (bl_table s)) a)))))"

text \<open>A lookup that the filter cuts short would have found nothing.\<close>

lemma BL_FIND_eq:
  assumes "bl_inv nb s"
  shows "BL_FIND s key = HASH_FIND (bl_table s) key"
proof (cases "head (bl_table s)")
  case None
  then show ?thesis by (simp add: BL_FIND_def HASH_FIND_def)
next
  case (Some t)
  with assms obtain f where f: "bl_filter s = Some f" "bloom_ok nb f"
    "\<forall>a \<in> set (order_of (bl_table s)). bloom_has f (HASH_JEN (key_at (heap (bl_table s)) a))"
    and wf: "ut_wf (bl_table s)" by (auto simp: bl_inv_def)
  obtain r where r: "HASH_BLOOM_TEST f (HASH_JEN key) = Inr r" "r \<noteq> 0 \<longleftrightarrow> bloom_has f (HASH_JEN key)"
    using HASH_BLOOM_TEST_ok [OF f(2)] by blast
  have "HASH_FIND (bl_table s) key = Inr None" if "r = 0"
  proof -
    have "\<forall>a \<in> set (order_of (bl_table s)). key_at (heap (bl_table s)) a \<noteq> key" using that r(2) f(3) by blast
    then show ?thesis by (simp add: HASH_FIND_find [OF wf] find_None_iff)
  qed
  then show ?thesis by (simp add: BL_FIND_def Some the_filter_def f(1) r(1))
qed

text \<open>A result with the filter agrees with the one without.\<close>

definition agree :: "nat \<Rightarrow> 'd bl_hash res \<Rightarrow> 'd ut_hash res \<Rightarrow> bool" where
  "agree nb r p \<longleftrightarrow> (case p of Inl err \<Rightarrow> r = Inl err
     | Inr h \<Rightarrow> \<exists>s. r = Inr s \<and> bl_table s = h \<and> bl_inv nb s)"


lemma bind_agree:
  assumes "agree nb r p" "\<And>s. bl_inv nb s \<Longrightarrow> p = Inr (bl_table s) \<Longrightarrow> agree nb (f s) (g (bl_table s))"
  shows "agree nb (bind_res r f) (bind_res p g)"
proof (cases p)
  case (Inr h)
  with assms(1) obtain s where "r = Inr s" "bl_table s = h" "bl_inv nb s" by (auto simp: agree_def)
  with assms(2) [of s] Inr show ?thesis by simp
qed (use assms(1) in \<open>simp add: agree_def\<close>)

lemma BL_DELETE_agree:
  assumes "bl_inv nb s" "a \<in> set (order_of (bl_table s))"
  shows "agree nb (BL_DELETE s a) (HASH_DELETE (bl_table s) a)"
proof -
  have wf: "ut_wf (bl_table s)" using assms(1) by (simp add: bl_inv_def)
  obtain h where h: "HASH_DELETE (bl_table s) a = Inr h" "ut_wf h" "heap h = heap (bl_table s)"
    "order_of h = remove1 a (order_of (bl_table s))"
    using HASH_DELETE_ok [OF wf assms(2)] by blast
  have "head (bl_table s) \<noteq> None" using assms(2) by (cases "head (bl_table s)") (auto simp: order_of_def)
  moreover have "set (order_of h) \<subseteq> set (order_of (bl_table s))" using h(4) by (simp add: set_remove1_subset)
  ultimately show ?thesis
    using assms(1) h by (auto simp: agree_def BL_DELETE_def bl_inv_def dest: subsetD)
qed

text \<open>Freeing and allocating elements that are not linked does not concern the filter.\<close>

lemma bl_heap_cong:
  assumes "bl_inv nb s" "ut_wf h" "head h = head (bl_table s)"
    "\<forall>a \<in> set (order_of (bl_table s)). heap h a = heap (bl_table s) a"
  shows "bl_inv nb (s\<lparr>bl_table := h\<rparr>)"
proof -
  have "order_of h = order_of (bl_table s)" by (simp add: order_of_def assms(3))
  with assms show ?thesis by (auto simp: bl_inv_def key_at_def)
qed

lemma bl_free_inv:
  assumes "bl_inv nb s" "a \<notin> set (order_of (bl_table s))"
  shows "bl_inv nb (bl_free s a)"
  unfolding bl_free_def
proof (rule bl_heap_cong [OF assms(1)])
  show "ut_wf (ut_free (bl_table s) a)" using ut_free_ok assms by (auto simp: bl_inv_def)
  show "head (ut_free (bl_table s) a) = head (bl_table s)" by (simp add: ut_free_def)
  show "\<forall>x \<in> set (order_of (bl_table s)). heap (ut_free (bl_table s) a) x = heap (bl_table s) x"
    using assms(2) by (auto simp: ut_free_def)
qed

lemma bl_malloc_inv:
  assumes "bl_inv nb s" "ut_malloc (bl_table s) d = (a, h)"
  shows "bl_inv nb (s\<lparr>bl_table := h\<rparr>)"
proof (rule bl_heap_cong [OF assms(1)])
  have wf: "ut_wf (bl_table s)" using assms(1) by (simp add: bl_inv_def)
  show "ut_wf h" using ut_malloc_ok [OF wf assms(2)] by simp
  show "head h = head (bl_table s)" using assms(2) by (auto simp: ut_malloc_def)
  show "\<forall>x \<in> set (order_of (bl_table s)). heap h x = heap (bl_table s) x"
    using assms(2) fresh_not_linked [OF wf] by (auto simp: ut_malloc_def)
qed

lemma BL_ADD_KEYPTR_agree:
  assumes inv: "bl_inv nb s" and fresh: "a \<notin> set (order_of (bl_table s))" and e: "heap (bl_table s) a = Some e"
    and len: "length key < 2 ^ 32" and new: "ut_map (bl_table s) key = None"
  shows "agree nb (BL_ADD_KEYPTR nb s key a) (HASH_ADD_KEYPTR (bl_table s) key a)"
proof -
  have wf: "ut_wf (bl_table s)" and nb: "nb < 64" using inv by (auto simp: bl_inv_def)
  define f where "f = (if head (bl_table s) = None then HASH_BLOOM_MAKE nb else the (bl_filter s))"
  have f: "bloom_ok nb f" "\<forall>a \<in> set (order_of (bl_table s)). bloom_has f (HASH_JEN (key_at (heap (bl_table s)) a))"
    using inv HASH_BLOOM_MAKE_ok [OF nb] by (auto simp: f_def bl_inv_def order_of_def)
  obtain f' where f': "HASH_BLOOM_ADD f (HASH_JEN key) = Inr f'" "bloom_ok nb f'" "bloom_has f' (HASH_JEN key)"
    "\<forall>v. bloom_has f v \<longrightarrow> bloom_has f' v"
    using HASH_BLOOM_ADD_ok [OF f(1)] by blast
  have run: "BL_ADD_KEYPTR nb s key a = bind_res (HASH_ADD_KEYPTR (bl_table s) key a)
      (\<lambda>h. Inr \<lparr>bl_table = h, bl_filter = Some f'\<rparr>)"
    using inv f'(1) by (auto simp: BL_ADD_KEYPTR_def Let_def the_filter_def f_def bl_inv_def)
  from HASH_ADD_KEYPTR_cases [OF wf fresh e len new] show ?thesis
  proof (elim disjE exE conjE)
    fix h' assume h': "HASH_ADD_KEYPTR (bl_table s) key a = Inr h'" "ut_wf h'"
      "order_of h' = order_of (bl_table s) @ [a]" "heap h' = (heap (bl_table s))(a \<mapsto> keyed key e)"
    have "bloom_has f' (HASH_JEN (key_at (heap h') x))" if "x \<in> set (order_of h')" for x
      using that h'(3,4) f'(3,4) f(2) by (auto simp: key_at_def keyed_def)
    then show ?thesis using h' f'(2) nb by (auto simp: agree_def run bl_inv_def)
  qed (simp add: agree_def run)
qed

lemma bl_remove_agree:
  assumes inv: "bl_inv nb s" and r: "HASH_FIND (bl_table s) key = Inr r"
  shows "agree nb (case r of None \<Rightarrow> Inr s | Some a \<Rightarrow> bind_res (BL_DELETE s a) (\<lambda>s. Inr (bl_free s a)))
     (case r of None \<Rightarrow> Inr (bl_table s)
      | Some a \<Rightarrow> bind_res (HASH_DELETE (bl_table s) a) (\<lambda>h. Inr (ut_free h a)))"
proof (cases r)
  case None
  then show ?thesis using inv by (simp add: agree_def)
next
  case (Some a)
  have wf: "ut_wf (bl_table s)" using inv by (simp add: bl_inv_def)
  have a: "a \<in> set (order_of (bl_table s))"
    using r Some by (auto simp: HASH_FIND_find [OF wf] dest: find_SomeD)
  obtain h where h: "HASH_DELETE (bl_table s) a = Inr h" "order_of h = remove1 a (order_of (bl_table s))"
    using HASH_DELETE_ok [OF wf a] by blast
  have free: "a \<notin> set (order_of h)" using h(2) ut_wf_distinct [OF wf] by simp
  show ?thesis
    unfolding Some option.case
  proof (rule bind_agree [OF BL_DELETE_agree [OF inv a]])
    fix s' assume s': "bl_inv nb s'" "HASH_DELETE (bl_table s) a = Inr (bl_table s')"
    with h(1) free have "a \<notin> set (order_of (bl_table s'))" by simp
    from bl_free_inv [OF s'(1) this] show "agree nb (Inr (bl_free s' a)) (Inr (ut_free (bl_table s') a))"
      by (simp add: agree_def bl_free_def)
  qed
qed

primrec tab_op_ok :: "'d tab_op \<Rightarrow> bool" where
  "tab_op_ok (Put key d) \<longleftrightarrow> length key < 2 ^ 32"
| "tab_op_ok (Del key) \<longleftrightarrow> True"

lemma bl_step_agree:
  assumes inv: "bl_inv nb s" and ok: "tab_op_ok x"
  shows "agree nb (bl_step nb s x) (tab_step (bl_table s) x)"
proof -
  have wf: "ut_wf (bl_table s)" using inv by (simp add: bl_inv_def)
  show ?thesis
  proof (cases x)
    case (Del key)
    then show ?thesis
      using bl_remove_agree [OF inv] by (simp add: BL_FIND_eq [OF inv] HASH_FIND_find [OF wf])
  next
    case (Put key d)
    obtain r where r: "HASH_FIND (bl_table s) key = Inr r" by (simp add: HASH_FIND_find [OF wf])
    obtain h where h: "(case r of None \<Rightarrow> Inr (bl_table s)
        | Some a \<Rightarrow> bind_res (HASH_DELETE (bl_table s) a) (\<lambda>h. Inr (ut_free h a))) = Inr h"
        "ut_map h = (ut_map (bl_table s))(key := None)"
      using ut.remove_key [OF wf, of key] r by auto
    have step: "agree nb (case bl_malloc s' d of (a, s) \<Rightarrow> BL_ADD_KEYPTR nb s key a)
        (case ut_malloc (bl_table s') d of (a, h) \<Rightarrow> HASH_ADD_KEYPTR h key a)"
      if s': "bl_inv nb s'" "h = bl_table s'" for s' 
    proof -
      obtain a h1 where m: "ut_malloc (bl_table s') d = (a, h1)" by fastforce
      have wf': "ut_wf (bl_table s')" using s'(1) by (simp add: bl_inv_def)
      note ok1 = ut_malloc_ok [OF wf' m]
      then obtain e where e: "heap h1 a = Some e" by blast
      have fresh: "a \<notin> set (order_of h1)" and map: "ut_map h1 = ut_map (bl_table s')" using ok1 by blast+
      then show ?thesis
        using BL_ADD_KEYPTR_agree [OF bl_malloc_inv [OF s'(1) m], of a e key] e ok Put h(2) s'(2)
        by (simp add: bl_malloc_def m)
    qed
    have "agree nb
        (bind_res (case r of None \<Rightarrow> Inr s | Some a \<Rightarrow> bind_res (BL_DELETE s a) (\<lambda>s. Inr (bl_free s a)))
          (\<lambda>s'. case bl_malloc s' d of (a, s) \<Rightarrow> BL_ADD_KEYPTR nb s key a))
        (bind_res (case r of None \<Rightarrow> Inr (bl_table s)
            | Some a \<Rightarrow> bind_res (HASH_DELETE (bl_table s) a) (\<lambda>h. Inr (ut_free h a)))
          (\<lambda>h. case ut_malloc h d of (a, h) \<Rightarrow> HASH_ADD_KEYPTR h key a))"
      using bl_remove_agree [OF inv r] by (rule bind_agree) (use step h(1) in simp)
    then show ?thesis by (simp add: Put BL_FIND_eq [OF inv] r)
  qed
qed

definition bl_empty :: "'d bl_hash" where
  "bl_empty = \<lparr>bl_table = ut_empty, bl_filter = None\<rparr>"

lemma bl_run_agree:
  "bl_inv nb s \<Longrightarrow> list_all tab_op_ok xs \<Longrightarrow> agree nb (run_res (bl_step nb) s xs) (run_res tab_step (bl_table s) xs)"
proof (induction xs arbitrary: s)
  case (Cons x xs)
  then show ?case by (auto intro!: bind_agree bl_step_agree)
qed (simp add: agree_def)

section \<open>Property\<close>

text \<open>
  C29: with any filter size below 64 (the constant is shifted into a 64-bit integer), every history
  of stores and removals on an empty table goes through the same table states with a Bloom
  filter as without one, failures included, and afterwards every lookup gives the same answer:
  the filter has no false negatives, and its bits are never accessed outside the vector.
\<close>

theorem bloom_filter_invisible:
  assumes "nb < 64" "list_all tab_op_ok ops"
  shows "case run_res tab_step ut_empty ops of
      Inl err \<Rightarrow> run_res (bl_step nb) bl_empty ops = Inl err
    | Inr h \<Rightarrow> \<exists>s. run_res (bl_step nb) bl_empty ops = Inr s \<and> bl_table s = h \<and>
        (\<forall>key. BL_FIND s key = HASH_FIND h key)"
proof -
  have "bl_inv nb (bl_empty :: 'a bl_hash)"
    using assms(1) by (simp add: bl_inv_def bl_empty_def) (simp add: ut_empty_def)
  from bl_run_agree [OF this assms(2)] show ?thesis
    using BL_FIND_eq by (fastforce simp: agree_def bl_empty_def split: sum.splits)
qed

theorem bloom_filter_invisible_witness:
  "\<exists>s. run_res (bl_step 4) bl_empty [Put [1] (9 :: nat)] = Inr s \<and>
     BL_FIND s [1] = Inr (Some 0) \<and> BL_FIND s [2] = Inr None"
proof -
  obtain h where h: "ut_add ut_empty [1] (9 :: nat) = Inr h" "ut_wf h" "order_of h = [0]"
    "heap h 0 = Some (keyed [1] (fresh_elmt 9))"
    using one_element by blast
  have "HASH_FIND (ut_empty :: nat ut_hash) [1] = Inr None" by (simp add: HASH_FIND_def ut_empty_def)
  then have "run_res tab_step ut_empty [Put [1] (9 :: nat)] = Inr h" using h(1) by (simp add: ut_add_def)
  moreover have "HASH_FIND h [1] = Inr (Some 0)" "HASH_FIND h [2] = Inr None"
    by (simp_all add: HASH_FIND_find [OF h(2)] h(3,4) key_at_def keyed_def)
  ultimately show ?thesis
    using bloom_filter_invisible [of 4 "[Put [1] (9 :: nat)]"] by (auto simp del: run_res.simps)
qed

end
