(* ===== verification/Uthash_Select.thy ===== *)
theory Uthash_Select
  imports Uthash_More
begin

text \<open>
  \<open>HASH_SELECT\<close> of \<open>praxis2/include/uthash.h\<close>: the elements of one table that satisfy a
  condition are added to a second table, through a second handle in each element. The model
  keeps the pointers of the second table's application order, because the macro links the new
  elements by hand and leaves the table's \<open>tail\<close> pointer alone. The theory shows that a
  selection into an empty table is correct, and that an element added later cuts the order short.
\<close>

section \<open>The macro\<close>

text \<open>
  The second table: the handles \<open>hh_dst\<close>, the links (with \<open>dst\<close> as the head of the list and
  \<open>_last_elt\<close> as its last element so far), the table structure and its \<open>tail\<close> pointer.
\<close>

record 'd sel =
  sel_heap :: "addr \<Rightarrow> 'd elmt option"
  sel_links :: hs_links
  sel_tbl :: "ut_table option"
  sel_tail :: "addr option"

definition sel_empty :: "'d sel" where
  "sel_empty = \<lparr>sel_heap = (\<lambda>_. None), sel_links = \<lparr>hs_next = (\<lambda>_. None), hs_prev = (\<lambda>_. None),
     hs_list = None, hs_tail = None\<rparr>, sel_tbl = None, sel_tail = None\<rparr>"

text \<open>One turn of the inner loop, for the element at \<open>a\<close>.\<close>

definition select_one ::
  "(addr \<Rightarrow> 'd elmt option) \<Rightarrow> ('d elmt \<Rightarrow> bool) \<Rightarrow> 'd sel \<Rightarrow> addr \<Rightarrow> 'd sel res" where
  "select_one src_heap cond s a =
     bind_res (deref src_heap a) (\<lambda>e.
     if \<not> cond e then Inr s else
     let dh = (sel_heap s)(a \<mapsto> e);
         L = sel_links s;
         L = L\<lparr>hs_prev := (hs_prev L)(a := hs_tail L), hs_next := (hs_next L)(a := None)\<rparr>;
         L = (case hs_tail L of None \<Rightarrow> L | Some l \<Rightarrow> L\<lparr>hs_next := (hs_next L)(l := Some a)\<rparr>)
     in bind_res (case hs_list L of
            None \<Rightarrow> Inr (L\<lparr>hs_list := Some a\<rparr>, HASH_MAKE_TABLE a, Some a)
          | Some _ \<Rightarrow> (case sel_tbl s of None \<Rightarrow> Inl Null_Deref | Some t \<Rightarrow> Inr (L, t, sel_tail s)))
        (\<lambda>(L, t, tp).
          bind_res (HASH_ADD_TO_BKT dh t (HASH_TO_BKT (hh_hashv e) (num_buckets t)) a) (\<lambda>t.
          Inr \<lparr>sel_heap = dh, sel_links = L\<lparr>hs_tail := Some a\<rparr>,
            sel_tbl = Some (t\<lparr>num_items := num_items t + 1\<rparr>), sel_tail = tp\<rparr>)))"

text \<open>The two loops walk the buckets in order, each along its chain.\<close>

definition HASH_SELECT :: "'d sel \<Rightarrow> 'd ut_hash \<Rightarrow> ('d elmt \<Rightarrow> bool) \<Rightarrow> 'd sel res" where
  "HASH_SELECT dst src cond =
     (case head src of None \<Rightarrow> Inr dst
      | Some t \<Rightarrow> run_res (select_one (heap src) cond)
          (dst\<lparr>sel_links := (sel_links dst)\<lparr>hs_tail := None\<rparr>\<rparr>) (concat (map chain (buckets t))))"

text \<open>
  The second table as a table of its own: its order is what a walk along \<open>next\<close> from the
  head finds.
\<close>

definition sel_order :: "'d sel \<Rightarrow> addr list" where
  "sel_order s = (case sel_tbl s of None \<Rightarrow> []
     | Some t \<Rightarrow> hs_walk (hs_next (sel_links s)) (length (items (buckets t))) (hs_list (sel_links s)))"

definition sel_hash :: "addr \<Rightarrow> 'd sel \<Rightarrow> 'd ut_hash" where
  "sel_hash n s = \<lparr>heap = sel_heap s, next_addr = n,
     head = map_option (\<lambda>t. t\<lparr>app_order := sel_order s\<rparr>) (sel_tbl s)\<rparr>"

text \<open>\<open>HASH_APPEND_LIST\<close> on the links, as a later addition to the second table performs it.\<close>

definition sel_append :: "'d sel \<Rightarrow> addr \<Rightarrow> 'd sel res" where
  "sel_append s a =
     (case sel_tail s of None \<Rightarrow> Inl Null_Deref
      | Some tp \<Rightarrow>
          let L = sel_links s;
              L = L\<lparr>hs_next := (hs_next L)(a := None), hs_prev := (hs_prev L)(a := Some tp)\<rparr>;
              L = L\<lparr>hs_next := (hs_next L)(tp := Some a)\<rparr>
          in Inr (s\<lparr>sel_links := L, sel_tail := Some a\<rparr>))"

section \<open>The invariant of the loop\<close>

text \<open>The elements \<open>ds\<close> have been selected so far.\<close>

definition sel_inv :: "'d ut_hash \<Rightarrow> addr list \<Rightarrow> 'd sel \<Rightarrow> bool" where
  "sel_inv src ds s \<longleftrightarrow> emitted (sel_links s) ds \<and> (ds \<noteq> [] \<longrightarrow> hs_next (sel_links s) (last ds) = None) \<and>
     distinct ds \<and> (\<forall>a. sel_heap s a = (if a \<in> set ds then heap src a else None)) \<and>
     (case sel_tbl s of None \<Rightarrow> ds = []
      | Some t \<Rightarrow> ds \<noteq> [] \<and> table_ok (sel_heap s) (t\<lparr>app_order := ds\<rparr>) \<and> sel_tail s = Some (hd ds) \<and>
          unat (log2_num_buckets t) \<le> 5 + length ds)"

lemma chained_off: "a \<notin> set xs \<Longrightarrow> chained (nx(a := v)) pv xs \<longleftrightarrow> chained nx pv xs"
  by (induction nx pv xs rule: chained.induct) auto

lemma select_link:
  assumes em: "emitted L ds" and end_: "ds \<noteq> [] \<longrightarrow> hs_next L (last ds) = None" and d: "distinct (ds @ [a])"
    and L1: "L1 = L\<lparr>hs_prev := (hs_prev L)(a := hs_tail L), hs_next := (hs_next L)(a := None)\<rparr>"
    and L2: "L2 = (case hs_tail L1 of None \<Rightarrow> L1 | Some l \<Rightarrow> L1\<lparr>hs_next := (hs_next L1)(l := Some a)\<rparr>)"
    and L3: "L3 = (case hs_list L2 of None \<Rightarrow> L2\<lparr>hs_list := Some a\<rparr> | Some _ \<Rightarrow> L2)\<lparr>hs_tail := Some a\<rparr>"
  shows "emitted L3 (ds @ [a]) \<and> hs_next L3 a = None"
proof (cases ds rule: rev_cases)
  case Nil
  then show ?thesis using em by (simp add: emitted_def L3 L2 L1)
next
  case (snoc xs t)
  have "chained ((hs_next L)(a := None, t := Some a)) ((hs_prev L)(a := Some t)) (xs @ [t, a])"
    using em d snoc chained_upd [of t xs a "(hs_next L)(a := None)" "Some a" "hs_prev L" "Some t"]
      chained_off [of a "xs @ [t]" "hs_next L" None "hs_prev L"]
    by (simp add: chained_snoc emitted_def)
  then show ?thesis using em d snoc by (cases xs) (simp_all add: emitted_def L3 L2 L1)
qed


lemma sel_table_start:
  "bkts_ok hp 5 (buckets (HASH_MAKE_TABLE a)) \<and> num_buckets (HASH_MAKE_TABLE a) = 2 ^ 5 \<and>
   unat (log2_num_buckets (HASH_MAKE_TABLE a)) = 5 \<and> num_items (HASH_MAKE_TABLE a) = 0 \<and>
   items (buckets (HASH_MAKE_TABLE a)) = []"
  using bkts_ok_replicate [of hp 5] by (simp add: HASH_MAKE_TABLE_def items_replicate)

lemma HASH_ADD_TO_BKT_level:
  assumes "HASH_ADD_TO_BKT hp t i a = Inr t'"
  shows "unat (log2_num_buckets t') \<le> Suc (unat (log2_num_buckets t))"
  using assms unat_add_1_le [of "log2_num_buckets t"]
  by (auto simp: HASH_ADD_TO_BKT_def HASH_EXPAND_BUCKETS_def Let_def bind_res_Inr_iff split: if_splits)

lemma select_one_ok:
  assumes inv: "sel_inv src ds s" and e: "heap src a = Some e" and new: "a \<notin> set ds"
  shows "(\<exists>s'. select_one (heap src) cond s a = Inr s' \<and>
       sel_inv src (if cond e then ds @ [a] else ds) s') \<or>
     select_one (heap src) cond s a = Inl (Exit (-1)) \<and> cond e \<and> 26 \<le> length ds"
proof (cases "cond e")
  case False
  then show ?thesis using inv e by (simp add: select_one_def)
next
  case True
  define dh where "dh = (sel_heap s)(a \<mapsto> e)"
  define L1 where "L1 = (sel_links s)\<lparr>hs_prev := (hs_prev (sel_links s))(a := hs_tail (sel_links s)),
      hs_next := (hs_next (sel_links s))(a := None)\<rparr>"
  define L2 where "L2 = (case hs_tail L1 of None \<Rightarrow> L1 | Some l \<Rightarrow> L1\<lparr>hs_next := (hs_next L1)(l := Some a)\<rparr>)"
  define L3 where "L3 = (case hs_list L2 of None \<Rightarrow> L2\<lparr>hs_list := Some a\<rparr> | Some _ \<Rightarrow> L2)\<lparr>hs_tail := Some a\<rparr>"
  define t where "t = (case sel_tbl s of None \<Rightarrow> HASH_MAKE_TABLE a | Some t \<Rightarrow> t)"
  define tp where "tp = (case sel_tbl s of None \<Rightarrow> Some a | Some t \<Rightarrow> sel_tail s)"
  have d: "distinct (ds @ [a])" using inv new by (simp add: sel_inv_def)
  have L3: "emitted L3 (ds @ [a])" "hs_next L3 a = None"
    using select_link [OF _ _ d L1_def L2_def L3_def] inv by (simp_all add: sel_inv_def)
  have run: "select_one (heap src) cond s a =
      bind_res (HASH_ADD_TO_BKT dh t (HASH_TO_BKT (hh_hashv e) (num_buckets t)) a) (\<lambda>t.
        Inr \<lparr>sel_heap = dh, sel_links = L3, sel_tbl = Some (t\<lparr>num_items := num_items t + 1\<rparr>), sel_tail = tp\<rparr>)"
    using e True inv
    by (auto simp: select_one_def Let_def L1_def L2_def L3_def t_def tp_def dh_def sel_inv_def emitted_def
        split: option.splits)
  have same: "\<forall>x \<in> set ds. dh x = sel_heap s x" using new by (auto simp: dh_def)
  have tbl: "unat (log2_num_buckets t) < 32 \<and> num_buckets t = 2 ^ unat (log2_num_buckets t) \<and>
    bkts_ok dh (unat (log2_num_buckets t)) (buckets t) \<and> mset (items (buckets t)) = mset ds \<and>
    num_items t = of_nat (length ds) \<and> unat (log2_num_buckets t) \<le> 5 + length ds"
  proof (cases "sel_tbl s")
    case None
    then show ?thesis using sel_table_start [of dh a] inv by (simp add: sel_inv_def t_def)
  next
    case (Some t0)
    then have ok: "table_ok (sel_heap s) (t0\<lparr>app_order := ds\<rparr>)" using inv by (simp add: sel_inv_def)
    moreover have "unat (log2_num_buckets t0) \<le> 5 + length ds" using inv Some by (simp add: sel_inv_def)
    moreover note table_ok_cong [OF ok, of dh] same Some
    ultimately show ?thesis by (simp add: t_def table_ok_def)
  qed
  have e': "dh a = Some e" by (simp add: dh_def)
  let ?add = "HASH_ADD_TO_BKT dh t (HASH_TO_BKT (hh_hashv e) (num_buckets t)) a"
  show ?thesis
  proof (cases "?add")
    case (Inl err)
    then show ?thesis using HASH_ADD_TO_BKT_ok [of t _ dh a e] tbl e' run True by auto
  next
    case (Inr t')
    then obtain l' where t': "num_items t' = num_items t" "unat (log2_num_buckets t') = l'" "l' < 32"
      "num_buckets t' = 2 ^ l'" "bkts_ok dh l' (buckets t')"
      "mset (items (buckets t')) = add_mset a (mset (items (buckets t)))"
      using HASH_ADD_TO_BKT_ok [of t _ dh a e] tbl e' by auto
    have "table_ok dh (t'\<lparr>num_items := num_items t' + 1, app_order := ds @ [a]\<rparr>)"
      using t' tbl d by (simp add: table_ok_def add.commute)
    moreover have "tp = Some (hd (ds @ [a]))"
      using inv by (auto simp: tp_def sel_inv_def split: option.splits)
    ultimately show ?thesis
      using run Inr L3 d inv e True HASH_ADD_TO_BKT_level [OF Inr] tbl by (simp add: sel_inv_def dh_def)
  qed
qed

lemma select_all_ok:
  assumes "sel_inv src ds s" "\<forall>a \<in> set as. heap src a \<noteq> None" "distinct as" "set as \<inter> set ds = {}"
  shows "(\<exists>s'. run_res (select_one (heap src) cond) s as = Inr s' \<and>
       sel_inv src (ds @ filter (\<lambda>a. cond (the (heap src a))) as) s') \<or>
     run_res (select_one (heap src) cond) s as = Inl (Exit (-1)) \<and>
       26 < length (ds @ filter (\<lambda>a. cond (the (heap src a))) as)"
  using assms
proof (induction as arbitrary: ds s)
  case (Cons a as)
  then obtain e where e: "heap src a = Some e" by auto
  have "a \<notin> set ds" using Cons.prems(4) by simp
  from select_one_ok [OF Cons.prems(1) e this, of cond] show ?case
  proof (elim disjE exE conjE)
    fix s1 assume s1: "select_one (heap src) cond s a = Inr s1"
      "sel_inv src (if cond e then ds @ [a] else ds) s1"
    from Cons.IH [OF s1(2)] Cons.prems show ?thesis by (auto simp: s1(1) e split: if_splits)
  qed (simp add: e)
qed simp

lemma sel_empty_inv: "sel_inv src [] sel_empty"
  by (simp add: sel_inv_def sel_empty_def emitted_def)

lemma hs_walk_None: "hs_walk nx n None = []"
  by (cases n) simp_all

section \<open>Properties\<close>

lemma sel_inv_order:
  assumes "sel_inv src ds s"
  shows "sel_order s = ds \<and> (ds \<noteq> [] \<longrightarrow> dll (sel_links s) ds)"
proof (cases "sel_tbl s")
  case None
  then show ?thesis using assms by (simp add: sel_inv_def sel_order_def)
next
  case (Some t)
  then have d: "dll (sel_links s) ds" and t: "table_ok (sel_heap s) (t\<lparr>app_order := ds\<rparr>)"
    using assms by (auto simp: sel_inv_def dll_def emitted_def)
  have "length (items (buckets t)) = length ds" using t by (simp add: table_ok_def) (metis size_mset)
  then show ?thesis using hs_walk_dll [OF d] d Some by (simp add: sel_order_def)
qed

lemma sel_inv_wf:
  assumes inv: "sel_inv src ds s" and wf: "ut_wf src" and sub: "set ds \<subseteq> set (order_of src)"
  shows "ut_wf (sel_hash (next_addr src) s) \<and> order_of (sel_hash (next_addr src) s) = ds"
proof -
  have ord: "order_of (sel_hash (next_addr src) s) = ds"
    using sel_inv_order [OF inv] inv by (cases "sel_tbl s") (auto simp: order_of_def sel_hash_def sel_inv_def)
  have heap: "sel_heap s a = heap src a" if "a \<in> set ds" for a using inv that by (simp add: sel_inv_def)
  have "elmts_ok (heap src) ds" using wf elmts_ok_subset [OF _ sub] unfolding ut_wf_def by blast
  then have "elmts_ok (sel_heap s) ds" using heap by (simp add: elmts_ok_def inj_on_def)
  moreover have "table_ok (sel_heap s) t" if "head (sel_hash (next_addr src) s) = Some t" for t
    using that inv sel_inv_order [OF inv] by (auto simp: sel_hash_def sel_inv_def)
  moreover have "\<forall>a. sel_heap s a \<noteq> None \<longrightarrow> a < next_addr src"
    using inv wf by (auto simp: sel_inv_def ut_wf_def)
  ultimately show ?thesis using ord by (simp add: ut_wf_def) (simp add: sel_hash_def)
qed

text \<open>The elements of a table in the order of the buckets, and those that satisfy a condition.\<close>

definition bucket_order :: "'d ut_hash \<Rightarrow> addr list" where
  "bucket_order h = (case head h of None \<Rightarrow> [] | Some t \<Rightarrow> concat (map chain (buckets t)))"

definition selected :: "'d ut_hash \<Rightarrow> ('d elmt \<Rightarrow> bool) \<Rightarrow> addr list" where
  "selected src cond = filter (\<lambda>a. cond (the (heap src a))) (bucket_order src)"

lemma bucket_order_mset: "ut_wf h \<Longrightarrow> mset (bucket_order h) = mset (order_of h)"
  by (cases "head h") (auto simp: bucket_order_def order_of_def ut_wf_def table_ok_def items_def)

lemma HASH_SELECT_inv:
  assumes wf: "ut_wf src"
  shows "(\<exists>s. HASH_SELECT sel_empty src cond = Inr s \<and> sel_inv src (selected src cond) s) \<or>
     HASH_SELECT sel_empty src cond = Inl (Exit (-1)) \<and> 26 < length (selected src cond)"
proof -
  have ms: "mset (bucket_order src) = mset (order_of src)" using wf by (rule bucket_order_mset)
  then have set: "set (bucket_order src) = set (order_of src)" by (rule mset_eq_setD)
  have "distinct (bucket_order src)" using ms ut_wf_distinct [OF wf] mset_eq_imp_distinct_iff by blast
  moreover have "\<forall>a \<in> set (bucket_order src). heap src a \<noteq> None"
    unfolding set using wf by (auto simp: ut_wf_def elmts_ok_def)
  moreover have "HASH_SELECT sel_empty src cond =
      run_res (select_one (heap src) cond) sel_empty (bucket_order src)"
    by (simp add: HASH_SELECT_def bucket_order_def sel_empty_def split: option.split)
  ultimately show ?thesis
    using select_all_ok [OF sel_empty_inv [of src], of "bucket_order src" cond]
    by (simp add: selected_def)
qed

lemma set_selected: "ut_wf src \<Longrightarrow> set (selected src cond) = {a \<in> set (order_of src). cond (the (heap src a))}"
  using bucket_order_mset [of src] by (auto simp: selected_def dest!: mset_eq_setD)

text \<open>
  C28: selecting from a table into an empty one gives a well-formed table (its counters and the
  membership of every element in the bucket of its hash included) that maps exactly the keys
  whose elements satisfy the condition, to the same data; its order lists the selected elements in the order of the buckets, linked in
  both directions. The first table is only read. The one failure is the exit when the allocator
  refuses the bucket array, which at most 26 selected elements cannot cause.
\<close>

theorem hash_select_exact:
  fixes src :: "'d ut_hash"
  assumes wf: "ut_wf src"
  shows "(\<exists>s. HASH_SELECT sel_empty src cond = Inr s \<and> ut_wf (sel_hash (next_addr src) s) \<and>
       fsck_counts (sel_hash (next_addr src) s) \<and>
       order_of (sel_hash (next_addr src) s) = selected src cond \<and>
       (selected src cond \<noteq> [] \<longrightarrow> dll (sel_links s) (selected src cond)) \<and>
       (\<forall>key. ut_map (sel_hash (next_addr src) s) key =
          (if \<exists>a. linked src a key \<and> cond (the (heap src a)) then ut_map src key else None))) \<or>
     HASH_SELECT sel_empty src cond = Inl (Exit (-1)) \<and> 26 < length (selected src cond)"
proof (rule disjE [OF HASH_SELECT_inv [OF wf, of cond]]; (elim exE conjE)?)
  fix s assume s: "HASH_SELECT sel_empty src cond = Inr s" "sel_inv src (selected src cond) s"
  let ?d = "sel_hash (next_addr src) s" and ?ds = "selected src cond"
  have sub: "set ?ds \<subseteq> set (order_of src)" using set_selected [OF wf] by auto
  have d: "ut_wf ?d" "order_of ?d = ?ds" using sel_inv_wf [OF s(2) wf sub] by simp_all
  have heap: "heap ?d a = heap src a" if "a \<in> set ?ds" for a
    using s(2) that by (simp add: sel_inv_def sel_hash_def)
  have "ut_map ?d key = (if \<exists>a. linked src a key \<and> cond (the (heap src a)) then ut_map src key else None)" for key
  proof (cases "\<exists>a. linked src a key \<and> cond (the (heap src a))")
    case True
    then obtain a where a: "linked src a key" "a \<in> set ?ds"
      using set_selected [OF wf] by (auto simp: linked_def)
    then have "linked ?d a key" using heap [OF a(2)] d(2) by (simp add: linked_def key_at_def)
    with linked_map [OF d(1)] linked_map [OF wf a(1)] heap [OF a(2)] True show ?thesis by simp
  next
    case False
    then have "\<forall>a \<in> set ?ds. key_at (heap ?d) a \<noteq> key"
      using set_selected [OF wf] heap by (auto simp: linked_def key_at_def)
    then have "ut_map ?d key = None" by (simp add: ut_map_None_iff d(2))
    then show ?thesis by (simp only: if_not_P [OF False])
  qed
  then show ?thesis
    using s(1) d ut_wf_counts [OF d(1)] sel_inv_order [OF s(2)] by blast
qed simp

text \<open>
  after a selection into an empty table the \<open>tail\<close> pointer of that table is left at its
  first element. The next element that is added is linked behind the first one: all other
  selected elements drop out of the order, so that iterating the table visits two elements,
  although the buckets still hold every one.
\<close>

theorem hash_select_stale_tail:
  fixes src :: "'d ut_hash"
  assumes wf: "ut_wf src" and sel: "HASH_SELECT sel_empty src cond = Inr s"
    and new: "a \<notin> set (selected src cond)" and two: "selected src cond = x # y # rest"
  shows "sel_tail s = Some x \<and>
     (\<exists>s'. sel_append s a = Inr s' \<and> sel_order s' = [x, a] \<and>
        hs_next (sel_links s') a = None \<and> hs_prev (sel_links s') a = Some x \<and>
        sel_tbl s' = sel_tbl s)"
proof -
  have inv: "sel_inv src (x # y # rest) s" using HASH_SELECT_inv [OF wf, of cond] sel two by auto
  then obtain t where t: "sel_tbl s = Some t" "table_ok (sel_heap s) (t\<lparr>app_order := x # y # rest\<rparr>)"
    "sel_tail s = Some x" "hs_list (sel_links s) = Some x"
    unfolding sel_inv_def emitted_def by (cases "sel_tbl s") simp_all
  have ax: "a \<noteq> x" using new two by simp
  have len: "length (items (buckets t)) = Suc (Suc (length rest))"
    using mset_eq_length [of "items (buckets t)" "x # y # rest"] t(2) by (simp add: table_ok_def)
  define L where "L = (sel_links s)\<lparr>hs_next := (hs_next (sel_links s))(a := None, x := Some a),
    hs_prev := (hs_prev (sel_links s))(a := Some x)\<rparr>"
  define s' where "s' = s\<lparr>sel_links := L, sel_tail := Some a\<rparr>"
  have "sel_append s a = Inr s'" by (simp add: sel_append_def Let_def t(3) s'_def L_def)
  moreover have "sel_order s' = [x, a]"
    using ax by (simp add: sel_order_def s'_def t(1) len L_def t(4) hs_walk_None)
  moreover have "hs_next (sel_links s') a = None" "hs_prev (sel_links s') a = Some x" "sel_tbl s' = sel_tbl s"
    using ax by (simp_all add: s'_def L_def)
  ultimately show ?thesis using t(3) by blast
qed

section \<open>Witnesses\<close>

theorem hash_select_exact_witness:
  "\<exists>h s. ut_wf (h :: nat ut_hash) \<and> order_of h = [0, 1] \<and> HASH_SELECT sel_empty h (\<lambda>e. e_data e < 5) = Inr s \<and>
     order_of (sel_hash (next_addr h) s) = [1]"
proof -
  obtain h :: "nat ut_hash" where h: "ut_wf h" "order_of h = [0, 1]"
    "heap h 0 = Some (keyed [1] (fresh_elmt 9))" "heap h 1 = Some (keyed [2] (fresh_elmt 4))"
    using two_elements by blast
  let ?sel = "selected h (\<lambda>e. e_data e < 5)"
  have "mset ?sel = filter_mset (\<lambda>a. e_data (the (heap h a)) < 5) (mset (order_of h))"
    by (simp add: selected_def bucket_order_mset [OF h(1)])
  then have "mset ?sel = {#1#}" by (simp add: h(2-4) keyed_def fresh_elmt_def del: One_nat_def)
  then have "?sel = [1]" by (simp only: mset_single_iff)
  with hash_select_exact [OF h(1), of "\<lambda>e. e_data e < 5"] h show ?thesis by auto
qed

theorem hash_select_stale_tail_witness:
  "\<exists>h s s' x y. ut_wf (h :: nat ut_hash) \<and> HASH_SELECT sel_empty h (\<lambda>_. True) = Inr s \<and>
     sel_order s = [x, y] \<and> sel_append s 2 = Inr s' \<and> sel_order s' = [x, 2]"
proof -
  obtain h :: "nat ut_hash" where h: "ut_wf h" "order_of h = [0, 1]" using two_elements by blast
  have "mset (selected h (\<lambda>_. True)) = {#0, 1#}"
    by (simp add: selected_def bucket_order_mset [OF h(1)] h(2))
  then have ms: "mset (selected h (\<lambda>_. True)) = mset [0, 1]" by simp
  have len: "length (selected h (\<lambda>_. True)) = 2" using mset_eq_length [OF ms] by simp
  have two: "2 \<notin> set (selected h (\<lambda>_. True))" unfolding mset_eq_setD [OF ms] by simp
  obtain x y where xy: "selected h (\<lambda>_. True) = [x, y]"
    using len by (cases "selected h (\<lambda>_. True)"; cases "tl (selected h (\<lambda>_. True))") auto
  obtain s where s: "HASH_SELECT sel_empty h (\<lambda>_. True) = Inr s" "sel_inv h (selected h (\<lambda>_. True)) s"
    using HASH_SELECT_inv [OF h(1), of "\<lambda>_. True"] xy(1) by auto
  from hash_select_stale_tail [OF h(1) s(1) two xy] obtain s' where
    "sel_append s 2 = Inr s'" "sel_order s' = [x, 2]" by blast
  moreover have "sel_order s = [x, y]" using sel_inv_order [OF s(2)] xy by simp
  ultimately show ?thesis using h(1) s(1) by blast
qed

end
