(* ===== verification/Uthash_Oom.thy ===== *)
theory Uthash_Oom
  imports Uthash_More
begin

text \<open>
  The build of \<open>praxis2/include/uthash.h\<close> with \<open>HASH_NONFATAL_OOM\<close> set: an allocation that
  fails is reported to the caller instead of ending the process, and the addition in progress is
  rolled back. The theory shows that the rollback restores the table exactly; \<open>Uthash_Oom_Links\<close>
  has the same macros on the pointers they patch.
\<close>

section \<open>Additions that may run out of memory\<close>

text \<open>The answers of the allocator to the three requests an addition can make.\<close>

record oom =
  no_table :: bool
  no_buckets :: bool
  no_expand :: bool

text \<open>\<open>HASH_MAKE_TABLE\<close>: on failure nothing stays allocated, and there is no table.\<close>

definition HASH_MAKE_TABLE_oom :: "oom \<Rightarrow> addr \<Rightarrow> ut_table option" where
  "HASH_MAKE_TABLE_oom m a =
     (if no_table m then None else if no_buckets m then None else Some (HASH_MAKE_TABLE a))"

text \<open>
  The flag of the result is \<open>oomed\<close>. The array of 2^32 buckets is refused in any case.
\<close>

definition HASH_ADD_TO_BKT_oom ::
  "oom \<Rightarrow> (addr \<Rightarrow> 'd elmt option) \<Rightarrow> ut_table \<Rightarrow> nat \<Rightarrow> addr \<Rightarrow> (ut_table \<times> bool) res" where
  "HASH_ADD_TO_BKT_oom m hp t i a =
     bind_res (bucket_at (buckets t) i) (\<lambda>b.
     let b = b\<lparr>bcount := bcount b + 1, chain := a # chain b\<rparr>;
         t = t\<lparr>buckets := (buckets t)[i := b]\<rparr>
     in if bcount b \<ge> (expand_mult b + 1) * 10 \<and> \<not> noexpand t
        then (if no_expand m \<or> unat (log2_num_buckets t) \<ge> 31
              then bind_res (HASH_DEL_IN_BKT t i a) (\<lambda>t. Inr (t, True))
              else bind_res (HASH_EXPAND_BUCKETS hp t) (\<lambda>t. Inr (t, False)))
        else Inr (t, False))"

definition HASH_ROLLBACK_BKT :: "(addr \<Rightarrow> 'd elmt option) \<Rightarrow> ut_table \<Rightarrow> addr \<Rightarrow> ut_table res" where
  "HASH_ROLLBACK_BKT hp t a =
     bind_res (deref hp a) (\<lambda>e.
     let i = HASH_TO_BKT (hh_hashv e) (num_buckets t) in
     bind_res (bucket_at (buckets t) i) (\<lambda>b.
     Inr (t\<lparr>buckets := (buckets t)[i := b\<lparr>bcount := bcount b + 1\<rparr>]\<rparr>)))"

definition HASH_ADD_TO_TABLE_oom :: "oom \<Rightarrow> 'd ut_hash \<Rightarrow> u32 \<Rightarrow> addr \<Rightarrow> ('d ut_hash \<times> bool) res" where
  "HASH_ADD_TO_TABLE_oom m h hashval a =
     (case head h of None \<Rightarrow> Inl Null_Deref
      | Some t \<Rightarrow>
          let t = t\<lparr>num_items := num_items t + 1\<rparr> in
          bind_res (HASH_ADD_TO_BKT_oom m (heap h) t (HASH_TO_BKT hashval (num_buckets t)) a) (\<lambda>(t, oomed).
          if oomed
          then bind_res (HASH_ROLLBACK_BKT (heap h) t a) (\<lambda>t.
               bind_res (HASH_DELETE (h\<lparr>head := Some t\<rparr>) a) (\<lambda>h. Inr (h, True)))
          else Inr (h\<lparr>head := Some t\<rparr>, False)))"

definition HASH_ADD_KEYPTR_oom :: "oom \<Rightarrow> 'd ut_hash \<Rightarrow> byte list \<Rightarrow> addr \<Rightarrow> ('d ut_hash \<times> bool) res" where
  "HASH_ADD_KEYPTR_oom m h key a =
     bind_res (deref (heap h) a) (\<lambda>e.
     let hashv = HASH_JEN key;
         h = h\<lparr>heap := (heap h)(a \<mapsto> e\<lparr>hh_hashv := hashv, hh_key := key, hh_keylen := of_nat (length key)\<rparr>)\<rparr>
     in case head h of
          None \<Rightarrow>
            (case HASH_MAKE_TABLE_oom m a of
               None \<Rightarrow> Inr (h, True)
             | Some t \<Rightarrow> HASH_ADD_TO_TABLE_oom m (h\<lparr>head := Some t\<rparr>) hashv a)
        | Some t \<Rightarrow> HASH_ADD_TO_TABLE_oom m (h\<lparr>head := Some (HASH_APPEND_LIST t a)\<rparr>) hashv a)"

section \<open>The rollback\<close>

definition bkt_full :: "ut_table \<Rightarrow> nat \<Rightarrow> bool" where
  "bkt_full t i \<longleftrightarrow> bcount (buckets t ! i) + 1 \<ge> (expand_mult (buckets t ! i) + 1) * 10 \<and> \<not> noexpand t"

text \<open>The addition fails when the bucket is full and the larger array cannot be had.\<close>

definition expand_fails :: "oom \<Rightarrow> ut_table \<Rightarrow> nat \<Rightarrow> bool" where
  "expand_fails m t i \<longleftrightarrow> bkt_full t i \<and> (no_expand m \<or> unat (log2_num_buckets t) \<ge> 31)"

lemma HASH_ADD_TO_BKT_oom_plain:
  assumes "\<not> expand_fails m t i"
  shows "HASH_ADD_TO_BKT_oom m hp t i a = bind_res (HASH_ADD_TO_BKT hp t i a) (\<lambda>t. Inr (t, False))"
  using assms
  by (cases "i < length (buckets t)")
    (auto simp: HASH_ADD_TO_BKT_oom_def HASH_ADD_TO_BKT_def bucket_at_def Let_def expand_fails_def bkt_full_def)

lemma not_full_adds:
  assumes "\<not> bkt_full t i" "i < length (buckets t)"
  shows "\<exists>t'. HASH_ADD_TO_BKT hp t i a = Inr t'"
  using assms by (auto simp: HASH_ADD_TO_BKT_def bucket_at_def Let_def bkt_full_def)

text \<open>In the failing case the bucket is as before when the rollback starts.\<close>

lemma HASH_ADD_TO_BKT_oom_fail:
  assumes "expand_fails m t i" "i < length (buckets t)"
  shows "HASH_ADD_TO_BKT_oom m hp t i a = Inr (t, True)"
  using assms
  by (simp add: HASH_ADD_TO_BKT_oom_def bucket_at_def Let_def expand_fails_def bkt_full_def HASH_DEL_IN_BKT_def)

lemma rollback_undoes:
  assumes i: "i = HASH_TO_BKT (hh_hashv e) (num_buckets t)" "i < length (buckets t)"
    and e: "heap h a = Some e" and a: "a \<notin> set (chain (buckets t ! i))" "a \<notin> set as" "as \<noteq> []"
    and ord: "app_order t = as @ [a]"
  shows "bind_res (HASH_ROLLBACK_BKT (heap h) t a) (\<lambda>t. HASH_DELETE (h\<lparr>head := Some t\<rparr>) a) =
     Inr (h\<lparr>head := Some (t\<lparr>app_order := as, num_items := num_items t - 1\<rparr>)\<rparr>)"
proof -
  have "remove1 a (as @ [a]) = as" "as @ [a] \<noteq> [a]" using a by (simp_all add: remove1_append)
  then show ?thesis
    using assms
    by (simp add: HASH_ROLLBACK_BKT_def HASH_DELETE_def HASH_DEL_IN_BKT_def bucket_at_def Let_def remove1_idem)
qed

lemma HASH_ADD_TO_TABLE_oom_cases:
  assumes t: "table_ok (heap h) t" and a: "a \<notin> set (app_order t)" "app_order t \<noteq> []" "heap h a = Some e"
  defines "i \<equiv> HASH_TO_BKT (hh_hashv e) (num_buckets t)"
  shows "HASH_ADD_TO_TABLE_oom m (h\<lparr>head := Some (HASH_APPEND_LIST t a)\<rparr>) (hh_hashv e) a =
    (if expand_fails m t i then Inr (h\<lparr>head := Some t\<rparr>, True)
     else bind_res (HASH_ADD_TO_TABLE (heap h) (HASH_APPEND_LIST t a) (hh_hashv e) a)
       (\<lambda>t. Inr (h\<lparr>head := Some t\<rparr>, False)))"
proof -
  let ?t = "t\<lparr>app_order := app_order t @ [a], num_items := num_items t + 1\<rparr>"
  have "i < 2 ^ unat (log2_num_buckets t)" using t by (simp add: i_def table_ok_def HASH_TO_BKT_mod)
  then have lt: "i < length (buckets t)" and ch: "a \<notin> set (chain (buckets t ! i))"
    using t chain_in_order [OF t] a(1) by (auto simp: table_ok_def bkts_ok_def)
  have fails: "expand_fails m ?t i = expand_fails m t i" by (simp add: expand_fails_def bkt_full_def)
  show ?thesis
  proof (cases "expand_fails m t i")
    case True
    have "bind_res (HASH_ROLLBACK_BKT (heap h) ?t a) (\<lambda>t. HASH_DELETE (h\<lparr>head := Some t\<rparr>) a) =
        Inr (h\<lparr>head := Some t\<rparr>)"
      using rollback_undoes [of i e ?t h a "app_order t"] lt ch a by (simp add: i_def)
    then show ?thesis
      using True fails lt HASH_ADD_TO_BKT_oom_fail [of m ?t i "heap h" a]
      by (simp add: HASH_ADD_TO_TABLE_oom_def HASH_APPEND_LIST_def Let_def i_def bind_res_assoc [symmetric])
  next
    case False
    then show ?thesis
      using fails HASH_ADD_TO_BKT_oom_plain [of m ?t i "heap h" a]
      by (simp add: HASH_ADD_TO_TABLE_oom_def HASH_ADD_TO_TABLE_def HASH_APPEND_LIST_def Let_def i_def
          bind_res_assoc)
  qed
qed

text \<open>The branch an addition takes.\<close>

lemma oom_list_cases:
  fixes h :: "'d ut_hash"
  assumes wf: "ut_wf h" and ne: "head h \<noteq> None \<longrightarrow> order_of h \<noteq> []" and fresh: "a \<notin> set (order_of h)"
    and e: "heap h a = Some e"
  defines "t \<equiv> add_table h a"
  shows "HASH_ADD_KEYPTR_oom m h key a =
    (if head h = None \<and> (no_table m \<or> no_buckets m) \<or>
        expand_fails m t (HASH_TO_BKT (HASH_JEN key) (num_buckets t))
     then Inr (h\<lparr>heap := (heap h)(a \<mapsto> keyed key e)\<rparr>, True)
     else bind_res (HASH_ADD_KEYPTR h key a) (\<lambda>h. Inr (h, False)))"
proof (cases "head h")
  case None
  let ?t = "(HASH_MAKE_TABLE a)\<lparr>num_items := 1\<rparr>" and ?i = "HASH_TO_BKT (HASH_JEN key) 32"
  have "?i < 32" using HASH_TO_BKT_mod [of 5] by simp
  then have "buckets ?t ! ?i = empty_bucket" by (simp add: HASH_MAKE_TABLE_def)
  then have "\<not> expand_fails m ?t ?i"
    by (simp add: expand_fails_def bkt_full_def empty_bucket_def word_le_nat_alt)
  moreover have "\<not> expand_fails m (HASH_MAKE_TABLE a) ?i"
    using calculation by (simp add: expand_fails_def bkt_full_def)
  ultimately show ?thesis
    using None e HASH_ADD_TO_BKT_oom_plain [of m ?t ?i "(heap h)(a \<mapsto> keyed key e)" a]
    by (auto simp: HASH_ADD_KEYPTR_oom_def HASH_ADD_KEYPTR_def HASH_MAKE_TABLE_oom_def HASH_ADD_TO_TABLE_oom_def
        HASH_ADD_TO_TABLE_def Let_def keyed_def HASH_MAKE_TABLE_def t_def add_table_def bind_res_assoc)
next
  case (Some t')
  let ?h = "h\<lparr>heap := (heap h)(a \<mapsto> keyed key e)\<rparr>"
  have t': "table_ok (heap ?h) t'"
    using wf fresh Some table_ok_cong [of "heap h" t' "heap ?h"]
    by (auto simp: ut_wf_def order_of_def table_ok_def)
  have "a \<notin> set (app_order t')" "app_order t' \<noteq> []" using fresh ne Some by (simp_all add: order_of_def)
  moreover have "heap ?h a = Some (keyed key e)" "hh_hashv (keyed key e) = HASH_JEN key"
    "?h\<lparr>head := Some t'\<rparr> = ?h"
    using Some by (simp_all add: keyed_def)
  moreover have "expand_fails m t i = expand_fails m t' i" "num_buckets t = num_buckets t'" for i
    using Some by (simp_all add: t_def add_table_def expand_fails_def bkt_full_def)
  ultimately show ?thesis
    using HASH_ADD_TO_TABLE_oom_cases [OF t', of a "keyed key e" m] Some e
    by (auto simp: HASH_ADD_KEYPTR_oom_def HASH_ADD_KEYPTR_def Let_def keyed_def
        HASH_APPEND_LIST_def bind_res_assoc)
qed

text \<open>
  An addition never ends the process. If it can have the memory it needs, it does what the
  plain addition does; if not, it says so, and the table is what it was before, bucket by bucket
  and counter by counter. \<open>Uthash_Oom_Links\<close> shows the same on the pointers (property C30).
\<close>

lemma oom_rolls_back:
  fixes h :: "'d ut_hash"
  assumes wf: "ut_wf h" and ne: "head h \<noteq> None \<longrightarrow> order_of h \<noteq> []" and fresh: "a \<notin> set (order_of h)"
    and e: "heap h a = Some e" and len: "length key < 2 ^ 32" and new: "ut_map h key = None"
  shows "(\<exists>h'. HASH_ADD_KEYPTR_oom m h key a = Inr (h', False) \<and> HASH_ADD_KEYPTR h key a = Inr h') \<or>
     HASH_ADD_KEYPTR_oom m h key a = Inr (h\<lparr>heap := (heap h)(a \<mapsto> keyed key e)\<rparr>, True) \<and>
       (no_table m \<or> no_buckets m \<or> no_expand m \<or> \<not> ut_room h)"
proof -
  let ?t = "add_table h a"
  let ?i = "HASH_TO_BKT (HASH_JEN key) (num_buckets ?t)"
  note run = oom_list_cases [OF wf ne fresh e, of m key]
  show ?thesis
  proof (cases "head h = None \<and> (no_table m \<or> no_buckets m) \<or> expand_fails m ?t ?i")
    case True
    have "no_table m \<or> no_buckets m \<or> no_expand m \<or> \<not> ut_room h"
      using True by (auto simp: expand_fails_def add_table_def ut_room_def HASH_MAKE_TABLE_def split: option.splits)
    with True run show ?thesis by simp
  next
    case False
    have "\<exists>h'. HASH_ADD_KEYPTR h key a = Inr h'"
    proof (cases "ut_room h")
      case True
      with HASH_ADD_KEYPTR_cases [OF wf fresh e len new] show ?thesis by blast
    next
      case full: False
      then obtain t where t: "head h = Some t" by (auto simp: ut_room_def split: option.splits)
      let ?t1 = "?t\<lparr>num_items := num_items ?t + 1\<rparr>"
      have "\<not> bkt_full ?t1 ?i"
        using False full t by (auto simp: expand_fails_def bkt_full_def add_table_def ut_room_def)
      moreover have "?i < length (buckets ?t1)"
        using wf t by (simp add: ut_wf_def table_ok_def bkts_ok_def HASH_TO_BKT_mod add_table_def)
      ultimately show ?thesis
        using not_full_adds [of ?t1 ?i "(heap h)(a \<mapsto> keyed key e)" a] t e
        by (auto simp: HASH_ADD_KEYPTR_def HASH_ADD_TO_TABLE_def HASH_APPEND_LIST_def Let_def keyed_def add_table_def)
    qed
    with False run show ?thesis by auto
  qed
qed

end
