(* ===== verification/Uthash_Oom_Links.thy ===== *)
theory Uthash_Oom_Links
  imports Uthash_Oom Uthash_Links
begin

text \<open>
  The additions of a build with \<open>HASH_NONFATAL_OOM\<close> on the pointers. When the larger bucket array
  is refused, the element is taken out of its bucket, \<open>HASH_ROLLBACK_BKT\<close> raises the count again
  and clears the element's \<open>hh_next\<close> and \<open>hh_prev\<close>, and \<open>HASH_DELETE_HH\<close> takes the element out of
  the order and, a second time, out of its bucket. The theory shows why this is right: with the
  links cleared the second removal patches nothing, and it lowers the count that was raised.
\<close>

definition HASH_ADD_TO_BKT_oom_hh ::
  "oom \<Rightarrow> (addr \<Rightarrow> 'd elmt option) \<Rightarrow> dlinks \<Rightarrow> hh_table \<Rightarrow> nat \<Rightarrow> addr \<Rightarrow> (dlinks \<times> hh_table \<times> bool) res option"
  where
  "HASH_ADD_TO_BKT_oom_hh m hp L t i a =
     then_do (Some (hh_bucket_at (tb_buckets t) i)) (\<lambda>b.
     let b = b\<lparr>hh_count := hh_count b + 1\<rparr> in
     then_do (Some (link_front hp L (hh_head b) a)) (\<lambda>L.
     let b = b\<lparr>hh_head := Some a\<rparr>;
         t = t\<lparr>tb_buckets := (tb_buckets t)[i := b]\<rparr>
     in if hh_count b \<ge> (hh_expand_mult b + 1) * 10 \<and> \<not> tb_noexpand t
        then (if no_expand m \<or> unat (tb_log2_num_buckets t) \<ge> 31
              then then_do (Some (HASH_DEL_IN_BKT_hh hp L t i a)) (\<lambda>(L, t). Some (Inr (L, t, True)))
              else then_do (HASH_EXPAND_BUCKETS_hh hp L t) (\<lambda>(L, t). Some (Inr (L, t, False))))
        else Some (Inr (L, t, False))))"

definition HASH_ROLLBACK_BKT_hh :: "'d hash_ptrs \<Rightarrow> addr \<Rightarrow> 'd hash_ptrs res" where
  "HASH_ROLLBACK_BKT_hh s a =
     bind_res (deref (hash_mem s) a) (\<lambda>e.
     bind_res (tbl_of s (hash_head s)) (\<lambda>(k, t).
     let i = HASH_TO_BKT (hh_hashv e) (tb_num_buckets t) in
     bind_res (hh_bucket_at (tb_buckets t) i) (\<lambda>b.
     let s = put_tbl s k (t\<lparr>tb_buckets := (tb_buckets t)[i := b\<lparr>hh_count := hh_count b + 1\<rparr>]\<rparr>)
     in Inr (s\<lparr>bkt_links := \<lparr>l_next = (l_next (bkt_links s))(a := None), l_prev = (l_prev (bkt_links s))(a := None)\<rparr>\<rparr>))))"

definition HASH_ADD_TO_TABLE_oom_hh ::
  "oom \<Rightarrow> 'd hash_ptrs \<Rightarrow> u32 \<Rightarrow> addr \<Rightarrow> ('d hash_ptrs \<times> bool) res option" where
  "HASH_ADD_TO_TABLE_oom_hh m s hashval a =
     then_do (Some (tbl_of s (hash_head s))) (\<lambda>(k, t).
     let t = t\<lparr>tb_num_items := tb_num_items t + 1\<rparr> in
     then_do (HASH_ADD_TO_BKT_oom_hh m (hash_mem s) (bkt_links s) t (HASH_TO_BKT hashval (tb_num_buckets t)) a)
       (\<lambda>(L, t, oomed).
        let s = put_tbl (s\<lparr>bkt_links := L\<rparr>) k t in
        if oomed
        then then_do (Some (HASH_ROLLBACK_BKT_hh s a)) (\<lambda>s.
             then_do (Some (HASH_DELETE_HH s a)) (\<lambda>s.
             Some (Inr (s\<lparr>hh_tbl := (hh_tbl s)(a := None)\<rparr>, True))))
        else Some (Inr (s, False))))"

text \<open>A refused table: the handle is filled in, its \<open>tbl\<close> is \<open>NULL\<close>, the head stays \<open>NULL\<close>.\<close>

definition HASH_ADD_KEYPTR_oom_hh ::
  "oom \<Rightarrow> 'd hash_ptrs \<Rightarrow> byte list \<Rightarrow> addr \<Rightarrow> ('d hash_ptrs \<times> bool) res option" where
  "HASH_ADD_KEYPTR_oom_hh m s key a =
     (if hash_head s = None \<and> (no_table m \<or> no_buckets m) then
        then_do (Some (deref (hash_mem s) a)) (\<lambda>e.
        Some (Inr (s\<lparr>hash_mem := (hash_mem s)(a \<mapsto>
              e\<lparr>hh_hashv := HASH_JEN key, hh_key := key, hh_keylen := of_nat (length key)\<rparr>),
            app_links := \<lparr>l_next = (l_next (app_links s))(a := None), l_prev = (l_prev (app_links s))(a := None)\<rparr>,
            hh_tbl := (hh_tbl s)(a := None)\<rparr>, True)))
      else
        then_do (Some (add_last_hh s key a)) (\<lambda>s. HASH_ADD_TO_TABLE_oom_hh m s (HASH_JEN key) a))"

section \<open>The refused expansion\<close>

lemma HASH_ADD_TO_BKT_oom_hh_plain:
  assumes rel: "tbl_rel L pt t" and i: "i < length (buckets t)" and ok: "\<not> expand_fails m t i"
  shows "HASH_ADD_TO_BKT_oom_hh m hp L pt i a =
     then_do (HASH_ADD_TO_BKT_hh hp L pt i a) (\<lambda>(L, t). Some (Inr (L, t, False)))"
proof -
  have rb: "bkts_rel L (tb_buckets pt) (buckets t)" using rel by (simp add: tbl_rel_def)
  note at = bkts_relD [OF rb i]
  show ?thesis
    using at ok rel
    by (cases "link_front hp L (hh_head (tb_buckets pt ! i)) a")
      (auto simp: HASH_ADD_TO_BKT_oom_hh_def HASH_ADD_TO_BKT_hh_def Let_def expand_fails_def
        bkt_full_def tbl_rel_def)
qed

text \<open>When it is refused, the chains are as before, and only the links of \<open>a\<close> may be left over.\<close>

lemma HASH_ADD_TO_BKT_oom_hh_fail:
  assumes rel: "tbl_rel L pt t" and i: "i < length (buckets t)" and fails: "expand_fails m t i"
    and dist: "distinct (a # items (buckets t))" and mem: "\<forall>x \<in> set (a # items (buckets t)). hp x \<noteq> None"
  shows "\<exists>L' pt'. HASH_ADD_TO_BKT_oom_hh m hp L pt i a = Some (Inr (L', pt', True)) \<and> tbl_rel L' pt' t \<and>
     tb_tail pt' = tb_tail pt"
proof -
  let ?b = "buckets t ! i" and ?pb = "tb_buckets pt ! i"
  define b where "b = ?b\<lparr>bcount := bcount ?b + 1, chain := a # chain ?b\<rparr>"
  define pb where "pb = ?pb\<lparr>hh_count := hh_count ?pb + 1, hh_head := Some a\<rparr>"
  define t1 where "t1 = t\<lparr>buckets := (buckets t)[i := b]\<rparr>"
  define pt1 where "pt1 = pt\<lparr>tb_buckets := (tb_buckets pt)[i := pb]\<rparr>"
  have rb: "bkts_rel L (tb_buckets pt) (buckets t)" using rel by (simp add: tbl_rel_def)
  note at = bkts_relD [OF rb i]
  obtain L1 where L1: "link_front hp L (hh_head ?pb) a = Inr L1"
    "bkts_rel L1 ((tb_buckets pt)[i := pb]) ((buckets t)[i := b])"
    using push_rel [OF rb i, of a hp] dist mem at(3,4) by (auto simp: b_def pb_def)
  have rel1: "tbl_rel L1 pt1 t1" using rel L1(2) by (simp add: tbl_rel_def pt1_def t1_def)
  have ms: "mset (items (buckets t1)) = mset (a # items (buckets t))"
    using mset_items_update [OF i, of b] by (simp add: t1_def b_def)
  have "distinct (items (buckets t1))" "\<forall>x \<in> set (items (buckets t1)). hp x \<noteq> None"
    using dist mem mset_eq_imp_distinct_iff [OF ms] mset_eq_setD [OF ms] by auto
  moreover have "i < length (buckets t1)" "a \<in> set (chain (buckets t1 ! i))"
    using i by (simp_all add: t1_def b_def)
  ultimately obtain t' L' pt' where t': "HASH_DEL_IN_BKT t1 i a = Inr t'"
    "HASH_DEL_IN_BKT_hh hp L1 pt1 i a = Inr (L', pt')" "tbl_rel L' pt' t'" "tb_tail pt' = tb_tail pt1"
    using HASH_DEL_IN_BKT_rel [OF rel1] by blast
  have "t' = t" using t'(1) i by (simp add: HASH_DEL_IN_BKT_def bucket_at_def t1_def b_def)
  moreover have "HASH_ADD_TO_BKT_oom_hh m hp L pt i a = Some (Inr (L', pt', True))"
    using at L1(1) fails rel t'(2)
    by (simp add: HASH_ADD_TO_BKT_oom_hh_def Let_def expand_fails_def bkt_full_def pb_def pt1_def tbl_rel_def)
  ultimately show ?thesis using t'(3,4) by (auto simp: pt1_def)
qed

section \<open>The rollback\<close>

lemma rollback_links:
  assumes d: "dlist (app_links s) None (hash_head s) (as @ [a])" and dist: "distinct (as @ [a])" and ne: "as \<noteq> []"
    and k: "\<forall>y \<in> set (as @ [a]). hh_tbl s y = Some k" "hh_tables s k = Some pt"
    and mem: "\<forall>y \<in> set (as @ [a]). \<exists>e. hash_mem s y = Some e" and tail: "tb_tail pt = Some a"
    and e: "hash_mem s a = Some e" and rel: "tbl_rel (bkt_links s) pt t"
    and i: "i = HASH_TO_BKT (hh_hashv e) (num_buckets t)" "i < length (buckets t)"
    and new: "a \<notin> set (items (buckets t))"
  shows "\<exists>s' pt'. bind_res (HASH_ROLLBACK_BKT_hh s a) (\<lambda>s. HASH_DELETE_HH s a) = Inr s' \<and>
     hash_mem s' = hash_mem s \<and> next_elmt s' = next_elmt s \<and> hh_tbl s' = hh_tbl s \<and>
     dlist (app_links s') None (hash_head s') as \<and> hh_tables s' k = Some pt' \<and> tb_tail pt' = Some (last as) \<and>
     tbl_rel (bkt_links s') pt' (t\<lparr>num_items := num_items t - 1\<rparr>)"
proof -
  let ?pb = "tb_buckets pt ! i"
  define L where "L = \<lparr>l_next = (l_next (bkt_links s))(a := None), l_prev = (l_prev (bkt_links s))(a := None)\<rparr>"
  define pt1 where "pt1 = pt\<lparr>tb_buckets := (tb_buckets pt)[i := ?pb\<lparr>hh_count := hh_count ?pb + 1\<rparr>]\<rparr>"
  define s1 where "s1 = (put_tbl s k pt1)\<lparr>bkt_links := L\<rparr>"
  define pt2 where "pt2 = pt\<lparr>tb_tail := Some (last as)\<rparr>"
  have rb: "bkts_rel (bkt_links s) (tb_buckets pt) (buckets t)" "tb_num_buckets pt = num_buckets t"
    using rel by (simp_all add: tbl_rel_def)
  note at = bkts_relD [OF rb(1) i(2)]
  have len: "i < length (tb_buckets pt)" using rb(1) i(2) by (simp add: bkts_rel_def)
  obtain x where "hash_head s = Some x" "x \<in> set (as @ [a])" using d by (cases as) auto
  then have tb: "tbl_of s (hash_head s) = Inr (k, pt)" using k mem by (auto simp: tbl_of_def at_elmt_def deref_def)
  have roll: "HASH_ROLLBACK_BKT_hh s a = Inr s1"
    using e tb at(1) rb(2) by (simp add: HASH_ROLLBACK_BKT_hh_def Let_def i(1) [symmetric] s1_def pt1_def L_def)
  have rem: "remove1 a (as @ [a]) = as" using dist by (simp add: remove1_append)
  have head: "hh_head ?pb \<noteq> Some a"
    using dlist_first [OF at(2)] new i(2) by (cases "chain (buckets t ! i)") (auto simp: in_items_iff)
  have "hh_bucket_at (tb_buckets (pt1\<lparr>tb_tail := Some (last as)\<rparr>)) i = Inr (?pb\<lparr>hh_count := hh_count ?pb + 1\<rparr>)"
    using len by (simp add: hh_bucket_at_def pt1_def)
  from HASH_DEL_IN_BKT_hh_patched [OF this, of "hash_mem s" a e L] e head len
  have del: "HASH_DEL_IN_BKT_hh (hash_mem s) L (pt1\<lparr>tb_tail := Some (last as)\<rparr>) i a = Inr (L, pt2)"
    by (simp add: L_def patched_def pt1_def pt2_def)
  have s1: "app_links s1 = app_links s" "hash_head s1 = hash_head s" "hh_tbl s1 = hh_tbl s" "hh_tables s1 k = Some pt1"
    "hash_mem s1 = hash_mem s" "bkt_links s1 = L" "next_elmt s1 = next_elmt s"
    by (simp_all add: s1_def) (simp_all add: put_tbl_def)
  have pt1: "tb_num_buckets pt1 = num_buckets t" "tb_tail pt1 = Some (last (as @ [a]))"
    using rb(2) tail by (simp_all add: pt1_def)
  have "as @ [a] \<noteq> [a]" using ne by simp
  from HASH_DELETE_HH_order [of s1, unfolded s1, OF d _ dist this k(1) s1(4) mem pt1(2) e]
  obtain s' where s': "HASH_DELETE_HH s1 a = Inr s'" "hash_mem s' = hash_mem s" "next_elmt s' = next_elmt s"
    "hh_tbl s' = hh_tbl s" "bkt_links s' = L" "dlist (app_links s') None (hash_head s') as"
    "hh_tables s' k = Some (pt2\<lparr>tb_num_items := tb_num_items pt2 - 1\<rparr>)"
    using del by (auto simp: rem pt1(1) i(1) [symmetric])
  have "dlist L p q ch \<longleftrightarrow> dlist (bkt_links s) p q ch" if "a \<notin> set ch" for p q ch
    using that by (intro dlist_cong) (auto simp: L_def)
  then have "bkts_rel L (tb_buckets pt) (buckets t)"
    using rb(1) new by (auto simp: bkts_rel_def bkt_rel_def in_items_iff)
  then have "tbl_rel L (pt2\<lparr>tb_num_items := tb_num_items pt2 - 1\<rparr>) (t\<lparr>num_items := num_items t - 1\<rparr>)"
    using rel by (simp add: tbl_rel_def pt2_def)
  then show ?thesis using roll s' by (auto simp: pt2_def)
qed

text \<open>Filling in the handle of an element outside the table.\<close>

lemma ut_wf_keyed:
  assumes wf: "ut_wf h" and new: "a \<notin> set (order_of h)" and e0: "heap h a = Some e0"
  shows "ut_wf (h\<lparr>heap := (heap h)(a \<mapsto> keyed key e0)\<rparr>)"
proof -
  let ?h = "h\<lparr>heap := (heap h)(a \<mapsto> keyed key e0)\<rparr>"
  have "\<forall>x. heap ?h x \<noteq> None \<longrightarrow> x < next_addr ?h" using wf e0 by (auto simp: ut_wf_def)
  moreover have "\<forall>x \<in> set (order_of h). heap ?h x = heap h x" using new by auto
  ultimately show ?thesis using ut_heap_cong [OF wf, of ?h] by simp
qed

text \<open>The table is refused.\<close>

lemma oom_no_table_links:
  assumes rep: "represents s h" and wf: "ut_wf (h\<lparr>heap := (heap h)(a \<mapsto> keyed key e0)\<rparr>)" and e0: "heap h a = Some e0"
    and no: "hash_head s = None" "no_table m \<or> no_buckets m"
  shows "\<exists>s'. HASH_ADD_KEYPTR_oom_hh m s key a = Some (Inr (s', True)) \<and>
     represents s' (h\<lparr>heap := (heap h)(a \<mapsto> keyed key e0)\<rparr>) \<and> HASH_FSCK s' = Some (Inr ()) \<and> hh_tbl s' a = None"
proof -
  let ?h = "h\<lparr>heap := (heap h)(a \<mapsto> keyed key e0)\<rparr>"
  define s' where "s' = s\<lparr>hash_mem := heap ?h, app_links := \<lparr>l_next = (l_next (app_links s))(a := None),
      l_prev = (l_prev (app_links s))(a := None)\<rparr>, hh_tbl := (hh_tbl s)(a := None)\<rparr>"
  have "HASH_ADD_KEYPTR_oom_hh m s key a = Some (Inr (s', True))"
    using no rep e0 by (simp add: HASH_ADD_KEYPTR_oom_hh_def s'_def represents_def keyed_def)
  moreover have "represents s' ?h"
    using rep no represents_head [OF rep] by (simp add: represents_def s'_def)
  ultimately show ?thesis using represents_FSCK wf by (auto simp: s'_def)
qed

text \<open>The state in which the element is put into its bucket.\<close>

lemma oom_start:
  fixes s :: "'d hash_ptrs" and key :: "byte list"
  assumes rep: "represents s h" and wf: "ut_wf h" and new: "a \<notin> set (order_of h)" and e0: "heap h a = Some e0"
    and hp: "hp = (heap h)(a \<mapsto> keyed key e0)" and t0: "t0 = add_table h a"
    and t1: "t1 = t0\<lparr>num_items := num_items t0 + 1\<rparr>" and yes: "\<not> (hash_head s = None \<and> (no_table m \<or> no_buckets m))"
  shows "\<exists>s0 k pt. add_last_hh s key a = Inr s0 \<and> hash_mem s0 = hp \<and> next_elmt s0 = next_addr h \<and>
     dlist (app_links s0) None (hash_head s0) (app_order t0) \<and>
     (\<forall>x \<in> set (app_order t0). hh_tbl s0 x = Some k) \<and> tb_tail pt = Some (last (app_order t0)) \<and>
     tbl_rel (bkt_links s0) (pt\<lparr>tb_num_items := tb_num_items pt + 1\<rparr>) t1 \<and> tb_num_buckets pt = num_buckets t1 \<and>
     tbl_of s0 (hash_head s0) = Inr (k, pt) \<and>
     HASH_ADD_KEYPTR_oom_hh m s key a = HASH_ADD_TO_TABLE_oom_hh m s0 (HASH_JEN key) a \<and>
     HASH_TO_BKT (HASH_JEN key) (num_buckets t1) < length (buckets t1)"
proof -
  obtain s0 k pt where s0: "add_last_hh s key a = Inr s0" "hash_mem s0 = hp"
    "next_elmt s0 = next_addr h" "dlist (app_links s0) None (hash_head s0) (app_order t0)"
    "\<forall>x \<in> set (app_order t0). hh_tbl s0 x = Some k" "hh_tables s0 k = Some pt"
    "tb_tail pt = Some (last (app_order t0))" "tbl_rel (bkt_links s0) pt t0"
    using add_start_rel [OF rep wf new e0 hp t0] by blast
  note tab = add_table_ok [OF wf new hp t0]
  have rel: "tbl_rel (bkt_links s0) (pt\<lparr>tb_num_items := tb_num_items pt + 1\<rparr>) t1"
    using s0(8) by (simp add: tbl_rel_def t1)
  have "\<exists>x. hash_head s0 = Some x \<and> x \<in> set (app_order t0)" using s0(4) tab by (cases "app_order t0") auto
  then have "tbl_of s0 (hash_head s0) = Inr (k, pt)"
    using tab s0(2,5,6) by (auto simp: tbl_of_def at_elmt_def deref_def)
  moreover have "HASH_ADD_KEYPTR_oom_hh m s key a = HASH_ADD_TO_TABLE_oom_hh m s0 (HASH_JEN key) a"
    using yes s0(1) by (auto simp: HASH_ADD_KEYPTR_oom_hh_def)
  moreover have "tb_num_buckets pt = num_buckets t1" using rel by (simp add: tbl_rel_def)
  moreover have "HASH_TO_BKT (HASH_JEN key) (num_buckets t1) < length (buckets t1)"
    using tab by (simp add: t1 HASH_TO_BKT_mod bkts_ok_def)
  ultimately show ?thesis using s0 rel by blast
qed

text \<open>The array of the buckets need not grow, or can.\<close>

lemma oom_plain_links:
  fixes s :: "'d hash_ptrs" and key :: "byte list"
  assumes rep: "represents s h" and wf: "ut_wf h" and new: "a \<notin> set (order_of h)" and e0: "heap h a = Some e0"
    and yes: "\<not> (hash_head s = None \<and> (no_table m \<or> no_buckets m))"
    and fails: "\<not> expand_fails m (add_table h a) (HASH_TO_BKT (HASH_JEN key) (num_buckets (add_table h a)))"
  shows "HASH_ADD_KEYPTR_oom_hh m s key a = then_do (HASH_ADD_KEYPTR_hh s key a) (\<lambda>s. Some (Inr (s, False)))"
proof -
  define t1 where "t1 = (add_table h a)\<lparr>num_items := num_items (add_table h a) + 1\<rparr>"
  define hp where "hp = (heap h)(a \<mapsto> keyed key e0)"
  let ?i = "HASH_TO_BKT (HASH_JEN key) (num_buckets t1)"
  obtain s0 k pt where s0: "add_last_hh s key a = Inr s0" "hash_mem s0 = hp"
    "tbl_rel (bkt_links s0) (pt\<lparr>tb_num_items := tb_num_items pt + 1\<rparr>) t1" "tb_num_buckets pt = num_buckets t1"
    "tbl_of s0 (hash_head s0) = Inr (k, pt)"
    "HASH_ADD_KEYPTR_oom_hh m s key a = HASH_ADD_TO_TABLE_oom_hh m s0 (HASH_JEN key) a" "?i < length (buckets t1)"
    using oom_start [OF rep wf new e0 hp_def refl t1_def yes] by blast
  define pt1 where "pt1 = pt\<lparr>tb_num_items := tb_num_items pt + 1\<rparr>"
  let ?add = "HASH_ADD_TO_BKT_hh hp (bkt_links s0) pt1 ?i a"
  have "\<not> expand_fails m t1 ?i" using fails by (simp add: t1_def expand_fails_def bkt_full_def)
  note plain = HASH_ADD_TO_BKT_oom_hh_plain [OF s0(3,7) this, of hp a]
  have "HASH_ADD_KEYPTR_oom_hh m s key a =
      then_do (then_do ?add (\<lambda>(L, t). Some (Inr (L, t, False))))
        (\<lambda>(L, t, oomed). Some (Inr (put_tbl (s0\<lparr>bkt_links := L\<rparr>) k t, False)))"
    using s0(2,4,5) plain
    by (cases ?add) (auto simp: s0(6) HASH_ADD_TO_TABLE_oom_hh_def Let_def pt1_def [symmetric]
        then_do_def split: sum.split)
  moreover have "HASH_ADD_KEYPTR_hh s key a =
      then_do ?add (\<lambda>(L, t). Some (Inr (put_tbl (s0\<lparr>bkt_links := L\<rparr>) k t)))"
    using s0(1,2,4,5) by (simp add: HASH_ADD_KEYPTR_hh_def HASH_ADD_TO_TABLE_hh_def Let_def pt1_def)
  ultimately show ?thesis by (cases ?add) (auto simp: then_do_def split: sum.split)
qed

text \<open>The larger array is refused. The table then is not the fresh one, whose buckets are empty.\<close>

lemma expand_fails_table:
  assumes "expand_fails m (add_table h a) i" "i < length (buckets (add_table h a))"
  shows "head h \<noteq> None"
  using assms
  by (cases "head h") (simp_all add: expand_fails_def bkt_full_def add_table_def HASH_MAKE_TABLE_def
      empty_bucket_def word_le_nat_alt)

lemma oom_refused_links:
  fixes s :: "'d hash_ptrs" and key :: "byte list"
  assumes rep: "represents s h" and wf: "ut_wf h" and new: "a \<notin> set (order_of h)" and e0: "heap h a = Some e0"
    and yes: "\<not> (hash_head s = None \<and> (no_table m \<or> no_buckets m))"
    and fails: "expand_fails m (add_table h a) (HASH_TO_BKT (HASH_JEN key) (num_buckets (add_table h a)))"
  shows "\<exists>s'. HASH_ADD_KEYPTR_oom_hh m s key a = Some (Inr (s', True)) \<and>
     represents s' (h\<lparr>heap := (heap h)(a \<mapsto> keyed key e0)\<rparr>) \<and> HASH_FSCK s' = Some (Inr ()) \<and> hh_tbl s' a = None"
proof -
  define h1 where "h1 = h\<lparr>heap := (heap h)(a \<mapsto> keyed key e0)\<rparr>"
  define t0 where "t0 = add_table h a"
  define t1 where "t1 = t0\<lparr>num_items := num_items t0 + 1\<rparr>"
  define hp where "hp = (heap h)(a \<mapsto> keyed key e0)"
  let ?i = "HASH_TO_BKT (HASH_JEN key) (num_buckets t1)"
  obtain s0 k pt where s0: "hash_mem s0 = hp" "next_elmt s0 = next_addr h"
    "dlist (app_links s0) None (hash_head s0) (app_order t0)" "\<forall>x \<in> set (app_order t0). hh_tbl s0 x = Some k"
    "tb_tail pt = Some (last (app_order t0))"
    "tbl_rel (bkt_links s0) (pt\<lparr>tb_num_items := tb_num_items pt + 1\<rparr>) t1" "tb_num_buckets pt = num_buckets t1"
    "tbl_of s0 (hash_head s0) = Inr (k, pt)"
    "HASH_ADD_KEYPTR_oom_hh m s key a = HASH_ADD_TO_TABLE_oom_hh m s0 (HASH_JEN key) a" "?i < length (buckets t1)"
    using oom_start [OF rep wf new e0 hp_def t0_def t1_def yes] by blast
  define pt1 where "pt1 = pt\<lparr>tb_num_items := tb_num_items pt + 1\<rparr>"
  have tab: "bkts_ok hp (unat (log2_num_buckets t1)) (buckets t1)" "distinct (a # items (buckets t1))"
    "app_order t0 \<noteq> []" "\<forall>x \<in> set (app_order t0). \<exists>e. hp x = Some e"
    using add_table_ok [OF wf new hp_def t0_def] by (simp_all add: t1_def)
  have e: "hp a = Some (keyed key e0)" "hh_hashv (keyed key e0) = HASH_JEN key" by (simp_all add: hp_def keyed_def)
  have fails1: "expand_fails m t1 ?i" using fails by (simp add: t1_def t0_def expand_fails_def bkt_full_def)
  obtain t where t: "head h = Some t" "app_order t0 = app_order t @ [a]"
    using expand_fails_table [OF fails] s0(10) by (auto simp: t1_def t0_def add_table_def)
  have t_ne: "app_order t \<noteq> []" "distinct (app_order t @ [a])"
    using rep t new ut_wf_distinct [OF wf] by (simp_all add: represents_def order_of_def)
  have items: "\<forall>x \<in> set (a # items (buckets t1)). hp x \<noteq> None" using items_in_heap [OF tab(1)] e(1) by simp
  obtain L' pt' where L': "HASH_ADD_TO_BKT_oom_hh m hp (bkt_links s0) pt1 ?i a = Some (Inr (L', pt', True))"
    "tbl_rel L' pt' t1" "tb_tail pt' = tb_tail pt1"
    using HASH_ADD_TO_BKT_oom_hh_fail [OF s0(6,10) fails1 tab(2) items] unfolding pt1_def by blast
  define s1 where "s1 = put_tbl (s0\<lparr>bkt_links := L'\<rparr>) k pt'"
  have s1: "app_links s1 = app_links s0" "hash_head s1 = hash_head s0" "hh_tbl s1 = hh_tbl s0" "hh_tables s1 k = Some pt'"
    "hash_mem s1 = hp" "bkt_links s1 = L'" "next_elmt s1 = next_addr h"
    using s0(1,2) by (simp_all add: s1_def) (simp_all add: put_tbl_def)
  obtain s' pt'' where s': "bind_res (HASH_ROLLBACK_BKT_hh s1 a) (\<lambda>s. HASH_DELETE_HH s a) = Inr s'"
    "hash_mem s' = hp" "next_elmt s' = next_addr h" "hh_tbl s' = hh_tbl s0"
    "dlist (app_links s') None (hash_head s') (app_order t)" "hh_tables s' k = Some pt''"
    "tb_tail pt'' = Some (last (app_order t))" "tbl_rel (bkt_links s') pt'' (t1\<lparr>num_items := num_items t1 - 1\<rparr>)"
    using rollback_links [of s1 "app_order t" a k pt' "keyed key e0" t1 ?i, unfolded s1]
      s0(3,4,5) tab(4) t_ne L'(2,3) e tab(2) s0(10) t(2) by (auto simp: pt1_def)
  have "HASH_ADD_KEYPTR_oom_hh m s key a = Some (Inr (s'\<lparr>hh_tbl := (hh_tbl s')(a := None)\<rparr>, True))"
    using s0(1,7,8) L'(1) s'(1)
    by (auto simp: s0(9) HASH_ADD_TO_TABLE_oom_hh_def Let_def pt1_def [symmetric] bind_res_Inr_iff s1_def [symmetric])
  moreover have "represents (s'\<lparr>hh_tbl := (hh_tbl s')(a := None)\<rparr>) h1"
    using s' t t_ne s0(4)
    by (intro representsI [where t = t, OF _ _ _ _ _ _ _ s'(7)])
      (auto simp: h1_def hp_def tbl_rel_def t1_def t0_def add_table_def)
  ultimately show ?thesis
    using represents_FSCK ut_wf_keyed [OF wf new e0, of key] by (auto simp: h1_def)
qed

section \<open>Property\<close>

text \<open>
  C30: with \<open>HASH_NONFATAL_OOM\<close> an addition never ends the process. If it can have the memory it
  needs, it does what the plain addition does; if not, it says so, and the table is what it was
  before, bucket by bucket and counter by counter: only the handle of the refused element differs.
  On the pointers the same holds: the links, buckets and counters stand for the same table, the
  refused element is linked nowhere, its \<open>tbl\<close> is \<open>NULL\<close>, and \<open>HASH_FSCK\<close> finds no fault.
\<close>

theorem uthash_oom_rolls_back:
  fixes h :: "'d ut_hash"
  assumes wf: "ut_wf h" and ne: "head h \<noteq> None \<longrightarrow> order_of h \<noteq> []" and fresh: "a \<notin> set (order_of h)"
    and e: "heap h a = Some e" and len: "length key < 2 ^ 32" and new: "ut_map h key = None"
  shows "(\<exists>h'. HASH_ADD_KEYPTR_oom m h key a = Inr (h', False) \<and> HASH_ADD_KEYPTR h key a = Inr h' \<and>
       (\<forall>s. represents s h \<longrightarrow> (\<exists>s'. HASH_ADD_KEYPTR_oom_hh m s key a = Some (Inr (s', False)) \<and>
          HASH_ADD_KEYPTR_hh s key a = Some (Inr s') \<and> represents s' h'))) \<or>
     HASH_ADD_KEYPTR_oom m h key a = Inr (h\<lparr>heap := (heap h)(a \<mapsto> keyed key e)\<rparr>, True) \<and>
       (no_table m \<or> no_buckets m \<or> no_expand m \<or> \<not> ut_room h) \<and>
       (\<forall>s. represents s h \<longrightarrow> (\<exists>s'. HASH_ADD_KEYPTR_oom_hh m s key a = Some (Inr (s', True)) \<and>
          represents s' (h\<lparr>heap := (heap h)(a \<mapsto> keyed key e)\<rparr>) \<and> HASH_FSCK s' = Some (Inr ()) \<and>
          hh_tbl s' a = None))"
proof -
  let ?h = "h\<lparr>heap := (heap h)(a \<mapsto> keyed key e)\<rparr>"
  let ?fails = "expand_fails m (add_table h a) (HASH_TO_BKT (HASH_JEN key) (num_buckets (add_table h a)))"
  note run = oom_list_cases [OF wf ne fresh e, of m key]
  from oom_rolls_back [OF wf ne fresh e len new, of m] show ?thesis
  proof
    assume "\<exists>h'. HASH_ADD_KEYPTR_oom m h key a = Inr (h', False) \<and> HASH_ADD_KEYPTR h key a = Inr h'"
    then obtain h' where h': "HASH_ADD_KEYPTR_oom m h key a = Inr (h', False)" "HASH_ADD_KEYPTR h key a = Inr h'"
      by blast
    with run have "\<not> (head h = None \<and> (no_table m \<or> no_buckets m))" "\<not> ?fails" by auto
    then have "\<exists>s'. HASH_ADD_KEYPTR_oom_hh m s key a = Some (Inr (s', False)) \<and>
        HASH_ADD_KEYPTR_hh s key a = Some (Inr s') \<and> represents s' h'" if s: "represents s h" for s
      using oom_plain_links [OF s wf fresh e] represents_head [OF s] h'
        HASH_ADD_KEYPTR_refines [OF s wf fresh e, of key] by auto
    with h' show ?thesis by blast
  next
    assume r: "HASH_ADD_KEYPTR_oom m h key a = Inr (?h, True) \<and>
      (no_table m \<or> no_buckets m \<or> no_expand m \<or> \<not> ut_room h)"
    then have refused: "head h = None \<and> (no_table m \<or> no_buckets m) \<or> ?fails"
      using run by (auto simp: bind_res_Inr_iff split: if_splits dest: sym)
    have "\<exists>s'. HASH_ADD_KEYPTR_oom_hh m s key a = Some (Inr (s', True)) \<and> represents s' ?h \<and>
        HASH_FSCK s' = Some (Inr ()) \<and> hh_tbl s' a = None" if s: "represents s h" for s
    proof (cases "hash_head s = None \<and> (no_table m \<or> no_buckets m)")
      case True
      then show ?thesis using oom_no_table_links [OF s ut_wf_keyed [OF wf fresh e] e, of m key] by simp
    next
      case False
      then have ?fails using refused represents_head [OF s] by blast
      then show ?thesis by (rule oom_refused_links [OF s wf fresh e False])
    qed
    with r show ?thesis by blast
  qed
qed

theorem uthash_oom_rolls_back_witness:
  "\<exists>h. ut_wf (h :: nat ut_hash) \<and> heap h 0 \<noteq> None \<and> HASH_ADD_KEYPTR_oom
     \<lparr>no_table = False, no_buckets = True, no_expand = False\<rparr> h [1] 0 =
       Inr (h\<lparr>heap := (heap h)(0 \<mapsto> keyed [1] (fresh_elmt 9))\<rparr>, True)"
proof -
  obtain h where m: "ut_malloc (ut_empty :: nat ut_hash) 9 = (0, h)" by (simp add: ut_malloc_def ut_empty_def)
  have h: "ut_wf h" "order_of h = []" "ut_map h = Map.empty"
    using ut_malloc_ok [OF ut_empty_ok(1) m] ut_empty_ok(3) by (simp_all add: order_of_def [of ut_empty])
      (simp add: ut_empty_def)
  have e: "heap h 0 = Some (fresh_elmt 9)" "head h = None"
    using m by (auto simp: ut_malloc_def ut_empty_def fresh_elmt_def)
  have fail: "HASH_ADD_KEYPTR_oom \<lparr>no_table = False, no_buckets = True, no_expand = False\<rparr> h [1] 0 = Inr (h', b)
      \<Longrightarrow> b" for h' b
    using e by (auto simp: HASH_ADD_KEYPTR_oom_def HASH_MAKE_TABLE_oom_def Let_def)
  from uthash_oom_rolls_back [OF h(1) _ _ e(1), of "[1]" "\<lparr>no_table = False, no_buckets = True, no_expand = False\<rparr>"]
  show ?thesis using h e fail by auto
qed

end
