(* ===== verification/Uthash_Wrappers.thy ===== *)
theory Uthash_Wrappers
  imports Uthash_More
begin

text \<open>
  The convenience forms of \<open>praxis2/include/uthash.h\<close>: string, integer and pointer keys, and
  replacement in order. The theory shows that a string stored under its bytes up to the NUL is
  found again by any string with the same bytes, and that replacing in order keeps the table
  sorted while the replaced element is handed out.
\<close>

section \<open>String, integer and pointer keys\<close>

text \<open>\<open>strlen\<close> of the string at the start of a block; a block without NUL is read beyond its end.\<close>

fun uthash_strlen :: "byte list \<Rightarrow> nat res" where
  "uthash_strlen [] = Inl Out_Of_Bounds"
| "uthash_strlen (b # bs) = (if b = 0 then Inr 0 else bind_res (uthash_strlen bs) (\<lambda>n. Inr (Suc n)))"

text \<open>The length is cast to \<open>unsigned\<close>; the key bytes are read at its value.\<close>

definition str_key :: "byte list \<Rightarrow> byte list res" where
  "str_key s = bind_res (uthash_strlen s) (\<lambda>n. read_ptr (Some s) (unat (of_nat n :: u32)))"

definition HASH_FIND_STR :: "'d ut_hash \<Rightarrow> byte list \<Rightarrow> addr option res" where
  "HASH_FIND_STR h findstr = bind_res (str_key findstr) (HASH_FIND h)"

definition HASH_ADD_STR :: "'d ut_hash \<Rightarrow> byte list \<Rightarrow> addr \<Rightarrow> 'd ut_hash res" where
  "HASH_ADD_STR h strfield a = bind_res (str_key strfield) (\<lambda>key. HASH_ADD_KEYPTR h key a)"

definition HASH_REPLACE_STR :: "'d ut_hash \<Rightarrow> byte list \<Rightarrow> addr \<Rightarrow> (addr option \<times> 'd ut_hash) res" where
  "HASH_REPLACE_STR h strfield a = bind_res (str_key strfield) (\<lambda>key. HASH_REPLACE h key a)"

text \<open>The object representation of the field is the key: 4 bytes of an \<open>int\<close>, 8 of a pointer.\<close>

definition HASH_FIND_INT :: "'d ut_hash \<Rightarrow> ptr \<Rightarrow> addr option res" where
  "HASH_FIND_INT h findint = bind_res (read_ptr findint 4) (HASH_FIND h)"

definition HASH_ADD_INT :: "'d ut_hash \<Rightarrow> ptr \<Rightarrow> addr \<Rightarrow> 'd ut_hash res" where
  "HASH_ADD_INT h intfield a = bind_res (read_ptr intfield 4) (\<lambda>key. HASH_ADD_KEYPTR h key a)"

definition HASH_REPLACE_INT :: "'d ut_hash \<Rightarrow> ptr \<Rightarrow> addr \<Rightarrow> (addr option \<times> 'd ut_hash) res" where
  "HASH_REPLACE_INT h intfield a = bind_res (read_ptr intfield 4) (\<lambda>key. HASH_REPLACE h key a)"

definition HASH_FIND_PTR :: "'d ut_hash \<Rightarrow> ptr \<Rightarrow> addr option res" where
  "HASH_FIND_PTR h findptr = bind_res (read_ptr findptr 8) (HASH_FIND h)"

definition HASH_ADD_PTR :: "'d ut_hash \<Rightarrow> ptr \<Rightarrow> addr \<Rightarrow> 'd ut_hash res" where
  "HASH_ADD_PTR h ptrfield a = bind_res (read_ptr ptrfield 8) (\<lambda>key. HASH_ADD_KEYPTR h key a)"

definition HASH_REPLACE_PTR :: "'d ut_hash \<Rightarrow> ptr \<Rightarrow> addr \<Rightarrow> (addr option \<times> 'd ut_hash) res" where
  "HASH_REPLACE_PTR h ptrfield a = bind_res (read_ptr ptrfield 8) (\<lambda>key. HASH_REPLACE h key a)"

section \<open>Replacing in order\<close>

definition HASH_REPLACE_INORDER ::
  "('d elmt \<Rightarrow> 'd elmt \<Rightarrow> int) \<Rightarrow> 'd ut_hash \<Rightarrow> byte list \<Rightarrow> addr \<Rightarrow> (addr option \<times> 'd ut_hash) res" where
  "HASH_REPLACE_INORDER cmpfcn h key a =
     bind_res (HASH_FIND h key) (\<lambda>replaced.
     bind_res (case replaced of None \<Rightarrow> Inr h | Some b \<Rightarrow> HASH_DELETE h b) (\<lambda>h.
     bind_res (HASH_ADD_KEYPTR_INORDER cmpfcn h key a) (\<lambda>h. Inr (replaced, h))))"

lemma strlen_nul: "0 \<notin> set k \<Longrightarrow> uthash_strlen (k @ 0 # junk) = Inr (length k)"
  by (induction k) auto

lemma str_key_nul: "0 \<notin> set k \<Longrightarrow> length k < 2 ^ 32 \<Longrightarrow> str_key (k @ 0 # junk) = Inr k"
  by (simp add: str_key_def strlen_nul unat_of_nat)

lemma str_key_unterminated: "0 \<notin> set s \<Longrightarrow> str_key s = Inl Out_Of_Bounds"
proof -
  assume "0 \<notin> set s"
  then have "uthash_strlen s = Inl Out_Of_Bounds" by (induction s) auto
  then show ?thesis by (simp add: str_key_def)
qed

section \<open>Properties\<close>

text \<open>
  An element added under a C string is found by every string with the same bytes up to the NUL,
  whatever lies behind either NUL, and by no other; a string without NUL is read beyond its end.
\<close>

theorem uthash_str_roundtrip:
  fixes h :: "'d ut_hash"
  assumes wf: "ut_wf h" and room: "ut_room h" and a: "a \<notin> set (order_of h)" and e: "heap h a = Some e"
    and k: "0 \<notin> set k" "length k < 2 ^ 32" and new: "ut_map h k = None"
  shows "\<exists>h'. HASH_ADD_STR h (k @ 0 # junk) a = Inr h' \<and> ut_wf h' \<and>
     HASH_FIND_STR h' (k @ 0 # junk') = Inr (Some a) \<and>
     (\<forall>k'. 0 \<notin> set k' \<longrightarrow> length k' < 2 ^ 32 \<longrightarrow> k' \<noteq> k \<longrightarrow>
        HASH_FIND_STR h' (k' @ 0 # junk') \<noteq> Inr (Some a)) \<and>
     HASH_FIND_STR h' k = Inl Out_Of_Bounds"
proof -
  obtain h' where h': "HASH_ADD_KEYPTR h k a = Inr h'" "ut_wf h'" "order_of h' = order_of h @ [a]"
    "heap h' = (heap h)(a \<mapsto> keyed k e)"
    using HASH_ADD_KEYPTR_cases [OF wf a e k(2) new] room by auto
  have l: "linked h' a k" by (simp add: linked_def h'(3,4) key_at_def keyed_def)
  have "HASH_FIND h' k' \<noteq> Inr (Some a)" if "k' \<noteq> k" for k'
    using that l find_SomeD by (fastforce simp: HASH_FIND_find [OF h'(2)] linked_def)
  then show ?thesis
    using h'(1,2) find_linked [OF h'(2) l] k
    by (auto simp: HASH_ADD_STR_def HASH_FIND_STR_def str_key_nul str_key_unterminated HASH_FIND_find [OF h'(2)])
qed

lemma sorted_remove: "sorted (map f xs) \<Longrightarrow> sorted (map (f :: 'a \<Rightarrow> 'k::linorder) (remove1 a xs))"
  by (induction xs) (auto dest: notin_set_remove1)

text \<open>
  Replacing in order in a table sorted by a key that the comparison agrees with: the table stays
  sorted, maps the key to the new element, and hands out the element it held before, unlinked.
\<close>

theorem uthash_replace_inorder_sorted:
  fixes h :: "'d ut_hash" and f :: "'d elmt \<Rightarrow> 'k::linorder"
  assumes wf: "ut_wf h" and room: "ut_room h" and len: "length key < 2 ^ 32"
    and a: "a \<notin> set (order_of h)" and e: "heap h a = Some e"
    and cmp: "\<forall>x y. cmpfcn x y \<le> 0 \<longleftrightarrow> f x \<le> f y"
    and srt: "sorted (map (\<lambda>a. f (the (heap h a))) (order_of h))"
  shows "\<exists>h' r. HASH_REPLACE_INORDER cmpfcn h key a = Inr (r, h') \<and> HASH_FIND h key = Inr r \<and> ut_wf h' \<and>
     ut_map h' = (ut_map h)(key \<mapsto> e_data e) \<and> sorted (map (\<lambda>a. f (the (heap h' a))) (order_of h')) \<and>
     set (order_of h') = insert a (set (order_of h) - set_option r)"
proof (cases "ut_map h key")
  case None
  have miss: "HASH_FIND h key = Inr None" using ut.find_miss [OF wf None] .
  obtain h' pre rest where h': "HASH_ADD_KEYPTR_INORDER cmpfcn h key a = Inr h'" "ut_wf h'"
    "ut_map h' = (ut_map h)(key \<mapsto> e_data e)" "order_of h = pre @ rest" "order_of h' = pre @ a # rest"
    "sorted (map (\<lambda>a. f (the (heap h' a))) (order_of h'))"
    using HASH_ADD_KEYPTR_INORDER_sorted [OF wf room len None a e cmp srt] by blast
  then have "set (order_of h') = insert a (set (order_of h) - set_option None)" by auto
  then show ?thesis using miss h' by (auto simp: HASH_REPLACE_INORDER_def)
next
  case (Some v)
  then obtain b where b: "HASH_FIND h key = Inr (Some b)" "linked h b key"
    using ut.find_hit [OF wf Some] by blast
  obtain h1 where h1: "HASH_DELETE h b = Inr h1" "ut_wf h1" "heap h1 = heap h"
      "order_of h1 = remove1 b (order_of h)" "ut_room h1"
    using HASH_DELETE_ok [OF wf, of b] b(2) room by (auto simp: linked_def)
  have m1: "ut_map h1 = (ut_map h)(key := None)" using ut_map_unlink [OF wf b(2) h1(3,4)] .
  have a1: "a \<notin> set (order_of h1)" using a h1(4) by (metis notin_set_remove1)
  have s1: "sorted (map (\<lambda>a. f (the (heap h1 a))) (order_of h1))"
    unfolding h1(3,4) using srt by (rule sorted_remove)
  obtain h' pre rest where h': "HASH_ADD_KEYPTR_INORDER cmpfcn h1 key a = Inr h'" "ut_wf h'"
    "ut_map h' = (ut_map h1)(key \<mapsto> e_data e)" "order_of h1 = pre @ rest" "order_of h' = pre @ a # rest"
    "sorted (map (\<lambda>a. f (the (heap h' a))) (order_of h'))"
    using HASH_ADD_KEYPTR_INORDER_sorted [OF h1(2,5) len _ a1 _ cmp s1, of e] e m1 h1(3) by auto
  have "set (order_of h') = insert a (set (order_of h1))" using h'(4,5) by auto
  then have "set (order_of h') = insert a (set (order_of h) - set_option (Some b))"
    using h1(4) ut_wf_distinct [OF wf] by simp
  then show ?thesis using b(1) h1(1) h' m1 by (auto simp: HASH_REPLACE_INORDER_def)
qed

end
