(* ===== verification/Debug_Output.thy ===== *)
theory Debug_Output
  imports Neighbour Hash_Table
begin

unbundle bit_operations_syntax

text \<open>
  The printing helpers of \<open>praxis2/include/scratch1.c\<close> and its two test entry points. The text
  that is printed is a result of the model; keys and values are printed with \<open>%s\<close>, which reads
  up to a NUL that neither has. The theory says exactly when the output is the packet that was
  given and when the helper reads beyond a block, and that the hash value the entry printer shows
  is not the one the table uses.
\<close>

section \<open>Formatted output\<close>

text \<open>\<open>%s\<close>: the bytes up to the first NUL; without one the block is read beyond its end.\<close>

fun fmt_s :: "byte list \<Rightarrow> string res" where
  "fmt_s [] = Inl Out_Of_Bounds"
| "fmt_s (b # bs) = (if b = 0 then Inr [] else bind_res (fmt_s bs) (\<lambda>s. Inr (char_of (unat b) # s)))"

definition fmt_ptr :: "ptr \<Rightarrow> string res" where
  "fmt_ptr p = (case p of None \<Rightarrow> Inl Null_Deref | Some b \<Rightarrow> fmt_s b)"

text \<open>\<open>%d\<close> of the 32 bits that are passed.\<close>

definition fmt_d :: "u32 \<Rightarrow> string" where
  "fmt_d w = (let i = sint w in if i < 0 then CHR ''-'' # dec (nat (- i)) else dec (nat i))"

text \<open>The calls of \<open>printf\<close> one after the other.\<close>

fun outputs :: "string res list \<Rightarrow> string res" where
  "outputs [] = Inr []"
| "outputs (x # xs) = bind_res x (\<lambda>s. bind_res (outputs xs) (\<lambda>t. Inr (s @ t)))"

definition newline :: string where "newline = [CHR 0x0A]"

definition rule_line :: string where "rule_line = replicate 57 (CHR ''-'') @ newline"

section \<open>Printing a packet\<close>

text \<open>\<open>fmt_b\<close> is what the C library makes of \<open>%b\<close>, which only C23 defines.\<close>

definition print_packet :: "(u32 \<Rightarrow> string) \<Rightarrow> packet \<Rightarrow> string res" where
  "print_packet fmt_b p = outputs
    [Inr (rule_line @ ''PACKET:'' @ newline),
     Inr (''Flags: '' @ fmt_b (ucast (flags p)) @ newline),
     Inr (''Keylen: '' @ fmt_d (ucast (key_len p)) @ newline),
     Inr (''Value_len: '' @ fmt_d (value_len p) @ newline),
     if key_len p \<le> 0 then Inr (''No key.'' @ newline)
     else bind_res (fmt_ptr (pkey p)) (\<lambda>s. Inr (''Key: '' @ s @ newline)),
     if value_len p \<le> 0 then Inr (''No value.'' @ newline)
     else bind_res (fmt_ptr (pvalue p)) (\<lambda>s. Inr (''Value: '' @ s @ newline)),
     Inr (''Hash_Id: '' @ fmt_d (ucast (hash_id p)) @ newline),
     Inr (''Node_Id: '' @ fmt_d (ucast (node_id p)) @ newline),
     Inr (''Node_Ip: '' @ fmt_d (node_ip p) @ newline),
     Inr (''Node_Port: '' @ fmt_d (ucast (node_port p)) @ newline),
     Inr rule_line]"

section \<open>Printing a table entry\<close>

text \<open>
  \<open>HASH_VALUE\<close> with a result variable of type \<open>int\<close>: in \<open>HASH_JEN_MIX\<close> the right shifts of that
  variable keep its sign.
\<close>

definition JEN_MIX_int :: "u32 \<Rightarrow> u32 \<Rightarrow> u32 \<Rightarrow> u32 \<times> u32 \<times> u32" where
  "JEN_MIX_int a b c =
    (let a = a - b; a = a - c; a = a XOR signed_drop_bit 13 c;
         b = b - c; b = b - a; b = b XOR push_bit 8 a;
         c = c - a; c = c - b; c = c XOR drop_bit 13 b;
         a = a - b; a = a - c; a = a XOR signed_drop_bit 12 c;
         b = b - c; b = b - a; b = b XOR push_bit 16 a;
         c = c - a; c = c - b; c = c XOR drop_bit 5 b;
         a = a - b; a = a - c; a = a XOR signed_drop_bit 3 c;
         b = b - c; b = b - a; b = b XOR push_bit 10 a;
         c = c - a; c = c - b; c = c XOR drop_bit 15 b
     in (a, b, c))"

function jen_blocks_int :: "u32 \<Rightarrow> u32 \<Rightarrow> u32 \<Rightarrow> byte list \<Rightarrow> u32 \<times> u32 \<times> u32 \<times> byte list" where
  "jen_blocks_int i j h k =
     (if 12 \<le> length k then
        (case JEN_MIX_int (i + le32 k 0) (j + le32 k 4) (h + le32 k 8) of
           (i, j, h) \<Rightarrow> jen_blocks_int i j h (drop 12 k))
      else (i, j, h, k))"
  by pat_completeness auto
termination by (relation "measure (\<lambda>(i, j, h, k). length k)") auto

declare jen_blocks_int.simps [simp del]

definition JEN_int :: "byte list \<Rightarrow> u32" where
  "JEN_int key =
    (case jen_blocks_int 0x9e3779b9 0x9e3779b9 0xfeedbeef key of (i, j, h, k) \<Rightarrow>
      let h = h + of_nat (length key);
          h = h + tail_byte k 11 24 + tail_byte k 10 16 + tail_byte k 9 8;
          j = j + tail_byte k 8 24 + tail_byte k 7 16 + tail_byte k 6 8 + tail_byte k 5 0;
          i = i + tail_byte k 4 24 + tail_byte k 3 16 + tail_byte k 2 8 + tail_byte k 1 0
      in snd (snd (JEN_MIX_int i j h)))"

text \<open>The lengths have type \<open>size_t\<close>; \<open>%d\<close> takes the low 32 bits of the argument.\<close>

definition print_table_entry :: "htable \<Rightarrow> string res" where
  "print_table_entry e = outputs
    [Inr (''Table Entry:'' @ newline),
     bind_res (fmt_ptr (ht_key e)) (\<lambda>s.
       Inr (''Key of length '' @ fmt_d (ucast (ht_key_len e)) @ '': '' @ s @ newline)),
     bind_res (fmt_ptr (ht_value e)) (\<lambda>s.
       Inr (''Value of length '' @ fmt_d (ucast (ht_value_len e)) @ '': '' @ s @ newline)),
     bind_res (read_ptr (ht_key e) (unat (ht_key_len e))) (\<lambda>k.
       Inr (''Hash value: '' @ fmt_d (JEN_int k) @ newline))]"

section \<open>The entry points of the tests\<close>

definition test_line :: "u16 \<Rightarrow> u16 \<Rightarrow> u16 \<Rightarrow> int \<Rightarrow> string" where
  "test_line p q h d = ''Test for peer_is_responsible('' @ fmt_d (ucast p) @ '','' @ fmt_d (ucast q) @
     '','' @ fmt_d (ucast h) @ ''): '' @ fmt_d (of_int (test_peer_is_responsible p q h d)) @ newline"

definition all_tests_output :: string where
  "all_tests_output = test_line 138 202 111 0 @ test_line 202 10 111 0 @ test_line 10 74 111 0 @
     test_line 74 138 111 1"

definition client_test :: "string \<times> int" where
  "client_test = (rule_line @ all_tests_output @ ''All tests for peer_is_responsible: '' @
     fmt_d (of_int all_tests_peer_is_responsible) @ newline @ rule_line @ ''Test.'' @ newline, 0)"

definition peer_test :: "string \<times> int" where
  "peer_test = (''Test Peer.'' @ newline @ rule_line, 0)"

section \<open>Properties\<close>

lemma fmt_s_cases:
  "fmt_s b = (if 0 \<in> set b then Inr (map (\<lambda>x. char_of (unat x)) (takeWhile (\<lambda>x. x \<noteq> 0) b)) else Inl Out_Of_Bounds)"
  by (induction b) auto

text \<open>The packet is printed, or the call reads beyond the key or the value.\<close>

definition printable :: "ptr \<Rightarrow> bool" where
  "printable p \<longleftrightarrow> (\<exists>b. p = Some b \<and> 0 \<in> set b)"

lemma fmt_ptr_printable: "(\<exists>s. fmt_ptr p = Inr s) \<longleftrightarrow> printable p"
  by (cases p) (auto simp: fmt_ptr_def printable_def fmt_s_cases)

text \<open>
  \<open>print_packet\<close> succeeds exactly when each of key and value is empty or holds a NUL byte; a
  packet that came off the wire is printed only if its sender put one in. Otherwise \<open>printf\<close>
  reads beyond the block (or follows the null pointer).
\<close>

theorem print_packet_safe_iff:
  "(\<exists>s. print_packet fmt_b p = Inr s) \<longleftrightarrow>
     (key_len p = 0 \<or> printable (pkey p)) \<and> (value_len p = 0 \<or> printable (pvalue p))"
proof -
  have z: "x \<le> 0 \<longleftrightarrow> x = 0" for x :: "'a::len word" by (simp add: word_le_nat_alt unat_eq_zero)
  show ?thesis
    unfolding print_packet_def z fmt_ptr_printable [symmetric]
    by (cases "fmt_ptr (pkey p)"; cases "fmt_ptr (pvalue p)") auto
qed

lemma fmt_d_digits: "fmt_d 1 = ''1''" "fmt_d 0 = ''0''"
  by (simp_all add: fmt_d_def dec.simps digit_char_def, code_simp+)

text \<open>
  The hash value that \<open>print_table_entry\<close> prints is computed in an \<open>int\<close>; for the key \<open>a\<close> it is
  not the value under which the table files the entry.
\<close>

theorem print_table_entry_wrong_hash:
  "print_table_entry \<lparr>ht_key = Some [97, 0], ht_key_len = 1, ht_value = Some [0], ht_value_len = 0\<rparr> =
     Inr (''Table Entry:'' @ newline @ ''Key of length 1: a'' @ newline @ ''Value of length 0: '' @ newline @
       ''Hash value: '' @ fmt_d (JEN_int [97]) @ newline) \<and>
   JEN_int [97] \<noteq> HASH_JEN [97]"
proof
  have "fmt_s [97, 0] = Inr ''a''" "fmt_s [0] = Inr []" by code_simp+
  then show "print_table_entry \<lparr>ht_key = Some [97, 0], ht_key_len = 1, ht_value = Some [0], ht_value_len = 0\<rparr> =
     Inr (''Table Entry:'' @ newline @ ''Key of length 1: a'' @ newline @ ''Value of length 0: '' @ newline @
       ''Hash value: '' @ fmt_d (JEN_int [97]) @ newline)"
    unfolding print_table_entry_def
    by (simp add: fmt_ptr_def fmt_d_digits newline_def [symmetric] del: fmt_s.simps append_Cons)
  have "HASH_JEN [97] = snd (snd (HASH_JEN_MIX 0x9e377a1a 0x9e3779b9 0xfeedbef0))"
    "JEN_int [97] = snd (snd (JEN_MIX_int 0x9e377a1a 0x9e3779b9 0xfeedbef0))"
    by (simp_all add: HASH_JEN_def JEN_int_def jen_blocks.simps jen_blocks_int.simps tail_byte_def)
  moreover have "snd (snd (JEN_MIX_int 0x9e377a1a 0x9e3779b9 0xfeedbef0)) \<noteq>
      snd (snd (HASH_JEN_MIX 0x9e377a1a 0x9e3779b9 0xfeedbef0))" by code_simp
  ultimately show "JEN_int [97] \<noteq> HASH_JEN [97]" by simp
qed

text \<open>The test entry points return 0; the report says that the tests of the predicate pass.\<close>

theorem client_test_passes:
  "snd client_test = 0 \<and> snd (peer_test) = 0 \<and>
   fst client_test = rule_line @ all_tests_output @ ''All tests for peer_is_responsible: 1'' @ newline @
     rule_line @ ''Test.'' @ newline"
proof -
  have "all_tests_peer_is_responsible = 1"
    by (simp add: all_tests_peer_is_responsible_def test_peer_is_responsible_def peer_is_responsible_def)
  then show ?thesis by (simp add: client_test_def peer_test_def fmt_d_digits)
qed

text \<open>A received packet: its key and value blocks hold exactly the bytes that were sent.\<close>

theorem print_received_packet:
  assumes "key_len p \<noteq> 0" "pkey p = Some k" "0 \<notin> set k"
  shows "print_packet fmt_b p = Inl Out_Of_Bounds"
  using assms by (simp add: print_packet_def fmt_ptr_def fmt_s_cases word_le_nat_alt unat_eq_zero)

end
