(* ===== verification/Memory.thy ===== *)
theory Memory
  imports Packet Ring_Buffer "HOL-Library.Multiset"
begin

text \<open>
  The memory a process gets from the allocator, block by block. A block is a name; a state
  records which blocks are live, so that freeing a block twice, or one that was never allocated, is
  an error. Each structure of the program has a record with the blocks it consists of. The other
  theories on memory run an operation of the program (as modelled in the theory of its component)
  together with its calls of \<open>malloc\<close> and \<open>free\<close>.

  The program loses blocks: it drops the last pointer to them without freeing them. The
  component \<open>lost\<close> is not part of the program's state: it collects those blocks at the
  statements that drop the pointers. What is live is at any time what some structure owns and
  what was lost (\<open>accounts\<close>).
\<close>

section \<open>Blocks\<close>

type_synonym blk = nat

record mem =
  live :: "blk set"
  fresh :: blk
  lost :: "blk multiset"

text \<open>\<open>malloc\<close> gives a block that was not used before; a block is freed at most once.\<close>

definition mem_grow :: "'m mem_scheme \<Rightarrow> 'm mem_scheme" where
  "mem_grow m = m\<lparr>live := insert (fresh m) (live m), fresh := Suc (fresh m)\<rparr>"

definition mem_alloc :: "'m mem_scheme \<Rightarrow> blk \<times> 'm mem_scheme" where
  "mem_alloc m = (fresh m, mem_grow m)"

definition mem_free :: "blk option \<Rightarrow> 'm mem_scheme \<Rightarrow> 'm mem_scheme res" where
  "mem_free p m = (case p of None \<Rightarrow> Inr m
     | Some b \<Rightarrow> if b \<in> live m then Inr (m\<lparr>live := live m - {b}\<rparr>) else Inl Use_After_Free)"

text \<open>\<open>realloc\<close> releases the old block for the new one.\<close>

definition realloc_m :: "blk option \<Rightarrow> 'm mem_scheme \<Rightarrow> (blk \<times> 'm mem_scheme) res" where
  "realloc_m p m = bind_res (mem_free p m) (\<lambda>m. Inr (mem_alloc m))"

definition mem_lose :: "blk multiset \<Rightarrow> 'm mem_scheme \<Rightarrow> 'm mem_scheme" where
  "mem_lose bs m = m\<lparr>lost := lost m + bs\<rparr>"

definition mem_empty :: mem where
  "mem_empty = \<lparr>live = {}, fresh = 0, lost = {#}\<rparr>"

section \<open>Packets and ring buffers\<close>

record pk_blk =
  pk_self :: blk
  pk_key :: "blk option"
  pk_value :: "blk option"

record rb_blk =
  rb_self :: blk
  rb_bytes :: blk

definition packet_new_m :: "'m mem_scheme \<Rightarrow> pk_blk \<times> 'm mem_scheme" where
  "packet_new_m m = (case mem_alloc m of (b, m) \<Rightarrow> (\<lparr>pk_self = b, pk_key = None, pk_value = None\<rparr>, m))"

definition packet_dup_m :: "'m mem_scheme \<Rightarrow> pk_blk \<times> 'm mem_scheme" where
  "packet_dup_m m =
     (case packet_new_m m of (k, m) \<Rightarrow>
      case mem_alloc m of (bk, m) \<Rightarrow>
      case mem_alloc m of (bv, m) \<Rightarrow> (k\<lparr>pk_key := Some bk, pk_value := Some bv\<rparr>, m))"

definition packet_free_m :: "pk_blk option \<Rightarrow> 'm mem_scheme \<Rightarrow> 'm mem_scheme res" where
  "packet_free_m p m =
     (case p of None \<Rightarrow> Inr m
      | Some k \<Rightarrow>
          bind_res (mem_free (pk_key k) m) (\<lambda>m.
          bind_res (mem_free (pk_value k) m) (\<lambda>m.
          mem_free (Some (pk_self k)) m)))"

text \<open>
  The pointers \<open>key\<close> and \<open>value\<close> are overwritten; a packet that had them would lose its blocks.
\<close>

definition opt_blk :: "blk option \<Rightarrow> blk multiset" where
  "opt_blk p = (case p of None \<Rightarrow> {#} | Some b \<Rightarrow> {#b#})"

definition packet_decode_body_m :: "packet \<Rightarrow> nat \<Rightarrow> pk_blk \<Rightarrow> 'm mem_scheme \<Rightarrow> (pk_blk option \<times> 'm mem_scheme) res" where
  "packet_decode_body_m p buf_len k m =
     (if has_flag (flags p) PKT_FLAG_CTRL then Inr (Some k, m)
      else if buf_len < unat (body_sum p)
      then bind_res (packet_free_m (Some k) m) (\<lambda>m. Inr (None, m))
      else
        case (if key_len p > 0
              then (case mem_alloc (mem_lose (opt_blk (pk_key k)) m) of (b, m) \<Rightarrow> (k\<lparr>pk_key := Some b\<rparr>, m))
              else (k, m)) of (k, m) \<Rightarrow>
        case (if value_len p > 0
              then (case mem_alloc (mem_lose (opt_blk (pk_value k)) m) of (b, m) \<Rightarrow> (k\<lparr>pk_value := Some b\<rparr>, m))
              else (k, m)) of (k, m) \<Rightarrow>
        Inr (Some k, m))"

definition rb_new_m :: "'m mem_scheme \<Rightarrow> rb_blk \<times> 'm mem_scheme" where
  "rb_new_m m =
     (case mem_alloc m of (b, m) \<Rightarrow>
      case mem_alloc m of (c, m) \<Rightarrow> (\<lparr>rb_self = b, rb_bytes = c\<rparr>, m))"

definition rb_free_m :: "rb_blk option \<Rightarrow> 'm mem_scheme \<Rightarrow> 'm mem_scheme res" where
  "rb_free_m p m =
     (case p of None \<Rightarrow> Inr m
      | Some k \<Rightarrow> bind_res (mem_free (Some (rb_bytes k)) m) (mem_free (Some (rb_self k))))"

section \<open>What is owned\<close>

definition pk_blocks :: "pk_blk \<Rightarrow> blk multiset" where
  "pk_blocks k = {#pk_self k#} + opt_blk (pk_key k) + opt_blk (pk_value k)"

definition rb_blocks :: "rb_blk \<Rightarrow> blk multiset" where
  "rb_blocks k = {#rb_self k, rb_bytes k#}"

text \<open>The blocks of a structure behind a pointer that may be \<open>NULL\<close>.\<close>

definition opt_blocks :: "('a \<Rightarrow> blk multiset) \<Rightarrow> 'a option \<Rightarrow> blk multiset" where
  "opt_blocks f p = (case p of None \<Rightarrow> {#} | Some x \<Rightarrow> f x)"

lemma opt_blocks_simps [simp]: "opt_blocks f None = {#}" "opt_blocks f (Some x) = f x"
  by (simp_all add: opt_blocks_def)

lemma opt_blk_simps [simp]: "opt_blk None = {#}" "opt_blk (Some b) = {#b#}"
  by (simp_all add: opt_blk_def)

text \<open>
  The blocks \<open>M\<close> are owned: each is live, no two structures share one, and all other live
  blocks were lost.
\<close>

definition accounts :: "'m mem_scheme \<Rightarrow> blk multiset \<Rightarrow> bool" where
  "accounts m M \<longleftrightarrow> finite (live m) \<and> mset_set (live m) = M + lost m \<and> (\<forall>b \<in> live m. b < fresh m)"

text \<open>Only the memory changes, not what a state keeps besides.\<close>

abbreviation only_mem :: "'m mem_scheme \<Rightarrow> 'm mem_scheme \<Rightarrow> bool" where
  "only_mem m m' \<equiv> mem.more m' = mem.more m"

lemma more_simps [simp]:
  "mem.more (mem_grow m) = mem.more m" "mem.more (mem_lose bs m) = mem.more m"
  "mem.more (m\<lparr>live := l\<rparr>) = mem.more m"
  by (simp_all add: mem_grow_def mem_lose_def)

lemma accounts_empty: "accounts mem_empty {#}"
  by (simp add: accounts_def mem_empty_def)

lemma accounts_grow: "accounts m M \<Longrightarrow> accounts (mem_grow m) (add_mset (fresh m) M)"
  by (auto simp: accounts_def mem_grow_def less_Suc_eq)

lemma accounts_lose: "accounts m (N + M) \<Longrightarrow> accounts (mem_lose N m) M"
  by (auto simp: accounts_def mem_lose_def ac_simps)

lemma accounts_free:
  assumes "accounts m (opt_blk p + M)"
  shows "\<exists>m'. mem_free p m = Inr m' \<and> accounts m' M \<and> only_mem m m' \<and> lost m' = lost m"
proof (cases p)
  case (Some b)
  have fin: "finite (live m)" and ms: "mset_set (live m) = add_mset b (M + lost m)"
    using assms Some by (simp_all add: accounts_def)
  then have b: "b \<in> live m" by (metis elem_mset_set union_single_eq_member add_mset_add_single union_commute)
  have "mset_set (live m - {b}) = M + lost m" using ms b fin by (simp add: mset_set_Diff)
  then have "accounts (m\<lparr>live := live m - {b}\<rparr>) M" using assms by (simp add: accounts_def)
  then show ?thesis using b Some by (simp add: mem_free_def)
qed (use assms in \<open>simp add: mem_free_def\<close>)

lemma accounts_realloc:
  assumes "accounts m (opt_blk p + M)"
  shows "\<exists>b m'. realloc_m p m = Inr (b, m') \<and> accounts m' (add_mset b M) \<and> only_mem m m' \<and> lost m' = lost m"
  using accounts_free [OF assms] accounts_grow by (force simp: realloc_m_def mem_alloc_def mem_grow_def)

text \<open>All live blocks are accounted for, so their number is known.\<close>

lemma accounts_card: "accounts m M \<Longrightarrow> card (live m) = size M + size (lost m)"
  unfolding accounts_def by (metis size_mset_set size_union)

lemma accounts_live:
  assumes "accounts m M" "b \<in># M"
  shows "b \<in> live m \<and> b < fresh m"
proof -
  have "finite (live m)" using assms(1) by (simp add: accounts_def)
  moreover have "b \<in># mset_set (live m)" using assms by (simp add: accounts_def)
  ultimately have "b \<in> live m" by simp
  then show ?thesis using assms(1) by (simp add: accounts_def)
qed

lemma accounts_diff:
  assumes "accounts m (N + M)" "accounts m' M" "lost m' = lost m"
  shows "live m' = live m - set_mset N"
proof (rule set_eqI)
  fix b
  have "count (mset_set (live m)) b = count N b + count (mset_set (live m')) b"
    using assms by (simp add: accounts_def)
  then show "b \<in> live m' \<longleftrightarrow> b \<in> live m - set_mset N"
    using assms(1,2) by (auto simp: accounts_def count_mset_set' not_in_iff split: if_splits)
qed

lemma accounts_cong: "accounts m M \<Longrightarrow> M = N \<Longrightarrow> accounts m N"
  by simp

section \<open>Running beside the program\<close>

text \<open>
  A run with blocks next to a run without: if the run without fails, so does the other one, with
  the same error; otherwise both return, with results related by \<open>P\<close>. In particular the run with
  blocks has no failures of its own.
\<close>

definition sim :: "('a \<Rightarrow> 'b \<Rightarrow> bool) \<Rightarrow> 'a res \<Rightarrow> 'b res \<Rightarrow> bool" where
  "sim P r s = (case r of Inl e \<Rightarrow> s = Inl e | Inr x \<Rightarrow> \<exists>y. s = Inr y \<and> P x y)"

lemma sim_simps [simp]: "sim P (Inl e) (Inl e)" "sim P (Inr x) (Inr y) \<longleftrightarrow> P x y"
  by (simp_all add: sim_def)

lemma sim_bind:
  assumes "sim P r s" "\<And>x y. r = Inr x \<Longrightarrow> P x y \<Longrightarrow> sim Q (f x) (g y)"
  shows "sim Q (bind_res r f) (bind_res s g)"
proof (cases r)
  case (Inr x)
  then obtain y where "s = Inr y" "P x y" using assms(1) by (auto simp: sim_def)
  then show ?thesis using assms(2) Inr by simp
qed (use assms(1) in \<open>simp add: sim_def\<close>)

text \<open>The same step on both sides, and a step on one side only.\<close>

lemma sim_bind_same:
  assumes "\<And>x. r = Inr x \<Longrightarrow> sim Q (f x) (g x)"
  shows "sim Q (bind_res r f) (bind_res r g)"
  using assms by (cases r) auto

lemma sim_bind_right:
  assumes "\<exists>y. s = Inr y \<and> P y" "\<And>y. P y \<Longrightarrow> sim Q r (g y)"
  shows "sim Q r (bind_res s g)"
  using assms by auto

lemma sim_mono: "sim P r s \<Longrightarrow> (\<And>x y. r = Inr x \<Longrightarrow> P x y \<Longrightarrow> Q x y) \<Longrightarrow> sim Q r s"
  by (cases r) (auto simp: sim_def)

lemma sim_Inr: "sim P r s \<Longrightarrow> r = Inr x \<Longrightarrow> \<exists>y. s = Inr y \<and> P x y"
  by (simp add: sim_def)

lemma sim_result: "sim P r s \<Longrightarrow> s = Inr y \<Longrightarrow> \<exists>x. r = Inr x \<and> P x y"
  by (cases r) (auto simp: sim_def)

lemma sim_error: "sim P r s \<Longrightarrow> s = Inl e \<longleftrightarrow> r = Inl e"
  by (cases r) (auto simp: sim_def)

section \<open>Allocation and release of the structures\<close>

lemma packet_new_m_ok:
  assumes "accounts m M" "packet_new_m m = (k, m')"
  shows "accounts m' (pk_blocks k + M) \<and> only_mem m m' \<and> pk_key k = None \<and> pk_value k = None"
  using assms accounts_grow [OF assms(1)] by (auto simp: packet_new_m_def mem_alloc_def pk_blocks_def)

lemma packet_dup_m_ok:
  assumes "accounts m M" "packet_dup_m m = (k, m')"
  shows "accounts m' (pk_blocks k + M) \<and> only_mem m m' \<and> pk_key k \<noteq> None \<and> pk_value k \<noteq> None"
proof -
  obtain k0 m0 where k0: "packet_new_m m = (k0, m0)" by (cases "packet_new_m m")
  note new = packet_new_m_ok [OF assms(1) k0]
  from new [THEN conjunct1, THEN accounts_grow, THEN accounts_grow] assms(2) k0 new
  show ?thesis by (auto simp: packet_dup_m_def mem_alloc_def pk_blocks_def add_mset_commute ac_simps)
qed

lemma packet_free_m_ok:
  assumes "accounts m (opt_blocks pk_blocks p + M)"
  shows "\<exists>m'. packet_free_m p m = Inr m' \<and> accounts m' M \<and> only_mem m m' \<and> lost m' = lost m"
proof (cases p)
  case (Some k)
  have "accounts m (opt_blk (pk_key k) + (opt_blk (pk_value k) + (opt_blk (Some (pk_self k)) + M)))"
    using assms Some by (simp add: pk_blocks_def ac_simps)
  from accounts_free [OF this] obtain m1 where m1: "mem_free (pk_key k) m = Inr m1"
    "accounts m1 (opt_blk (pk_value k) + (opt_blk (Some (pk_self k)) + M))" "only_mem m m1" "lost m1 = lost m" by blast
  from accounts_free [OF m1(2)] obtain m2 where m2: "mem_free (pk_value k) m1 = Inr m2"
    "accounts m2 (opt_blk (Some (pk_self k)) + M)" "only_mem m1 m2" "lost m2 = lost m1" by blast
  from accounts_free [OF m2(2)] show ?thesis using m1 m2 Some by (auto simp: packet_free_m_def)
qed (use assms in \<open>simp add: packet_free_m_def\<close>)

lemma rb_new_m_ok:
  assumes "accounts m M" "rb_new_m m = (k, m')"
  shows "accounts m' (rb_blocks k + M) \<and> only_mem m m'"
  using assms accounts_grow [OF accounts_grow [OF assms(1)]]
  by (auto simp: rb_new_m_def mem_alloc_def rb_blocks_def add_mset_commute)

lemma rb_free_m_ok:
  assumes "accounts m (opt_blocks rb_blocks p + M)"
  shows "\<exists>m'. rb_free_m p m = Inr m' \<and> accounts m' M \<and> only_mem m m' \<and> lost m' = lost m"
proof (cases p)
  case (Some k)
  have "accounts m (opt_blk (Some (rb_bytes k)) + (opt_blk (Some (rb_self k)) + M))"
    using assms Some by (simp add: rb_blocks_def ac_simps)
  from accounts_free [OF this] obtain m1 where m1: "mem_free (Some (rb_bytes k)) m = Inr m1"
    "accounts m1 (opt_blk (Some (rb_self k)) + M)" "only_mem m m1" "lost m1 = lost m" by blast
  from accounts_free [OF m1(2)] show ?thesis using m1 Some by (auto simp: rb_free_m_def)
qed (use assms in \<open>simp add: rb_free_m_def\<close>)

text \<open>The body decoder returns a packet exactly when the model of its data does.\<close>

lemma packet_decode_body_m_ok:
  assumes acc: "accounts m (pk_blocks k + M)" and r: "packet_decode_body p buffer n = Inr po"
  shows "\<exists>ko m'. packet_decode_body_m p n k m = Inr (ko, m') \<and> accounts m' (opt_blocks pk_blocks ko + M) \<and>
     only_mem m m' \<and> (ko = None \<longleftrightarrow> po = None)"
proof -
  consider (ctrl) "has_flag (flags p) PKT_FLAG_CTRL"
    | (short) "\<not> has_flag (flags p) PKT_FLAG_CTRL" "n < unat (body_sum p)"
    | (data) "\<not> has_flag (flags p) PKT_FLAG_CTRL" "\<not> n < unat (body_sum p)" by blast
  then show ?thesis
  proof cases
    case ctrl
    then show ?thesis using acc r by (auto simp: packet_decode_body_m_def packet_decode_body_def bind_res_Inr_iff)
  next
    case short
    then show ?thesis using packet_free_m_ok [of m "Some k" M] acc r
      by (auto simp: packet_decode_body_m_def packet_decode_body_def)
  next
    case data
    define r1 where "r1 = (if key_len p > 0
      then (case mem_alloc (mem_lose (opt_blk (pk_key k)) m) of (b, m) \<Rightarrow> (k\<lparr>pk_key := Some b\<rparr>, m)) else (k, m))"
    obtain k1 m1 where k1: "r1 = (k1, m1)" by (cases r1)
    have "accounts m (opt_blk (pk_key k) + (pk_blocks (k\<lparr>pk_key := None\<rparr>) + M))"
      using acc by (simp add: pk_blocks_def ac_simps)
    from accounts_grow [OF accounts_lose [OF this]] have a1: "accounts m1 (pk_blocks k1 + M)" "only_mem m m1"
      using k1 acc by (auto simp: r1_def mem_alloc_def pk_blocks_def add_mset_commute ac_simps split: if_splits)
    define r2 where "r2 = (if value_len p > 0
      then (case mem_alloc (mem_lose (opt_blk (pk_value k1)) m1) of (b, m) \<Rightarrow> (k1\<lparr>pk_value := Some b\<rparr>, m)) else (k1, m1))"
    obtain k2 m2 where k2: "r2 = (k2, m2)" by (cases r2)
    have "accounts m1 (opt_blk (pk_value k1) + (pk_blocks (k1\<lparr>pk_value := None\<rparr>) + M))"
      using a1(1) by (simp add: pk_blocks_def ac_simps)
    from accounts_grow [OF accounts_lose [OF this]] have a2: "accounts m2 (pk_blocks k2 + M)" "only_mem m1 m2"
      using k2 a1 by (auto simp: r2_def mem_alloc_def pk_blocks_def add_mset_commute ac_simps split: if_splits)
    have "packet_decode_body_m p n k m = Inr (Some k2, m2)"
      using data k1 k2 by (simp add: packet_decode_body_m_def r1_def r2_def)
    moreover have "po \<noteq> None"
      using data r by (auto simp: packet_decode_body_def bind_res_Inr_iff Let_def)
    ultimately show ?thesis using a1 a2 by simp
  qed
qed

end
