(* ===== verification/Server_Memory.thy ===== *)
theory Server_Memory
  imports Server_Loop Memory
begin

text \<open>
  The memory of the event loop, \<open>praxis2/src/server.c\<close>: the blocks of each client (its structure,
  its buffers, its packet) and what \<open>packet_free\<close>, \<open>rb_free\<close> and \<open>free\<close> release when a client is
  removed. Every operation runs the model of its data and calls the allocator where the code
  does. The theory shows for every callback that keeps to the contract \<open>memory_handler\<close> that the
  loop never frees a block twice and that what is live is what the clients and the callback own,
  besides the lost blocks; a client loses its first packet when it sends a second one.
\<close>

section \<open>State and operations\<close>

record cl_blk =
  cl_self :: blk
  cl_hdr :: rb_blk
  cl_pkt :: "rb_blk option"
  cl_pack :: "pk_blk option"

text \<open>\<open>cl_own\<close> gives the pointers that the structure of a client holds.\<close>

record smem = mem +
  cl_own :: "nat \<Rightarrow> cl_blk option"

type_synonym ('w, 'm) mcallback =
  "server \<Rightarrow> nat \<Rightarrow> packet option \<Rightarrow> 'w net_scheme \<Rightarrow> 'm smem_scheme
     \<Rightarrow> ((int \<times> server \<times> 'w net_scheme) \<times> 'm smem_scheme) res"

definition own_at :: "'m smem_scheme \<Rightarrow> nat \<Rightarrow> cl_blk res" where
  "own_at m a = (case cl_own m a of None \<Rightarrow> Inl Use_After_Free | Some k \<Rightarrow> Inr k)"

definition put_own :: "nat \<Rightarrow> cl_blk \<Rightarrow> 'm smem_scheme \<Rightarrow> 'm smem_scheme" where
  "put_own a k m = m\<lparr>cl_own := (cl_own m)(a \<mapsto> k)\<rparr>"

definition server_remove_client_m ::
  "server \<Rightarrow> nat \<Rightarrow> 'w net_scheme \<Rightarrow> 'm smem_scheme \<Rightarrow> ((server \<times> 'w net_scheme) \<times> 'm smem_scheme) res" where
  "server_remove_client_m srv a w m =
     (case find (\<lambda>c. c_id c = a) (clients srv) of
        None \<Rightarrow> Inr ((srv, w), m)
      | Some c \<Rightarrow>
          bind_res (own_at m a) (\<lambda>k.
          bind_res (rb_free_m (Some (cl_hdr k)) m) (\<lambda>m.
          bind_res (rb_free_m (cl_pkt k) m) (\<lambda>m.
          bind_res (packet_free_m (cl_pack k) m) (\<lambda>m.
          bind_res (mem_free (Some (cl_self k)) m) (\<lambda>m.
          Inr (server_remove_client srv a w, m\<lparr>cl_own := (cl_own m)(a := None)\<rparr>)))))))"

text \<open>The pointer \<open>c->pack\<close> is overwritten.\<close>

definition client_decode_hdr_m ::
  "(nat \<Rightarrow> byte) \<Rightarrow> client \<Rightarrow> cl_blk \<Rightarrow> 'm smem_scheme \<Rightarrow> ((client \<times> cl_blk) \<times> 'm smem_scheme) res" where
  "client_decode_hdr_m junk c k m =
     bind_res (client_decode_hdr junk c) (\<lambda>c'.
     case packet_new_m (mem_lose (opt_blocks pk_blocks (cl_pack k)) m) of (pk, m) \<Rightarrow>
     case rb_new_m (mem_lose (opt_blocks rb_blocks (cl_pkt k)) m) of (rk, m) \<Rightarrow>
     Inr ((c', k\<lparr>cl_pack := Some pk, cl_pkt := Some rk\<rparr>), m))"

definition client_decode_body_m ::
  "(nat \<Rightarrow> byte) \<Rightarrow> client \<Rightarrow> cl_blk \<Rightarrow> 'm smem_scheme \<Rightarrow> ((client \<times> cl_blk) \<times> 'm smem_scheme) res" where
  "client_decode_body_m junk c k m =
     bind_res (client_decode_body junk c) (\<lambda>c'.
     case (pkt_buf c, pack c, cl_pack k) of
       (Some pb, Some p, Some pk) \<Rightarrow>
         bind_res (packet_decode_body_m p (unat (rb_can_read pb)) pk m) (\<lambda>(pko, m).
         bind_res (rb_free_m (cl_pkt k) m) (\<lambda>m.
         Inr ((c', k\<lparr>cl_pack := pko, cl_pkt := None\<rparr>), m)))
     | _ \<Rightarrow> Inl Use_After_Free)"

definition server_deliver_packet_m ::
  "('w, 'm) mcallback option \<Rightarrow> nat \<Rightarrow> server \<Rightarrow> 'w net_scheme \<Rightarrow> 'm smem_scheme
     \<Rightarrow> ((server \<times> 'w net_scheme) \<times> 'm smem_scheme) res" where
  "server_deliver_packet_m packet_cb a srv w m =
     (case packet_cb of None \<Rightarrow> Inr ((srv, w), m)
      | Some cb \<Rightarrow>
          bind_res (client_at srv a) (\<lambda>c.
          bind_res (cb srv a (pack c) w m) (\<lambda>((rsp, srv, w), m).
          if rsp = CB_REMOVE_CLIENT then server_remove_client_m srv a w m else Inr ((srv, w), m))))"

definition server_add_client_m :: "(nat \<Rightarrow> byte) \<Rightarrow> int \<Rightarrow> server \<Rightarrow> 'm smem_scheme \<Rightarrow> server \<times> 'm smem_scheme" where
  "server_add_client_m junk fd srv m =
     (case mem_alloc m of (b, m) \<Rightarrow>
      case rb_new_m m of (h, m) \<Rightarrow>
        (server_add_client junk fd srv,
         put_own (next_id srv) \<lparr>cl_self = b, cl_hdr = h, cl_pkt = None, cl_pack = None\<rparr> m))"

fun server_stop_loop_m ::
  "nat list \<Rightarrow> server \<Rightarrow> 'w net_scheme \<Rightarrow> 'm smem_scheme \<Rightarrow> ((server \<times> 'w net_scheme) \<times> 'm smem_scheme) res" where
  "server_stop_loop_m [] srv w m = Inr ((srv, w), m)"
| "server_stop_loop_m (a # as) srv w m =
     bind_res (server_remove_client_m srv a w m) (\<lambda>((srv, w), m). server_stop_loop_m as srv w m)"

definition server_stop_m ::
  "server \<Rightarrow> 'w net_scheme \<Rightarrow> 'm smem_scheme \<Rightarrow> ((server \<times> 'w net_scheme) \<times> 'm smem_scheme) res" where
  "server_stop_m srv w m = server_stop_loop_m (map c_id (clients srv)) srv w m"

definition serve_client_m ::
  "('w, 'm) mcallback option \<Rightarrow> (nat \<Rightarrow> byte) \<Rightarrow> nat \<Rightarrow> int \<Rightarrow> server \<Rightarrow> 'w net_scheme \<Rightarrow> 'm smem_scheme
     \<Rightarrow> ((server \<times> 'w net_scheme) \<times> 'm smem_scheme) res" where
  "serve_client_m packet_cb junk a fd srv w m =
     bind_res (client_at srv a) (\<lambda>c.
     bind_res (own_at m a) (\<lambda>k.
     if state c = IDLE then
       bind_res (recv_into (header_buf c) fd w) (\<lambda>(nbytes, rb, w).
       if nbytes > 0 then
         let c = c\<lparr>header_buf := rb\<rparr> in
         if rb_can_read rb = of_nat PKT_HEADER_LEN
         then bind_res (client_decode_hdr_m junk c k m) (\<lambda>((c, k), m). Inr ((put_client c srv, w), put_own a k m))
         else Inr ((put_client c srv, w), m)
       else if nbytes = 0 then server_remove_client_m srv a w m
       else Inr ((srv, w), m))
     else case pkt_buf c of None \<Rightarrow> Inl Null_Deref
     | Some pb \<Rightarrow>
       bind_res (recv_into pb fd w) (\<lambda>(nbytes, rb, w).
       if nbytes > 0 then
         let c = c\<lparr>pkt_buf := Some rb\<rparr> in
         if rb_can_write rb = 0
         then bind_res (client_decode_body_m junk c k m) (\<lambda>((c, k), m).
              server_deliver_packet_m packet_cb a (put_client c srv) w (put_own a k m))
         else Inr ((put_client c srv, w), m)
       else if nbytes = 0 then server_remove_client_m srv a w m
       else Inr ((srv, w), m))))"

fun serve_loop_m ::
  "('w, 'm) mcallback option \<Rightarrow> (nat \<Rightarrow> byte) \<Rightarrow> (int \<times> bool) list \<Rightarrow> int \<Rightarrow> nat option \<Rightarrow> server \<Rightarrow> 'w net_scheme
     \<Rightarrow> 'm smem_scheme \<Rightarrow> ((server \<times> 'w net_scheme) \<times> 'm smem_scheme) res" where
  "serve_loop_m cb junk fds k None srv w m = Inr ((srv, w), m)"
| "serve_loop_m cb junk [] k (Some a) srv w m = (if k < n_clients srv then Inl Out_Of_Bounds else Inr ((srv, w), m))"
| "serve_loop_m cb junk ((fd, ready) # fds) k (Some a) srv w m =
     (if k < n_clients srv then
        bind_res (next_in a (clients srv)) (\<lambda>nxt.
        bind_res (if ready then serve_client_m cb junk a fd srv w m else Inr ((srv, w), m)) (\<lambda>((srv, w), m).
        serve_loop_m cb junk fds (k + 1) nxt srv w m))
      else Inr ((srv, w), m))"

fun sweep_loop_m ::
  "nat list \<Rightarrow> server \<Rightarrow> 'w net_scheme \<Rightarrow> 'm smem_scheme \<Rightarrow> ((server \<times> 'w net_scheme) \<times> 'm smem_scheme) res" where
  "sweep_loop_m [] srv w m = Inr ((srv, w), m)"
| "sweep_loop_m (a # as) srv w m =
     bind_res (client_at srv a) (\<lambda>c.
     bind_res (if state c = REMOVE then server_remove_client_m srv a w m else Inr ((srv, w), m)) (\<lambda>((srv, w), m).
     sweep_loop_m as srv w m))"

definition serve_ready_m ::
  "('w, 'm) mcallback option \<Rightarrow> (nat \<Rightarrow> byte) \<Rightarrow> int option \<Rightarrow> bool list \<Rightarrow> server \<Rightarrow> 'w net_scheme \<Rightarrow> 'm smem_scheme
     \<Rightarrow> ((server \<times> 'w net_scheme) \<times> 'm smem_scheme) res" where
  "serve_ready_m cb junk accepted ready srv w m =
     bind_res (serve_loop_m cb junk (zip (map c_socket (clients srv)) ready) 0 (first_client srv) srv w m)
       (\<lambda>((srv, w), m).
     bind_res (sweep_loop_m (map c_id (clients srv)) srv w m) (\<lambda>((srv, w), m).
     Inr (case accepted of None \<Rightarrow> ((srv, w), m)
       | Some fd \<Rightarrow> (case server_add_client_m junk fd srv m of (srv, m) \<Rightarrow> ((srv, w), m)))))"

text \<open>\<open>fds\<close> is the array for \<open>poll\<close>.\<close>

definition leave_loop_m ::
  "blk option \<Rightarrow> server \<Rightarrow> 'w net_scheme \<Rightarrow> 'm smem_scheme \<Rightarrow> ((server \<times> 'w net_scheme) \<times> 'm smem_scheme) res" where
  "leave_loop_m fds srv w m = bind_res (mem_free fds m) (server_stop_m srv w)"

fun server_run_loop_m ::
  "('w, 'm) mcallback option \<Rightarrow> (nat \<Rightarrow> byte) \<Rightarrow> poll_result list \<Rightarrow> blk option \<Rightarrow> server \<Rightarrow> 'w net_scheme
     \<Rightarrow> 'm smem_scheme \<Rightarrow> ((server \<times> 'w net_scheme) \<times> 'm smem_scheme) res" where
  "server_run_loop_m cb junk polls fds srv w m =
     (if \<not> active srv then leave_loop_m fds srv w m
      else bind_res (realloc_m fds m) (\<lambda>(b, m).
        case polls of
        [] \<Rightarrow> Inl Blocked
      | PollError # _ \<Rightarrow> leave_loop_m (Some b) srv w m
      | PollTimeout # polls \<Rightarrow> server_run_loop_m cb junk polls (Some b) srv w m
      | PollReady stdin_ready accepted ready # polls \<Rightarrow>
          if stdin_ready then leave_loop_m (Some b) srv w m
          else bind_res (serve_ready_m cb junk accepted ready srv w m) (\<lambda>((srv, w), m).
            server_run_loop_m cb junk polls (Some b) srv w m)))"

declare server_run_loop_m.simps [simp del]

definition server_run_m ::
  "('w, 'm) mcallback option \<Rightarrow> (nat \<Rightarrow> byte) \<Rightarrow> poll_result list \<Rightarrow> server \<Rightarrow> 'w net_scheme \<Rightarrow> 'm smem_scheme
     \<Rightarrow> ((server \<times> 'w net_scheme) \<times> 'm smem_scheme) res" where
  "server_run_m cb junk polls srv w m = server_run_loop_m cb junk polls None (srv\<lparr>active := True\<rparr>) w m"

section \<open>What the clients own\<close>

definition cl_blocks :: "cl_blk \<Rightarrow> blk multiset" where
  "cl_blocks k = {#cl_self k#} + rb_blocks (cl_hdr k) + opt_blocks rb_blocks (cl_pkt k) + opt_blocks pk_blocks (cl_pack k)"

definition own_blocks :: "'m smem_scheme \<Rightarrow> nat list \<Rightarrow> blk multiset" where
  "own_blocks m as = (\<Sum>a \<leftarrow> as. opt_blocks cl_blocks (cl_own m a))"

definition cl_shape :: "client \<Rightarrow> cl_blk \<Rightarrow> bool" where
  "cl_shape c k \<longleftrightarrow> (cl_pkt k = None \<longleftrightarrow> pkt_buf c = None) \<and> (cl_pack k = None \<longleftrightarrow> pack c = None)"

definition cl_shapes :: "server \<Rightarrow> 'm smem_scheme \<Rightarrow> bool" where
  "cl_shapes srv m \<longleftrightarrow> (\<forall>c \<in> set (clients srv). \<exists>k. cl_own m (c_id c) = Some k \<and> cl_shape c k)"

lemma only_mem_own: "only_mem m m' \<Longrightarrow> cl_own m' = cl_own (m :: 'm smem_scheme)"
  by (cases m; cases m') simp

lemma only_mem_more: "only_mem m m' \<Longrightarrow> smem.more m' = smem.more (m :: 'm smem_scheme)"
  by (cases m; cases m') simp

lemma accounts_own [simp]:
  "accounts (m\<lparr>cl_own := f\<rparr>) M = accounts m M" "accounts (put_own a k m) M = accounts m M"
  by (simp_all add: accounts_def put_own_def)

lemma put_own_simps [simp]:
  "cl_own (put_own a k m) = (cl_own m)(a \<mapsto> k)" "smem.more (put_own a k m) = smem.more m"
  by (simp_all add: put_own_def)

lemma own_blocks_simps [simp]:
  "own_blocks m [] = {#}" "own_blocks m (a # as) = opt_blocks cl_blocks (cl_own m a) + own_blocks m as"
  by (simp_all add: own_blocks_def)

lemma own_blocks_cong: "(\<And>b. b \<in> set as \<Longrightarrow> cl_own m' b = cl_own m b) \<Longrightarrow> own_blocks m' as = own_blocks m as"
  by (induction as) auto

lemma own_blocks_remove:
  "a \<in> set as \<Longrightarrow> own_blocks m as = opt_blocks cl_blocks (cl_own m a) + own_blocks m (remove1 a as)"
  by (induction as) (auto simp: ac_simps)

lemma cl_shapes_at:
  assumes "cl_shapes srv m" "client_at srv a = Inr c"
  obtains k where "cl_own m a = Some k" "cl_shape c k" "own_at m a = Inr k"
  using assms client_at_SomeD [OF assms(2)] by (auto simp: cl_shapes_def own_at_def)

lemma remove_m_ok:
  assumes wf: "srv_wf srv" and sh: "cl_shapes srv m" and acc: "accounts m (own_blocks m (ids srv) + M)"
  shows "\<exists>m'. server_remove_client_m srv a w m = Inr (server_remove_client srv a w, m') \<and>
     cl_shapes (fst (server_remove_client srv a w)) m' \<and>
     accounts m' (own_blocks m' (ids (fst (server_remove_client srv a w))) + M) \<and> smem.more m' = smem.more m \<and>
     lost m' = lost m"
proof (cases "find (\<lambda>c. c_id c = a) (clients srv)")
  case None
  then show ?thesis using sh acc by (simp add: server_remove_client_m_def server_remove_client_def)
next
  case (Some c)
  then have c: "client_at srv a = Inr c" by (simp add: client_at_def)
  obtain k where k: "cl_own m a = Some k" "own_at m a = Inr k" using cl_shapes_at [OF sh c] by metis
  have a: "a \<in> set (ids srv)" using client_at_SomeD [OF c] by auto
  let ?R = "own_blocks m (remove1 a (ids srv))"
  have "accounts m (opt_blocks rb_blocks (Some (cl_hdr k)) + (opt_blocks rb_blocks (cl_pkt k) +
      (opt_blocks pk_blocks (cl_pack k) + (opt_blk (Some (cl_self k)) + (?R + M)))))"
    using acc own_blocks_remove [OF a, of m] k(1) by (simp add: cl_blocks_def ac_simps)
  from rb_free_m_ok [OF this] obtain m1 where m1: "rb_free_m (Some (cl_hdr k)) m = Inr m1" "only_mem m m1" "lost m1 = lost m"
    "accounts m1 (opt_blocks rb_blocks (cl_pkt k) + (opt_blocks pk_blocks (cl_pack k) + (opt_blk (Some (cl_self k)) + (?R + M))))" by blast
  from rb_free_m_ok [OF m1(4)] obtain m2 where m2: "rb_free_m (cl_pkt k) m1 = Inr m2" "only_mem m1 m2" "lost m2 = lost m1"
    "accounts m2 (opt_blocks pk_blocks (cl_pack k) + (opt_blk (Some (cl_self k)) + (?R + M)))" by blast
  from packet_free_m_ok [OF m2(4)] obtain m3 where m3: "packet_free_m (cl_pack k) m2 = Inr m3" "only_mem m2 m3" "lost m3 = lost m2"
    "accounts m3 (opt_blk (Some (cl_self k)) + (?R + M))" by blast
  from accounts_free [OF m3(4)] obtain m4 where m4: "mem_free (Some (cl_self k)) m3 = Inr m4" "only_mem m3 m4" "lost m4 = lost m3"
    "accounts m4 (?R + M)" by blast
  let ?m = "m4\<lparr>cl_own := (cl_own m4)(a := None)\<rparr>"
  have eq: "server_remove_client_m srv a w m = Inr (server_remove_client srv a w, ?m)"
    using Some k(2) m1 m2 m3 m4 by (simp add: server_remove_client_m_def)
  obtain srv' w' where r: "server_remove_client srv a w = (srv', w')" by (cases "server_remove_client srv a w")
  note rem = server_remove_client_ok [OF wf r]
  have om: "only_mem m m4" using m1(2) m2(2) m3(2) m4(2) by simp
  note own = only_mem_own [OF om]
  have gone: "a \<notin> set (remove1 a (ids srv))" using wf by (simp add: srv_wf_def)
  have "own_blocks ?m (ids srv') = ?R"
    using rem gone own by (auto intro!: own_blocks_cong)
  moreover have "c_id d \<noteq> a \<and> d \<in> set (clients srv)" if "d \<in> set (clients srv')" for d
  proof -
    have "c_id d \<in> set (ids srv')" using that by simp
    moreover have "ids srv' = remove1 a (ids srv)" using rem by simp
    ultimately have "c_id d \<noteq> a" using gone by metis
    then show ?thesis using that rem by blast
  qed
  then have "cl_shapes srv' ?m" using sh own by (simp add: cl_shapes_def)
  moreover have "smem.more ?m = smem.more m" using only_mem_more [OF om] by simp
  ultimately show ?thesis using eq r m4(4) m1(3) m2(3) m3(3) m4(3) by simp
qed

text \<open>The two decoding steps, for a client with the blocks \<open>k\<close>.\<close>

lemma hdr_m_ok:
  assumes d: "client_decode_hdr junk c = Inr c'" and acc: "accounts m (cl_blocks k + M)"
  shows "\<exists>k' m'. client_decode_hdr_m junk c k m = Inr ((c', k'), m') \<and> cl_shape c' k' \<and>
     accounts m' (cl_blocks k' + M) \<and> only_mem m m'"
proof -
  obtain p rb where c': "c' = c\<lparr>state := HDR_RECVD, header_buf := rb, pack := Some p,
         pkt_buf := Some (rb_new junk (of_nat (packet_body_size p)))\<rparr>"
    using d by (auto simp: client_decode_hdr_def bind_res_Inr_iff split: option.splits)
  let ?R = "{#cl_self k#} + rb_blocks (cl_hdr k) + M"
  let ?m0 = "mem_lose (opt_blocks pk_blocks (cl_pack k)) m"
  obtain pk m1 where pk: "packet_new_m ?m0 = (pk, m1)" by (cases "packet_new_m ?m0")
  let ?m1 = "mem_lose (opt_blocks rb_blocks (cl_pkt k)) m1"
  obtain rk m2 where rk: "rb_new_m ?m1 = (rk, m2)" by (cases "rb_new_m ?m1")
  have "accounts m (opt_blocks pk_blocks (cl_pack k) + (opt_blocks rb_blocks (cl_pkt k) + ?R))"
    using acc by (simp add: cl_blocks_def ac_simps)
  from packet_new_m_ok [OF accounts_lose [OF this] pk]
  have a1: "accounts m1 (pk_blocks pk + (opt_blocks rb_blocks (cl_pkt k) + ?R))" and o1: "only_mem m m1" by simp_all
  have "accounts m1 (opt_blocks rb_blocks (cl_pkt k) + (pk_blocks pk + ?R))"
    using a1 by (simp add: ac_simps)
  from rb_new_m_ok [OF accounts_lose [OF this] rk]
  have a2: "accounts m2 (rb_blocks rk + (pk_blocks pk + ?R))" and o2: "only_mem m m2" using o1 by simp_all
  have "client_decode_hdr_m junk c k m = Inr ((c', k\<lparr>cl_pack := Some pk, cl_pkt := Some rk\<rparr>), m2)"
    using d pk rk by (simp add: client_decode_hdr_m_def)
  moreover have "cl_shape c' (k\<lparr>cl_pack := Some pk, cl_pkt := Some rk\<rparr>)" by (simp add: c' cl_shape_def)
  moreover have "accounts m2 (cl_blocks (k\<lparr>cl_pack := Some pk, cl_pkt := Some rk\<rparr>) + M)"
    using a2 by (simp add: cl_blocks_def ac_simps)
  ultimately show ?thesis using o2 by blast
qed

lemma body_m_ok:
  assumes d: "client_decode_body junk c = Inr c'" and sh: "cl_shape c k" and acc: "accounts m (cl_blocks k + M)"
  shows "\<exists>k' m'. client_decode_body_m junk c k m = Inr ((c', k'), m') \<and> cl_shape c' k' \<and>
     accounts m' (cl_blocks k' + M) \<and> only_mem m m'"
proof -
  obtain pb p buffer po where c: "pkt_buf c = Some pb" "pack c = Some p"
    and po: "packet_decode_body p buffer (unat (rb_can_read pb)) = Inr po"
    and c': "c' = c\<lparr>pack := po, state := IDLE, pkt_buf := None\<rparr>"
    using d by (auto simp: client_decode_body_def bind_res_Inr_iff Let_def split: option.splits)
  obtain pk where pk: "cl_pack k = Some pk" using sh c(2) by (auto simp: cl_shape_def)
  let ?R = "{#cl_self k#} + rb_blocks (cl_hdr k) + M"
  have "accounts m (pk_blocks pk + (opt_blocks rb_blocks (cl_pkt k) + ?R))"
    using acc pk by (simp add: cl_blocks_def ac_simps)
  from packet_decode_body_m_ok [OF this po] obtain ko m1 where
    m1: "packet_decode_body_m p (unat (rb_can_read pb)) pk m = Inr (ko, m1)" "only_mem m m1" "ko = None \<longleftrightarrow> po = None"
      "accounts m1 (opt_blocks pk_blocks ko + (opt_blocks rb_blocks (cl_pkt k) + ?R))" by blast
  have "accounts m1 (opt_blocks rb_blocks (cl_pkt k) + (opt_blocks pk_blocks ko + ?R))"
    using m1(4) by (simp add: ac_simps)
  from rb_free_m_ok [OF this] obtain m2 where m2: "rb_free_m (cl_pkt k) m1 = Inr m2" "only_mem m1 m2"
    "accounts m2 (opt_blocks pk_blocks ko + ?R)" by blast
  let ?k = "k\<lparr>cl_pack := ko, cl_pkt := None\<rparr>"
  have "client_decode_body_m junk c k m = Inr ((c', ?k), m2)"
    using d c pk m1(1) m2(1) by (simp add: client_decode_body_m_def)
  moreover have "cl_shape c' ?k" using m1(3) by (simp add: c' cl_shape_def)
  moreover have "accounts m2 (cl_blocks ?k + M)" using m2(3) by (simp add: cl_blocks_def ac_simps)
  moreover have "only_mem m m2" using m1(2) m2(2) by simp
  ultimately show ?thesis by blast
qed

text \<open>Writing the client and its pointers back.\<close>

lemma put_m_ok:
  assumes wf: "srv_wf srv" and sh: "cl_shapes srv m" and c: "client_at srv a = Inr c"
    and c': "c_id c' = a" "cl_shape c' k'" and own: "cl_own m1 = cl_own m"
    and acc: "accounts m1 (cl_blocks k' + (own_blocks m (remove1 a (ids srv)) + M))"
  shows "cl_shapes (put_client c' srv) (put_own a k' m1) \<and>
     accounts (put_own a k' m1) (own_blocks (put_own a k' m1) (ids (put_client c' srv)) + M)"
proof
  show "cl_shapes (put_client c' srv) (put_own a k' m1)"
    using sh c' own by (auto simp: cl_shapes_def put_client_def)
  have a: "a \<in> set (ids srv)" using client_at_SomeD [OF c] by auto
  have gone: "a \<notin> set (remove1 a (ids srv))" using wf by (simp add: srv_wf_def)
  have "own_blocks (put_own a k' m1) (remove1 a (ids srv)) = own_blocks m (remove1 a (ids srv))"
    using gone own by (intro own_blocks_cong) auto
  then have "own_blocks (put_own a k' m1) (ids srv) = cl_blocks k' + own_blocks m (remove1 a (ids srv))"
    using own_blocks_remove [OF a, of "put_own a k' m1"] by simp
  then show "accounts (put_own a k' m1) (own_blocks (put_own a k' m1) (ids (put_client c' srv)) + M)"
    using acc by (simp add: ac_simps)
qed

text \<open>Changing a client without its pointers.\<close>

lemma put_same_ok:
  assumes sh: "cl_shapes srv m" and c: "client_at srv a = Inr c" and c': "c_id c' = a"
    "\<And>k. cl_shape c k \<Longrightarrow> cl_shape c' k"
  shows "cl_shapes (put_client c' srv) m"
  using sh c' client_at_SomeD [OF c] by (fastforce simp: cl_shapes_def put_client_def)

lemma marks_shapes:
  assumes "only_marks srv srv'" "cl_shapes srv m"
  shows "cl_shapes srv' m"
proof -
  obtain cs where cs: "srv' = srv\<lparr>clients := cs\<rparr>" "list_all2 marked (clients srv) cs"
    using assms(1) by (auto simp: only_marks_def)
  have "\<exists>c \<in> set (clients srv). marked c d" if "d \<in> set cs" for d
    using cs(2) that by (induction rule: list_all2_induct) auto
  then show ?thesis using assms(2) cs(1) by (fastforce simp: cl_shapes_def marked_def cl_shape_def)
qed

lemma stop_loop_m_ok:
  assumes "srv_wf srv" "cl_shapes srv m" "accounts m (own_blocks m (ids srv) + M)"
  shows "\<exists>m'. server_stop_loop_m as srv w m = Inr (server_stop_loop as srv w, m') \<and>
     cl_shapes (fst (server_stop_loop as srv w)) m' \<and>
     accounts m' (own_blocks m' (ids (fst (server_stop_loop as srv w))) + M) \<and> smem.more m' = smem.more m \<and>
     lost m' = lost m"
  using assms
proof (induction as arbitrary: srv w m)
  case (Cons a as)
  obtain srv1 w1 where r: "server_remove_client srv a w = (srv1, w1)" by (cases "server_remove_client srv a w")
  obtain m1 where m1: "server_remove_client_m srv a w m = Inr ((srv1, w1), m1)" "cl_shapes srv1 m1"
    "accounts m1 (own_blocks m1 (ids srv1) + M)" "smem.more m1 = smem.more m" "lost m1 = lost m"
    using remove_m_ok [OF Cons.prems, of a w] r by auto
  have "srv_wf srv1" using server_remove_client_ok [OF Cons.prems(1) r] by simp
  from Cons.IH [OF this m1(2,3), of w1] show ?case using m1 r by simp
qed simp

section \<open>The contract of the callback\<close>

text \<open>
  What a state owes: the process invariant \<open>winv\<close> of the callback, the relation \<open>rinv\<close> between
  its data and its pointers, and the blocks: those of the clients, those the callback keeps
  (\<open>rest\<close>), and \<open>F\<close> for the caller.
\<close>

definition owned ::
  "('w net_scheme \<Rightarrow> 'm smem_scheme \<Rightarrow> bool) \<Rightarrow> ('w net_scheme \<Rightarrow> 'm smem_scheme \<Rightarrow> blk multiset) \<Rightarrow> blk multiset
     \<Rightarrow> server \<times> 'w net_scheme \<Rightarrow> (server \<times> 'w net_scheme) \<times> 'm smem_scheme \<Rightarrow> bool" where
  "owned rinv rest F s y \<longleftrightarrow> fst y = s \<and> rinv (snd s) (snd y) \<and> cl_shapes (fst s) (snd y) \<and>
     accounts (snd y) (own_blocks (snd y) (ids (fst s)) + (rest (snd s) (snd y) + F))"

text \<open>
  A callback with blocks returns what the callback without blocks returns; it keeps its own books,
  leaves the pointers of the clients alone, and everything else that is owned stays owned.
\<close>

locale memory_handler = packet_handler cb winv
  for cb :: "'w callback" and winv :: "'w net_scheme \<Rightarrow> bool" +
  fixes cbm :: "('w, 'm) mcallback" and rinv :: "'w net_scheme \<Rightarrow> 'm smem_scheme \<Rightarrow> bool"
    and rest :: "'w net_scheme \<Rightarrow> 'm smem_scheme \<Rightarrow> blk multiset"
  assumes cbm_law: "winv w \<Longrightarrow> rinv w m \<Longrightarrow> a \<in> set (ids srv) \<Longrightarrow> accounts m (rest w m + B) \<Longrightarrow>
      sim (\<lambda>x y. fst y = x \<and> rinv (snd (snd x)) (snd y) \<and> cl_own (snd y) = cl_own m \<and>
          accounts (snd y) (rest (snd (snd x)) (snd y) + B)) (cb srv a p w) (cbm srv a p w m)"
    and rest_net: "rest (w\<lparr>inq := q\<rparr>) m = rest w m" "rest (w\<lparr>trace := t\<rparr>) m = rest w m"
    and rinv_net: "rinv (w\<lparr>inq := q\<rparr>) m = rinv w m" "rinv (w\<lparr>trace := t\<rparr>) m = rinv w m"
    and rest_more: "smem.more m' = smem.more m \<Longrightarrow> rest w m' = rest w m \<and> rinv w m' = rinv w m"
begin

lemma remove_owned:
  assumes wf: "srv_wf srv" and o: "owned rinv rest F (srv, w) ((srv, w), m)"
  shows "\<exists>m'. server_remove_client_m srv a w m = Inr (server_remove_client srv a w, m') \<and>
     owned rinv rest F (server_remove_client srv a w) (server_remove_client srv a w, m')"
proof -
  obtain srv' w' where r: "server_remove_client srv a w = (srv', w')" by (cases "server_remove_client srv a w")
  obtain t where t: "w' = w\<lparr>trace := t\<rparr>" using server_remove_client_ok [OF wf r] by blast
  from remove_m_ok [OF wf, of m "rest w m + F" a w] o obtain m' where
    m': "server_remove_client_m srv a w m = Inr ((srv', w'), m')" "cl_shapes srv' m'"
      "accounts m' (own_blocks m' (ids srv') + (rest w m + F))" "smem.more m' = smem.more m"
    using r by (auto simp: owned_def)
  from rest_more [OF m'(4), of w] have "rest w' m' = rest w m" "rinv w' m' = rinv w m"
    unfolding t rest_net rinv_net by simp_all
  then show ?thesis using m' r o by (simp add: owned_def)
qed

lemma deliver_owned:
  assumes wf: "srv_wf srv" "winv w" and a: "a \<in> set (ids srv)" and o: "owned rinv rest F (srv, w) ((srv, w), m)"
  shows "sim (owned rinv rest F) (server_deliver_packet (Some cb) a srv w) (server_deliver_packet_m (Some cbm) a srv w m)"
  unfolding server_deliver_packet_def server_deliver_packet_m_def option.case
proof (rule sim_bind_same, goal_cases)
  case (1 c)
  have acc: "accounts m (rest w m + (own_blocks m (ids srv) + F))" using o by (simp add: owned_def ac_simps)
  show ?case
  proof (rule sim_bind, rule cbm_law [OF wf(2) _ a acc], goal_cases)
    case 1
    then show ?case using o by (simp add: owned_def)
  next
    case (2 x y)
    obtain r srv' w' m' where xy: "x = (r, srv', w')" "y = ((r, srv', w'), m')" using 2(2) by (cases x; cases y) auto
    have marks: "only_marks srv srv'" "winv w'" using cb_frame [OF wf(2) a, of "pack c" r srv' w'] 2(1) xy(1) by simp_all
    have own: "own_blocks m' (ids srv') = own_blocks m (ids srv)"
      unfolding only_marks_ids [OF marks(1)] using 2(2) xy by (intro own_blocks_cong) simp
    have "cl_shapes srv' m" using o marks_shapes [OF marks(1), of m] by (auto simp: owned_def)
    then have "cl_shapes srv' m'" using 2(2) xy by (simp add: cl_shapes_def)
    then have "owned rinv rest F (srv', w') ((srv', w'), m')"
      using 2(2) xy own by (simp add: owned_def ac_simps)
    then show ?case
      using remove_owned [OF only_marks_wf [OF wf(1) marks(1)], of F w' m' a] xy by auto
  qed
qed

lemma recv_owned:
  assumes "rb_wf rb" "recv_into rb fd w = Inr (n, rb', w')" "owned rinv rest F (srv, w) ((srv, w), m)"
  shows "owned rinv rest F (srv, w') ((srv, w'), m)"
  using recv_into_wf [OF assms(1,2)] assms(3) rest_net(1) rinv_net(1) by (auto simp: owned_def)

lemma put_owned:
  assumes wf: "srv_wf srv" and o: "owned rinv rest F (srv, w) ((srv, w), m)" and c: "client_at srv a = Inr c"
    and k': "c_id c' = a" "cl_shape c' k'" "only_mem m m1" "accounts m1 (cl_blocks k' + (own_blocks m (remove1 a (ids srv)) + (rest w m + F)))"
  shows "owned rinv rest F (put_client c' srv, w) ((put_client c' srv, w), put_own a k' m1)"
proof -
  have sh: "cl_shapes srv m" using o by (simp add: owned_def)
  have "smem.more (put_own a k' m1) = smem.more m" using only_mem_more [OF k'(3)] by simp
  from put_m_ok [OF wf sh c k'(1,2) only_mem_own [OF k'(3)] k'(4)] rest_more [OF this, of w] o
  show ?thesis by (simp add: owned_def)
qed

lemma serve_header_owned:
  assumes wf: "srv_wf srv" "winv w" and o: "owned rinv rest F (srv, w) ((srv, w), m)"
    and c: "client_at srv a = Inr c" "client_wf c" "state c = IDLE"
  shows "sim (owned rinv rest F) (serve_client (Some cb) junk a fd srv w) (serve_client_m (Some cbm) junk a fd srv w m)"
proof -
  have sh: "cl_shapes srv m" using o by (simp add: owned_def)
  obtain k where k: "cl_own m a = Some k" "cl_shape c k" "own_at m a = Inr k" using cl_shapes_at [OF sh c(1)] by metis
  have ca: "a \<in> set (ids srv)" "c_id c = a" using client_at_SomeD [OF c(1)] by auto
  show ?thesis
    unfolding serve_client_def serve_client_m_def c(1) k(3) bind_res_simps if_P [OF c(3)]
  proof (rule sim_bind_same, clarify, goal_cases)
    case (1 n rb w1)
    note o1 = recv_owned [OF _ 1 o]
    have hb: "rb_wf (header_buf c)" using c(2) by (simp add: client_wf_def)
    have w1: "winv w1" using recv_into_wf [OF hb 1] winv_inq [OF wf(2)] by auto
    have o1: "owned rinv rest F (srv, w1) ((srv, w1), m)" using recv_owned [OF hb 1 o] .
    let ?c = "c\<lparr>header_buf := rb\<rparr>"
    have dec: "sim (owned rinv rest F) (bind_res (client_decode_hdr junk ?c) (\<lambda>c. Inr (put_client c srv, w1)))
        (bind_res (client_decode_hdr_m junk ?c k m) (\<lambda>((c, k), m). Inr ((put_client c srv, w1), put_own a k m)))"
      if full: "0 < n" "rb_can_read rb = 7"
    proof (cases "client_decode_hdr junk ?c")
      case (Inl e)
      then show ?thesis by (simp add: client_decode_hdr_m_def)
    next
      case (Inr c')
      have acc: "accounts m (cl_blocks k + (own_blocks m (remove1 a (ids srv)) + (rest w1 m + F)))"
        using o1 own_blocks_remove [OF ca(1), of m] k(1) by (simp add: owned_def ac_simps)
      from hdr_m_ok [OF Inr acc] obtain k' m' where
        k': "client_decode_hdr_m junk ?c k m = Inr ((c', k'), m')" "cl_shape c' k'" "only_mem m m'"
          "accounts m' (cl_blocks k' + (own_blocks m (remove1 a (ids srv)) + (rest w1 m + F)))" by blast
      have "c_id c' = a" using header_ok [OF wf(1) c(1,3) 1 full(1), of junk] Inr full(2) by simp
      from put_owned [OF wf(1) o1 c(1) this k'(2-4)] show ?thesis using Inr k'(1) by simp
    qed
    have put: "owned rinv rest F (put_client ?c srv, w1) ((put_client ?c srv, w1), m)"
    proof -
      have "cl_shapes (put_client ?c srv) m" using put_same_ok [OF sh c(1), of ?c] ca(2) by (simp add: cl_shape_def)
      then show ?thesis using o1 by (simp add: owned_def)
    qed
    show ?case
      using dec put o1 remove_owned [OF wf(1) o1, of a]
      by (auto simp: Let_def PKT_HEADER_LEN_def)
  qed
qed

lemma serve_body_owned:
  assumes wf: "srv_wf srv" "winv w" and o: "owned rinv rest F (srv, w) ((srv, w), m)"
    and c: "client_at srv a = Inr c" "client_wf c" "state c \<noteq> IDLE"
  shows "sim (owned rinv rest F) (serve_client (Some cb) junk a fd srv w) (serve_client_m (Some cbm) junk a fd srv w m)"
proof (cases "pkt_buf c")
  case None
  have sh: "cl_shapes srv m" using o by (simp add: owned_def)
  obtain k where "own_at m a = Inr k" using cl_shapes_at [OF sh c(1)] by metis
  then show ?thesis using None c by (simp add: serve_client_def serve_client_m_def)
next
  case (Some pb)
  have sh: "cl_shapes srv m" using o by (simp add: owned_def)
  obtain k where k: "cl_own m a = Some k" "cl_shape c k" "own_at m a = Inr k" using cl_shapes_at [OF sh c(1)] by metis
  have ca: "a \<in> set (ids srv)" "c_id c = a" using client_at_SomeD [OF c(1)] by auto
  have pw: "rb_wf pb" using c(2) Some by (auto simp: client_wf_def body_pending_def)
  show ?thesis
    unfolding serve_client_def serve_client_m_def c(1) k(3) bind_res_simps if_not_P [OF c(3)] Some option.case
  proof (rule sim_bind_same, clarify, goal_cases)
    case (1 n rb w1)
    have w1: "winv w1" using recv_into_wf [OF pw 1] winv_inq [OF wf(2)] by auto
    have o1: "owned rinv rest F (srv, w1) ((srv, w1), m)" using recv_owned [OF pw 1 o] .
    let ?c = "c\<lparr>pkt_buf := Some rb\<rparr>"
    have shc: "cl_shape ?c k" using k(2) Some by (simp add: cl_shape_def)
    have dec: "sim (owned rinv rest F)
        (bind_res (client_decode_body junk ?c) (\<lambda>c. server_deliver_packet (Some cb) a (put_client c srv) w1))
        (bind_res (client_decode_body_m junk ?c k m) (\<lambda>((c, k), m).
           server_deliver_packet_m (Some cbm) a (put_client c srv) w1 (put_own a k m)))"
      if n: "0 < n"
    proof (cases "client_decode_body junk ?c")
      case (Inl e)
      then show ?thesis by (simp add: client_decode_body_m_def)
    next
      case (Inr c')
      have acc: "accounts m (cl_blocks k + (own_blocks m (remove1 a (ids srv)) + (rest w1 m + F)))"
        using o1 own_blocks_remove [OF ca(1), of m] k(1) by (simp add: owned_def ac_simps)
      from body_m_ok [OF Inr shc acc] obtain k' m' where
        k': "client_decode_body_m junk ?c k m = Inr ((c', k'), m')" "cl_shape c' k'" "only_mem m m'"
          "accounts m' (cl_blocks k' + (own_blocks m (remove1 a (ids srv)) + (rest w1 m + F)))" by blast
      have s: "c_id c' = a" "srv_wf (put_client c' srv)"
        using body_ok [OF wf(1) c(1,3) Some 1 n, of junk] Inr by simp_all
      from deliver_owned [OF s(2) w1 _ put_owned [OF wf(1) o1 c(1) s(1) k'(2-4)], of a]
      show ?thesis using Inr k'(1) ca(1) by simp
    qed
    have put: "owned rinv rest F (put_client ?c srv, w1) ((put_client ?c srv, w1), m)"
    proof -
      have "cl_shapes (put_client ?c srv) m"
        using put_same_ok [OF sh c(1), of ?c] ca(2) Some by (simp add: cl_shape_def)
      then show ?thesis using o1 by (simp add: owned_def)
    qed
    show ?case
      using dec put o1 remove_owned [OF wf(1) o1, of a] by (auto simp: Let_def)
  qed
qed

lemma serve_client_owned:
  assumes wf: "srv_wf srv" "winv w" and o: "owned rinv rest F (srv, w) ((srv, w), m)"
  shows "sim (owned rinv rest F) (serve_client (Some cb) junk a fd srv w) (serve_client_m (Some cbm) junk a fd srv w m)"
proof (cases "client_at srv a")
  case (Inr c)
  then have "client_wf c" using client_at_SomeD [OF Inr] wf(1) by (auto simp: srv_wf_def)
  with serve_header_owned [OF assms Inr] serve_body_owned [OF assms Inr] show ?thesis by blast
qed (simp add: serve_client_def serve_client_m_def)

text \<open>The loops; what the functional lemmas say of the data is used as it stands.\<close>

lemma serve_loop_owned:
  assumes "srv_wf srv" "winv w" "owned rinv rest F (srv, w) ((srv, w), m)"
  shows "sim (owned rinv rest F) (serve_loop (Some cb) junk fds k p srv w) (serve_loop_m (Some cbm) junk fds k p srv w m)"
  using assms
proof (induction fds arbitrary: k p srv w m)
  case Nil
  then show ?case by (cases p) auto
next
  case (Cons f fds)
  obtain fd ready where f: "f = (fd, ready)" by (cases f)
  show ?case
  proof (cases p)
    case None
    then show ?thesis using Cons.prems by simp
  next
    case (Some a)
    have step: "sim (owned rinv rest F) (if ready then serve_client (Some cb) junk a fd srv w else Inr (srv, w))
        (if ready then serve_client_m (Some cbm) junk a fd srv w m else Inr ((srv, w), m))"
      using serve_client_owned [OF Cons.prems] Cons.prems(3) by simp
    show ?thesis
    proof (cases "k < n_clients srv")
      case True
      show ?thesis unfolding Some f serve_loop.simps serve_loop_m.simps if_P [OF True]
      proof (rule sim_bind_same, rule sim_bind [OF step], goal_cases)
        case (1 nxt x y)
        obtain srv1 w1 m1 where xy: "x = (srv1, w1)" "y = ((srv1, w1), m1)"
          using 1(3) by (cases x; cases y) (auto simp: owned_def)
        have "srv_wf srv1 \<and> winv w1"
          using 1(2) xy serve_client_ok [OF Cons.prems(1,2), of junk a fd srv1 w1] Cons.prems(1,2)
          by (auto split: if_splits)
        then show ?case using Cons.IH [of srv1 w1 m1] 1(3) xy by simp
      qed
    next
      case False
      then show ?thesis using Some f Cons.prems by simp
    qed
  qed
qed

lemma sweep_loop_owned:
  assumes "srv_wf srv" "winv w" "owned rinv rest F (srv, w) ((srv, w), m)"
  shows "sim (owned rinv rest F) (sweep_loop as srv w) (sweep_loop_m as srv w m)"
  using assms
proof (induction as arbitrary: srv w m)
  case (Cons a as)
  show ?case unfolding sweep_loop.simps sweep_loop_m.simps
  proof (rule sim_bind_same, goal_cases)
    case (1 c)
    show ?case
    proof (cases "state c = REMOVE")
      case True
      obtain m1 where m1: "server_remove_client_m srv a w m = Inr (server_remove_client srv a w, m1)"
        "owned rinv rest F (server_remove_client srv a w) (server_remove_client srv a w, m1)"
        using remove_owned [OF Cons.prems(1,3)] by blast
      obtain srv1 w1 where r: "server_remove_client srv a w = (srv1, w1)" by (cases "server_remove_client srv a w")
      show ?thesis using True m1 r remove_ok [OF Cons.prems(1,2) r] Cons.IH [of srv1 w1 m1] by simp
    next
      case False
      then show ?thesis using Cons.IH [OF Cons.prems] by simp
    qed
  qed
qed simp

lemma add_owned:
  assumes wf: "srv_wf srv" and o: "owned rinv rest F (srv, w) ((srv, w), m)" and r: "server_add_client_m junk fd srv m = (srv', m')"
  shows "srv' = server_add_client junk fd srv \<and> owned rinv rest F (srv', w) ((srv', w), m')"
proof -
  let ?M = "own_blocks m (ids srv) + (rest w m + F)"
  obtain h m1 where h: "rb_new_m (mem_grow m) = (h, m1)" by (cases "rb_new_m (mem_grow m)")
  let ?k = "\<lparr>cl_self = fresh m, cl_hdr = h, cl_pkt = None, cl_pack = None\<rparr>"
  have e: "srv' = server_add_client junk fd srv" "m' = put_own (next_id srv) ?k m1"
    using r h by (simp_all add: server_add_client_m_def mem_alloc_def)
  have m1: "accounts m1 (rb_blocks h + add_mset (fresh m) ?M)" "only_mem m m1"
    using rb_new_m_ok [OF accounts_grow h, of ?M] o by (simp_all add: owned_def)
  have own: "cl_own m1 = cl_own m" using only_mem_own [OF m1(2)] .
  have less: "c_id c < next_id srv" if "c \<in> set (clients srv)" for c using wf that by (simp add: srv_wf_def)
  have "own_blocks m' (ids srv) = own_blocks m (ids srv)"
    using own by (intro own_blocks_cong) (fastforce simp: e dest: less)
  then have "own_blocks m' (ids srv') = cl_blocks ?k + own_blocks m (ids srv)"
    by (simp add: e server_add_client_def)
  moreover have "cl_shapes srv' m'"
    using o less own by (force simp: e server_add_client_def cl_shapes_def owned_def cl_shape_def)
  moreover have "smem.more m' = smem.more m" using only_mem_more [OF m1(2)] by (simp add: e)
  ultimately show ?thesis
    using o m1(1) e rest_more [of m' m w] by (simp add: owned_def cl_blocks_def ac_simps)
qed

lemma serve_ready_owned:
  assumes "srv_wf srv" "winv w" "owned rinv rest F (srv, w) ((srv, w), m)"
  shows "sim (owned rinv rest F) (serve_ready (Some cb) junk accepted ready srv w)
     (serve_ready_m (Some cbm) junk accepted ready srv w m)"
  unfolding serve_ready_def serve_ready_m_def
proof (rule sim_bind [OF serve_loop_owned [OF assms]], goal_cases)
  case (1 x y)
  obtain srv1 w1 m1 where xy: "x = (srv1, w1)" "y = ((srv1, w1), m1)" using 1(2) by (cases x; cases y) (auto simp: owned_def)
  have first: "\<forall>a. first_client srv = Some a \<longrightarrow> a \<in> set (ids srv)"
    by (simp add: first_client_def split: list.split)
  have s1: "srv_wf srv1" "winv w1"
    using 1(1) xy serve_loop_ok [OF assms(1,2) first, of junk "zip (map c_socket (clients srv)) ready" 0] by auto
  have o1: "owned rinv rest F (srv1, w1) ((srv1, w1), m1)" using 1(2) xy by simp
  show ?case unfolding xy prod.case
  proof (rule sim_bind [OF sweep_loop_owned [OF s1 o1]], goal_cases)
    case (1 x2 y2)
    obtain srv2 w2 m2 where xy2: "x2 = (srv2, w2)" "y2 = ((srv2, w2), m2)"
      using 1(2) by (cases x2; cases y2) (auto simp: owned_def)
    have s2: "srv_wf srv2" using sweep_loop_ok [OF s1, of "ids srv1"] s1(1) 1(1) xy2 by (auto simp: srv_wf_def)
    show ?case
    proof (cases accepted)
      case (Some fd)
      obtain srv' m' where r: "server_add_client_m junk fd srv2 m2 = (srv', m')" by (cases "server_add_client_m junk fd srv2 m2")
      have "owned rinv rest F (srv2, w2) ((srv2, w2), m2)" using 1(2) xy2 by simp
      from add_owned [OF s2 this r] show ?thesis using xy2 Some r by auto
    qed (use 1(2) xy2 in simp)
  qed
qed

lemma stop_loop_owned:
  assumes "srv_wf srv" "winv w" "owned rinv rest F (srv, w) ((srv, w), m)"
  shows "\<exists>m'. server_stop_loop_m as srv w m = Inr (server_stop_loop as srv w, m') \<and>
     owned rinv rest F (server_stop_loop as srv w) (server_stop_loop as srv w, m')"
  using assms
proof (induction as arbitrary: srv w m)
  case (Cons a as)
  obtain m1 where m1: "server_remove_client_m srv a w m = Inr (server_remove_client srv a w, m1)"
    "owned rinv rest F (server_remove_client srv a w) (server_remove_client srv a w, m1)"
    using remove_owned [OF Cons.prems(1,3)] by blast
  obtain srv1 w1 where r: "server_remove_client srv a w = (srv1, w1)" by (cases "server_remove_client srv a w")
  show ?case using m1 r remove_ok [OF Cons.prems(1,2) r] Cons.IH [of srv1 w1 m1] by simp
qed simp

text \<open>\<open>free(fds)\<close> and \<open>server_stop\<close> at the end: no client owns anything any more.\<close>

lemma leave_owned:
  assumes "srv_wf srv" "winv w" "owned rinv rest (opt_blk fds + F) (srv, w) ((srv, w), m)"
  shows "sim (owned rinv rest F) (Inr (server_stop srv w)) (leave_loop_m fds srv w m)"
proof -
  have "accounts m (opt_blk fds + (own_blocks m (ids srv) + (rest w m + F)))"
    using assms(3) by (simp add: owned_def ac_simps)
  from accounts_free [OF this] obtain m1 where m1: "mem_free fds m = Inr m1" "only_mem m m1"
    "accounts m1 (own_blocks m (ids srv) + (rest w m + F))" by blast
  have own: "cl_own m1 = cl_own m" "smem.more m1 = smem.more m"
    using only_mem_own [OF m1(2)] only_mem_more [OF m1(2)] by simp_all
  have "own_blocks m1 (ids srv) = own_blocks m (ids srv)" using own(1) by (intro own_blocks_cong) simp
  then have "owned rinv rest F (srv, w) ((srv, w), m1)"
    using m1(3) assms(3) rest_more [OF own(2), of w] own(1) by (simp add: owned_def cl_shapes_def)
  from stop_loop_owned [OF assms(1,2) this, of "ids srv"] show ?thesis
    using m1(1) by (auto simp: leave_loop_m_def server_stop_m_def server_stop_def)
qed

lemma realloc_owned:
  assumes "owned rinv rest (opt_blk fds + F) (srv, w) ((srv, w), m)"
  shows "\<exists>b m'. realloc_m fds m = Inr (b, m') \<and> owned rinv rest (opt_blk (Some b) + F) (srv, w) ((srv, w), m')"
proof -
  have "accounts m (opt_blk fds + (own_blocks m (ids srv) + (rest w m + F)))"
    using assms by (simp add: owned_def ac_simps)
  from accounts_realloc [OF this] obtain b m1 where m1: "realloc_m fds m = Inr (b, m1)" "only_mem m m1"
    "accounts m1 (add_mset b (own_blocks m (ids srv) + (rest w m + F)))" by blast
  have "own_blocks m1 (ids srv) = own_blocks m (ids srv)" using only_mem_own [OF m1(2)] by (intro own_blocks_cong) simp
  then have "owned rinv rest (opt_blk (Some b) + F) (srv, w) ((srv, w), m1)"
    using m1(3) assms rest_more [OF only_mem_more [OF m1(2)], of w] only_mem_own [OF m1(2)]
    by (simp add: owned_def cl_shapes_def)
  then show ?thesis using m1(1) by blast
qed

lemma server_run_loop_owned:
  assumes "srv_wf srv" "winv w" "owned rinv rest (opt_blk fds + F) (srv, w) ((srv, w), m)"
  shows "sim (owned rinv rest F) (server_run_loop (Some cb) junk polls srv w)
     (server_run_loop_m (Some cbm) junk polls fds srv w m)"
  using assms
proof (induction polls arbitrary: fds srv w m)
  case Nil
  obtain b m1 where m1: "realloc_m fds m = Inr (b, m1)" using realloc_owned [OF Nil.prems(3)] by blast
  show ?case using leave_owned [OF Nil.prems] m1
    by (subst server_run_loop.simps, subst server_run_loop_m.simps) simp
next
  case (Cons p polls)
  obtain b m1 where m1: "realloc_m fds m = Inr (b, m1)" "owned rinv rest (opt_blk (Some b) + F) (srv, w) ((srv, w), m1)"
    using realloc_owned [OF Cons.prems(3)] by blast
  note leave = leave_owned [OF Cons.prems(1,2) m1(2)]
  show ?case
  proof (cases "active srv")
    case False
    then show ?thesis using leave_owned [OF Cons.prems]
      by (subst server_run_loop.simps, subst server_run_loop_m.simps) simp
  next
    case True
    show ?thesis
    proof (cases p)
      case PollError
      then show ?thesis using True leave m1(1)
        by (subst server_run_loop.simps, subst server_run_loop_m.simps) simp
    next
      case PollTimeout
      then show ?thesis using True Cons.IH [OF Cons.prems(1,2) m1(2)] m1(1)
        by (subst server_run_loop.simps, subst server_run_loop_m.simps) simp
    next
      case (PollReady sr accepted ready)
      have "sim (owned rinv rest F)
          (bind_res (serve_ready (Some cb) junk accepted ready srv w) (\<lambda>(srv, w). server_run_loop (Some cb) junk polls srv w))
          (bind_res (serve_ready_m (Some cbm) junk accepted ready srv w m1) (\<lambda>((srv, w), m).
             server_run_loop_m (Some cbm) junk polls (Some b) srv w m))"
      proof (rule sim_bind [OF serve_ready_owned [OF Cons.prems(1,2) m1(2)]], goal_cases)
        case (1 x y)
        obtain srv1 w1 m2 where xy: "x = (srv1, w1)" "y = ((srv1, w1), m2)"
          using 1(2) by (cases x; cases y) (auto simp: owned_def)
        have "srv_wf srv1" "winv w1"
          using serve_ready_ok [OF Cons.prems(1,2), of junk accepted ready] 1(1) xy by auto
        from Cons.IH [OF this, of "Some b" m2] 1(2) xy show ?case by simp
      qed
      then show ?thesis using True PollReady leave m1(1)
        by (subst server_run_loop.simps, subst server_run_loop_m.simps) simp
    qed
  qed
qed

text \<open>
  A run of the server with blocks fails where the run without blocks fails, and returns what it
  returns; then the live blocks are those the callback keeps and those of the caller, and the lost ones.
\<close>

lemma server_run_owned:
  assumes "srv_wf srv" "winv w" "rinv w m" "cl_shapes srv m" "accounts m (own_blocks m (ids srv) + (rest w m + F))"
  shows "sim (\<lambda>x y. fst y = x \<and> clients (fst x) = [] \<and> rinv (snd x) (snd y) \<and> accounts (snd y) (rest (snd x) (snd y) + F))
     (server_run (Some cb) junk polls srv w) (server_run_m (Some cbm) junk polls srv w m)"
proof -
  let ?s = "srv\<lparr>active := True\<rparr>"
  have s: "srv_wf ?s" using assms(1) by (simp add: srv_wf_def)
  have "owned rinv rest (opt_blk None + F) (?s, w) ((?s, w), m)"
    using assms(3-5) by (simp add: owned_def cl_shapes_def)
  from server_run_loop_owned [OF s assms(2) this, of junk polls] show ?thesis
    unfolding server_run_def server_run_m_def
  proof (rule sim_mono, goal_cases)
    case (1 x y)
    obtain srv' w' where x: "x = (srv', w')" by (cases x)
    have "clients srv' = []" using server_run_loop_ok [OF s assms(2), of junk polls] 1(1) x by blast
    then show ?case using 1(2) x by (auto simp: owned_def)
  qed
qed

end

section \<open>Properties\<close>

text \<open>
  \<open>server_stop\<close> frees exactly the blocks of the clients: every structure, buffer and packet
  once, and nothing else; nothing is lost.
\<close>

theorem server_stop_frees_all:
  assumes "srv_wf srv" "cl_shapes srv m" "accounts m (own_blocks m (ids srv) + M)"
  shows "\<exists>m'. server_stop_m srv w m = Inr (server_stop srv w, m') \<and>
     live m' = live m - set_mset (own_blocks m (ids srv)) \<and> lost m' = lost m \<and> accounts m' M"
proof -
  have "clients (fst (server_stop srv w)) = []"
    using server_stop_loop_closes [of srv w] assms(1) by (simp add: server_stop_def srv_wf_def)
  with stop_loop_m_ok [OF assms, of "ids srv" w] obtain m' where
    "server_stop_m srv w m = Inr (server_stop srv w, m')" "accounts m' M" "lost m' = lost m"
    by (auto simp: server_stop_m_def server_stop_def)
  with accounts_diff [OF assms(3)] show ?thesis by blast
qed

text \<open>
  a client whose connection stays open after a packet (the callback answered \<open>CB_OK\<close>) keeps
  that packet; the header of the next packet overwrites the pointer, so its blocks stay
  allocated for ever.
\<close>

theorem second_header_loses_packet:
  assumes "client_decode_hdr junk c = Inr c'" "cl_pack k = Some pk" "cl_pkt k = None"
    "accounts m (cl_blocks k + M)"
  shows "\<exists>k' m'. client_decode_hdr_m junk c k m = Inr ((c', k'), m') \<and> cl_pack k' \<noteq> cl_pack k \<and>
     accounts m' (cl_blocks k' + M) \<and> lost m' = lost m + pk_blocks pk \<and>
     size (lost m') = size (lost m) + 1 + size (opt_blk (pk_key pk)) + size (opt_blk (pk_value pk))"
proof -
  obtain k' m' where r: "client_decode_hdr_m junk c k m = Inr ((c', k'), m')" "accounts m' (cl_blocks k' + M)"
    using hdr_m_ok [OF assms(1,4)] by blast
  have k': "cl_pack k' = Some \<lparr>pk_self = fresh m, pk_key = None, pk_value = None\<rparr>" "lost m' = lost m + pk_blocks pk"
    using r(1) assms(1-3)
    by (auto simp: client_decode_hdr_m_def packet_new_m_def rb_new_m_def mem_alloc_def mem_grow_def mem_lose_def)
  have "pk_self pk \<in># cl_blocks k + M" using assms(2) by (simp add: cl_blocks_def pk_blocks_def)
  then have "pk_self pk < fresh m" using accounts_live [OF assms(4)] by blast
  then have "cl_pack k' \<noteq> cl_pack k" using k'(1) assms(2) by auto
  then show ?thesis using r k'(2) by (auto simp: pk_blocks_def)
qed

section \<open>Witness\<close>

definition smem_empty :: smem where
  "smem_empty = \<lparr>live = {}, fresh = 0, lost = {#}, cl_own = (\<lambda>_. None)\<rparr>"

theorem server_stop_frees_all_witness:
  "\<exists>m m' srv. server_add_client_m (\<lambda>_. 0) 5 \<lparr>s_socket = 3, n_clients = 0, active = True, clients = [], next_id = 0\<rparr> smem_empty = (srv, m) \<and>
     live m = {0, 1, 2} \<and> server_stop_m srv quiet_net m = Inr (server_stop srv quiet_net, m') \<and> live m' = {}"
proof -
  let ?s = "\<lparr>s_socket = 3, n_clients = 0, active = True, clients = [], next_id = 0\<rparr>"
  let ?srv = "server_add_client (\<lambda>_. 0) 5 ?s"
  let ?k = "\<lparr>cl_self = 0, cl_hdr = \<lparr>rb_self = 1, rb_bytes = 2\<rparr>, cl_pkt = None, cl_pack = None\<rparr>"
  let ?m = "\<lparr>live = {0, 1, 2}, fresh = 3, lost = {#}, cl_own = [0 \<mapsto> ?k]\<rparr> :: smem"
  have add: "server_add_client_m (\<lambda>_. 0) 5 ?s smem_empty = (?srv, ?m)"
    by (auto simp: server_add_client_m_def smem_empty_def mem_alloc_def mem_grow_def rb_new_m_def put_own_def)
  have own: "own_blocks ?m (ids ?srv) = {#0, 1, 2#}"
    by (simp add: own_blocks_def server_add_client_def cl_blocks_def rb_blocks_def)
  have "accounts ?m (own_blocks ?m (ids ?srv) + {#})"
    unfolding own by (auto simp: accounts_def numeral_3_eq_3 atMost_Suc numeral_2_eq_2)
  moreover have "cl_shapes ?srv ?m" by (simp add: cl_shapes_def server_add_client_def cl_shape_def)
  moreover have "srv_wf ?srv" by (rule add_client_wf) (simp add: srv_wf_def)
  ultimately show ?thesis
    using server_stop_frees_all [of ?srv ?m "{#}" quiet_net] own add by auto
qed

end
