(* ===== verification/Table_Memory.thy ===== *)
theory Table_Memory
  imports Hash_Table Requests Memory
begin

text \<open>
  The memory behind the two hash tables of a peer: \<open>praxis2/src/hash_table.c\<close>,
  \<open>praxis2/src/requests.c\<close> and the allocations of the \<open>uthash\<close> macros they expand. The storage loses
  no block: after any history it has exactly three blocks per entry and two for the table. The
  table of requests loses blocks with every request that is completed.
\<close>

section \<open>The table structure\<close>

text \<open>\<open>UT_hash_table\<close> and its array of buckets, while the head is not \<open>NULL\<close>.\<close>

type_synonym tbl_blk = "(blk \<times> blk) option"

definition tbl_buckets :: "'d ut_hash \<Rightarrow> u32" where
  "tbl_buckets h = (case head h of None \<Rightarrow> 32 | Some t \<Rightarrow> num_buckets t)"

text \<open>
  The first element makes the table. An expansion, which always changes the number of buckets,
  allocates the larger array and then frees the old one.
\<close>

definition HASH_ADD_KEYPTR_m ::
  "'d ut_hash \<Rightarrow> byte list \<Rightarrow> addr \<Rightarrow> tbl_blk \<Rightarrow> 'm mem_scheme \<Rightarrow> (('d ut_hash \<times> tbl_blk) \<times> 'm mem_scheme) res" where
  "HASH_ADD_KEYPTR_m h key a tb m =
     bind_res (HASH_ADD_KEYPTR h key a) (\<lambda>h'.
     case (case head h of
             None \<Rightarrow> (case mem_alloc m of (t, m) \<Rightarrow> case mem_alloc m of (b, m) \<Rightarrow> (Some (t, b), m))
           | Some _ \<Rightarrow> (tb, m)) of (tb, m) \<Rightarrow>
     if tbl_buckets h' \<noteq> tbl_buckets h
     then (case tb of None \<Rightarrow> Inl Null_Deref
       | Some (t, b) \<Rightarrow>
           (case mem_alloc m of (b', m) \<Rightarrow>
            bind_res (mem_free (Some b) m) (\<lambda>m. Inr ((h', Some (t, b')), m))))
     else Inr ((h', tb), m))"

text \<open>Deleting the last element frees the buckets and the table.\<close>

definition HASH_DELETE_m ::
  "'d ut_hash \<Rightarrow> addr \<Rightarrow> tbl_blk \<Rightarrow> 'm mem_scheme \<Rightarrow> (('d ut_hash \<times> tbl_blk) \<times> 'm mem_scheme) res" where
  "HASH_DELETE_m h a tb m =
     bind_res (HASH_DELETE h a) (\<lambda>h'.
     if head h' = None
     then (case tb of None \<Rightarrow> Inl Null_Deref
       | Some (t, b) \<Rightarrow>
           bind_res (mem_free (Some b) m) (\<lambda>m.
           bind_res (mem_free (Some t) m) (\<lambda>m. Inr ((h', None), m))))
     else Inr ((h', tb), m))"

section \<open>The storage\<close>

record en_blk =
  en_self :: blk
  en_key :: blk
  en_value :: blk

text \<open>The pointers in the entries, by the address of the entry, and the table.\<close>

record ht_own =
  ht_ent :: "addr \<Rightarrow> en_blk option"
  ht_tbl :: tbl_blk

definition ent_at :: "('a \<Rightarrow> 'k option) \<Rightarrow> 'a \<Rightarrow> 'k res" where
  "ent_at f a = (case f a of None \<Rightarrow> Inl Use_After_Free | Some e \<Rightarrow> Inr e)"

fun free_all :: "blk list \<Rightarrow> 'm mem_scheme \<Rightarrow> 'm mem_scheme res" where
  "free_all [] m = Inr m"
| "free_all (b # bs) m = bind_res (mem_free (Some b) m) (free_all bs)"

text \<open>\<open>HASH_DEL\<close> and the three calls of \<open>free\<close>, whose order differs in the two operations.\<close>

definition remove_entry_m ::
  "(en_blk \<Rightarrow> blk list) \<Rightarrow> htable ut_hash \<Rightarrow> addr \<Rightarrow> ht_own \<Rightarrow> 'm mem_scheme
     \<Rightarrow> ((htable ut_hash \<times> ht_own) \<times> 'm mem_scheme) res" where
  "remove_entry_m frees ht a own m =
     bind_res (HASH_DELETE_m ht a (ht_tbl own) m) (\<lambda>((ht, tb), m).
     bind_res (ent_at (ht_ent own) a) (\<lambda>e.
     bind_res (free_all (frees e) m) (\<lambda>m.
     Inr ((ut_free ht a, \<lparr>ht_ent = (ht_ent own)(a := None), ht_tbl = tb\<rparr>), m))))"

definition htable_set_m ::
  "htable ut_hash \<Rightarrow> ptr \<Rightarrow> u64 \<Rightarrow> ptr \<Rightarrow> u64 \<Rightarrow> ht_own \<Rightarrow> 'm mem_scheme
     \<Rightarrow> ((htable ut_hash \<times> ht_own) \<times> 'm mem_scheme) res" where
  "htable_set_m ht k klen v vlen own m =
     bind_res (find_ptr ht k klen) (\<lambda>entry.
     bind_res (case entry of None \<Rightarrow> Inr ((ht, own), m)
       | Some a \<Rightarrow> remove_entry_m (\<lambda>e. [en_value e, en_key e, en_self e]) ht a own m) (\<lambda>((ht, own), m).
     case mem_alloc m of (e, m) \<Rightarrow>
     case mem_alloc m of (bk, m) \<Rightarrow>
     case mem_alloc m of (bv, m) \<Rightarrow>
     bind_res (read_ptr k (unat klen)) (\<lambda>kb.
     bind_res (read_ptr v (unat vlen)) (\<lambda>vb.
     case ut_malloc ht \<lparr>ht_key = Some kb, ht_key_len = klen, ht_value = Some vb, ht_value_len = vlen\<rparr> of
       (a, ht) \<Rightarrow>
         bind_res (HASH_ADD_KEYPTR_m ht kb a (ht_tbl own) m) (\<lambda>((ht, tb), m).
         Inr ((ht, \<lparr>ht_ent = (ht_ent own)(a \<mapsto> \<lparr>en_self = e, en_key = bk, en_value = bv\<rparr>), ht_tbl = tb\<rparr>), m))))))"

definition htable_delete_m ::
  "htable ut_hash \<Rightarrow> ptr \<Rightarrow> u64 \<Rightarrow> ht_own \<Rightarrow> 'm mem_scheme
     \<Rightarrow> ((htable ut_hash \<times> ht_own) \<times> 'm mem_scheme) res" where
  "htable_delete_m ht k klen own m =
     bind_res (find_ptr ht k klen) (\<lambda>toDelete.
     case toDelete of None \<Rightarrow> Inr ((ht, own), m)
     | Some a \<Rightarrow> remove_entry_m (\<lambda>e. [en_key e, en_value e, en_self e]) ht a own m)"

section \<open>The table of requests\<close>

record rq_blk =
  rq_self :: blk
  rq_pack :: pk_blk

record re_blk =
  re_self :: blk
  re_reqs :: "rq_blk list"

record rt_own =
  rt_ent :: "addr \<Rightarrow> re_blk option"
  rt_tbl :: tbl_blk

definition add_request_m ::
  "rtable ut_hash \<Rightarrow> u16 \<Rightarrow> int \<Rightarrow> packet \<Rightarrow> rt_own \<Rightarrow> 'm mem_scheme
     \<Rightarrow> ((rtable ut_hash \<times> rt_own) \<times> 'm mem_scheme) res" where
  "add_request_m table h_id sock p own m =
     bind_res (packet_dup p) (\<lambda>dup.
     let r = \<lparr>r_packet = dup, r_socket = sock\<rparr> in
     case mem_alloc m of (rb, m) \<Rightarrow>
     case packet_dup_m m of (pk, m) \<Rightarrow>
     let rq = \<lparr>rq_self = rb, rq_pack = pk\<rparr> in
     bind_res (HASH_FIND table (id_bytes h_id)) (\<lambda>existing.
     case existing of
       Some a \<Rightarrow>
         bind_res (ut_read table a) (\<lambda>e.
         bind_res (append_request (open_requests e) r) (\<lambda>l.
         bind_res (ut_write table a (e\<lparr>open_requests := l\<rparr>)) (\<lambda>table.
         bind_res (ent_at (rt_ent own) a) (\<lambda>k.
         Inr ((table, own\<lparr>rt_ent := (rt_ent own)(a \<mapsto> k\<lparr>re_reqs := re_reqs k @ [rq]\<rparr>)\<rparr>), m)))))
     | None \<Rightarrow>
         (case mem_alloc m of (eb, m) \<Rightarrow>
          case ut_malloc table \<lparr>rt_hash_id = h_id, open_requests = [r]\<rparr> of
            (a, table) \<Rightarrow>
              bind_res (HASH_ADD_KEYPTR_m table (id_bytes h_id) a (rt_tbl own) m) (\<lambda>((table, tb), m).
              Inr ((table, \<lparr>rt_ent = (rt_ent own)(a \<mapsto> \<lparr>re_self = eb, re_reqs = [rq]\<rparr>), rt_tbl = tb\<rparr>), m)))))"

text \<open>
  \<open>free(re->packet)\<close> releases the structure of the packet: its key and value are lost. The
  table entry is unlinked and never freed.
\<close>

fun free_requests :: "rq_blk list \<Rightarrow> 'm mem_scheme \<Rightarrow> 'm mem_scheme res" where
  "free_requests [] m = Inr m"
| "free_requests (r # rs) m =
     bind_res (mem_free (Some (pk_self (rq_pack r))) (mem_lose (opt_blk (pk_key (rq_pack r)) + opt_blk (pk_value (rq_pack r))) m)) (\<lambda>m.
     bind_res (mem_free (Some (rq_self r)) m) (free_requests rs))"

definition clear_requests_m ::
  "rtable ut_hash \<Rightarrow> u16 \<Rightarrow> rt_own \<Rightarrow> 'm mem_scheme \<Rightarrow> ((rtable ut_hash \<times> rt_own) \<times> 'm mem_scheme) res" where
  "clear_requests_m table h_id own m =
     bind_res (HASH_FIND table (id_bytes h_id)) (\<lambda>existing.
     case existing of
       Some a \<Rightarrow>
         bind_res (ut_read table a) (\<lambda>e.
         bind_res (ent_at (rt_ent own) a) (\<lambda>k.
         bind_res (free_requests (re_reqs k) m) (\<lambda>m.
         bind_res (ut_write table a (e\<lparr>open_requests := []\<rparr>)) (\<lambda>table.
         bind_res (HASH_DELETE_m table a (rt_tbl own) m) (\<lambda>((table, tb), m).
         Inr ((table, \<lparr>rt_ent = (rt_ent own)(a := None), rt_tbl = tb\<rparr>), mem_lose {#re_self k#} m))))))
     | None \<Rightarrow> Inr ((table, own), m))"

section \<open>What the tables own\<close>

definition tbl_blocks :: "tbl_blk \<Rightarrow> blk multiset" where
  "tbl_blocks tb = opt_blocks (\<lambda>(t, b). {#t, b#}) tb"

definition ents_blocks :: "('k \<Rightarrow> blk multiset) \<Rightarrow> (addr \<Rightarrow> 'k option) \<Rightarrow> addr list \<Rightarrow> blk multiset" where
  "ents_blocks g f as = (\<Sum>a \<leftarrow> as. opt_blocks g (f a))"

definition en_blocks :: "en_blk \<Rightarrow> blk multiset" where
  "en_blocks e = {#en_self e, en_key e, en_value e#}"

definition ht_blocks :: "htable ut_hash \<Rightarrow> ht_own \<Rightarrow> blk multiset" where
  "ht_blocks ht own = ents_blocks en_blocks (ht_ent own) (order_of ht) + tbl_blocks (ht_tbl own)"

definition rq_blocks :: "rq_blk \<Rightarrow> blk multiset" where
  "rq_blocks r = {#rq_self r#} + pk_blocks (rq_pack r)"

definition re_blocks :: "re_blk \<Rightarrow> blk multiset" where
  "re_blocks e = {#re_self e#} + (\<Sum>r \<leftarrow> re_reqs e. rq_blocks r)"

definition rt_blocks :: "rtable ut_hash \<Rightarrow> rt_own \<Rightarrow> blk multiset" where
  "rt_blocks t own = ents_blocks re_blocks (rt_ent own) (order_of t) + tbl_blocks (rt_tbl own)"

text \<open>
  Each entry of a table has its pointers; the table structure exists while the head does, and
  there is no table without elements.
\<close>

definition tbl_shape :: "'d ut_hash \<Rightarrow> tbl_blk \<Rightarrow> bool" where
  "tbl_shape h tb \<longleftrightarrow> (tb = None \<longleftrightarrow> head h = None) \<and> (head h \<noteq> None \<longrightarrow> order_of h \<noteq> [])"

definition ht_shape :: "htable ut_hash \<Rightarrow> ht_own \<Rightarrow> bool" where
  "ht_shape ht own \<longleftrightarrow> tbl_shape ht (ht_tbl own) \<and> (\<forall>a \<in> set (order_of ht). ht_ent own a \<noteq> None)"

text \<open>A copied packet has a block for the key and one for the value, even for length 0.\<close>

definition re_shape :: "request list \<Rightarrow> re_blk \<Rightarrow> bool" where
  "re_shape rs e \<longleftrightarrow> length (re_reqs e) = length rs \<and>
     (\<forall>r \<in> set (re_reqs e). pk_key (rq_pack r) \<noteq> None \<and> pk_value (rq_pack r) \<noteq> None)"

definition rt_shape :: "rtable ut_hash \<Rightarrow> rt_own \<Rightarrow> bool" where
  "rt_shape t own \<longleftrightarrow> tbl_shape t (rt_tbl own) \<and>
     (\<forall>a \<in> set (order_of t). \<exists>e. rt_ent own a = Some e \<and> re_shape (open_requests (e_data (the (heap t a)))) e)"

lemma ents_blocks_simps [simp]:
  "ents_blocks g f [] = {#}" "ents_blocks g f (a # as) = opt_blocks g (f a) + ents_blocks g f as"
  "ents_blocks g f (as @ bs) = ents_blocks g f as + ents_blocks g f bs"
  by (simp_all add: ents_blocks_def)

lemma ents_blocks_upd: "a \<notin> set as \<Longrightarrow> ents_blocks g (f(a := x)) as = ents_blocks g f as"
  by (induction as) auto

lemma ents_blocks_remove:
  "a \<in> set as \<Longrightarrow> ents_blocks g f as = opt_blocks g (f a) + ents_blocks g f (remove1 a as)"
  by (induction as) (auto simp: ac_simps)

section \<open>The macros\<close>

lemma HASH_EXPAND_BUCKETS_order: "HASH_EXPAND_BUCKETS hp t = Inr t' \<Longrightarrow> app_order t' = app_order t"
  by (auto simp: HASH_EXPAND_BUCKETS_def bind_res_Inr_iff Let_def split: if_splits)

lemma HASH_ADD_KEYPTR_order:
  "HASH_ADD_KEYPTR h key a = Inr h' \<Longrightarrow> order_of h' = order_of h @ [a] \<and> head h' \<noteq> None \<and>
     (\<exists>e. heap h a = Some e \<and> heap h' = (heap h)(a \<mapsto> keyed key e))"
  by (auto simp: HASH_ADD_KEYPTR_def HASH_ADD_TO_TABLE_def HASH_ADD_TO_BKT_def bind_res_Inr_iff Let_def
      order_of_def HASH_MAKE_TABLE_def deref_def keyed_def split: option.splits if_splits dest!: HASH_EXPAND_BUCKETS_order)

lemma HASH_DELETE_order:
  "HASH_DELETE h a = Inr h' \<Longrightarrow> order_of h' = remove1 a (order_of h) \<and> head h \<noteq> None \<and> heap h' = heap h \<and>
     (head h' \<noteq> None \<longrightarrow> order_of h \<noteq> [a])"
  by (auto simp: HASH_DELETE_def HASH_DEL_IN_BKT_def bind_res_Inr_iff order_of_def split: option.splits if_splits)

lemma add_m_ok:
  assumes h: "HASH_ADD_KEYPTR h key a = Inr h'" and sh: "tbl_shape h tb" and acc: "accounts m (tbl_blocks tb + M)"
  shows "\<exists>tb' m'. HASH_ADD_KEYPTR_m h key a tb m = Inr ((h', tb'), m') \<and> tbl_shape h' tb' \<and>
     accounts m' (tbl_blocks tb' + M) \<and> only_mem m m' \<and> lost m' = lost m"
proof -
  define r where "r = (case head h of
      None \<Rightarrow> (case mem_alloc m of (t, m) \<Rightarrow> case mem_alloc m of (b, m) \<Rightarrow> (Some (t, b), m)) | Some _ \<Rightarrow> (tb, m))"
  obtain tb1 m1 where r1: "r = (tb1, m1)" by (cases r)
  have "tb1 \<noteq> None \<and> accounts m1 (tbl_blocks tb1 + M) \<and> only_mem m m1 \<and> lost m1 = lost m"
  proof (cases "head h")
    case None
    then have "accounts m M" using sh acc by (simp add: tbl_shape_def tbl_blocks_def)
    from accounts_grow [OF accounts_grow [OF this]] None r1 show ?thesis
      by (auto simp: r_def mem_alloc_def tbl_blocks_def add_mset_commute mem_grow_def)
  qed (use r1 sh acc in \<open>auto simp: r_def tbl_shape_def\<close>)
  then obtain t b where tb1: "tb1 = Some (t, b)" and a1: "accounts m1 (tbl_blocks tb1 + M)" "only_mem m m1" "lost m1 = lost m"
    by auto
  have "head h' \<noteq> None" "order_of h' \<noteq> []" using HASH_ADD_KEYPTR_order [OF h] by simp_all
  show ?thesis
  proof (cases "tbl_buckets h' = tbl_buckets h")
    case True
    then have "HASH_ADD_KEYPTR_m h key a tb m = Inr ((h', tb1), m1)"
      using h r1 by (simp add: HASH_ADD_KEYPTR_m_def r_def)
    then show ?thesis using a1 tb1 \<open>head h' \<noteq> None\<close> \<open>order_of h' \<noteq> []\<close> by (auto simp: tbl_shape_def)
  next
    case False
    have "accounts (mem_grow m1) (opt_blk (Some b) + ({#t, fresh m1#} + M))"
      using accounts_grow [OF a1(1)] tb1 by (simp add: tbl_blocks_def add_mset_commute)
    from accounts_free [OF this] obtain m2 where m2: "mem_free (Some b) (mem_grow m1) = Inr m2"
      "accounts m2 ({#t, fresh m1#} + M)" "only_mem (mem_grow m1) m2" "lost m2 = lost (mem_grow m1)" by blast
    have "HASH_ADD_KEYPTR_m h key a tb m = Inr ((h', Some (t, fresh m1)), m2)"
      using h r1 tb1 m2(1) False by (simp add: HASH_ADD_KEYPTR_m_def r_def mem_alloc_def)
    moreover have "only_mem m m2" "lost m2 = lost m" using m2(3,4) a1(2,3) by (simp_all add: mem_grow_def)
    ultimately show ?thesis using m2(2) \<open>head h' \<noteq> None\<close> \<open>order_of h' \<noteq> []\<close> by (auto simp: tbl_shape_def tbl_blocks_def)
  qed
qed

lemma delete_m_ok:
  assumes h: "HASH_DELETE h a = Inr h'" and sh: "tbl_shape h tb" and acc: "accounts m (tbl_blocks tb + M)"
  shows "\<exists>tb' m'. HASH_DELETE_m h a tb m = Inr ((h', tb'), m') \<and> tbl_shape h' tb' \<and>
     accounts m' (tbl_blocks tb' + M) \<and> only_mem m m' \<and> lost m' = lost m"
proof -
  obtain t b where tb: "tb = Some (t, b)" using HASH_DELETE_order [OF h] sh by (cases tb) (auto simp: tbl_shape_def)
  show ?thesis
  proof (cases "head h' = None")
    case True
    have "accounts m (opt_blk (Some b) + (opt_blk (Some t) + M))"
      using acc tb by (simp add: tbl_blocks_def add_mset_commute)
    from accounts_free [OF this] obtain m1 where m1: "mem_free (Some b) m = Inr m1"
      "accounts m1 (opt_blk (Some t) + M)" "only_mem m m1" "lost m1 = lost m" by blast
    from accounts_free [OF m1(2)] obtain m2 where m2: "mem_free (Some t) m1 = Inr m2"
      "accounts m2 M" "only_mem m1 m2" "lost m2 = lost m1" by blast
    have "HASH_DELETE_m h a tb m = Inr ((h', None), m2)"
      using h tb True m1(1) m2(1) by (simp add: HASH_DELETE_m_def)
    moreover have "only_mem m m2" "lost m2 = lost m" using m1 m2 by simp_all
    ultimately show ?thesis using m2(2) True by (auto simp: tbl_shape_def tbl_blocks_def)
  next
    case False
    then have "HASH_DELETE_m h a tb m = Inr ((h', tb), m)" using h by (auto simp: HASH_DELETE_m_def)
    moreover have "order_of h' \<noteq> []"
      using HASH_DELETE_order [OF h] False sh by (cases "order_of h"; cases "List.tl (order_of h)") (auto simp: tbl_shape_def)
    ultimately show ?thesis using acc tb False by (auto simp: tbl_shape_def)
  qed
qed

section \<open>The operations of the storage\<close>

text \<open>
  The result \<open>x\<close> without and \<open>y\<close> with blocks: the same table, whose blocks are accounted for
  beside \<open>M\<close>; nothing is lost.
\<close>

definition ht_rel :: "blk multiset \<Rightarrow> 'm mem_scheme \<Rightarrow> htable ut_hash \<Rightarrow> (htable ut_hash \<times> ht_own) \<times> 'm mem_scheme \<Rightarrow> bool" where
  "ht_rel M m x y \<longleftrightarrow> fst (fst y) = x \<and> ht_shape x (snd (fst y)) \<and> accounts (snd y) (ht_blocks x (snd (fst y)) + M) \<and>
     only_mem m (snd y) \<and> lost (snd y) = lost m"

lemma free_all_ok:
  "accounts m (mset bs + M) \<Longrightarrow> \<exists>m'. free_all bs m = Inr m' \<and> accounts m' M \<and> only_mem m m' \<and> lost m' = lost m"
proof (induction bs arbitrary: m)
  case (Cons b bs)
  then have "accounts m (opt_blk (Some b) + (mset bs + M))" by simp
  from accounts_free [OF this] obtain m1 where m1: "mem_free (Some b) m = Inr m1" "accounts m1 (mset bs + M)"
    "only_mem m m1" "lost m1 = lost m" by blast
  from Cons.IH [OF m1(2)] m1 show ?case by auto
qed simp

lemma remove_entry_m_ok:
  assumes wf: "ut_wf ht" and sh: "ht_shape ht own" and acc: "accounts m (ht_blocks ht own + M)"
    and a: "a \<in> set (order_of ht)" and fr: "\<And>e. mset (frees e) = en_blocks e"
  shows "sim (ht_rel M m) (remove_entry ht a) (remove_entry_m frees ht a own m)"
proof -
  obtain ht1 where d: "HASH_DELETE ht a = Inr ht1" "order_of ht1 = remove1 a (order_of ht)"
    using HASH_DELETE_ok [OF wf a] by blast
  obtain e where e: "ht_ent own a = Some e" using sh a by (auto simp: ht_shape_def)
  let ?R = "ents_blocks en_blocks (ht_ent own) (remove1 a (order_of ht))"
  have "accounts m (tbl_blocks (ht_tbl own) + (en_blocks e + (?R + M)))"
    using acc ents_blocks_remove [OF a, of en_blocks "ht_ent own"] e by (simp add: ht_blocks_def ac_simps)
  from delete_m_ok [OF d(1) _ this] sh obtain tb m1 where m1: "HASH_DELETE_m ht a (ht_tbl own) m = Inr ((ht1, tb), m1)"
    "tbl_shape ht1 tb" "accounts m1 (tbl_blocks tb + (en_blocks e + (?R + M)))" "only_mem m m1" "lost m1 = lost m"
    by (auto simp: ht_shape_def)
  have "accounts m1 (mset (frees e) + (tbl_blocks tb + (?R + M)))" using m1(3) fr by (simp add: ac_simps)
  from free_all_ok [OF this] obtain m2 where m2: "free_all (frees e) m1 = Inr m2" "accounts m2 (tbl_blocks tb + (?R + M))"
    "only_mem m1 m2" "lost m2 = lost m1" by blast
  let ?own = "\<lparr>ht_ent = (ht_ent own)(a := None), ht_tbl = tb\<rparr>"
  have gone: "a \<notin> set (remove1 a (order_of ht))" using ut_wf_distinct [OF wf] by simp
  have ord: "order_of (ut_free ht1 a) = remove1 a (order_of ht)" using d(2) by (simp add: ut_free_def order_of_def)
  have "ht_blocks (ut_free ht1 a) ?own = ?R + tbl_blocks tb"
    using gone by (simp add: ht_blocks_def ord ents_blocks_upd)
  moreover have "ht_shape (ut_free ht1 a) ?own"
  proof -
    have "((ht_ent own)(a := None)) x \<noteq> None" if x: "x \<in> set (remove1 a (order_of ht))" for x
    proof -
      have "x \<noteq> a" using x gone by metis
      moreover have "x \<in> set (order_of ht)" using x notin_set_remove1 by metis
      ultimately show ?thesis using sh by (simp add: ht_shape_def)
    qed
    moreover have "tbl_shape (ut_free ht1 a) tb" using m1(2) by (simp add: tbl_shape_def ut_free_def order_of_def)
    ultimately show ?thesis unfolding ht_shape_def ord ht_own.simps by blast
  qed
  moreover have "remove_entry ht a = Inr (ut_free ht1 a)" using d(1) by (simp add: remove_entry_def)
  moreover have "remove_entry_m frees ht a own m = Inr ((ut_free ht1 a, ?own), m2)"
    using m1(1) m2(1) e by (simp add: remove_entry_m_def ent_at_def)
  moreover have "only_mem m m2" using m1(4) m2(3) by simp
  moreover have "accounts m2 (?R + tbl_blocks tb + M)" using m2(2) by (simp add: ac_simps)
  ultimately show ?thesis using m1(5) m2(4) by (simp add: ht_rel_def)
qed

lemma find_in_order: "ut_wf h \<Longrightarrow> HASH_FIND h key = Inr (Some a) \<Longrightarrow> a \<in> set (order_of h)"
  by (auto simp: HASH_FIND_find dest: find_SomeD)

lemma find_ptr_in_order: "ut_wf h \<Longrightarrow> find_ptr h k klen = Inr (Some a) \<Longrightarrow> a \<in> set (order_of h)"
  using find_in_order by (auto simp: find_ptr_def bind_res_Inr_iff split: option.splits)

lemma remove_entry_wf: "ut_wf ht \<Longrightarrow> a \<in> set (order_of ht) \<Longrightarrow> remove_entry ht a = Inr ht' \<Longrightarrow> ut_wf ht'"
  using HASH_DELETE_ok [of ht a] ut_wf_distinct [of ht] ut_free_ok by (fastforce simp: remove_entry_def)

text \<open>Adding an entry: three blocks for the element, then the macro.\<close>

lemma add_entry_m_ok:
  assumes wf: "ut_wf ht" and sh: "ht_shape ht own" and acc: "accounts m (ht_blocks ht own + (en_blocks e + M))"
    and ml: "ut_malloc ht d = (a, ht1)"
  shows "sim (ht_rel M m) (HASH_ADD_KEYPTR ht1 kb a)
     (bind_res (HASH_ADD_KEYPTR_m ht1 kb a (ht_tbl own) m) (\<lambda>((ht, tb), m).
        Inr ((ht, \<lparr>ht_ent = (ht_ent own)(a \<mapsto> e), ht_tbl = tb\<rparr>), m)))"
proof (cases "HASH_ADD_KEYPTR ht1 kb a")
  case (Inl err)
  then show ?thesis by (simp add: HASH_ADD_KEYPTR_m_def)
next
  case (Inr ht')
  have ml': "order_of ht1 = order_of ht" "head ht1 = head ht" "a \<notin> set (order_of ht)"
    using ml fresh_not_linked [OF wf] by (auto simp: ut_malloc_def order_of_def)
  let ?E = "ents_blocks en_blocks (ht_ent own) (order_of ht)"
  have "accounts m (tbl_blocks (ht_tbl own) + (?E + (en_blocks e + M)))"
    using acc by (simp add: ht_blocks_def ac_simps)
  moreover have "tbl_shape ht1 (ht_tbl own)" using sh ml'(1,2) by (simp add: ht_shape_def tbl_shape_def)
  ultimately obtain tb m1 where m1: "HASH_ADD_KEYPTR_m ht1 kb a (ht_tbl own) m = Inr ((ht', tb), m1)"
    "tbl_shape ht' tb" "accounts m1 (tbl_blocks tb + (?E + (en_blocks e + M)))" "only_mem m m1" "lost m1 = lost m"
    using add_m_ok [OF Inr] by blast
  have ord: "order_of ht' = order_of ht @ [a]" using HASH_ADD_KEYPTR_order [OF Inr] ml'(1) by simp
  have "ht_blocks ht' \<lparr>ht_ent = (ht_ent own)(a \<mapsto> e), ht_tbl = tb\<rparr> = ?E + en_blocks e + tbl_blocks tb"
    using ml'(3) by (simp add: ht_blocks_def ord ents_blocks_upd)
  moreover have "ht_shape ht' \<lparr>ht_ent = (ht_ent own)(a \<mapsto> e), ht_tbl = tb\<rparr>"
    using sh m1(2) by (auto simp: ht_shape_def ord)
  ultimately show ?thesis using Inr m1 by (simp add: ht_rel_def ac_simps)
qed

lemma htable_delete_m_ok:
  assumes wf: "ut_wf ht" and sh: "ht_shape ht own" and acc: "accounts m (ht_blocks ht own + M)"
  shows "sim (\<lambda>x y. ht_rel M m (snd x) y) (htable_delete ht k klen) (htable_delete_m ht k klen own m)"
  unfolding htable_delete_def htable_delete_m_def
proof (rule sim_bind_same, goal_cases)
  case (1 r)
  show ?case
  proof (cases r)
    case None
    then show ?thesis using sh acc by (simp add: ht_rel_def)
  next
    case (Some a)
    then have a: "a \<in> set (order_of ht)" using find_ptr_in_order [OF wf] 1 by simp
    have "sim (ht_rel M m) (remove_entry ht a) (remove_entry_m (\<lambda>e. [en_key e, en_value e, en_self e]) ht a own m)"
      by (rule remove_entry_m_ok [OF wf sh acc a]) (simp add: en_blocks_def add_mset_commute)
    then show ?thesis using Some by (auto simp: sim_def bind_res_def split: sum.splits)
  qed
qed

lemma htable_set_m_ok:
  assumes wf: "ut_wf ht" and sh: "ht_shape ht own" and acc: "accounts m (ht_blocks ht own + M)"
  shows "sim (ht_rel M m) (htable_set ht k klen v vlen) (htable_set_m ht k klen v vlen own m)"
  unfolding htable_set_def htable_set_m_def
proof (rule sim_bind_same, goal_cases)
  case (1 r)
  have rem: "sim (\<lambda>x y. ht_rel M m x y \<and> ut_wf x) (case r of None \<Rightarrow> Inr ht | Some a \<Rightarrow> remove_entry ht a)
      (case r of None \<Rightarrow> Inr ((ht, own), m)
       | Some a \<Rightarrow> remove_entry_m (\<lambda>e. [en_value e, en_key e, en_self e]) ht a own m)"
  proof (cases r)
    case None
    then show ?thesis using wf sh acc by (simp add: ht_rel_def)
  next
    case (Some a)
    then have a: "a \<in> set (order_of ht)" using find_ptr_in_order [OF wf] 1 by simp
    have "sim (ht_rel M m) (remove_entry ht a) (remove_entry_m (\<lambda>e. [en_value e, en_key e, en_self e]) ht a own m)"
      by (rule remove_entry_m_ok [OF wf sh acc a]) (simp add: en_blocks_def add_mset_commute)
    then show ?thesis using Some remove_entry_wf [OF wf a] by (auto intro: sim_mono)
  qed
  show ?case
  proof (rule sim_bind [OF rem], goal_cases)
    case (1 x y)
    obtain own1 m1 where y: "y = ((x, own1), m1)" using 1(2) by (cases y) (auto simp: ht_rel_def)
    have x: "ut_wf x" "ht_shape x own1" "accounts m1 (ht_blocks x own1 + M)" "only_mem m m1" "lost m1 = lost m"
      using 1(2) y by (simp_all add: ht_rel_def)
    let ?e = "\<lparr>en_self = fresh m1, en_key = fresh (mem_grow m1), en_value = fresh (mem_grow (mem_grow m1))\<rparr>"
    let ?m = "mem_grow (mem_grow (mem_grow m1))"
    have acc': "accounts ?m (ht_blocks x own1 + (en_blocks ?e + M))"
      using accounts_grow [OF accounts_grow [OF accounts_grow [OF x(3)]]]
      by (simp add: en_blocks_def add_mset_commute ac_simps)
    have same: "only_mem m ?m" "lost ?m = lost m" using x(4,5) by (simp_all add: mem_grow_def)
    show ?case unfolding y prod.case mem_alloc_def
    proof (rule sim_bind_same, rule sim_bind_same, goal_cases)
      case (1 kb vb)
      let ?d = "\<lparr>ht_key = Some kb, ht_key_len = klen, ht_value = Some vb, ht_value_len = vlen\<rparr>"
      obtain a ht1 where ml: "ut_malloc x ?d = (a, ht1)" by (cases "ut_malloc x ?d")
      from add_entry_m_ok [OF x(1,2) acc' ml, of kb] show ?case unfolding ml prod.case
        using same by (auto elim!: sim_mono simp: ht_rel_def)
    qed
  qed
qed

section \<open>The operations of the table of requests\<close>

text \<open>The blocks that completing the requests of an entry loses.\<close>

definition rq_lost :: "rq_blk \<Rightarrow> blk multiset" where
  "rq_lost r = opt_blk (pk_key (rq_pack r)) + opt_blk (pk_value (rq_pack r))"

definition re_lost :: "re_blk \<Rightarrow> blk multiset" where
  "re_lost e = {#re_self e#} + (\<Sum>r \<leftarrow> re_reqs e. rq_lost r)"

definition rt_rel :: "blk multiset \<Rightarrow> 'm mem_scheme \<Rightarrow> nat \<Rightarrow> rtable ut_hash \<Rightarrow> (rtable ut_hash \<times> rt_own) \<times> 'm mem_scheme \<Rightarrow> bool" where
  "rt_rel M m n x y \<longleftrightarrow> fst (fst y) = x \<and> rt_shape x (snd (fst y)) \<and> accounts (snd y) (rt_blocks x (snd (fst y)) + M) \<and>
     only_mem m (snd y) \<and> size (lost (snd y)) = size (lost m) + n"

lemma free_requests_ok:
  "accounts m ((\<Sum>r \<leftarrow> rs. rq_blocks r) + M) \<Longrightarrow>
   \<exists>m'. free_requests rs m = Inr m' \<and> accounts m' M \<and> only_mem m m' \<and> lost m' = lost m + (\<Sum>r \<leftarrow> rs. rq_lost r)"
proof (induction rs arbitrary: m)
  case (Cons r rs)
  let ?R = "(\<Sum>r \<leftarrow> rs. rq_blocks r) + M"
  have "accounts m (rq_lost r + (opt_blk (Some (pk_self (rq_pack r))) + (opt_blk (Some (rq_self r)) + ?R)))"
    using Cons.prems by (simp add: rq_blocks_def rq_lost_def pk_blocks_def ac_simps add_mset_commute)
  from accounts_free [OF accounts_lose [OF this]] obtain m1 where
    m1: "mem_free (Some (pk_self (rq_pack r))) (mem_lose (rq_lost r) m) = Inr m1" "accounts m1 (opt_blk (Some (rq_self r)) + ?R)"
      "only_mem m m1" "lost m1 = lost m + rq_lost r" by (auto simp: mem_lose_def)
  from accounts_free [OF m1(2)] obtain m2 where m2: "mem_free (Some (rq_self r)) m1 = Inr m2" "accounts m2 ?R"
    "only_mem m1 m2" "lost m2 = lost m1" by blast
  from Cons.IH [OF m2(2)] m1 m2 show ?case by (auto simp: rq_lost_def ac_simps)
qed simp

lemma re_lost_size: "re_shape rs e \<Longrightarrow> size (re_lost e) = 2 * length rs + 1"
proof -
  have "size (rq_lost r) = 2" if "pk_key (rq_pack r) \<noteq> None" "pk_value (rq_pack r) \<noteq> None" for r
    using that by (auto simp: rq_lost_def)
  then have "size (\<Sum>r \<leftarrow> qs. rq_lost r) = 2 * length qs"
    if "\<forall>r \<in> set qs. pk_key (rq_pack r) \<noteq> None \<and> pk_value (rq_pack r) \<noteq> None" for qs
    using that by (induction qs) auto
  then show "re_shape rs e \<Longrightarrow> size (re_lost e) = 2 * length rs + 1"
    by (simp add: re_shape_def re_lost_def)
qed

lemma append_request_length: "append_request l r = Inr l' \<Longrightarrow> length l' = Suc (length l)"
  by (induction l r arbitrary: l' rule: append_request.induct) (auto simp: bind_res_Inr_iff)

lemma ut_write_order:
  "ut_write h a d = Inr h' \<Longrightarrow> order_of h' = order_of h \<and> head h' = head h \<and>
     (\<exists>e. heap h a = Some e \<and> heap h' = (heap h)(a \<mapsto> e\<lparr>e_data := d\<rparr>))"
  by (auto simp: ut_write_def bind_res_Inr_iff order_of_def deref_def split: option.splits)

lemma rt_shape_tbl: "rt_shape t own \<Longrightarrow> order_of t' = order_of t \<Longrightarrow> head t' = head t \<Longrightarrow> tbl_shape t' (rt_tbl own)"
  by (simp add: rt_shape_def tbl_shape_def)

lemma add_request_m_ok:
  assumes wf: "ut_wf t" and sh: "rt_shape t own" and acc: "accounts m (rt_blocks t own + M)"
  shows "sim (rt_rel M m 0) (add_request t h_id sock p) (add_request_m t h_id sock p own m)"
  unfolding add_request_def add_request_m_def
proof (rule sim_bind_same, goal_cases)
  case (1 dup)
  let ?r = "\<lparr>r_packet = dup, r_socket = sock\<rparr>"
  obtain pk m1 where pk: "packet_dup_m (mem_grow m) = (pk, m1)" by (cases "packet_dup_m (mem_grow m)")
  let ?rq = "\<lparr>rq_self = fresh m, rq_pack = pk\<rparr>"
  note dup = packet_dup_m_ok [OF accounts_grow [OF acc] pk]
  have m1: "accounts m1 (rt_blocks t own + (rq_blocks ?rq + M))" "only_mem m m1"
    "pk_key pk \<noteq> None" "pk_value pk \<noteq> None"
    using dup by (simp_all add: rq_blocks_def ac_simps)
  have l1: "lost m1 = lost m"
    using pk by (auto simp: packet_dup_m_def packet_new_m_def mem_alloc_def mem_grow_def)
  show ?case unfolding Let_def mem_alloc_def pk prod.case
  proof (rule sim_bind_same, goal_cases)
    case (1 r)
    show ?case
    proof (cases r)
      case None
      let ?d = "\<lparr>rt_hash_id = h_id, open_requests = [?r]\<rparr>"
      let ?e = "\<lparr>re_self = fresh m1, re_reqs = [?rq]\<rparr>"
      obtain a t1 where ml: "ut_malloc t ?d = (a, t1)" by (cases "ut_malloc t ?d")
      have ml': "order_of t1 = order_of t" "head t1 = head t" "a \<notin> set (order_of t)" "\<And>x. x \<noteq> a \<Longrightarrow> heap t1 x = heap t x"
        "\<exists>e. heap t1 a = Some e \<and> e_data e = ?d"
        using ml fresh_not_linked [OF wf] by (auto simp: ut_malloc_def order_of_def)
      show ?thesis
      proof (cases "HASH_ADD_KEYPTR t1 (id_bytes h_id) a")
        case (Inl err)
        then show ?thesis using None ml by (simp add: HASH_ADD_KEYPTR_m_def)
      next
        case (Inr t')
        let ?E = "ents_blocks re_blocks (rt_ent own) (order_of t)"
        have "accounts (mem_grow m1) (tbl_blocks (rt_tbl own) + (?E + (re_blocks ?e + M)))"
          using accounts_grow [OF m1(1)] by (simp add: rt_blocks_def re_blocks_def ac_simps)
        from add_m_ok [OF Inr rt_shape_tbl [OF sh ml'(1,2)] this] obtain tb m2 where
          m2: "HASH_ADD_KEYPTR_m t1 (id_bytes h_id) a (rt_tbl own) (mem_grow m1) = Inr ((t', tb), m2)"
          "tbl_shape t' tb" "accounts m2 (tbl_blocks tb + (?E + (re_blocks ?e + M)))" "only_mem (mem_grow m1) m2"
          "lost m2 = lost (mem_grow m1)" by blast
        obtain e0 where ord: "order_of t' = order_of t @ [a]" "heap t1 a = Some e0" "heap t' = (heap t1)(a \<mapsto> keyed (id_bytes h_id) e0)"
          using HASH_ADD_KEYPTR_order [OF Inr] ml'(1) by auto
        let ?own = "\<lparr>rt_ent = (rt_ent own)(a \<mapsto> ?e), rt_tbl = tb\<rparr>"
        have "rt_blocks t' ?own = ?E + re_blocks ?e + tbl_blocks tb"
          using ml'(3) by (simp add: rt_blocks_def ord(1) ents_blocks_upd)
        moreover have "rt_shape t' ?own"
          unfolding rt_shape_def ord(1)
        proof (intro conjI ballI)
          fix x assume x: "x \<in> set (order_of t @ [a])"
          show "\<exists>e. rt_ent ?own x = Some e \<and> re_shape (open_requests (e_data (the (heap t' x)))) e"
          proof (cases "x = a")
            case True
            then show ?thesis using ml'(5) ord(2,3) m1(3,4) by (auto simp: re_shape_def keyed_def)
          next
            case False
            then show ?thesis using x sh ml'(4) [OF False] ord(3) by (auto simp: rt_shape_def)
          qed
        qed (use m2(2) in simp)
        moreover have "only_mem m m2" "lost m2 = lost m" using m2(4,5) m1(2) l1 by (simp_all add: mem_grow_def)
        moreover have "accounts m2 (?E + re_blocks ?e + tbl_blocks tb + M)" using m2(3) by (simp add: ac_simps)
        ultimately show ?thesis using None ml m2(1) Inr by (simp add: rt_rel_def)
      qed
    next
      case (Some a)
      then have a: "a \<in> set (order_of t)" using find_in_order [OF wf] 1 by simp
      obtain k where k: "rt_ent own a = Some k" "re_shape (open_requests (e_data (the (heap t a)))) k"
        using sh a by (auto simp: rt_shape_def)
      let ?k = "k\<lparr>re_reqs := re_reqs k @ [?rq]\<rparr>"
      let ?own = "own\<lparr>rt_ent := (rt_ent own)(a \<mapsto> ?k)\<rparr>"
      have run: "sim (\<lambda>x y. y = ((x, ?own), m1) \<and> rt_shape x ?own \<and> order_of x = order_of t)
          (bind_res (ut_read t a) (\<lambda>e. bind_res (append_request (open_requests e) ?r) (\<lambda>l. ut_write t a (e\<lparr>open_requests := l\<rparr>))))
          (bind_res (ut_read t a) (\<lambda>e. bind_res (append_request (open_requests e) ?r) (\<lambda>l.
             bind_res (ut_write t a (e\<lparr>open_requests := l\<rparr>)) (\<lambda>table.
             bind_res (ent_at (rt_ent own) a) (\<lambda>k.
             Inr ((table, own\<lparr>rt_ent := (rt_ent own)(a \<mapsto> k\<lparr>re_reqs := re_reqs k @ [?rq]\<rparr>)\<rparr>), m1))))))"
      proof (rule sim_bind_same, rule sim_bind_same, goal_cases)
        case (1 e l)
        show ?case
        proof (cases "ut_write t a (e\<lparr>open_requests := l\<rparr>)")
          case (Inr t')
          obtain e0 where w: "order_of t' = order_of t" "head t' = head t" "heap t a = Some e0"
            "heap t' = (heap t)(a \<mapsto> e0\<lparr>e_data := e\<lparr>open_requests := l\<rparr>\<rparr>)"
            using ut_write_order [OF Inr] by blast
          have "e = e_data e0" using 1(1) w(3) by (simp add: ut_read_def)
          then have "re_shape l ?k" using k(2) w(3) m1(3,4) append_request_length [OF 1(2)] by (auto simp: re_shape_def)
          then have "rt_shape t' ?own"
            using sh w rt_shape_tbl [OF sh w(1,2)] by (auto simp: rt_shape_def)
          then show ?thesis using Inr k(1) w(1) by (simp add: ent_at_def)
        qed simp
      qed
      have "rt_blocks x ?own = rt_blocks t own + rq_blocks ?rq" if "order_of x = order_of t" for x
      proof -
        have gone: "a \<notin> set (remove1 a (order_of t))" using ut_wf_distinct [OF wf] by simp
        have "re_blocks ?k = re_blocks k + rq_blocks ?rq" by (simp add: re_blocks_def)
        then show ?thesis
          using ents_blocks_remove [OF a, of re_blocks "rt_ent own"] ents_blocks_remove [OF a, of re_blocks "rt_ent ?own"] k(1)
            ents_blocks_upd [OF gone, of re_blocks "rt_ent own"] that
          by (simp add: rt_blocks_def ac_simps)
      qed
      then have "sim (rt_rel M m 0)
          (bind_res (ut_read t a) (\<lambda>e. bind_res (append_request (open_requests e) ?r) (\<lambda>l. ut_write t a (e\<lparr>open_requests := l\<rparr>))))
          (bind_res (ut_read t a) (\<lambda>e. bind_res (append_request (open_requests e) ?r) (\<lambda>l.
             bind_res (ut_write t a (e\<lparr>open_requests := l\<rparr>)) (\<lambda>table.
             bind_res (ent_at (rt_ent own) a) (\<lambda>k.
             Inr ((table, own\<lparr>rt_ent := (rt_ent own)(a \<mapsto> k\<lparr>re_reqs := re_reqs k @ [?rq]\<rparr>)\<rparr>), m1))))))"
        using m1(1,2) l1 by (intro sim_mono [OF run]) (simp add: rt_rel_def ac_simps)
      then show ?thesis using Some by simp
    qed
  qed
qed

definition clear_cost :: "request list \<Rightarrow> nat" where
  "clear_cost rs = (if rs = [] then 0 else 2 * length rs + 1)"

lemma clear_requests_m_ok:
  assumes wf: "rt_wf t" and sh: "rt_shape t own" and acc: "accounts m (rt_blocks t own + M)"
  shows "sim (rt_rel M m (clear_cost (rt_queue t h_id))) (clear_requests t h_id) (clear_requests_m t h_id own m)"
proof (cases "ut_map t (id_bytes h_id)")
  case None
  then have "HASH_FIND t (id_bytes h_id) = Inr None" using wf ut.find_miss [of t] by (simp add: rt_wf_def)
  then show ?thesis using None sh acc
    by (simp add: clear_requests_def clear_requests_m_def rt_rel_def clear_cost_def rt_queue_def)
next
  case (Some d)
  let ?k = "id_bytes h_id"
  have u: "ut_wf t" and ne: "open_requests d \<noteq> []" using wf Some by (auto simp: rt_wf_def)
  obtain a where f: "HASH_FIND t ?k = Inr (Some a)" "linked t a ?k" "ut_read t a = Inr d"
    using ut.find_hit [OF u Some] by blast
  then have a: "a \<in> set (order_of t)" by (simp add: linked_def)
  have d: "e_data (the (heap t a)) = d" using linked_map [OF u f(2)] Some by simp
  obtain e where e: "rt_ent own a = Some e" "re_shape (open_requests d) e" using sh a d by (auto simp: rt_shape_def)
  obtain t1 where t1: "ut_write t a (d\<lparr>open_requests := []\<rparr>) = Inr t1" "ut_wf t1" using ut.store_law [OF u f(2)] by blast
  have o1: "order_of t1 = order_of t" "head t1 = head t" "\<And>x. x \<noteq> a \<Longrightarrow> heap t1 x = heap t x"
    using ut_write_order [OF t1(1)] by auto
  obtain t2 where t2: "HASH_DELETE t1 a = Inr t2" "order_of t2 = remove1 a (order_of t)" "heap t2 = heap t1"
    using HASH_DELETE_ok [OF t1(2), of a] a o1(1) by auto
  let ?R = "ents_blocks re_blocks (rt_ent own) (remove1 a (order_of t))"
  have "accounts m ((\<Sum>r \<leftarrow> re_reqs e. rq_blocks r) + ({#re_self e#} + (tbl_blocks (rt_tbl own) + (?R + M))))"
    using acc ents_blocks_remove [OF a, of re_blocks "rt_ent own"] e(1) by (simp add: rt_blocks_def re_blocks_def ac_simps)
  from free_requests_ok [OF this] obtain m1 where m1: "free_requests (re_reqs e) m = Inr m1" "only_mem m m1"
    "accounts m1 ({#re_self e#} + (tbl_blocks (rt_tbl own) + (?R + M)))" "lost m1 = lost m + (\<Sum>r \<leftarrow> re_reqs e. rq_lost r)" by blast
  have "accounts m1 (tbl_blocks (rt_tbl own) + ({#re_self e#} + (?R + M)))" using m1(3) by (simp add: ac_simps)
  from delete_m_ok [OF t2(1) rt_shape_tbl [OF sh o1(1,2)] this] obtain tb m2 where
    m2: "HASH_DELETE_m t1 a (rt_tbl own) m1 = Inr ((t2, tb), m2)" "tbl_shape t2 tb" "only_mem m1 m2" "lost m2 = lost m1"
      "accounts m2 (tbl_blocks tb + ({#re_self e#} + (?R + M)))" by blast
  let ?own = "\<lparr>rt_ent = (rt_ent own)(a := None), rt_tbl = tb\<rparr>" and ?m = "mem_lose {#re_self e#} m2"
  have gone: "a \<notin> set (remove1 a (order_of t))" using ut_wf_distinct [OF u] by simp
  have "rt_blocks t2 ?own = ?R + tbl_blocks tb"
    using gone by (simp add: rt_blocks_def t2(2) ents_blocks_upd)
  moreover have "rt_shape t2 ?own"
    unfolding rt_shape_def t2(2)
  proof (intro conjI ballI)
    fix x assume x: "x \<in> set (remove1 a (order_of t))"
    have "x \<noteq> a" using x gone by metis
    moreover have "x \<in> set (order_of t)" using x notin_set_remove1 by metis
    ultimately show "\<exists>e. rt_ent ?own x = Some e \<and> re_shape (open_requests (e_data (the (heap t2 x)))) e"
      using sh o1(3) t2(3) by (simp add: rt_shape_def)
  qed (use m2(2) in simp)
  moreover have "accounts ?m (?R + tbl_blocks tb + M)"
    using accounts_lose [of m2 "{#re_self e#}"] m2(5) by (simp add: ac_simps)
  moreover have "clear_requests t h_id = Inr t2" using f t1(1) t2(1) by (simp add: clear_requests_def)
  moreover have "clear_requests_m t h_id own m = Inr ((t2, ?own), ?m)"
    using f e(1) m1(1) t1(1) m2(1) by (simp add: clear_requests_m_def ent_at_def)
  moreover have "lost ?m = lost m + re_lost e" using m1(4) m2(4) by (simp add: mem_lose_def re_lost_def)
  then have "size (lost ?m) = size (lost m) + clear_cost (rt_queue t h_id)"
    using re_lost_size [OF e(2)] ne Some by (simp add: clear_cost_def rt_queue_def)
  moreover have "only_mem m ?m" using m1(2) m2(3) by simp
  ultimately show ?thesis by (simp add: rt_rel_def)
qed

section \<open>Properties\<close>

text \<open>A history of the storage, with blocks, from the empty table.\<close>

primrec ht_step_m ::
  "(htable ut_hash \<times> ht_own) \<times> mem \<Rightarrow> ht_op \<Rightarrow> ((htable ut_hash \<times> ht_own) \<times> mem) res" where
  "ht_step_m s (OpSet k v) = htable_set_m (fst (fst s)) (Some k) (of_nat (length k)) (Some v) (of_nat (length v)) (snd (fst s)) (snd s)"
| "ht_step_m s (OpDel k) = htable_delete_m (fst (fst s)) (Some k) (of_nat (length k)) (snd (fst s)) (snd s)"

definition ht_start :: "(htable ut_hash \<times> ht_own) \<times> mem" where
  "ht_start = ((ut_empty, \<lparr>ht_ent = (\<lambda>_. None), ht_tbl = None\<rparr>), mem_empty)"

lemma ht_step_wf: "ht_wf ht \<Longrightarrow> ht_op_ok x \<Longrightarrow> ht_step ht x = Inr ht' \<Longrightarrow> ht_wf ht'"
proof (cases x)
  case (OpSet k v)
  assume a: "ht_wf ht" "ht_op_ok x" "ht_step ht x = Inr ht'"
  have "length k < 2 ^ 64" using a(2) OpSet by simp
  then show ?thesis
    using a OpSet htable_set_cases [OF a(1) arg_Some arg_Some, of k v] by auto
next
  case (OpDel k)
  assume a: "ht_wf ht" "ht_op_ok x" "ht_step ht x = Inr ht'"
  then show ?thesis using OpDel htable_delete_ok [OF a(1) arg_Some, of k] by auto
qed

lemma ht_step_m_ok:
  assumes wf: "ht_wf (fst (fst s))" and ok: "ht_op_ok x"
    and sh: "ht_shape (fst (fst s)) (snd (fst s))" and acc: "accounts (snd s) (ht_blocks (fst (fst s)) (snd (fst s)) + M)"
  shows "sim (ht_rel M (snd s)) (ht_step (fst (fst s)) x) (ht_step_m s x)"
proof (cases x)
  case (OpSet k v)
  then show ?thesis using htable_set_m_ok [OF _ sh acc] wf by (simp add: ht_wf_def)
next
  case (OpDel k)
  have "sim (\<lambda>x y. ht_rel M (snd s) (snd x) y) (htable_delete (fst (fst s)) (Some k) (of_nat (length k)))
      (htable_delete_m (fst (fst s)) (Some k) (of_nat (length k)) (snd (fst s)) (snd s))"
    using htable_delete_m_ok [OF _ sh acc] wf by (simp add: ht_wf_def)
  then show ?thesis using OpDel by (auto simp: sim_def bind_res_def split: sum.splits)
qed

lemma ht_run_m_ok:
  assumes "ht_wf (fst (fst s))" "list_all ht_op_ok xs" "ht_shape (fst (fst s)) (snd (fst s))"
    "accounts (snd s) (ht_blocks (fst (fst s)) (snd (fst s)) + M)"
  shows "sim (\<lambda>x y. ht_rel M (snd s) x y \<and> ht_wf x) (run_res ht_step (fst (fst s)) xs) (run_res ht_step_m s xs)"
  using assms
proof (induction xs arbitrary: s)
  case Nil
  then show ?case by (cases s; cases "fst s") (simp add: ht_rel_def)
next
  case (Cons x xs)
  have ok: "ht_op_ok x" "list_all ht_op_ok xs" using Cons.prems(2) by simp_all
  show ?case unfolding run_res.simps
  proof (rule sim_bind [OF ht_step_m_ok [OF Cons.prems(1) ok(1) Cons.prems(3,4)]], goal_cases)
    case (1 ht y)
    then have y: "fst (fst y) = ht" "ht_shape ht (snd (fst y))" "accounts (snd y) (ht_blocks ht (snd (fst y)) + M)"
      "only_mem (snd s) (snd y)" "lost (snd y) = lost (snd s)" by (simp_all add: ht_rel_def)
    have "ht_wf ht" using ht_step_wf [OF Cons.prems(1) ok(1) 1(1)] .
    with Cons.IH [of y] ok(2) y have "sim (\<lambda>x z. ht_rel M (snd y) x z \<and> ht_wf x) (run_res ht_step ht xs) (run_res ht_step_m y xs)"
      by simp
    then show ?case by (rule sim_mono) (use y(4,5) in \<open>simp add: ht_rel_def\<close>)
  qed
qed

text \<open>The number of entries, and the number of their blocks.\<close>

lemma ht_map_card:
  assumes "ht_wf ht"
  shows "card (dom (ht_map ht)) = length (order_of ht)"
proof -
  let ?g = "\<lambda>a. hh_key (the (heap ht a))"
  have "inj_on ?g (set (order_of ht))" "distinct (order_of ht)"
    using assms ut_wf_distinct by (auto simp: ht_wf_def ut_wf_def elmts_ok_def)
  then have "card (?g ` set (order_of ht)) = length (order_of ht)"
    by (simp add: card_image distinct_card)
  moreover have "dom (ut_map ht) = ?g ` set (order_of ht)"
    by (simp add: ut_map_def dom_map_of_conv_image_fst image_image)
  moreover have "dom (ht_map ht) = dom (ut_map ht)"
    using assms by (fastforce simp: ht_map_def ht_wf_def entry_ok_def bind_eq_Some_conv)
  ultimately show ?thesis by simp
qed

lemma ht_blocks_size:
  assumes "ht_shape ht own"
  shows "size (ht_blocks ht own) = 3 * length (order_of ht) + (if order_of ht = [] then 0 else 2)"
proof -
  have "size (ents_blocks en_blocks (ht_ent own) as) = 3 * length as" if "\<forall>a \<in> set as. ht_ent own a \<noteq> None" for as
    using that by (induction as) (auto simp: en_blocks_def)
  moreover have "size (tbl_blocks (ht_tbl own)) = (if order_of ht = [] then 0 else 2)"
    using assms by (cases "ht_tbl own") (auto simp: ht_shape_def tbl_shape_def tbl_blocks_def order_of_def)
  ultimately show ?thesis using assms by (simp add: ht_blocks_def ht_shape_def)
qed

text \<open>
  C16: the storage neither loses a block nor frees one twice. Any history of SET and DELETE
  from the empty table fails or succeeds as it does without blocks, and afterwards exactly three
  blocks per stored key are allocated, and two for the table if it holds any.
\<close>

theorem htable_memory_exact:
  assumes "list_all ht_op_ok ops"
  shows "case run_res ht_step ut_empty ops of
      Inl err \<Rightarrow> run_res ht_step_m ht_start ops = Inl err
    | Inr ht \<Rightarrow> \<exists>own m. run_res ht_step_m ht_start ops = Inr ((ht, own), m) \<and> lost m = {#} \<and>
        card (live m) = 3 * card (dom (ht_map ht)) + (if ht_map ht = Map.empty then 0 else 2)"
proof -
  have run: "sim (\<lambda>x y. ht_rel {#} mem_empty x y \<and> ht_wf x) (run_res ht_step ut_empty ops) (run_res ht_step_m ht_start ops)"
    using ht_run_m_ok [OF _ assms, of ht_start "{#}"] accounts_empty
    by (simp add: ht_start_def ht_shape_def tbl_shape_def ut_empty_def ht_blocks_def order_of_def tbl_blocks_def
      ht_wf_empty [unfolded ut_empty_def])
  have count: "card (live m) = 3 * card (dom (ht_map ht)) + (if ht_map ht = Map.empty then 0 else 2) \<and> lost m = {#}"
    if "ht_rel {#} mem_empty ht ((ht, own), m)" "ht_wf ht" for ht own m
  proof -
    have "card (live m) = size (ht_blocks ht own)" "lost m = {#}" "ht_shape ht own"
      using that(1) accounts_card [of m "ht_blocks ht own"] by (simp_all add: ht_rel_def mem_empty_def)
    moreover have "ht_map ht = Map.empty \<longleftrightarrow> order_of ht = []"
    proof -
      have "finite (dom (ut_map ht))" by (simp add: ut_map_def finite_dom_map_of)
      then have "finite (dom (ht_map ht))" by (rule finite_subset [rotated]) (auto simp: ht_map_def bind_eq_Some_conv)
      then have "dom (ht_map ht) = {} \<longleftrightarrow> order_of ht = []" using ht_map_card [OF that(2)] card_eq_0_iff by fastforce
      then show ?thesis by simp
    qed
    ultimately show ?thesis using ht_blocks_size ht_map_card [OF that(2)] by simp
  qed
  show ?thesis
  proof (cases "run_res ht_step ut_empty ops")
    case (Inl err)
    then show ?thesis using sim_error [OF run] by simp
  next
    case (Inr ht)
    from sim_Inr [OF run Inr] obtain own m where
      "run_res ht_step_m ht_start ops = Inr ((ht, own), m)" "ht_rel {#} mem_empty ht ((ht, own), m)" "ht_wf ht"
      by (auto simp: ht_rel_def)
    then show ?thesis using count [of ht own m] Inr by simp
  qed
qed

text \<open>
  C17: completing the requests of a hash id frees no block twice, and loses exactly two blocks
  per request (the copies of its key and value) and one for the table entry.
\<close>

theorem cleared_requests_leak:
  assumes "rt_wf t" "rt_shape t own" "accounts m (rt_blocks t own + M)"
  shows "\<exists>t' own' m'. clear_requests t h_id = Inr t' \<and> clear_requests_m t h_id own m = Inr ((t', own'), m') \<and>
     rt_shape t' own' \<and> accounts m' (rt_blocks t' own' + M) \<and>
     size (lost m') = size (lost m) + (if rt_queue t h_id = [] then 0 else 2 * length (rt_queue t h_id) + 1)"
proof -
  obtain t' where "clear_requests t h_id = Inr t'" using clear_requests_ok [OF assms(1)] by blast
  with sim_Inr [OF clear_requests_m_ok [OF assms, of h_id]] show ?thesis
    by (force simp: rt_rel_def clear_cost_def)
qed

section \<open>Witnesses\<close>

theorem htable_memory_exact_witness:
  "\<exists>s. run_res ht_step_m ht_start [OpSet [1] [2], OpSet [1] [3, 4]] = Inr s \<and> card (live (snd s)) = 5"
proof -
  let ?ops = "[OpSet [1] [2], OpSet [1] [3, 4]] :: ht_op list"
  obtain ht where ht: "run_res ht_step ut_empty ?ops = Inr ht" "ht_map ht = fold ht_spec ?ops Map.empty"
    using htq.history [of ut_empty ?ops] by auto
  have m: "ht_map ht = [[1] \<mapsto> [3, 4]]" using ht(2) by simp
  then have "ht_map ht \<noteq> Map.empty" "card (dom (ht_map ht)) = 1" by (auto dest: fun_cong [of _ _ "[1]"])
  then show ?thesis using htable_memory_exact [of ?ops] ht(1) by auto
qed

theorem cleared_requests_leak_witness:
  "\<exists>t own m t' own' m'. add_request_m ut_empty 7 5 packet_new \<lparr>rt_ent = (\<lambda>_. None), rt_tbl = None\<rparr> mem_empty = Inr ((t, own), m) \<and>
     lost m = {#} \<and> clear_requests_m t 7 own m = Inr ((t', own'), m') \<and> size (lost m') = 3"
proof -
  let ?own = "\<lparr>rt_ent = (\<lambda>_. None), rt_tbl = None\<rparr>"
  have dup: "packet_dup packet_new = Inr (dup_of packet_new)" by (rule packet_dup_of) simp
  obtain t where t: "add_request ut_empty 7 5 packet_new = Inr t" "rt_wf t" "length (rt_queue t 7) = 1"
    using add_request_ok [OF rt_wf_empty(1) _ dup, of 7 5] by auto
  have "sim (rt_rel {#} mem_empty 0) (add_request ut_empty 7 5 packet_new) (add_request_m ut_empty 7 5 packet_new ?own mem_empty)"
    using add_request_m_ok [OF ut_empty_ok(1), of ?own mem_empty "{#}"] accounts_empty
    by (simp add: rt_shape_def tbl_shape_def ut_empty_def rt_blocks_def order_of_def tbl_blocks_def)
  then obtain own m where m: "add_request_m ut_empty 7 5 packet_new ?own mem_empty = Inr ((t, own), m)" "rt_shape t own"
    "accounts m (rt_blocks t own + {#})" "size (lost m) = 0"
    using t(1) by (auto simp: sim_def rt_rel_def mem_empty_def)
  have "lost m = {#}" using m(4) by simp
  moreover have "rt_queue t 7 \<noteq> []" using t(3) by auto
  ultimately show ?thesis using cleared_requests_leak [OF t(2) m(2,3), of 7] m(1) t(3) by auto
qed

end
