(* ===== verification/Stream_Memory.thy ===== *)
theory Stream_Memory
  imports Client Memory
begin

text \<open>
  The two functions that collect a stream in a buffer which \<open>realloc\<close> doubles: \<open>recvall\<close> of
  \<open>praxis2/src/util.c\<close> and \<open>read_stdin\<close> of \<open>praxis2/src/client.c\<close>. The caller gets the last
  block, and only that one is allocated then.
\<close>

function recvall_loop_m ::
  "(nat \<Rightarrow> byte) \<Rightarrow> byte list \<Rightarrow> int \<Rightarrow> recv_res list \<Rightarrow> blk \<Rightarrow> 'm mem_scheme
     \<Rightarrow> ((byte list \<times> int \<times> recv_res list) \<times> blk \<times> 'm mem_scheme) res" where
  "recvall_loop_m junk buf pos q b m =
     (case (if int (length buf) - pos < 1 then realloc_m (Some b) m else Inr (b, m)) of
        Inl e \<Rightarrow> Inl e
      | Inr (b, m) \<Rightarrow>
          let buf = (if int (length buf) - pos < 1 then grow junk buf else buf) in
          case recv_q (nat (int (length buf) - pos)) q of
            Inl e \<Rightarrow> Inl e
          | Inr (n, bs, q') \<Rightarrow>
              if n < 0 then recvall_loop_m junk buf (pos - 1) q' b m
              else if n < 1 then Inr ((buf, pos, q'), b, m)
              else if pos < 0 then Inl Out_Of_Bounds
              else case store_at buf (nat pos) bs of
                Inl e \<Rightarrow> Inl e
              | Inr buf \<Rightarrow> recvall_loop_m junk buf (pos + n) q' b m)"
  by pat_completeness auto
termination
proof -
  have w: "q_weight q' < q_weight q" if "recv_q len q = Inr (n, bs, q')" "n \<noteq> 0" for len q n bs q'
    using that by (induction len q rule: recv_q.induct) (auto simp: q_weight_def split: if_splits)
  show ?thesis
    by (relation "measure (\<lambda>(junk, buf, pos, q, b, m). q_weight q)") (auto intro: w)
qed

declare recvall_loop_m.simps [simp del]

definition recvall_m ::
  "(nat \<Rightarrow> byte) \<Rightarrow> int \<Rightarrow> 'w net_scheme \<Rightarrow> 'm mem_scheme
     \<Rightarrow> ((byte list \<times> nat \<times> 'w net_scheme) \<times> blk \<times> 'm mem_scheme) res" where
  "recvall_m junk s w m =
     (case mem_alloc m of (b, m) \<Rightarrow>
      bind_res (recvall_loop_m junk (malloc junk 1024) 0 (inq w s) b m) (\<lambda>((buf, pos, q), b, m).
      Inr ((buf, nat (pos mod 2 ^ 64), sys_close s (w\<lparr>inq := (inq w)(s := q)\<rparr>)), b, m)))"

function read_stdin_loop_m ::
  "(nat \<Rightarrow> byte) \<Rightarrow> byte list \<Rightarrow> nat \<Rightarrow> byte list list \<Rightarrow> blk \<Rightarrow> 'm mem_scheme
     \<Rightarrow> ((byte list \<times> nat \<times> byte list list) \<times> blk \<times> 'm mem_scheme) res" where
  "read_stdin_loop_m junk buffer pos inp b m =
     (case (if length buffer - pos < 1 then realloc_m (Some b) m else Inr (b, m)) of
        Inl e \<Rightarrow> Inl e
      | Inr (b, m) \<Rightarrow>
          let buffer = (if length buffer - pos < 1 then grow junk buffer else buffer) in
          case fread (length buffer - pos) inp of (bs, inp') \<Rightarrow>
            if length bs < 1 then Inr ((buffer, pos, inp'), b, m)
            else case store_at buffer pos bs of
              Inl e \<Rightarrow> Inl e
            | Inr buffer \<Rightarrow> read_stdin_loop_m junk buffer (pos + length bs) inp' b m)"
  by pat_completeness auto
termination
proof -
  have w: "in_weight inp' < in_weight inp" if "fread len inp = (bs, inp')" "bs \<noteq> []" for len inp bs inp'
    using that by (induction len inp rule: fread.induct) (auto simp: in_weight_def split: if_splits)
  show ?thesis
    by (relation "measure (\<lambda>(junk, buffer, pos, inp, b, m). in_weight inp)") (auto intro: w [OF sym])
qed

declare read_stdin_loop_m.simps [simp del]

definition read_stdin_m ::
  "(nat \<Rightarrow> byte) \<Rightarrow> byte list list \<Rightarrow> 'm mem_scheme \<Rightarrow> ((byte list \<times> nat \<times> byte list list) \<times> blk \<times> 'm mem_scheme) res" where
  "read_stdin_m junk inp m = (case mem_alloc m of (b, m) \<Rightarrow> read_stdin_loop_m junk (malloc junk 1024) 0 inp b m)"

text \<open>The same result, in one block more than before.\<close>

definition buf_rel :: "blk multiset \<Rightarrow> 'm mem_scheme \<Rightarrow> 'a \<Rightarrow> 'a \<times> blk \<times> 'm mem_scheme \<Rightarrow> bool" where
  "buf_rel M m x y \<longleftrightarrow> fst y = x \<and> accounts (snd (snd y)) (add_mset (fst (snd y)) M) \<and> only_mem m (snd (snd y)) \<and>
     lost (snd (snd y)) = lost m"

text \<open>The loops reallocate, or do not.\<close>

lemma grow_block:
  assumes "accounts m (add_mset b M)"
  obtains b' m' where "(if c then realloc_m (Some b) m else Inr (b, m)) = Inr (b', m')" "accounts m' (add_mset b' M)"
    "only_mem m m'" "lost m' = lost m"
  using accounts_realloc [of m "Some b" M] assms by (cases c) auto

lemma buf_rel_trans: "buf_rel M m' x y \<Longrightarrow> only_mem m m' \<Longrightarrow> lost m' = lost m \<Longrightarrow> buf_rel M m x y"
  by (simp add: buf_rel_def)

lemma recvall_loop_m_ok:
  "accounts m (add_mset b M) \<Longrightarrow> sim (buf_rel M m) (recvall_loop junk buf pos q) (recvall_loop_m junk buf pos q b m)"
proof (induction junk buf pos q arbitrary: b m rule: recvall_loop.induct)
  case (1 junk buf pos q)
  obtain b1 m1 where g: "(if int (length buf) - pos < 1 then realloc_m (Some b) m else Inr (b, m)) = Inr (b1, m1)"
    "accounts m1 (add_mset b1 M)" "only_mem m m1" "lost m1 = lost m"
    using grow_block [OF 1(3)] by blast
  define buf1 where "buf1 = (if int (length buf) - pos < 1 then grow junk buf else buf)"
  note IH = 1(1,2) [OF buf1_def]
  note eqs = recvall_loop.simps [of junk buf pos q, unfolded Let_def, folded buf1_def]
    recvall_loop_m.simps [of junk buf pos q b m, unfolded g(1) Let_def sum.case prod.case, folded buf1_def]
  show ?case
  proof (cases "recv_q (nat (int (length buf1) - pos)) q")
    case (Inl e)
    then show ?thesis by (simp add: eqs)
  next
    case (Inr r)
    obtain n bs q' where r: "r = (n, bs, q')" by (cases r)
    consider "n < 0" | "n = 0" | "0 < n" "pos < 0" | "0 < n" "0 \<le> pos" by linarith
    then show ?thesis
    proof cases
      case 1
      have "sim (buf_rel M m) (recvall_loop junk buf1 (pos - 1) q') (recvall_loop_m junk buf1 (pos - 1) q' b1 m1)"
        using IH(1) [OF Inr [unfolded r] refl refl 1 g(2)] by (rule sim_mono) (rule buf_rel_trans [OF _ g(3,4)])
      then show ?thesis using Inr r 1 by (simp add: eqs)
    next
      case 2
      then show ?thesis using Inr r g(2-4) by (simp add: eqs buf_rel_def)
    next
      case 3
      then show ?thesis using Inr r by (simp add: eqs)
    next
      case 4
      show ?thesis
      proof (cases "store_at buf1 (nat pos) bs")
        case (Inl e)
        then show ?thesis using Inr r 4 by (simp add: eqs)
      next
        case st: (Inr buf2)
        have "\<not> n < 0" "\<not> n < 1" "\<not> pos < 0" using 4 by simp_all
        from IH(2) [OF Inr [unfolded r] refl refl this st g(2)]
        have "sim (buf_rel M m) (recvall_loop junk buf2 (pos + n) q') (recvall_loop_m junk buf2 (pos + n) q' b1 m1)"
          by (rule sim_mono) (rule buf_rel_trans [OF _ g(3,4)])
        then show ?thesis using Inr r 4 st by (simp add: eqs)
      qed
    qed
  qed
qed

lemma recvall_m_ok:
  assumes "accounts m M"
  shows "sim (buf_rel M m) (recvall junk s w) (recvall_m junk s w m)"
  unfolding recvall_def recvall_m_def mem_alloc_def prod.case
proof (rule sim_bind [OF recvall_loop_m_ok [OF accounts_grow [OF assms]]], goal_cases)
  case (1 x y)
  then show ?case by (cases x; cases y) (auto simp: buf_rel_def mem_grow_def)
qed

lemma read_stdin_loop_m_ok:
  "accounts m (add_mset b M) \<Longrightarrow> sim (buf_rel M m) (read_stdin_loop junk buf pos inp) (read_stdin_loop_m junk buf pos inp b m)"
proof (induction junk buf pos inp arbitrary: b m rule: read_stdin_loop.induct)
  case (1 junk buf pos inp)
  obtain b1 m1 where g: "(if length buf - pos < 1 then realloc_m (Some b) m else Inr (b, m)) = Inr (b1, m1)"
    "accounts m1 (add_mset b1 M)" "only_mem m m1" "lost m1 = lost m"
    using grow_block [OF 1(2)] by blast
  define buf1 where "buf1 = (if length buf - pos < 1 then grow junk buf else buf)"
  obtain bs inp' where f: "fread (length buf1 - pos) inp = (bs, inp')" by fastforce
  note eqs = read_stdin_loop.simps [of junk buf pos inp, unfolded Let_def, folded buf1_def, unfolded f prod.case]
    read_stdin_loop_m.simps [of junk buf pos inp b m, unfolded g(1) Let_def sum.case prod.case, folded buf1_def, unfolded f prod.case]
  show ?case
  proof (cases "length bs < 1")
    case True
    then show ?thesis using f g(2-4) by (simp add: eqs buf_rel_def)
  next
    case False
    show ?thesis
    proof (cases "store_at buf1 pos bs")
      case (Inl e)
      then show ?thesis using f False by (simp add: eqs)
    next
      case (Inr buf2)
      from 1(1) [OF buf1_def f [symmetric] False Inr g(2)]
      have "sim (buf_rel M m) (read_stdin_loop junk buf2 (pos + length bs) inp') (read_stdin_loop_m junk buf2 (pos + length bs) inp' b1 m1)"
        by (rule sim_mono) (rule buf_rel_trans [OF _ g(3,4)])
      then show ?thesis using f False Inr by (simp add: eqs)
    qed
  qed
qed

lemma read_stdin_m_ok:
  assumes "accounts m M"
  shows "sim (buf_rel M m) (read_stdin junk inp) (read_stdin_m junk inp m)"
  unfolding read_stdin_def read_stdin_m_def mem_alloc_def prod.case
  by (rule sim_mono [OF read_stdin_loop_m_ok [OF accounts_grow [OF assms]]]) (simp add: buf_rel_def mem_grow_def)

end
