(* ===== verification/Peer_Memory.thy ===== *)
theory Peer_Memory
  imports Peer_Requests Server_Memory Table_Memory Stream_Memory
begin

unbundle bit_operations_syntax

text \<open>
  The memory of the peer process, \<open>praxis2/src/peer.c\<close>: its handlers with the blocks they
  allocate. No handler frees a packet, a buffer or a peer structure it made, so every request
  loses blocks; the theory counts them for each branch. The handlers keep the contract
  \<open>memory_handler\<close>, so that a run of the whole server frees no block twice and ends with the
  storage, the table of requests and the lost blocks as the only ones still allocated.
\<close>

section \<open>State\<close>

record pmem = smem +
  p_ht :: ht_own
  p_rt :: rt_own

record pe_blk =
  pe_self :: blk
  pe_host :: blk

definition pe_blocks :: "pe_blk \<Rightarrow> blk multiset" where
  "pe_blocks k = {#pe_self k, pe_host k#}"

definition peer_from_packet_m :: "'m mem_scheme \<Rightarrow> pe_blk \<times> 'm mem_scheme" where
  "peer_from_packet_m m =
     (case mem_alloc m of (b, m) \<Rightarrow> case mem_alloc m of (h, m) \<Rightarrow> (\<lparr>pe_self = b, pe_host = h\<rparr>, m))"

section \<open>Handlers\<close>

text \<open>The serialized packet is never freed; nor is the answer in \<open>proxy_request\<close>.\<close>

definition forward_m ::
  "(nat \<Rightarrow> byte) \<Rightarrow> peer \<Rightarrow> packet \<Rightarrow> world \<Rightarrow> 'm mem_scheme \<Rightarrow> ((int \<times> peer \<times> world) \<times> 'm mem_scheme) res" where
  "forward_m junk p pk w m =
     (case mem_alloc m of (b, m) \<Rightarrow>
      bind_res (forward junk p pk w) (\<lambda>r. Inr (r, mem_lose {#b#} m)))"

definition proxy_request_m ::
  "(nat \<Rightarrow> byte) \<Rightarrow> int \<Rightarrow> packet \<Rightarrow> peer \<Rightarrow> world \<Rightarrow> 'm mem_scheme \<Rightarrow> ((int \<times> peer \<times> world) \<times> 'm mem_scheme) res" where
  "proxy_request_m junk csocket p n w m =
     bind_res (forward_m junk n p w m) (\<lambda>((_, n, w), m).
     bind_res (recvall_m junk (p_socket n) w m) (\<lambda>((answer_serial, answer_len, w), b, m).
     bind_res (sendall csocket answer_serial answer_len w) (\<lambda>(_, w).
     case peer_disconnect n w of (n, w) \<Rightarrow> Inr ((CB_REMOVE_CLIENT, n, w), mem_lose {#b#} m))))"

definition lookup_peer_m :: "(nat \<Rightarrow> byte) \<Rightarrow> u16 \<Rightarrow> world \<Rightarrow> 'm mem_scheme \<Rightarrow> ((int \<times> world) \<times> 'm mem_scheme) res" where
  "lookup_peer_m junk h_id w m =
     bind_res (the_peer (w_self w)) (\<lambda>me.
     let lkup_packet = packet_new\<lparr>flags := 0 OR PKT_FLAG_CTRL OR PKT_FLAG_LKUP, hash_id := h_id,
           node_id := p_node_id me, node_ip := peer_get_ip me w, node_port := port me\<rparr> in
     case packet_new_m m of (k, m) \<Rightarrow>
     bind_res (the_peer (w_succ w)) (\<lambda>su.
     bind_res (forward_m junk su lkup_packet w m) (\<lambda>((status, su, w), m).
     Inr ((if status < 0 then -1 else 0, w\<lparr>w_succ := Some su\<rparr>), mem_lose (pk_blocks k) m))))"

text \<open>The three requests on the storage; \<open>k\<close> are the blocks of the acknowledgement.\<close>

definition own_get_m :: "packet \<Rightarrow> world \<Rightarrow> pk_blk \<Rightarrow> pmem \<Rightarrow> ((packet \<times> world) \<times> pk_blk \<times> pmem) res" where
  "own_get_m p w k m =
     bind_res (own_get p w) (\<lambda>ack.
     bind_res (htable_get (w_ht w) (pkey p) (ucast (key_len p))) (\<lambda>entry.
     case entry of None \<Rightarrow> Inr ((ack, w), k, m)
     | Some _ \<Rightarrow>
         (case mem_alloc m of (bk, m) \<Rightarrow> case mem_alloc m of (bv, m) \<Rightarrow>
          Inr ((ack, w), k\<lparr>pk_key := Some bk, pk_value := Some bv\<rparr>, m))))"

definition own_set_m :: "packet \<Rightarrow> world \<Rightarrow> pk_blk \<Rightarrow> pmem \<Rightarrow> ((packet \<times> world) \<times> pk_blk \<times> pmem) res" where
  "own_set_m p w k m =
     (let ack = packet_new\<lparr>flags := 0 OR PKT_FLAG_SET OR PKT_FLAG_ACK\<rparr> in
      bind_res (htable_set_m (w_ht w) (pkey p) (ucast (key_len p)) (pvalue p) (ucast (value_len p)) (p_ht m) m) (\<lambda>((t, own), m).
      bind_res (find_ptr t (pkey p) (ucast (key_len p))) (\<lambda>test_entry.
      Inr ((ack, w\<lparr>w_ht := t\<rparr>), k, m\<lparr>p_ht := own\<rparr>))))"

definition own_del_m :: "packet \<Rightarrow> world \<Rightarrow> pk_blk \<Rightarrow> pmem \<Rightarrow> ((packet \<times> world) \<times> pk_blk \<times> pmem) res" where
  "own_del_m p w k m =
     (let ack = packet_new\<lparr>flags := 0 OR PKT_FLAG_DEL OR PKT_FLAG_ACK\<rparr> in
      bind_res (htable_delete_m (w_ht w) (pkey p) (ucast (key_len p)) (p_ht m) m) (\<lambda>((t, own), m).
      Inr ((ack, w\<lparr>w_ht := t\<rparr>), k, m\<lparr>p_ht := own\<rparr>)))"

definition handle_own_request_m ::
  "(nat \<Rightarrow> byte) \<Rightarrow> server \<Rightarrow> nat \<Rightarrow> packet \<Rightarrow> world \<Rightarrow> pmem \<Rightarrow> ((int \<times> server \<times> world) \<times> pmem) res" where
  "handle_own_request_m junk srv c p w m =
     (case packet_new_m m of (k, m) \<Rightarrow>
      bind_res
       (if flag_set (flags p) PKT_FLAG_GET then own_get_m p w k m
        else if flag_set (flags p) PKT_FLAG_SET then own_set_m p w k m
        else if del_condition (flags p) then own_del_m p w k m
        else Inr ((packet_new, w), k, m)) (\<lambda>((ack_packet, w), k, m).
      case mem_alloc m of (b, m) \<Rightarrow>
      bind_res (packet_serialize junk ack_packet) (\<lambda>serialized_pack.
      bind_res (client_at srv c) (\<lambda>cl.
      bind_res (sendall (c_socket cl) serialized_pack (length serialized_pack) w) (\<lambda>(_, w).
      Inr ((CB_REMOVE_CLIENT, srv, w), mem_lose (pk_blocks k + {#b#}) m))))))"

definition answer_lookup_m ::
  "(nat \<Rightarrow> byte) \<Rightarrow> packet \<Rightarrow> peer \<Rightarrow> world \<Rightarrow> 'm mem_scheme \<Rightarrow> ((int \<times> world) \<times> 'm mem_scheme) res" where
  "answer_lookup_m junk p n w m =
     (let rply_packet = packet_new\<lparr>flags := 0 OR PKT_FLAG_CTRL OR PKT_FLAG_RPLY, hash_id := hash_id p,
            node_id := p_node_id n, node_ip := peer_get_ip n w, node_port := port n\<rparr>;
          asking_peer = peer_from_packet p in
      case packet_new_m m of (k, m) \<Rightarrow>
      case peer_from_packet_m m of (pe, m) \<Rightarrow>
      bind_res (forward_m junk asking_peer rply_packet w m) (\<lambda>((_, _, w), m).
      Inr ((CB_REMOVE_CLIENT, w), mem_lose (pk_blocks k + pe_blocks pe) m)))"

definition handle_packet_data_m ::
  "(nat \<Rightarrow> byte) \<Rightarrow> server \<Rightarrow> nat \<Rightarrow> packet \<Rightarrow> world \<Rightarrow> pmem \<Rightarrow> ((int \<times> server \<times> world) \<times> pmem) res" where
  "handle_packet_data_m junk srv c p w m =
     bind_res (pseudo_hash (pkey p) (unat (key_len p))) (\<lambda>h_id.
     bind_res (the_peer (w_pred w)) (\<lambda>pr.
     bind_res (the_peer (w_self w)) (\<lambda>me.
     if peer_is_responsible (p_node_id pr) (p_node_id me) h_id \<noteq> 0
     then handle_own_request_m junk srv c p w m
     else bind_res (the_peer (w_succ w)) (\<lambda>su.
       bind_res (client_at srv c) (\<lambda>cl.
       if peer_is_responsible (p_node_id me) (p_node_id su) h_id \<noteq> 0
       then bind_res (proxy_request_m junk (c_socket cl) p su w m) (\<lambda>((rsp, su, w), m).
         Inr ((rsp, srv, w\<lparr>w_succ := Some su\<rparr>), m))
       else bind_res (add_request_m (w_rt w) h_id (c_socket cl) p (p_rt m) m) (\<lambda>((t, own), m).
         bind_res (lookup_peer_m junk h_id (w\<lparr>w_rt := t\<rparr>) (m\<lparr>p_rt := own\<rparr>)) (\<lambda>((_, w), m).
         Inr ((CB_OK, srv, w), m))))))))"

fun reply_loop_m ::
  "(nat \<Rightarrow> byte) \<Rightarrow> request list \<Rightarrow> peer \<Rightarrow> server \<Rightarrow> world \<Rightarrow> 'm mem_scheme \<Rightarrow> ((server \<times> world) \<times> 'm mem_scheme) res" where
  "reply_loop_m junk [] n srv w m = Inr ((srv, w), m)"
| "reply_loop_m junk (r # rs) n srv w m =
     bind_res (proxy_request_m junk (r_socket r) (r_packet r) n w m) (\<lambda>((_, n, w), m).
     reply_loop_m junk rs n (server_close_socket srv (r_socket r)) w m)"

definition handle_packet_ctrl_m ::
  "(nat \<Rightarrow> byte) \<Rightarrow> server \<Rightarrow> nat \<Rightarrow> packet \<Rightarrow> world \<Rightarrow> pmem \<Rightarrow> ((int \<times> server \<times> world) \<times> pmem) res" where
  "handle_packet_ctrl_m junk srv c p w m =
     (if has_flag (flags p) PKT_FLAG_LKUP then
        bind_res (the_peer (w_pred w)) (\<lambda>pr.
        bind_res (the_peer (w_self w)) (\<lambda>me.
        if peer_is_responsible (p_node_id pr) (p_node_id me) (hash_id p) \<noteq> 0
        then bind_res (answer_lookup_m junk p me w m) (\<lambda>((rsp, w), m). Inr ((rsp, srv, w), m))
        else bind_res (the_peer (w_succ w)) (\<lambda>su.
          if peer_is_responsible (p_node_id me) (p_node_id su) (hash_id p) \<noteq> 0
          then bind_res (answer_lookup_m junk p su w m) (\<lambda>((rsp, w), m). Inr ((rsp, srv, w), m))
          else bind_res (forward_m junk su p w m) (\<lambda>((_, su, w), m).
            Inr ((CB_REMOVE_CLIENT, srv, w\<lparr>w_succ := Some su\<rparr>), m)))))
      else if has_flag (flags p) PKT_FLAG_RPLY then
        let n = peer_from_packet p in
        case peer_from_packet_m m of (pe, m) \<Rightarrow>
        bind_res (get_requests (w_rt w) (hash_id p)) (\<lambda>rs.
        bind_res (reply_loop_m junk rs n srv w m) (\<lambda>((srv, w), m).
        bind_res (clear_requests_m (w_rt w) (hash_id p) (p_rt m) m) (\<lambda>((t, own), m).
        Inr ((CB_REMOVE_CLIENT, srv, w\<lparr>w_rt := t\<rparr>), mem_lose (pe_blocks pe) (m\<lparr>p_rt := own\<rparr>)))))
      else Inr ((CB_REMOVE_CLIENT, srv, w), m))"

definition handle_packet_m ::
  "(nat \<Rightarrow> byte) \<Rightarrow> server \<Rightarrow> nat \<Rightarrow> packet option \<Rightarrow> world \<Rightarrow> pmem \<Rightarrow> ((int \<times> server \<times> world) \<times> pmem) res" where
  "handle_packet_m junk srv c po w m = (case po of None \<Rightarrow> Inl Null_Deref
     | Some p \<Rightarrow>
         if has_flag (flags p) PKT_FLAG_CTRL then handle_packet_ctrl_m junk srv c p w m
         else handle_packet_data_m junk srv c p w m)"

section \<open>Operations that only lose blocks\<close>

text \<open>Besides \<open>M\<close>, \<open>n\<close> more blocks are lost; tables and clients are as before.\<close>

definition leaks :: "blk multiset \<Rightarrow> 'm mem_scheme \<Rightarrow> nat \<Rightarrow> 'a \<Rightarrow> 'a \<times> 'm mem_scheme \<Rightarrow> bool" where
  "leaks M m n x y \<longleftrightarrow> fst y = x \<and> accounts (snd y) M \<and> only_mem m (snd y) \<and> size (lost (snd y)) = size (lost m) + n"

lemma lost_grow [simp]: "lost (mem_grow m) = lost m" "lost (mem_lose bs m) = lost m + bs"
  by (simp_all add: mem_grow_def mem_lose_def)

lemma accounts_lose_new: "accounts m M \<Longrightarrow> accounts (mem_lose {#fresh m#} (mem_grow m)) M"
  using accounts_grow [of m M] accounts_lose [of "mem_grow m" "{#fresh m#}" M] by simp

lemma forward_m_ok:
  assumes "accounts m M"
  shows "sim (leaks M m 1) (forward junk p pk w) (forward_m junk p pk w m)"
proof (cases "forward junk p pk w")
  case (Inr r)
  then show ?thesis using accounts_lose_new [OF assms] by (simp add: forward_m_def mem_alloc_def leaks_def)
qed (simp add: forward_m_def mem_alloc_def)

lemma proxy_request_m_ok:
  assumes "accounts m M"
  shows "sim (leaks M m 2) (proxy_request junk s p n w) (proxy_request_m junk s p n w m)"
  unfolding proxy_request_def proxy_request_m_def mem_alloc_def
proof (rule sim_bind [OF forward_m_ok [OF assms]], goal_cases)
  case (1 x y)
  obtain st n1 w1 m1 where xy: "x = (st, n1, w1)" "y = ((st, n1, w1), m1)" and m1: "accounts m1 M" "only_mem m m1"
    "size (lost m1) = size (lost m) + 1"
    using 1(2) by (cases x; cases y) (auto simp: leaks_def)
  show ?case unfolding xy prod.case
  proof (rule sim_bind [OF recvall_m_ok [OF m1(1)]], goal_cases)
    case (1 x y)
    obtain a l w2 b m2 where xy: "x = (a, l, w2)" "y = ((a, l, w2), b, m2)" and m2: "accounts m2 ({#b#} + M)"
      "only_mem m1 m2" "lost m2 = lost m1"
      using 1(2) by (cases x; cases y) (auto simp: buf_rel_def)
    show ?case unfolding xy prod.case
      by (rule sim_bind_same, clarify) (use accounts_lose [OF m2(1)] m1 m2 in \<open>auto simp: leaks_def split: prod.split\<close>)
  qed
qed

lemma packet_new_lost: "packet_new_m m = (k, m') \<Longrightarrow> lost m' = lost m \<and> size (pk_blocks k) = 1"
  by (auto simp: packet_new_m_def mem_alloc_def pk_blocks_def)

lemma lookup_peer_m_ok:
  assumes "accounts m M"
  shows "sim (leaks M m 2) (lookup_peer junk h w) (lookup_peer_m junk h w m)"
proof -
  obtain k m1 where k: "packet_new_m m = (k, m1)" by (cases "packet_new_m m")
  have m1: "accounts m1 (pk_blocks k + M)" "only_mem m m1" "lost m1 = lost m" "size (pk_blocks k) = 1"
    using packet_new_m_ok [OF assms k] packet_new_lost [OF k] by simp_all
  show ?thesis unfolding lookup_peer_def lookup_peer_m_def Let_def k prod.case
  proof (rule sim_bind_same, rule sim_bind_same, rule sim_bind [OF forward_m_ok [OF m1(1)]], goal_cases)
    case (1 me su x y)
    then show ?case using m1(2-4) accounts_lose [of "snd y" "pk_blocks k" M]
      by (cases x; cases y) (auto simp: leaks_def)
  qed
qed

lemma peer_from_packet_m_ok:
  assumes "accounts m M" "peer_from_packet_m m = (pe, m')"
  shows "accounts m' (pe_blocks pe + M) \<and> only_mem m m' \<and> lost m' = lost m \<and> size (pe_blocks pe) = 2"
  using assms accounts_grow [OF accounts_grow [OF assms(1)]]
  by (auto simp: peer_from_packet_m_def mem_alloc_def pe_blocks_def add_mset_commute)

lemma answer_lookup_m_ok:
  assumes "accounts m M"
  shows "sim (leaks M m 4) (answer_lookup junk p n w) (answer_lookup_m junk p n w m)"
proof -
  obtain k m1 where k: "packet_new_m m = (k, m1)" by (cases "packet_new_m m")
  have m1: "accounts m1 (pk_blocks k + M)" "only_mem m m1" "lost m1 = lost m" "size (pk_blocks k) = 1"
    using packet_new_m_ok [OF assms k] packet_new_lost [OF k] by simp_all
  obtain pe m2 where pe: "peer_from_packet_m m1 = (pe, m2)" by (cases "peer_from_packet_m m1")
  have m2: "accounts m2 (pe_blocks pe + (pk_blocks k + M))" "only_mem m1 m2" "lost m2 = lost m1" "size (pe_blocks pe) = 2"
    using peer_from_packet_m_ok [OF m1(1) pe] by simp_all
  show ?thesis unfolding answer_lookup_def answer_lookup_m_def Let_def k pe prod.case
  proof (rule sim_bind [OF forward_m_ok [OF m2(1)]], goal_cases)
    case (1 x y)
    then show ?case using m1(2-4) m2(2-4) accounts_lose [of "snd y" "pk_blocks k + pe_blocks pe" M]
      by (cases x; cases y) (auto simp: leaks_def ac_simps)
  qed
qed

lemma reply_loop_m_ok:
  assumes "accounts m M"
  shows "sim (leaks M m (2 * length rs)) (reply_loop junk rs n srv w) (reply_loop_m junk rs n srv w m)"
  using assms
proof (induction rs arbitrary: n srv w m)
  case (Cons r rs)
  show ?case unfolding reply_loop.simps reply_loop_m.simps
  proof (rule sim_bind [OF proxy_request_m_ok [OF Cons.prems]], goal_cases)
    case (1 x y)
    obtain st n1 w1 m1 where xy: "x = (st, n1, w1)" "y = ((st, n1, w1), m1)" and m1: "accounts m1 M" "only_mem m m1"
      "size (lost m1) = size (lost m) + 2"
      using 1(2) by (cases x; cases y) (auto simp: leaks_def)
    show ?case unfolding xy prod.case
      by (rule sim_mono [OF Cons.IH [OF m1(1)]]) (use m1 in \<open>auto simp: leaks_def\<close>)
  qed
qed (simp add: leaks_def)


section \<open>The books of the peer\<close>

text \<open>The blocks that the peer keeps between two packets: its two tables.\<close>

definition peer_rest :: "world \<Rightarrow> pmem \<Rightarrow> blk multiset" where
  "peer_rest w m = ht_blocks (w_ht w) (p_ht m) + rt_blocks (w_rt w) (p_rt m)"

definition peer_rinv :: "world \<Rightarrow> pmem \<Rightarrow> bool" where
  "peer_rinv w m \<longleftrightarrow> ht_shape (w_ht w) (p_ht m) \<and> rt_shape (w_rt w) (p_rt m)"

text \<open>
  A handler started in \<open>m\<close>: it keeps the books, leaves the clients' pointers alone and loses \<open>n\<close> blocks.
\<close>

definition h_rel :: "blk multiset \<Rightarrow> pmem \<Rightarrow> nat \<Rightarrow> 'a \<times> 'b \<times> world \<Rightarrow> ('a \<times> 'b \<times> world) \<times> pmem \<Rightarrow> bool" where
  "h_rel B m n x y \<longleftrightarrow> fst y = x \<and> peer_rinv (snd (snd x)) (snd y) \<and> cl_own (snd y) = cl_own m \<and>
     accounts (snd y) (peer_rest (snd (snd x)) (snd y) + B) \<and> size (lost (snd y)) = size (lost m) + n"

lemma pmem_more:
  fixes m m' :: pmem
  assumes "smem.more m' = smem.more m"
  shows "p_ht m' = p_ht m" "p_rt m' = p_rt m"
  using assms by (cases m; cases m'; simp)+

lemma pmem_only_mem:
  fixes m m' :: pmem
  assumes "only_mem m m'"
  shows "p_ht m' = p_ht m" "p_rt m' = p_rt m" "cl_own m' = cl_own m"
  using pmem_more [OF only_mem_more [OF assms]] only_mem_own [OF assms] by simp_all

lemma accounts_tables [simp]:
  "accounts (m\<lparr>p_ht := x\<rparr>) M = accounts m M" "accounts (m\<lparr>p_rt := y\<rparr>) M = accounts m M"
  by (simp_all add: accounts_def)

lemma peer_books_cong:
  assumes "w_ht w' = w_ht w" "w_rt w' = w_rt w" "p_ht m' = p_ht m" "p_rt m' = p_rt m"
  shows "peer_rest w' m' = peer_rest w m" "peer_rinv w' m' = peer_rinv w m"
  using assms by (simp_all add: peer_rest_def peer_rinv_def)

text \<open>An operation that only loses blocks, and leaves the tables alone, is such a handler.\<close>

lemma leaks_h_rel:
  assumes "leaks (peer_rest w m + B) m n x y" "peer_rinv w m" "w_ht (snd (snd z)) = w_ht w" "w_rt (snd (snd z)) = w_rt w"
  shows "h_rel B m n z (z, snd y)"
proof -
  have l: "only_mem m (snd y)" "accounts (snd y) (peer_rest w m + B)" "size (lost (snd y)) = size (lost m) + n"
    using assms(1) by (simp_all add: leaks_def)
  note same = pmem_only_mem [OF l(1)]
  show ?thesis using peer_books_cong [OF assms(3,4) same(1,2)] l same(3) assms(2) by (simp add: h_rel_def)
qed

section \<open>Requests on the storage\<close>

definition own_rel :: "blk multiset \<Rightarrow> pmem \<Rightarrow> nat \<Rightarrow> packet \<times> world \<Rightarrow> (packet \<times> world) \<times> pk_blk \<times> pmem \<Rightarrow> bool" where
  "own_rel B m n x y \<longleftrightarrow> fst y = x \<and> peer_rinv (snd x) (snd (snd y)) \<and> cl_own (snd (snd y)) = cl_own m \<and>
     accounts (snd (snd y)) (pk_blocks (fst (snd y)) + (peer_rest (snd x) (snd (snd y)) + B)) \<and>
     lost (snd (snd y)) = lost m \<and> size (pk_blocks (fst (snd y))) = n"

definition own_leaks :: "packet \<Rightarrow> world \<Rightarrow> nat" where
  "own_leaks p w =
     (if flag_set (flags p) PKT_FLAG_GET
      then (case htable_get (w_ht w) (pkey p) (ucast (key_len p)) of Inr (Some _) \<Rightarrow> 4 | _ \<Rightarrow> 2)
      else 2)"

lemma own_get_m_ok:
  assumes "peer_rinv w m" "accounts m (pk_blocks k + (peer_rest w m + B))" "pk_key k = None" "pk_value k = None"
    and n: "Suc n = (case htable_get (w_ht w) (pkey p) (ucast (key_len p)) of Inr (Some _) \<Rightarrow> 4 | _ \<Rightarrow> 2)"
  shows "sim (own_rel B m n) (bind_res (own_get p w) (\<lambda>ack. Inr (ack, w))) (own_get_m p w k m)"
  unfolding own_get_m_def
proof (rule sim_bind_same, goal_cases)
  case (1 ack)
  then obtain r where r: "htable_get (w_ht w) (pkey p) (ucast (key_len p)) = Inr r"
    by (auto simp: own_get_def Let_def bind_res_Inr_iff)
  show ?case
  proof (cases r)
    case None
    then show ?thesis using assms r by (simp add: own_rel_def pk_blocks_def)
  next
    case (Some a)
    let ?m = "mem_grow (mem_grow m)" and ?k = "k\<lparr>pk_key := Some (fresh m), pk_value := Some (fresh (mem_grow m))\<rparr>"
    have om: "only_mem m ?m" by simp
    have "accounts ?m (pk_blocks ?k + (peer_rest w m + B))"
      using accounts_grow [OF accounts_grow [OF assms(2)]] assms(3,4)
      by (simp add: pk_blocks_def add_mset_commute)
    moreover have "peer_rest w ?m = peer_rest w m" "peer_rinv w ?m = peer_rinv w m"
      using peer_books_cong pmem_only_mem [OF om] by blast+
    ultimately have "own_rel B m 3 (ack, w) ((ack, w), ?k, ?m)"
      using assms(1) pmem_only_mem(3) [OF om] by (simp add: own_rel_def pk_blocks_def)
    then show ?thesis using r Some n by (simp add: mem_alloc_def)
  qed
qed

lemma own_set_m_ok:
  assumes "world_wf w" "peer_rinv w m" "accounts m (pk_blocks k + (peer_rest w m + B))" "size (pk_blocks k) = 1"
  shows "sim (own_rel B m 1) (own_set p w) (own_set_m p w k m)"
proof -
  have table: "ut_wf (w_ht w)" "ht_shape (w_ht w) (p_ht m)"
    using assms(1,2) by (simp_all add: world_wf_def ht_wf_def peer_rinv_def)
  have acc: "accounts m (ht_blocks (w_ht w) (p_ht m) + (pk_blocks k + rt_blocks (w_rt w) (p_rt m) + B))"
    using assms(3) by (simp add: peer_rest_def ac_simps)
  show ?thesis unfolding own_set_def own_set_m_def Let_def
  proof (rule sim_bind [OF htable_set_m_ok [OF table(1,2) acc]], goal_cases)
    case (1 t y)
    obtain own m1 where y: "y = ((t, own), m1)" using 1(2) by (cases y) (auto simp: ht_rel_def)
    have m1: "ht_shape t own" "only_mem m m1" "lost m1 = lost m"
      "accounts m1 (ht_blocks t own + (pk_blocks k + rt_blocks (w_rt w) (p_rt m) + B))"
      using 1(2) y by (simp_all add: ht_rel_def ac_simps)
    show ?case unfolding y prod.case
      by (rule sim_bind_same)
        (use m1 assms(2,4) pmem_only_mem [OF m1(2)] in \<open>simp add: own_rel_def peer_rinv_def peer_rest_def ac_simps\<close>)
  qed
qed

lemma own_del_m_ok:
  assumes "world_wf w" "peer_rinv w m" "accounts m (pk_blocks k + (peer_rest w m + B))" "size (pk_blocks k) = 1"
  shows "sim (own_rel B m 1) (own_del p w) (own_del_m p w k m)"
proof -
  have table: "ut_wf (w_ht w)" "ht_shape (w_ht w) (p_ht m)"
    using assms(1,2) by (simp_all add: world_wf_def ht_wf_def peer_rinv_def)
  have acc: "accounts m (ht_blocks (w_ht w) (p_ht m) + (pk_blocks k + rt_blocks (w_rt w) (p_rt m) + B))"
    using assms(3) by (simp add: peer_rest_def ac_simps)
  show ?thesis unfolding own_del_def own_del_m_def Let_def
  proof (rule sim_bind [OF htable_delete_m_ok [OF table(1,2) acc]], goal_cases)
    case (1 x y)
    obtain r t own m1 where y: "x = (r, t)" "y = ((t, own), m1)" using 1(2) by (cases x; cases y) (auto simp: ht_rel_def)
    have m1: "ht_shape t own" "only_mem m m1" "lost m1 = lost m"
      "accounts m1 (ht_blocks t own + (pk_blocks k + rt_blocks (w_rt w) (p_rt m) + B))"
      using 1(2) y by (simp_all add: ht_rel_def ac_simps)
    show ?case unfolding y prod.case
      using m1 assms(2,4) pmem_only_mem [OF m1(2)] by (simp add: own_rel_def peer_rinv_def peer_rest_def ac_simps)
  qed
qed

lemma handle_own_request_m_ok:
  assumes "world_wf w" "peer_rinv w m" "accounts m (peer_rest w m + B)"
  shows "sim (h_rel B m (own_leaks p w)) (handle_own_request junk srv c p w) (handle_own_request_m junk srv c p w m)"
proof -
  obtain k m1 where k: "packet_new_m m = (k, m1)" by (cases "packet_new_m m")
  note new = packet_new_m_ok [OF assms(3) k]
  have om: "only_mem m m1" "lost m1 = lost m" "size (pk_blocks k) = 1" using new packet_new_lost [OF k] by simp_all
  note same = pmem_only_mem [OF om(1)]
  note books = peer_books_cong [OF refl refl same(1,2), of w]
  have acc: "accounts m1 (pk_blocks k + (peer_rest w m1 + B))" and inv: "peer_rinv w m1"
    using new assms(2) by (simp_all add: books)
  have "0 < own_leaks p w" by (simp add: own_leaks_def split: sum.split option.split)
  then obtain n where n: "own_leaks p w = Suc n" by (auto dest: gr0_implies_Suc)
  have ans: "sim (own_rel B m1 n) (own_answer p w)
     (if flag_set (flags p) PKT_FLAG_GET then own_get_m p w k m1
      else if flag_set (flags p) PKT_FLAG_SET then own_set_m p w k m1
      else if del_condition (flags p) then own_del_m p w k m1
      else Inr ((packet_new, w), k, m1))"
  proof (cases "flag_set (flags p) PKT_FLAG_GET")
    case True
    then show ?thesis using own_get_m_ok [OF inv acc, where p = p and n = n] new n by (simp add: own_answer_def own_leaks_def)
  next
    case False
    then have "n = 1" using n by (simp add: own_leaks_def)
    then show ?thesis
      using False own_set_m_ok [OF assms(1) inv acc om(3), of p] own_del_m_ok [OF assms(1) inv acc om(3), of p] inv acc om(3)
      by (simp add: own_answer_def) (simp add: own_rel_def)
  qed
  show ?thesis unfolding handle_own_request_answer handle_own_request_m_def k prod.case
  proof (rule sim_bind [OF ans], goal_cases)
    case (1 x y)
    obtain a w2 k2 m2 where xy: "x = (a, w2)" "y = ((a, w2), k2, m2)" using 1(2) by (cases x; cases y) (auto simp: own_rel_def)
    have r: "peer_rinv w2 m2" "cl_own m2 = cl_own m1" "accounts m2 (pk_blocks k2 + (peer_rest w2 m2 + B))"
      "lost m2 = lost m1" "size (pk_blocks k2) = n" using 1(2) xy by (simp_all add: own_rel_def)
    let ?m = "mem_lose (pk_blocks k2 + {#fresh m2#}) (mem_grow m2)"
    have "accounts (mem_grow m2) ((pk_blocks k2 + {#fresh m2#}) + (peer_rest w2 m2 + B))"
      using accounts_grow [OF r(3)] by simp
    from accounts_lose [OF this] have end_acc: "accounts ?m (peer_rest w2 m2 + B)" .
    have om2: "only_mem m2 ?m" by simp
    show ?case unfolding xy prod.case mem_alloc_def
    proof (rule sim_bind_same, rule sim_bind_same, rule sim_bind_same, clarify, goal_cases)
      case (1 b cl u w3)
      have w3: "w_ht w3 = w_ht w2" "w_rt w3 = w_rt w2" using sendall_frame [OF 1(3)] world_more by blast+
      note books = peer_books_cong [OF w3 pmem_only_mem(1,2) [OF om2]]
      show ?case using r end_acc n om same(3) pmem_only_mem(3) [OF om2] by (simp add: h_rel_def books [simplified])
    qed
  qed
qed

section \<open>The handlers\<close>

lemma lookup_peer_tables:
  "lookup_peer junk h w = Inr (r, w') \<Longrightarrow> w_ht w' = w_ht w \<and> w_rt w' = w_rt w"
  by (auto simp: lookup_peer_def bind_res_Inr_iff Let_def dest!: forward_frame intro: world_more)

definition data_leaks :: "packet \<Rightarrow> world \<Rightarrow> nat" where
  "data_leaks p w =
     (case (pseudo_hash (pkey p) (unat (key_len p)), w_pred w, w_self w) of
        (Inr h_id, Some pr, Some me) \<Rightarrow>
          if peer_is_responsible (p_node_id pr) (p_node_id me) h_id \<noteq> 0 then own_leaks p w else 2
      | _ \<Rightarrow> 0)"

lemma handle_packet_data_m_ok:
  assumes "world_wf w" "peer_rinv w m" "accounts m (peer_rest w m + B)"
  shows "sim (h_rel B m (data_leaks p w)) (handle_packet_data junk srv c p w) (handle_packet_data_m junk srv c p w m)"
  unfolding handle_packet_data_def handle_packet_data_m_def
proof (rule sim_bind_same, rule sim_bind_same, rule sim_bind_same, goal_cases)
  case (1 h pr me)
  then have peers: "w_pred w = Some pr" "w_self w = Some me" by (auto simp: the_peer_def split: option.splits)
  show ?case
  proof (cases "peer_is_responsible (p_node_id pr) (p_node_id me) h \<noteq> 0")
    case True
    then have "data_leaks p w = own_leaks p w" using 1 peers by (simp add: data_leaks_def)
    then show ?thesis using True handle_own_request_m_ok [OF assms] by simp
  next
    case False
    then have two: "data_leaks p w = 2" using 1 peers by (simp add: data_leaks_def)
    have own: "sim (h_rel B m 2)
       (bind_res (proxy_request junk (c_socket cl) p su w) (\<lambda>(rsp, su, w). Inr (rsp, srv, w\<lparr>w_succ := Some su\<rparr>)))
       (bind_res (proxy_request_m junk (c_socket cl) p su w m) (\<lambda>((rsp, su, w), m). Inr ((rsp, srv, w\<lparr>w_succ := Some su\<rparr>), m)))"
      for cl su
    proof (rule sim_bind [OF proxy_request_m_ok [OF assms(3)]], goal_cases)
      case (1 x y)
      obtain r su' w' where x: "x = (r, su', w')" by (cases x)
      have w': "w_ht w' = w_ht w" "w_rt w' = w_rt w" using 1(1) proxy_request_frame world_more unfolding x by blast+
      have y: "y = (x, snd y)" using 1(2) by (simp add: leaks_def prod_eq_iff)
      have "h_rel B m 2 (r, srv, w'\<lparr>w_succ := Some su'\<rparr>) ((r, srv, w'\<lparr>w_succ := Some su'\<rparr>), snd y)"
        by (rule leaks_h_rel [OF 1(2) assms(2)]) (simp_all add: w')
      then show ?case by (subst y) (simp add: x)
    qed
    have look: "sim (h_rel B m 2)
       (bind_res (add_request (w_rt w) h (c_socket cl) p) (\<lambda>t.
        bind_res (lookup_peer junk h (w\<lparr>w_rt := t\<rparr>)) (\<lambda>(_, w). Inr (CB_OK, srv, w))))
       (bind_res (add_request_m (w_rt w) h (c_socket cl) p (p_rt m) m) (\<lambda>((t, own), m).
        bind_res (lookup_peer_m junk h (w\<lparr>w_rt := t\<rparr>) (m\<lparr>p_rt := own\<rparr>)) (\<lambda>((_, w), m). Inr ((CB_OK, srv, w), m))))"
      for cl :: client
    proof -
      have table: "ut_wf (w_rt w)" "rt_shape (w_rt w) (p_rt m)"
        using assms(1,2) by (simp_all add: world_wf_def rt_wf_def peer_rinv_def)
      have acc: "accounts m (rt_blocks (w_rt w) (p_rt m) + (ht_blocks (w_ht w) (p_ht m) + B))"
        using assms(3) by (simp add: peer_rest_def ac_simps)
      show ?thesis
      proof (rule sim_bind [OF add_request_m_ok [OF table acc]], goal_cases)
        case (1 t y)
        obtain own m1 where y: "y = ((t, own), m1)" using 1(2) by (cases y) (auto simp: rt_rel_def)
        have m1: "rt_shape t own" "only_mem m m1" "size (lost m1) = size (lost m)"
          "accounts m1 (rt_blocks t own + (ht_blocks (w_ht w) (p_ht m) + B))"
          using 1(2) y by (simp_all add: rt_rel_def)
        let ?w = "w\<lparr>w_rt := t\<rparr>" and ?m = "m1\<lparr>p_rt := own\<rparr>"
        note same = pmem_only_mem [OF m1(2)]
        have inv: "peer_rinv ?w ?m" using assms(2) m1(1) same by (simp add: peer_rinv_def)
        have acc: "accounts ?m (peer_rest ?w ?m + B)" using m1(4) same by (simp add: peer_rest_def ac_simps)
        show ?case unfolding y prod.case
        proof (rule sim_bind [OF lookup_peer_m_ok [OF acc]], goal_cases)
          case (1 x y)
          obtain r w' where x: "x = (r, w')" by (cases x)
          have w': "w_ht w' = w_ht ?w" "w_rt w' = w_rt ?w" using lookup_peer_tables 1(1) unfolding x by blast+
          have y: "y = (x, snd y)" using 1(2) by (simp add: leaks_def prod_eq_iff)
          have "h_rel B ?m 2 (CB_OK, srv, w') ((CB_OK, srv, w'), snd y)"
            by (rule leaks_h_rel [OF 1(2) inv]) (simp_all add: w')
          then have "h_rel B m 2 (CB_OK, srv, w') ((CB_OK, srv, w'), snd y)"
            using m1(3) same(3) by (simp add: h_rel_def)
          then show ?case by (subst y) (simp add: x)
        qed
      qed
    qed
    show ?thesis unfolding two if_not_P [OF False]
      by (rule sim_bind_same, rule sim_bind_same) (use own look in auto)
  qed
qed

definition ctrl_leaks :: "packet \<Rightarrow> world \<Rightarrow> nat" where
  "ctrl_leaks p w =
     (if has_flag (flags p) PKT_FLAG_LKUP then
        (case (w_pred w, w_self w, w_succ w) of
           (Some pr, Some me, su) \<Rightarrow>
             if peer_is_responsible (p_node_id pr) (p_node_id me) (hash_id p) \<noteq> 0 then 4
             else (case su of None \<Rightarrow> 0
               | Some su \<Rightarrow> if peer_is_responsible (p_node_id me) (p_node_id su) (hash_id p) \<noteq> 0 then 4 else 1)
         | _ \<Rightarrow> 0)
      else if has_flag (flags p) PKT_FLAG_RPLY then
        (let n = length (rt_queue (w_rt w) (hash_id p)) in if n = 0 then 2 else 4 * n + 3)
      else 0)"

lemma answer_lookup_m_rel:
  assumes "peer_rinv w m" "accounts m (peer_rest w m + B)"
  shows "sim (h_rel B m 4) (bind_res (answer_lookup junk p n w) (\<lambda>(rsp, w). Inr (rsp, srv, w)))
     (bind_res (answer_lookup_m junk p n w m) (\<lambda>((rsp, w), m). Inr ((rsp, srv, w), m)))"
proof (rule sim_bind [OF answer_lookup_m_ok [OF assms(2)]], goal_cases)
  case (1 x y)
  obtain r w' where x: "x = (r, w')" by (cases x)
  have w': "w_ht w' = w_ht w" "w_rt w' = w_rt w" using 1(1) answer_lookup_frame world_more unfolding x by blast+
  have y: "y = (x, snd y)" using 1(2) by (simp add: leaks_def prod_eq_iff)
  have "h_rel B m 4 (r, srv, w') ((r, srv, w'), snd y)"
    by (rule leaks_h_rel [OF 1(2) assms(1)]) (simp_all add: w')
  then show ?case by (subst y) (simp add: x)
qed

lemma forward_m_rel:
  assumes "peer_rinv w m" "accounts m (peer_rest w m + B)"
  shows "sim (h_rel B m 1) (bind_res (forward junk su p w) (\<lambda>(_, su, w). Inr (rsp, srv, w\<lparr>w_succ := Some su\<rparr>)))
     (bind_res (forward_m junk su p w m) (\<lambda>((_, su, w), m). Inr ((rsp, srv, w\<lparr>w_succ := Some su\<rparr>), m)))"
proof (rule sim_bind [OF forward_m_ok [OF assms(2)]], goal_cases)
  case (1 x y)
  obtain r su' w' where x: "x = (r, su', w')" by (cases x)
  have w': "w_ht w' = w_ht w" "w_rt w' = w_rt w" using 1(1) forward_frame world_more unfolding x by blast+
  have y: "y = (x, snd y)" using 1(2) by (simp add: leaks_def prod_eq_iff)
  have "h_rel B m 1 (rsp, srv, w'\<lparr>w_succ := Some su'\<rparr>) ((rsp, srv, w'\<lparr>w_succ := Some su'\<rparr>), snd y)"
    by (rule leaks_h_rel [OF 1(2) assms(1)]) (simp_all add: w')
  then show ?case by (subst y) (simp add: x)
qed

text \<open>A reply: the new peer structure, what the relaying of each request loses, and the table entry.\<close>

lemma reply_m_rel:
  fixes m :: pmem
  assumes "world_wf w" "peer_rinv w m" "accounts m (peer_rest w m + B)"
  shows "sim (h_rel B m (let n = length (rt_queue (w_rt w) h) in if n = 0 then 2 else 4 * n + 3))
     (bind_res (get_requests (w_rt w) h) (\<lambda>rs.
      bind_res (reply_loop junk rs n srv w) (\<lambda>(srv, w).
      bind_res (clear_requests (w_rt w) h) (\<lambda>t. Inr (rsp, srv, w\<lparr>w_rt := t\<rparr>)))))
     (case peer_from_packet_m m of (pe, m) \<Rightarrow>
      bind_res (get_requests (w_rt w) h) (\<lambda>rs.
      bind_res (reply_loop_m junk rs n srv w m) (\<lambda>((srv, w), m).
      bind_res (clear_requests_m (w_rt w) h (p_rt m) m) (\<lambda>((t, own), m).
      Inr ((rsp, srv, w\<lparr>w_rt := t\<rparr>), mem_lose (pe_blocks pe) (m\<lparr>p_rt := own\<rparr>))))))"
proof -
  obtain pe m1 where pe: "peer_from_packet_m m = (pe, m1)" by (cases "peer_from_packet_m m")
  note m1 = peer_from_packet_m_ok [OF assms(3) pe]
  have om1: "only_mem m m1" using m1 by simp
  have rt: "rt_wf (w_rt w)" "rt_shape (w_rt w) (p_rt m)" using assms(1,2) by (simp_all add: world_wf_def peer_rinv_def)
  have q: "get_requests (w_rt w) h = Inr (rt_queue (w_rt w) h)" using get_requests_ok [OF rt(1)] by simp
  show ?thesis unfolding pe prod.case q bind_res_simps
  proof (rule sim_bind [OF reply_loop_m_ok], rule m1 [THEN conjunct1], goal_cases)
    case (1 x y)
    obtain srv2 w2 m2 where xy: "x = (srv2, w2)" "y = ((srv2, w2), m2)" using 1(2) by (cases x; cases y) (auto simp: leaks_def)
    have m2: "accounts m2 (pe_blocks pe + (peer_rest w m + B))" "only_mem m m2"
      "size (lost m2) = size (lost m) + 2 * length (rt_queue (w_rt w) h)"
      using 1(2) m1 xy by (simp_all add: leaks_def)
    note same = pmem_only_mem [OF m2(2)]
    have "net.more w2 = net.more w" using reply_loop_safe 1(1) xy(1) by blast
    note w2 = world_more [OF this]
    have acc: "accounts m2 (rt_blocks (w_rt w) (p_rt m) + (pe_blocks pe + ht_blocks (w_ht w) (p_ht m) + B))"
      using m2(1) by (simp add: peer_rest_def ac_simps)
    show ?case unfolding xy prod.case w2 same
    proof (rule sim_bind [OF clear_requests_m_ok [OF rt acc]], goal_cases)
      case (1 t y)
      obtain own m3 where y: "y = ((t, own), m3)" using 1(2) by (cases y) (auto simp: rt_rel_def)
      have m3: "rt_shape t own" "only_mem m2 m3" "size (lost m3) = size (lost m2) + clear_cost (rt_queue (w_rt w) h)"
        "accounts m3 (pe_blocks pe + (rt_blocks t own + ht_blocks (w_ht w) (p_ht m) + B))"
        using 1(2) y by (simp_all add: rt_rel_def ac_simps)
      note same3 = pmem_only_mem [OF m3(2)]
      have "accounts (mem_lose (pe_blocks pe) (m3\<lparr>p_rt := own\<rparr>)) (rt_blocks t own + ht_blocks (w_ht w) (p_ht m) + B)"
        using accounts_lose [of "m3\<lparr>p_rt := own\<rparr>"] m3(4) by simp
      then show ?case unfolding y prod.case using m1 m2(3) m3(1,3) same same3 assms(2) w2
        by (simp add: h_rel_def peer_rinv_def peer_rest_def clear_cost_def mem_lose_def Let_def ac_simps)
    qed
  qed
qed

lemma handle_packet_ctrl_m_ok:
  assumes "world_wf w" "peer_rinv w m" "accounts m (peer_rest w m + B)"
  shows "sim (h_rel B m (ctrl_leaks p w)) (handle_packet_ctrl junk srv c p w) (handle_packet_ctrl_m junk srv c p w m)"
proof (cases "has_flag (flags p) PKT_FLAG_LKUP")
  case True
  show ?thesis unfolding handle_packet_ctrl_def handle_packet_ctrl_m_def if_P [OF True]
  proof (rule sim_bind_same, rule sim_bind_same, goal_cases)
    case (1 pr me)
    then have peers: "w_pred w = Some pr" "w_self w = Some me" by (auto simp: the_peer_def split: option.splits)
    show ?case
    proof (cases "peer_is_responsible (p_node_id pr) (p_node_id me) (hash_id p) \<noteq> 0")
      case t: True
      then show ?thesis using answer_lookup_m_rel [OF assms(2,3)] True peers by (simp add: ctrl_leaks_def)
    next
      case f: False
      show ?thesis unfolding if_not_P [OF f]
      proof (rule sim_bind_same, goal_cases)
        case (1 su)
        then have su: "w_succ w = Some su" by (auto simp: the_peer_def split: option.splits)
        show ?case using f su peers True answer_lookup_m_rel [OF assms(2,3), of junk p su srv]
            forward_m_rel [OF assms(2,3), of junk su p CB_REMOVE_CLIENT srv]
          by (simp add: ctrl_leaks_def)
      qed
    qed
  qed
next
  case lk: False
  show ?thesis
  proof (cases "has_flag (flags p) PKT_FLAG_RPLY")
    case True
    then show ?thesis using lk reply_m_rel [OF assms, of "hash_id p" junk "peer_from_packet p" srv CB_REMOVE_CLIENT]
      unfolding handle_packet_ctrl_def handle_packet_ctrl_m_def ctrl_leaks_def Let_def by simp
  next
    case False
    then show ?thesis using lk assms by (simp add: handle_packet_ctrl_def handle_packet_ctrl_m_def ctrl_leaks_def h_rel_def)
  qed
qed

definition handler_leaks :: "packet \<Rightarrow> world \<Rightarrow> nat" where
  "handler_leaks p w = (if has_flag (flags p) PKT_FLAG_CTRL then ctrl_leaks p w else data_leaks p w)"

lemma handle_packet_m_ok:
  assumes "world_wf w" "peer_rinv w m" "accounts m (peer_rest w m + B)"
  shows "sim (h_rel B m (handler_leaks p w)) (handle_packet junk srv c (Some p) w) (handle_packet_m junk srv c (Some p) w m)"
  using handle_packet_data_m_ok [OF assms] handle_packet_ctrl_m_ok [OF assms]
  by (simp add: handle_packet_def handle_packet_m_def handler_leaks_def)

interpretation hpm: memory_handler "handle_packet junk" world_wf "handle_packet_m junk" peer_rinv peer_rest
proof (unfold_locales, goal_cases)
  case (1 w m a srv B p)
  show ?case
  proof (cases p)
    case None
    then show ?thesis by (simp add: handle_packet_def handle_packet_m_def)
  next
    case (Some pk)
    show ?thesis unfolding Some
      by (rule sim_mono [OF handle_packet_m_ok [OF 1(1,2,4)]]) (simp add: h_rel_def)
  qed
next
  case (6 m' m w)
  then show ?case using peer_books_cong [OF refl refl pmem_more] by blast
qed (simp_all add: peer_rest_def peer_rinv_def)

section \<open>The main program\<close>



definition pmem_empty :: pmem where
  "pmem_empty = \<lparr>live = {}, fresh = 0, lost = {#}, cl_own = (\<lambda>_. None),
     p_ht = \<lparr>ht_ent = (\<lambda>_. None), ht_tbl = None\<rparr>, p_rt = \<lparr>rt_ent = (\<lambda>_. None), rt_tbl = None\<rparr>\<rparr>"



section \<open>Properties\<close>

text \<open>
  C15: how many blocks each packet costs. A handler that returns does the same with blocks as
  without; what the two tables own and what the caller owns stays allocated; and exactly
  \<open>handler_leaks\<close> blocks are lost: four for a GET that finds its key and two for any other
  request on the storage, two for a request that is passed on or starts a lookup, four for an
  answered lookup, one for a forwarded lookup, and for a reply that completes \<open>n\<close> requests
  \<open>4 * n + 3\<close>, or two without any.
\<close>

theorem handler_leaks_exact:
  assumes "world_wf w" "peer_rinv w m" "accounts m (peer_rest w m + B)"
    "handle_packet junk srv c (Some p) w = Inr (rsp, srv', w')"
  shows "\<exists>m'. handle_packet_m junk srv c (Some p) w m = Inr ((rsp, srv', w'), m') \<and>
     peer_rinv w' m' \<and> accounts m' (peer_rest w' m' + B) \<and> size (lost m') = size (lost m) + handler_leaks p w"
  using sim_Inr [OF handle_packet_m_ok [OF assms(1-3)] assms(4)] by (auto simp: h_rel_def)

text \<open>
  C13: with the peer's callback the event loop never frees a block twice or one that it does
  not own, and never follows a pointer to a freed client or a freed table entry, whatever packets
  arrive, however they are cut, whatever the kernel answers and in whatever order clients come and
  go: it fails exactly where the run without blocks does, and never by a stale pointer. When it
  returns, every client has been removed, the client counter is 0, all blocks of the clients and of
  \<open>poll\<close>'s array are free again, and the live blocks are those of the storage and the table of
  requests, those of the caller, and the lost ones.
\<close>

theorem peer_memory_safe:
  assumes "srv_wf srv" "world_wf w" "peer_rinv w m" "cl_shapes srv m"
    "accounts m (own_blocks m (ids srv) + (peer_rest w m + F))"
  shows "case server_run (Some (handle_packet junk)) junk polls srv w of
      Inl err \<Rightarrow> err \<noteq> Use_After_Free \<and> server_run_m (Some (handle_packet_m junk)) junk polls srv w m = Inl err
    | Inr (srv', w') \<Rightarrow> \<exists>m'. server_run_m (Some (handle_packet_m junk)) junk polls srv w m = Inr ((srv', w'), m') \<and>
        clients srv' = [] \<and> n_clients srv' = 0 \<and> peer_rinv w' m' \<and> accounts m' (peer_rest w' m' + F) \<and>
        card (live m') = size (ht_blocks (w_ht w') (p_ht m')) + size (rt_blocks (w_rt w') (p_rt m')) + size F + size (lost m')"
proof (cases "server_run (Some (handle_packet junk)) junk polls srv w")
  case (Inl err)
  then show ?thesis using sim_error [OF hpm.server_run_owned [OF assms]] hp.server_run_ok [OF assms(1,2)] by auto
next
  case (Inr r)
  obtain srv' w' where r: "r = (srv', w')" by (cases r)
  from sim_Inr [OF hpm.server_run_owned [OF assms] Inr] r obtain m' where
    m': "server_run_m (Some (handle_packet_m junk)) junk polls srv w m = Inr ((srv', w'), m')" "accounts m' (peer_rest w' m' + F)"
    "peer_rinv w' m'" by (auto simp: prod_eq_iff)
  moreover have "clients srv' = [] \<and> n_clients srv' = 0" using hp.server_run_ok [OF assms(1,2)] Inr r by blast
  ultimately show ?thesis using Inr r accounts_card [OF m'(2)] by (simp add: peer_rest_def)
qed






section \<open>Witnesses\<close>

text \<open>A server without clients and a peer whose tables are empty.\<close>

definition no_clients :: server where
  "no_clients = \<lparr>s_socket = 3, n_clients = 0, active = True, clients = [], next_id = 0\<rparr>"

lemma quiet_start:
  "srv_wf no_clients" "peer_rinv sample_world pmem_empty" "cl_shapes no_clients pmem_empty"
  "accounts pmem_empty (own_blocks pmem_empty (ids no_clients) + (peer_rest sample_world pmem_empty + {#}))"
  by (simp_all add: no_clients_def srv_wf_def peer_rinv_def peer_rest_def cl_shapes_def accounts_def pmem_empty_def ht_shape_def
      rt_shape_def tbl_shape_def ut_empty_def order_of_def ht_blocks_def rt_blocks_def tbl_blocks_def)

theorem handler_leaks_exact_witness:
  "\<exists>w' m'. handle_packet_m (\<lambda>_. 0) one_client 0 (Some (lookup_packet 60)) sample_world pmem_empty =
       Inr ((CB_REMOVE_CLIENT, one_client, w'), m') \<and> size (lost m') = 4"
proof -
  have p: "has_flag (flags (lookup_packet 60)) PKT_FLAG_CTRL" "has_flag (flags (lookup_packet 60)) PKT_FLAG_LKUP" "hash_id (lookup_packet 60) = 60"
    by (simp_all add: lookup_packet_def has_flag_def flag_defs)
  have resp: "peer_is_responsible (p_node_id (ring_peer 50 4000)) (p_node_id (ring_peer 100 4001)) 60 = 1"
    by (simp add: ring_peer_def peer_is_responsible_def)
  obtain w' where "handle_packet_ctrl (\<lambda>_. 0) one_client 0 (lookup_packet 60) sample_world = Inr (CB_REMOVE_CLIENT, one_client, w')"
    using lookup_answered [OF sample_world_simps(7) p(2) refl _ sample_world_reachable, of "\<lambda>_. 0" one_client 0] p(3) resp by auto
  then have "handle_packet (\<lambda>_. 0) one_client 0 (Some (lookup_packet 60)) sample_world = Inr (CB_REMOVE_CLIENT, one_client, w')"
    using p(1) by (simp add: handle_packet_def)
  moreover have "handler_leaks (lookup_packet 60) sample_world = 4"
    using p resp sample_world_simps(7) by (simp add: handler_leaks_def ctrl_leaks_def ring_state_def)
  moreover have "accounts pmem_empty (peer_rest sample_world pmem_empty + {#})"
    using quiet_start(4) by (simp add: no_clients_def)
  ultimately show ?thesis
    using handler_leaks_exact [OF sample_world_simps(4) quiet_start(2)] by (fastforce simp: pmem_empty_def)
qed

lemma no_rest: "peer_rinv w m \<Longrightarrow> w_ht w = ut_empty \<Longrightarrow> w_rt w = ut_empty \<Longrightarrow> peer_rest w m = {#}"
  by (simp add: peer_rest_def peer_rinv_def ht_shape_def rt_shape_def tbl_shape_def ut_empty_def order_of_def ht_blocks_def
      rt_blocks_def tbl_blocks_def)

theorem peer_memory_safe_witness:
  "\<exists>srv' w' m'. server_run_m (Some (handle_packet_m (\<lambda>_. 0))) (\<lambda>_. 0) [PollReady False (Some 5) [], PollError] no_clients sample_world pmem_empty =
     Inr ((srv', w'), m') \<and> live m' = set_mset (lost m')"
proof -
  let ?polls = "[PollReady False (Some 5) [], PollError]"
  let ?srv = "server_add_client (\<lambda>_. 0) 5 no_clients" and ?w = "sys_close 5 sample_world"
  have ready: "serve_ready (Some (handle_packet (\<lambda>_. 0))) (\<lambda>_. 0) (Some 5) [] no_clients w = Inr (?srv, w)" for w
    by (simp add: serve_ready_def no_clients_def first_client_def)
  have active: "active ?srv" "no_clients\<lparr>active := True\<rparr> = no_clients" "active no_clients"
    by (simp_all add: no_clients_def server_add_client_def)
  obtain srv' where stop: "server_stop ?srv sample_world = (srv', ?w)"
    by (simp add: no_clients_def server_add_client_def server_stop_def server_remove_client_def)
  have "server_run_loop (Some (handle_packet (\<lambda>_. 0))) (\<lambda>_. 0) [PollError] ?srv sample_world = Inr (srv', ?w)"
    by (subst server_run_loop.simps) (simp add: active stop)
  then have run: "server_run (Some (handle_packet (\<lambda>_. 0))) (\<lambda>_. 0) ?polls no_clients sample_world = Inr (srv', ?w)"
    unfolding server_run_def active(2) by (subst server_run_loop.simps) (simp add: active ready)
  have w': "w_ht ?w = ut_empty" "w_rt ?w = ut_empty" by (simp_all add: sys_close_def log_event_def)
  from peer_memory_safe [OF quiet_start(1) sample_world_simps(4) quiet_start(2-4), of "\<lambda>_. 0" ?polls] run obtain m' where
    m': "server_run_m (Some (handle_packet_m (\<lambda>_. 0))) (\<lambda>_. 0) ?polls no_clients sample_world pmem_empty = Inr ((srv', ?w), m')"
    "peer_rinv ?w m'" "accounts m' (peer_rest ?w m' + {#})" by auto
  then have "mset_set (live m') = lost m'" "finite (live m')" using no_rest [OF m'(2) w'] by (simp_all add: accounts_def)
  then have "live m' = set_mset (lost m')" by (metis finite_set_mset_mset_set)
  then show ?thesis using m'(1) by blast
qed





end
