(* ===== verification/Client_Memory.thy ===== *)
theory Client_Memory
  imports Peer Stream_Memory
begin

text \<open>
  The memory of the client, \<open>praxis2/src/client.c\<close>: the request packet is freed on every path, the
  buffer of the answer too; the serialized request and the decoded answer are not, except when
  printing failed. Whatever is sent and received, the client frees no block twice and ends with
  at most four blocks allocated.
\<close>

section \<open>Operations\<close>

definition packet_decode_m :: "byte list \<Rightarrow> nat \<Rightarrow> 'm mem_scheme \<Rightarrow> (packet option \<times> pk_blk option \<times> 'm mem_scheme) res" where
  "packet_decode_m buffer buf_len m =
     bind_res (packet_decode_hdr buffer buf_len) (\<lambda>po.
     case po of None \<Rightarrow> Inr (None, None, m)
     | Some p \<Rightarrow>
         (case packet_new_m m of (k, m) \<Rightarrow>
          bind_res (packet_decode_body p (drop PKT_HEADER_LEN buffer) buf_len) (\<lambda>po.
          bind_res (packet_decode_body_m p buf_len k m) (\<lambda>(ko, m). Inr (po, ko, m)))))"

definition send_request_m ::
  "(nat \<Rightarrow> byte) \<Rightarrow> int \<Rightarrow> packet \<Rightarrow> pk_blk \<Rightarrow> 'w net_scheme \<Rightarrow> 'm mem_scheme \<Rightarrow> ('w net_scheme \<times> 'm mem_scheme) res" where
  "send_request_m junk s p k w m =
     bind_res (packet_serialize junk p) (\<lambda>raw_pkt.
     case mem_alloc m of (b, m) \<Rightarrow>
     bind_res (packet_free_m (Some k) m) (\<lambda>m.
     bind_res (sendall s raw_pkt (length raw_pkt) w) (\<lambda>(_, w). Inr (w, mem_lose {#b#} m))))"

definition handle_response_m ::
  "(nat \<Rightarrow> byte) \<Rightarrow> bool \<Rightarrow> int \<Rightarrow> nat list \<Rightarrow> 'w net_scheme \<Rightarrow> 'm mem_scheme
     \<Rightarrow> ((int \<times> byte list \<times> 'w net_scheme) \<times> 'm mem_scheme) res" where
  "handle_response_m junk print s fwrites w m =
     bind_res (recvall_m junk s w m) (\<lambda>((response, response_len, w), b, m).
     bind_res (packet_decode_m response response_len m) (\<lambda>(rsp, k, m).
     bind_res (mem_free (Some b) m) (\<lambda>m.
     case rsp of None \<Rightarrow> Inr ((-1, [], w), m)
     | Some rsp \<Rightarrow>
         if \<not> has_flag (flags rsp) PKT_FLAG_ACK then Inr ((-1, [], w), mem_lose (opt_blocks pk_blocks k) m)
         else if print then
           bind_res (fwrite_loop (pvalue rsp) (unat (value_len rsp)) 0 fwrites []) (\<lambda>(ok, out).
           if ok then Inr ((0, out, w), mem_lose (opt_blocks pk_blocks k) m)
           else bind_res (packet_free_m k m) (\<lambda>m. Inr ((-1, out, w), m)))
         else Inr ((0, [], w), mem_lose (opt_blocks pk_blocks k) m))))"

text \<open>\<open>strdup\<close> of the key is the first block of each request after the packet itself, or after the data.\<close>

definition client_main_m ::
  "(nat \<Rightarrow> byte) \<Rightarrow> string list \<Rightarrow> byte list list \<Rightarrow> nat list \<Rightarrow> 'w net_scheme \<Rightarrow> 'm mem_scheme
     \<Rightarrow> ((int \<times> byte list \<times> 'w net_scheme) \<times> 'm mem_scheme) res" where
  "client_main_m junk argv inp fwrites w m =
     (if length argv < 5 then Inr ((-1, [], w), m)
      else
        let host = argv ! 1; prt = argv ! 2; meth = argv ! 3; key = argv ! 4 in
        bind_res (connect_socket host prt w) (\<lambda>(s, w).
        if s < 0 then Inr ((-1, [], w), m)
        else case packet_new_m m of (k, m) \<Rightarrow>
          if meth = ''SET'' then
            bind_res (read_stdin_m junk inp m) (\<lambda>((data, data_len, inp), b, m).
            case mem_alloc m of (bk, m) \<Rightarrow>
            bind_res (send_request_m junk s
              ((request_packet PKT_FLAG_SET key)\<lparr>pvalue := Some data, value_len := of_nat data_len\<rparr>)
              (k\<lparr>pk_key := Some bk, pk_value := Some b\<rparr>) w m) (\<lambda>(w, m).
            handle_response_m junk False s fwrites w m))
          else if meth = ''GET'' then
            (case mem_alloc m of (bk, m) \<Rightarrow>
             bind_res (send_request_m junk s (request_packet PKT_FLAG_GET key) (k\<lparr>pk_key := Some bk\<rparr>) w m) (\<lambda>(w, m).
             handle_response_m junk True s fwrites w m))
          else if meth = ''DELETE'' then
            (case mem_alloc m of (bk, m) \<Rightarrow>
             bind_res (send_request_m junk s (request_packet PKT_FLAG_DEL key) (k\<lparr>pk_key := Some bk\<rparr>) w m) (\<lambda>(w, m).
             handle_response_m junk False s fwrites w m))
          else bind_res (packet_free_m (Some k) m) (\<lambda>m. Inr ((-1, [], w), m))))"

section \<open>What they free and lose\<close>

text \<open>The same result, nothing kept besides \<open>M\<close>, and at most \<open>n\<close> blocks lost.\<close>

definition loses :: "blk multiset \<Rightarrow> 'm mem_scheme \<Rightarrow> nat \<Rightarrow> 'a \<Rightarrow> 'a \<times> 'm mem_scheme \<Rightarrow> bool" where
  "loses M m n x y \<longleftrightarrow> fst y = x \<and> accounts (snd y) M \<and> size (lost (snd y)) \<le> size (lost m) + n"

lemma pk_blocks_size: "size (opt_blocks pk_blocks k) \<le> 3"
  by (cases k) (auto simp: pk_blocks_def opt_blk_def split: option.split)

lemma loses_packet: "accounts m (opt_blocks pk_blocks k + M) \<Longrightarrow> loses M m 3 x (x, mem_lose (opt_blocks pk_blocks k) m)"
  using accounts_lose [of m "opt_blocks pk_blocks k" M] pk_blocks_size [of k] by (simp add: loses_def mem_lose_def)

lemma loses_none: "accounts m M \<Longrightarrow> loses M m n x (x, m)"
  by (simp add: loses_def)

lemma packet_decode_m_ok:
  assumes "accounts m M"
  shows "sim (\<lambda>x y. fst y = x \<and> (fst (snd y) = None \<longleftrightarrow> x = None) \<and> accounts (snd (snd y)) (opt_blocks pk_blocks (fst (snd y)) + M) \<and>
     lost (snd (snd y)) = lost m) (packet_decode buffer n) (packet_decode_m buffer n m)"
  unfolding packet_decode_def packet_decode_m_def
proof (rule sim_bind_same, goal_cases)
  case (1 po)
  show ?case
  proof (cases po)
    case (Some p)
    then have kv: "pkey p = None" "pvalue p = None"
      using 1 by (auto simp: packet_decode_hdr_def bind_res_Inr_iff Let_def packet_new_def split: if_splits)
    obtain k m1 where k: "packet_new_m m = (k, m1)" by (cases "packet_new_m m")
    have m1: "accounts m1 (pk_blocks k + M)" "pk_key k = None" "pk_value k = None" "lost m1 = lost m"
      using packet_new_m_ok [OF assms k] k by (auto simp: packet_new_m_def mem_alloc_def mem_grow_def)
    show ?thesis unfolding Some option.case k prod.case
    proof (cases "packet_decode_body p (drop PKT_HEADER_LEN buffer) n")
      case (Inr po)
      from packet_decode_body_m_ok [OF m1(1) Inr] obtain ko m2 where
        m2: "packet_decode_body_m p n k m1 = Inr (ko, m2)" "accounts m2 (opt_blocks pk_blocks ko + M)" "ko = None \<longleftrightarrow> po = None"
        by blast
      have "lost m2 = lost m1"
        using m2(1) packet_free_m_ok [of m1 "Some k" M] m1(1-3)
        by (auto simp: packet_decode_body_m_def mem_alloc_def mem_lose_def mem_grow_def split: if_splits)
      then show "sim (\<lambda>x y. fst y = x \<and> (fst (snd y) = None \<longleftrightarrow> x = None) \<and> accounts (snd (snd y)) (opt_blocks pk_blocks (fst (snd y)) + M) \<and>
          lost (snd (snd y)) = lost m) (packet_decode_body p (drop PKT_HEADER_LEN buffer) n)
        (bind_res (packet_decode_body p (drop PKT_HEADER_LEN buffer) n) (\<lambda>po.
          bind_res (packet_decode_body_m p n k m1) (\<lambda>(ko, m). Inr (po, ko, m))))"
        using Inr m2 m1(4) by simp
    qed simp
  qed (use assms in simp)
qed

lemma send_request_m_ok:
  assumes "accounts m (pk_blocks k + M)"
  shows "sim (loses M m 1) (send_request junk s p w) (send_request_m junk s p k w m)"
  unfolding send_request_def send_request_m_def
proof (rule sim_bind_same, goal_cases)
  case (1 raw)
  have "accounts (mem_grow m) (opt_blocks pk_blocks (Some k) + ({#fresh m#} + M))"
    using accounts_grow [OF assms] by (simp add: ac_simps)
  from packet_free_m_ok [OF this] obtain m1 where m1: "packet_free_m (Some k) (mem_grow m) = Inr m1"
    "accounts m1 ({#fresh m#} + M)" "lost m1 = lost m" by (auto simp: mem_grow_def)
  show ?case unfolding mem_alloc_def prod.case m1(1) bind_res_simps
    by (rule sim_bind_same, clarify) (use accounts_lose [OF m1(2)] m1(3) in \<open>simp add: loses_def mem_lose_def\<close>)
qed

lemma handle_response_m_ok:
  assumes "accounts m M"
  shows "sim (loses M m 3) (handle_response junk print s fw w) (handle_response_m junk print s fw w m)"
  unfolding handle_response_def handle_response_m_def
proof (rule sim_bind [OF recvall_m_ok [OF assms]], goal_cases)
  case (1 x y)
  obtain r l w1 b m1 where xy: "x = (r, l, w1)" "y = ((r, l, w1), b, m1)" and m1: "accounts m1 ({#b#} + M)" "lost m1 = lost m"
    using 1(2) by (cases x; cases y) (auto simp: buf_rel_def)
  show ?case unfolding xy prod.case
  proof (rule sim_bind [OF packet_decode_m_ok [OF m1(1)]], goal_cases)
    case (1 rsp y)
    obtain k m2 where y: "y = (rsp, k, m2)" using 1(2) by (cases y) auto
    have m2: "accounts m2 (opt_blk (Some b) + (opt_blocks pk_blocks k + M))" "lost m2 = lost m" "k = None \<longleftrightarrow> rsp = None"
      using 1(2) y m1(2) by (simp_all add: ac_simps)
    from accounts_free [OF m2(1)] obtain m3 where m3: "mem_free (Some b) m2 = Inr m3"
      "accounts m3 (opt_blocks pk_blocks k + M)" "lost m3 = lost m" using m2(2) by auto
    note lose = loses_packet [OF m3(2)]
    have same: "loses M m3 n = loses M m n" for n :: nat by (intro ext) (simp add: loses_def m3(3))
    show ?case
    proof (cases rsp)
      case None
      then show ?thesis using y m2(3) m3 by (simp add: loses_def)
    next
      case (Some p)
      from packet_free_m_ok [OF m3(2)] obtain m4 where m4: "packet_free_m k m3 = Inr m4" "accounts m4 M" "lost m4 = lost m3" by blast
      have fw: "sim (loses M m 3) (bind_res r (\<lambda>(ok, out). Inr (if ok then 0 else -1 :: int, out, w1)))
         (bind_res r (\<lambda>(ok, out). if ok then Inr ((0, out, w1), mem_lose (opt_blocks pk_blocks k) m3)
            else bind_res (packet_free_m k m3) (\<lambda>m. Inr ((-1, out, w1), m))))" for r :: "(bool \<times> byte list) res"
        by (rule sim_bind_same, clarify) (use lose m4 m3(3) in \<open>simp add: same\<close>, simp add: loses_def)
      from this [of "fwrite_loop (pvalue p) (unat (value_len p)) 0 fw []"] show ?thesis
        using Some y m3(1) by (simp add: lose [unfolded same])
    qed
  qed
qed

text \<open>Sending the request and treating the answer: one block and up to three.\<close>

lemma exchange_m_ok:
  assumes "accounts m (pk_blocks k + M)"
  shows "sim (loses M m 4) (bind_res (send_request junk s p w) (handle_response junk print s fw))
     (bind_res (send_request_m junk s p k w m) (\<lambda>(w, m). handle_response_m junk print s fw w m))"
proof (rule sim_bind [OF send_request_m_ok [OF assms]], goal_cases)
  case (1 w1 y)
  obtain m1 where y: "y = (w1, m1)" and m1: "accounts m1 M" "size (lost m1) \<le> size (lost m) + 1"
    using 1(2) by (cases y) (auto simp: loses_def)
  show ?case unfolding y prod.case
    by (rule sim_mono [OF handle_response_m_ok [OF m1(1)]]) (use m1(2) in \<open>simp add: loses_def\<close>)
qed

lemma client_main_m_ok:
  assumes "accounts m M"
  shows "sim (loses M m 4) (client_main junk argv inp fw w) (client_main_m junk argv inp fw w m)"
proof (cases "length argv < 5")
  case False
  show ?thesis unfolding client_main_def client_main_m_def if_not_P [OF False] Let_def
  proof (rule sim_bind_same, clarify, goal_cases)
    case (1 s w)
    obtain k m1 where k: "packet_new_m m = (k, m1)" by (cases "packet_new_m m")
    have m1: "accounts m1 (pk_blocks k + M)" "pk_key k = None" "pk_value k = None" "lost m1 = lost m"
      using packet_new_m_ok [OF assms k] k by (auto simp: packet_new_m_def mem_alloc_def mem_grow_def)
    have key: "accounts (mem_grow m1) (pk_blocks (k\<lparr>pk_key := Some (fresh m1)\<rparr>) + M)"
      using accounts_grow [OF m1(1)] m1(2) by (simp add: pk_blocks_def ac_simps add_mset_commute)
    have same: "loses M (mem_grow m1) n = loses M m n" for n by (intro ext) (simp add: loses_def m1(4) mem_grow_def)
    note get = exchange_m_ok [OF key, unfolded same]
    have set: "sim (loses M m 4)
       (bind_res (read_stdin junk inp) (\<lambda>(data, data_len, inp).
          bind_res (send_request junk s (q data data_len) w) (handle_response junk False s fw)))
       (bind_res (read_stdin_m junk inp m1) (\<lambda>((data, data_len, inp), b, m).
          case mem_alloc m of (bk, m) \<Rightarrow>
          bind_res (send_request_m junk s (q data data_len) (k\<lparr>pk_key := Some bk, pk_value := Some b\<rparr>) w m) (\<lambda>(w, m).
          handle_response_m junk False s fw w m)))" for q
    proof (rule sim_bind [OF read_stdin_m_ok [OF m1(1)]], goal_cases)
      case (1 x y)
      obtain d l i b m2 where xy: "x = (d, l, i)" "y = ((d, l, i), b, m2)" and m2: "accounts m2 (add_mset b (pk_blocks k + M))" "lost m2 = lost m"
        using 1(2) m1(4) by (cases x; cases y) (auto simp: buf_rel_def)
      have "accounts (mem_grow m2) (pk_blocks (k\<lparr>pk_key := Some (fresh m2), pk_value := Some b\<rparr>) + M)"
        using accounts_grow [OF m2(1)] m1(2,3) by (simp add: pk_blocks_def ac_simps add_mset_commute)
      note x = exchange_m_ok [OF this, of junk s "q d l" w False fw]
      show ?case unfolding xy prod.case mem_alloc_def
        by (rule sim_mono [OF x]) (simp add: loses_def mem_grow_def m2(2))
    qed
    from packet_free_m_ok [of m1 "Some k" M] m1 obtain m2 where m2: "packet_free_m (Some k) m1 = Inr m2" "accounts m2 M" "lost m2 = lost m"
      by auto
    show ?case unfolding k prod.case
      using get [of junk s _ w _ fw] set m2 assms by (auto simp: mem_alloc_def loses_def)
  qed
qed (simp add: client_main_def client_main_m_def assms loses_none)

section \<open>No stale pointer\<close>

lemma try_connect_no_uaf: "try_connect ais k w \<noteq> Inl Use_After_Free"
  by (induction ais k w rule: try_connect.induct) (auto simp: bind_res_Inl_iff)

lemma read_stdin_loop_no_uaf: "read_stdin_loop junk buf pos inp \<noteq> Inl Use_After_Free"
proof (induction junk buf pos inp rule: read_stdin_loop.induct)
  case (1 junk buf pos inp)
  define buf1 where "buf1 = (if length buf - pos < 1 then grow junk buf else buf)"
  obtain bs inp' where f: "fread (length buf1 - pos) inp = (bs, inp')" by fastforce
  note eq = read_stdin_loop.simps [of junk buf pos inp, unfolded Let_def, folded buf1_def, unfolded f prod.case]
  have "store_at buf1 pos bs \<noteq> Inl Use_After_Free" by simp
  with 1 [OF buf1_def f [symmetric]] show ?case by (cases "store_at buf1 pos bs") (auto simp: eq)
qed

lemma fwrite_loop_no_uaf: "fwrite_loop v n k fw out \<noteq> Inl Use_After_Free"
proof (induction v n k fw out rule: fwrite_loop.induct)
  case (1 v n k fw out)
  then show ?case
    by (subst fwrite_loop.simps) (auto simp: Let_def split: list.split sum.split)
qed

lemma packet_decode_no_uaf: "packet_decode b n \<noteq> Inl Use_After_Free"
  by (auto simp: packet_decode_def packet_decode_hdr_def packet_decode_body_def bind_res_Inl_iff read_be16_def read_be32_def
    read_ip_hi_def read_ip_lo_def Let_def split: option.split if_splits)

lemma client_main_no_uaf: "client_main junk argv inp fw w \<noteq> Inl Use_After_Free"
proof -
  have hr: "handle_response junk print s fw w \<noteq> Inl Use_After_Free" for print s and w :: "'a net_scheme"
    using packet_decode_no_uaf fwrite_loop_no_uaf
    by (auto simp: handle_response_def bind_res_Inl_iff split: option.split if_splits)
  have sr: "send_request junk s p w \<noteq> Inl Use_After_Free" for s p and w :: "'a net_scheme"
    by (auto simp: send_request_def bind_res_Inl_iff)
  have cs: "connect_socket h p w \<noteq> Inl Use_After_Free" for h p
    using try_connect_no_uaf by (auto simp: connect_socket_def bind_res_Inl_iff split: option.split)
  show ?thesis
    using hr sr cs read_stdin_loop_no_uaf [of junk "malloc junk 1024" 0 inp]
    by (auto simp: client_main_def bind_res_Inl_iff Let_def read_stdin_def)
qed

section \<open>Property\<close>

text \<open>
  C40: the memory of the client: for any arguments, input and answers of the network it fails or
  exits with blocks as it does without, never by freeing a block wrongly, and when it exits at most
  four blocks are still allocated, all of them lost: the serialized request and the decoded answer
  with its key and value.
\<close>

theorem client_memory:
  "case client_main junk argv inp fwrites w of
      Inl err \<Rightarrow> err \<noteq> Use_After_Free \<and> client_main_m junk argv inp fwrites w mem_empty = Inl err
    | Inr r \<Rightarrow> \<exists>m. client_main_m junk argv inp fwrites w mem_empty = Inr (r, m) \<and> live m = set_mset (lost m) \<and> card (live m) \<le> 4"
proof (cases "client_main junk argv inp fwrites w")
  case (Inl err)
  then show ?thesis
    using sim_error [OF client_main_m_ok [OF accounts_empty, of junk argv inp fwrites w]] client_main_no_uaf [of junk argv inp fwrites w] by auto
next
  case (Inr r)
  from sim_Inr [OF client_main_m_ok [OF accounts_empty] Inr] obtain m where
    m: "client_main_m junk argv inp fwrites w mem_empty = Inr (r, m)" "accounts m {#}" "size (lost m) \<le> 4"
    by (auto simp: loses_def mem_empty_def prod_eq_iff)
  have "mset_set (live m) = lost m" "finite (live m)" using m(2) by (simp_all add: accounts_def)
  then have "live m = set_mset (lost m)" by (metis finite_set_mset_mset_set)
  then show ?thesis using m Inr accounts_card [OF m(2)] by simp
qed

end
