(* ===== verification/Spec2Isabelle.thy ===== *)
theory Spec2Isabelle
  imports Ring_Bytes Webserver Uthash_Hashes Uthash_Bloom Uthash_Select Uthash_Oom_Links Uthash_Wrappers Debug_Output
    Peer_Memory Client_Memory
begin

text \<open>
  A verification of the programs of this repository: the Chord peer and its client
  (\<open>praxis2\<close>) and the web server of the first exercise (\<open>praxis1\<close>).

  \<^bold>\<open>The programs.\<close> A peer (\<open>src/praxis2/src/peer.c\<close>) keeps a part of a distributed hash table. It
  knows its two neighbours on the identifier circle (\<open>neighbour.c\<close>), accepts connections in a
  poll loop (\<open>server.c\<close>) that collects packets (\<open>packet.c\<close>) in ring buffers (\<open>util.c\<close>), and
  hands each packet to a callback. The callback answers requests for its own keys from the hash
  table (\<open>hash_table.c\<close>, built on the macros of \<open>uthash.h\<close>), relays requests for its successor's
  keys, and for other keys keeps the request (\<open>requests.c\<close>) and sends a lookup round the ring; the
  reply to the lookup completes the request. The client (\<open>client.c\<close>) sends one request and
  prints the answer. The web server (\<open>src/praxis1/webserver.c\<close>) is independent of the ring.

  \<^bold>\<open>The theories.\<close>
  \<^item> \<open>Prelude\<close>: fixed-width integers, the failures of a C statement, blocks of memory with
    checked reads and writes, \<open>strncpy\<close>, big-endian words, histories of operations and the locale
    \<open>op_refinement\<close>.
  \<^item> \<open>Packet\<close>: \<open>packet.c\<close>, \<open>packet.h\<close>. Round trips in both directions, framing, and the exact set
    of buffers on which decoding reads out of bounds.
  \<^item> \<open>Ring_Buffer\<close>: \<open>rb_*\<close> of \<open>util.c\<close>, as a queue of bytes.
  \<^item> \<open>Net_IO\<close>: the sockets interface as a record of the kernel's coming answers with a trace of
    what was done, and \<open>sendall\<close>, \<open>recvall\<close>, \<open>pseudo_hash\<close> of \<open>util.c\<close>.
  \<^item> \<open>Uthash\<close>: the macros of \<open>uthash.h\<close> the program expands. The locale \<open>kv_store\<close> states the
    contract of a store with abstraction and invariant; its interpretation \<open>ut\<close> proves it for
    the macros, with collisions, bucket expansion and counters. A chain is a list of addresses here.
  \<^item> \<open>Uthash_Links\<close>: the same macros on the pointers they patch: \<open>next\<close> and \<open>prev\<close> of the
    application order, \<open>hh_next\<close> and \<open>hh_prev\<close> of the chains, \<open>hh_head\<close> of the buckets, \<open>tail\<close>, \<open>tbl\<close> and the
    user's head pointer. The relation \<open>represents\<close> joins such a state to one of \<open>Uthash\<close>; addition,
    deletion and search refine their list versions, and the complete \<open>HASH_FSCK\<close> passes after each.
  \<^item> \<open>Uthash_Sort\<close> and \<open>Uthash_More\<close>: further macros of \<open>uthash.h\<close>. The merge sort works on the
    links themselves, refines passes on lists and keeps \<open>represents\<close>; ordered insertion, replacement, iteration
    with deletion, counting and clearing are stated over the map of \<open>Uthash\<close>.
  \<^item> \<open>Uthash_Select\<close>, \<open>Uthash_Bloom\<close>, \<open>Uthash_Oom\<close> with \<open>Uthash_Oom_Links\<close>, \<open>Uthash_Wrappers\<close>: selection into a second
    table (whose links are explicit, so that its stale tail pointer shows), the Bloom filter (a table
    with it goes through the states of one without), the rollback after a failed allocation (on the
    lists and on the pointers), and the
    forms for string, integer and pointer keys. \<open>Uthash_Hashes\<close>: \<open>HASH_SFH\<close> and \<open>HASH_MUR\<close>, the
    latter over a memory of bytes because its block reads depend on the alignment of the key.
  \<^item> \<open>Hash_Table\<close> and \<open>Requests\<close>: \<open>hash_table.c\<close> and \<open>requests.c\<close> over \<open>kv_store\<close>. Their histories
    refine a map and a family of queues (interpretations \<open>htq\<close>, \<open>rtq\<close> of \<open>op_refinement\<close>), for
    histories of any length: the only failure is the exit when the bucket array is refused.
  \<^item> \<open>Neighbour\<close>: \<open>neighbour.c\<close> with the pieces of the C library it uses (decimal conversion with
    \<open>errno\<close>, byte order, printing of addresses), and the tests of \<open>scratch1.c\<close>.
  \<^item> \<open>Debug_Output\<close>: the printing helpers and test entry points of \<open>scratch1.c\<close>; the output is a
    result of the model.
  \<^item> \<open>Server\<close> and \<open>Server_Loop\<close>: \<open>server.c\<close>. Packet reassembly for every way a stream can be cut;
    the locale \<open>packet_handler\<close> states what the loop needs of a callback, and the loop is safe
    for every callback that keeps it.
  \<^item> \<open>Event_Loop\<close>: runs of \<open>server_run\<close> in which one client is readable round after round, from the
    first byte of its packet to the removals after the callback. \<open>loop_steps\<close> relates the states
    before and after; the properties from client to peer are stated with it.
  \<^item> \<open>Peer\<close> and \<open>Peer_Requests\<close>: every handler of \<open>peer.c\<close> and its main program, the interpretation
    \<open>hp\<close> of \<open>packet_handler\<close>, and what each branch does.
  \<^item> \<open>Memory\<close>, \<open>Stream_Memory\<close>, \<open>Server_Memory\<close>, \<open>Table_Memory\<close>, \<open>Peer_Memory\<close>, \<open>Client_Memory\<close>:
    \<open>malloc\<close>, \<open>realloc\<close> and \<open>free\<close>, block by block.
    Each operation \<open>f\<close> that allocates or frees has a companion \<open>f_m\<close>, which runs the model \<open>f\<close> of the
    data together with the calls of the allocator; the relation \<open>sim\<close> says that the companion
    fails exactly where \<open>f\<close> does, so no block is freed twice, and \<open>accounts\<close> that what is live is what
    some structure owns or what was lost. The locale \<open>memory_handler\<close> extends \<open>packet_handler\<close>
    by the law a callback with blocks has to keep; its interpretation \<open>hpm\<close> on the handlers of \<open>peer.c\<close>
    gives the memory safety of the server, and \<open>handler_leaks\<close> the blocks each request loses. The
    client ends with a bounded number of blocks.
  \<^item> \<open>Chord_Ring\<close>: lookups across a ring of peers as a step relation over the decision that
    \<open>handle_packet_ctrl\<close> takes.
  \<^item> \<open>Client\<close>: \<open>client.c\<close> and \<open>get_ip_str\<close> of \<open>util.c\<close>.
  \<^item> \<open>Ring_Bytes\<close>: the same lookups as bytes: each peer of a list, with its own process state, is fed
    in pieces what the one before sent; and the two halves of a request at the asking peer.
  \<^item> \<open>End_To_End\<close> and this theory: the client and the owning peer put together, directly, over
    a peer in between, and over a lookup round the ring.
  \<^item> \<open>Webserver\<close>: \<open>webserver.c\<close>.

  \<^bold>\<open>How the code is modelled.\<close> A C structure is a record, an enumeration a datatype, an unsigned
  integer a word of its width where wrap-around can matter. A function returns \<open>Inl\<close> with the
  failure (out of bounds, null pointer, use after free, exit, blocked for ever) or \<open>Inr\<close> with its
  result and the changed state. Pointers into lists of clients and table entries are addresses,
  so that a freed object can be told from a live one. Uninitialised memory is the parameter
  \<open>junk\<close>; a theorem for every \<open>junk\<close> says that none of it is used. Code outside the repository is a
  parameter or an answer in the record \<open>net\<close>: the resolver, \<open>socket\<close>, \<open>connect\<close>, \<open>bind\<close>, \<open>accept\<close>,
  \<open>poll\<close>, \<open>send\<close>, \<open>recv\<close>, the allocator's block sizes in the web server. \<open>malloc\<close> is taken to
  succeed, except for a bucket array of more than 2^31 entries.

  \<^bold>\<open>Loops.\<close> Loops that end are functions with a termination proof: the measures are the bytes still
  to send or to receive, the rest of a list, the positions left to scan. No theorem needs fuel;
  \<open>serve_n\<close> counts readable events and \<open>loop_steps\<close> rounds of \<open>poll\<close>, and the theorems state that
  enough of them exist. The loops of
  the web server that need not end are \<open>partial_function (option)\<close> with \<^const>\<open>None\<close> for a run that
  never ends, which is proved for requests that arrive in two pieces; so are the loops of the
  sort and the iteration, for which the theorems state that they return.

  \<^bold>\<open>What is not modelled.\<close> Messages the programs print for debugging (except the over-reads of \<open>printf\<close>
  in the web server and the helpers of \<open>scratch1.c\<close>), the blocks of the resolver's result lists,
  the release of the web server's second buffer, the text form of IPv6 addresses, the variants of
  \<open>uthash.h\<close> for compilers without \<open>decltype\<close> and its key dump (\<open>HASH_EMIT_KEYS\<close>), the files CMake
  generated, the Python tests and the Lua dissector.
\<close>

unbundle bit_operations_syntax

section \<open>From the client to the owner and back\<close>

text \<open>
  C1: a SET from the client program to the peer that owns the key. Fed with the client's bytes
  in any pieces, the peer's event loop comes to a state with exactly the data of standard input stored
  under the key and the connection closed; and a client that sends just these bytes and gets
  back, in any pieces, just the bytes the peer sent, exits with 0 and prints nothing.
\<close>

theorem end_to_end_set:
  assumes "serving_owner pr me su (map of_char key) cl srv w" "ut_room (w_ht w)" "send_ready 11 w"
    "key \<noteq> []" "length key < 2 ^ 16" "\<forall>c \<in> set inp. c \<noteq> []" "length key + length (concat inp) < 2 ^ 31"
    "\<forall>x \<in> set cs. x \<noteq> []" "concat cs = request_wire PKT_FLAG_SET (map of_char key) (concat inp)"
  shows "\<exists>w' evs. loop_steps (handle_packet junk) junk (c_id cl) (srv, feed (c_socket cl) cs rest w) (without (c_id cl) srv, w') \<and>
     world_wf w' \<and> ht_map (w_ht w') = (ht_map (w_ht w))(map of_char key \<mapsto> concat inp) \<and>
     trace w' = trace w @ evs @ [EvClose (c_socket cl)] \<and>
     sent_to (c_socket cl) evs = wire (packet_new\<lparr>flags := PKT_FLAG_SET OR PKT_FLAG_ACK\<rparr>) \<and>
     (\<forall>wc :: net. client_env host prt s (length (concat cs)) (sent_to (c_socket cl) evs) fwrites wc \<longrightarrow>
       (\<exists>wc' addr evc. client_main junk' [prog, host, prt, ''SET'', key] inp fwrites wc = Inr (0, [], wc') \<and>
          trace wc' = trace wc @ EvConnect s addr # evc @ [EvClose s] \<and> sent_to s evc = concat cs))"
proof -
  let ?k = "map of_char key :: byte list" and ?a = "packet_new\<lparr>flags := PKT_FLAG_SET OR PKT_FLAG_ACK\<rparr>"
  have k: "?k \<noteq> []" "length ?k < 2 ^ 16" "length ?k + length (concat inp) < 2 ^ 31" using assms(4,5,7) by simp_all
  obtain w' evs where r: "loop_steps (handle_packet junk) junk (c_id cl) (srv, feed (c_socket cl) cs rest w) (without (c_id cl) srv, w')"
     "world_wf w'" "ht_map (w_ht w') = (ht_map (w_ht w))(?k \<mapsto> concat inp)"
     "trace w' = trace w @ evs @ [EvClose (c_socket cl)]" "sent_to (c_socket cl) evs = wire ?a"
    using owner_stores [OF assms(1-3) k assms(8,9), of junk rest] by blast
  have a: "answer_packet ?a" "has_flag (flags ?a) PKT_FLAG_ACK"
    by (simp_all add: answer_packet_def has_flag_def flag_defs wf_packet_def fits_u32_def packet_new_def ptr_bytes_def)
  have "\<exists>wc' addr evc. client_main junk' [prog, host, prt, ''SET'', key] inp fwrites wc = Inr (0, [], wc') \<and>
      trace wc' = trace wc @ EvConnect s addr # evc @ [EvClose s] \<and> sent_to s evc = concat cs"
    if "client_env host prt s (length (concat cs)) (wire ?a) fwrites wc" for wc :: net
    using client_gets_answer [OF that a, of "''SET''" PKT_FLAG_SET inp "concat inp" key junk' prog] assms(6,9) by (simp add: method_flag_def)
  then show ?thesis using r by (intro exI [of _ w'] exI [of _ evs]) simp
qed

text \<open>
  C2: a GET from the client program to the peer that owns the key: the peer's tables stay as
  they are, and the client exits with 0 and prints the stored value as \<open>strncpy\<close> copies it, so
  the value itself if it holds no NUL byte; for a key that is not stored it prints nothing.
\<close>

theorem end_to_end_get:
  assumes "serving_owner pr me su (map of_char key) cl srv w" "key \<noteq> []" "length key < 2 ^ 16"
    "v = ht_map (w_ht w) (map of_char key)" "\<forall>x. v = Some x \<longrightarrow> length key + length x < 2 ^ 31"
    "send_ready (7 + length key + length (case v of None \<Rightarrow> [] | Some x \<Rightarrow> x)) w"
    "\<forall>x \<in> set cs. x \<noteq> []" "concat cs = request_wire PKT_FLAG_GET (map of_char key) []"
  shows "\<exists>w' evs. loop_steps (handle_packet junk) junk (c_id cl) (srv, feed (c_socket cl) cs rest w) (without (c_id cl) srv, w') \<and>
     w_ht w' = w_ht w \<and> w_rt w' = w_rt w \<and> trace w' = trace w @ evs @ [EvClose (c_socket cl)] \<and>
     sent_to (c_socket cl) evs = wire (case v of None \<Rightarrow> ack PKT_FLAG_GET | Some x \<Rightarrow> get_ack (map of_char key) x) \<and>
     (\<forall>wc :: net. client_env host prt s (length (concat cs)) (sent_to (c_socket cl) evs) fwrites wc \<longrightarrow>
       (\<exists>wc' addr evc. client_main junk' [prog, host, prt, ''GET'', key] [] fwrites wc =
            Inr (0, case v of None \<Rightarrow> [] | Some x \<Rightarrow> nul_copy x, wc') \<and>
          trace wc' = trace wc @ EvConnect s addr # evc @ [EvClose s] \<and> sent_to s evc = concat cs))"
proof -
  let ?k = "map of_char key :: byte list"
  define a where "a = wire (get_answer ?k v)"
  have a: "a = wire (case v of None \<Rightarrow> ack PKT_FLAG_GET | Some x \<Rightarrow> get_ack ?k x)" by (simp add: a_def get_answer_def)
  have k: "?k \<noteq> []" "length ?k < 2 ^ 16" "\<forall>x. v = Some x \<longrightarrow> length ?k + length x < 2 ^ 31"
    using assms(2,3,5) by simp_all
  have "send_ready (length a) w" using get_answer_ready [of ?k v w] k assms(6) by (simp add: a_def)
  then obtain w' evs where r: "loop_steps (handle_packet junk) junk (c_id cl) (srv, feed (c_socket cl) cs rest w) (without (c_id cl) srv, w')" "w_ht w' = w_ht w" "w_rt w' = w_rt w"
      "trace w' = trace w @ evs @ [EvClose (c_socket cl)]" "sent_to (c_socket cl) evs = a"
    using owner_answers_get [OF assms(1) k(1,2) assms(4) k(3) _ assms(7,8), of junk rest] unfolding a_def by blast
  have "\<exists>wc' addr evc. client_main junk' [prog, host, prt, ''GET'', key] [] fwrites wc =
      Inr (0, case v of None \<Rightarrow> [] | Some x \<Rightarrow> nul_copy x, wc') \<and>
      trace wc' = trace wc @ EvConnect s addr # evc @ [EvClose s] \<and> sent_to s evc = concat cs"
    if "client_env host prt s (length (concat cs)) a fwrites wc" for wc :: net
    using client_prints_get [of host prt s ?k v fwrites wc key junk' prog] that k(2,3) assms(8) by (simp add: a_def)
  then show ?thesis using r unfolding a [symmetric] by blast
qed

text \<open>
  C3: what was stored is found. After a SET from one client program the owner accepts another
  connection, in any later state of the network, and a GET for the same key arrives, again in
  any pieces: the client that sent it exits with 0 and prints the data of the SET, byte for byte
  up to the first NUL byte and zeros from there on; so exactly the data if it holds no NUL.
\<close>

theorem end_to_end_set_then_get:
  assumes owner: "serving_owner pr me su k cl srv w" "ut_room (w_ht w)" "send_ready 11 w"
    and key: "k = map of_char key" "key \<noteq> []" "length key < 2 ^ 16" "length key + length v < 2 ^ 31"
    and set: "\<forall>x \<in> set cs. x \<noteq> []" "concat cs = request_wire PKT_FLAG_SET k v"
    and get: "\<forall>x \<in> set cg. x \<noteq> []" "concat cg = request_wire PKT_FLAG_GET k []"
  shows "\<exists>w1. loop_steps (handle_packet junk) junk (c_id cl) (srv, feed (c_socket cl) cs [] w) (without (c_id cl) srv, w1) \<and>
     (\<forall>w2. net.more w2 = net.more w1 \<longrightarrow> send_ready (7 + length key + length v) w2 \<longrightarrow>
       (\<exists>w3 evs. loop_steps (handle_packet junk) junk (next_id srv) (server_add_client junk fd (without (c_id cl) srv), feed fd cg [] w2)
           (without (next_id srv) (server_add_client junk fd (without (c_id cl) srv)), w3) \<and>
         trace w3 = trace w2 @ evs @ [EvClose fd] \<and>
         (\<forall>wc :: net. client_env host prt s (length (concat cg)) (sent_to fd evs) fwrites wc \<longrightarrow>
           (\<exists>wc'. client_main junk' [prog, host, prt, ''GET'', key] [] fwrites wc = Inr (0, nul_copy v, wc')))))"
proof -
  have k: "k \<noteq> []" "length k < 2 ^ 16" "length k + length v < 2 ^ 31" "\<forall>x. Some v = Some x \<longrightarrow> length k + length x < 2 ^ 31"
    using key by simp_all
  obtain w1 where w1: "loop_steps (handle_packet junk) junk (c_id cl) (srv, feed (c_socket cl) cs [] w) (without (c_id cl) srv, w1)"
     "world_wf w1" "ring_state pr me su w1" "ht_map (w_ht w1) = (ht_map (w_ht w))(k \<mapsto> v)"
    using owner_stores [OF owner k(1-3) set, of junk "[]"] by blast
  have srv: "srv_wf (without (c_id cl) srv)" "active (without (c_id cl) srv)" "unmarked (without (c_id cl) srv)"
    using owner(1) without_wf [of cl srv] by (simp_all add: serving_owner_def serving_def without_keeps)
  define d where "d = hd (clients (server_add_client junk fd (without (c_id cl) srv)))"
  note d = serving_new [OF srv d_def]
  have id: "next_id (without (c_id cl) srv) = next_id srv" by (simp add: without_def)
  have "\<exists>w3 evs. loop_steps (handle_packet junk) junk (next_id srv) (server_add_client junk fd (without (c_id cl) srv), feed fd cg [] w2)
           (without (next_id srv) (server_add_client junk fd (without (c_id cl) srv)), w3) \<and>
         trace w3 = trace w2 @ evs @ [EvClose fd] \<and> sent_to fd evs = wire (get_answer k (Some v))"
    if w2: "net.more w2 = net.more w1" "send_ready (7 + length key + length v) w2" for w2
  proof -
    have s: "world_wf w2" "ring_state pr me su w2" "Some v = ht_map (w_ht w2) k"
      using w1(2-4) world_wf_more [OF w2(1)] world_more [OF w2(1)] by (simp_all add: ring_state_def)
    have "serving_owner pr me su k d (server_add_client junk fd (without (c_id cl) srv)) w2"
      using s d(1,2) owner(1) by (simp add: serving_owner_def)
    moreover have "send_ready (length (wire (get_answer k (Some v)))) w2"
      using get_answer_ready [OF _ k(2,4)] w2(2) key(1) by simp
    ultimately show ?thesis
      using owner_answers_get [OF _ k(1,2) s(3) k(4) _ get, of pr me su d "server_add_client junk fd (without (c_id cl) srv)" junk "[]"] d(3,4) id by auto
  qed
  moreover have "\<exists>wc'. client_main junk' [prog, host, prt, ''GET'', key] [] fwrites wc = Inr (0, nul_copy v, wc')"
    if "client_env host prt s (length (concat cg)) (wire (get_answer k (Some v))) fwrites wc" for wc :: net
    using client_prints_get [of host prt s k "Some v" fwrites wc key junk' prog] that key(1) k(2,4) get(2) by auto
  ultimately show ?thesis using w1(1) by metis
qed

text \<open>
  C4: a GET over one hop. A peer whose successor owns the key forwards the client's request to
  the owner and relays the owner's answer. Whatever the pieces in which the four streams (client
  to peer, peer to owner, owner to peer, peer to client) arrive: the owner sends just the bytes
  that the peer reads, the peer sends the owner just the bytes of the client and sends the client
  just the bytes that it reads, no table changes, and the client exits with 0 and prints the
  stored value as \<open>strncpy\<close> copies it, or nothing for a key that is not stored.
\<close>

theorem end_to_end_proxied_get:
  assumes owner: "serving_owner prB meB suB (map of_char key) clB srvB wB"
    and v: "v = ht_map (w_ht wB) (map of_char key)" "\<forall>x. v = Some x \<longrightarrow> length key + length x < 2 ^ 31"
    and ans: "ans = wire (case v of None \<Rightarrow> ack PKT_FLAG_GET | Some x \<Rightarrow> get_ack (map of_char key) x)" "send_ready (length ans) wB"
    and key: "key \<noteq> []" "length key < 2 ^ 16" "req = request_wire PKT_FLAG_GET (map of_char key) []"
    and csB: "\<forall>x \<in> set csB. x \<noteq> []" "concat csB = req"
    and proxy: "serving_proxy pr me su (map of_char key) cl srv w" "proxy_env su (c_socket cl) p ai (length req) ans w"
    and cs: "\<forall>x \<in> set cs. x \<noteq> []" "concat cs = req"
    and client: "client_env host prt s (length req) ans fwrites wc"
  shows "(\<exists>wB' evB. loop_steps (handle_packet junkB) junkB (c_id clB) (srvB, feed (c_socket clB) csB [] wB) (without (c_id clB) srvB, wB') \<and> w_ht wB' = w_ht wB \<and> w_rt wB' = w_rt wB \<and>
       trace wB' = trace wB @ evB @ [EvClose (c_socket clB)] \<and> sent_to (c_socket clB) evB = ans) \<and>
     (\<exists>w' e1 e2. loop_steps (handle_packet junk) junk (c_id cl) (srv, feed (c_socket cl) cs [] w) (without (c_id cl) srv, w') \<and> w_ht w' = w_ht w \<and> w_rt w' = w_rt w \<and>
       trace w' = trace w @ EvConnect p (ai_addr ai) # e1 @ [EvClose p] @ e2 @ [EvClose p, EvClose (c_socket cl)] \<and>
       sent_to p e1 = req \<and> sent_to (c_socket cl) e2 = ans) \<and>
     (\<exists>wc' addr evc. client_main junk' [prog, host, prt, ''GET'', key] [] fwrites wc =
         Inr (0, case v of None \<Rightarrow> [] | Some x \<Rightarrow> nul_copy x, wc') \<and>
       trace wc' = trace wc @ EvConnect s addr # evc @ [EvClose s] \<and> sent_to s evc = req)"
proof -
  let ?k = "map of_char key :: byte list"
  have a: "ans = wire (get_answer ?k v)" by (simp add: ans(1) get_answer_def)
  have k: "?k \<noteq> []" "length ?k < 2 ^ 16" "\<forall>x. v = Some x \<longrightarrow> length ?k + length x < 2 ^ 31"
    using key v(2) by simp_all
  have fl: "\<not> has_flag PKT_FLAG_GET PKT_FLAG_CTRL" "length ?k + length ([] :: byte list) < 2 ^ 31"
    using key by (simp_all add: has_flag_def flag_defs)
  show ?thesis
  proof (intro conjI)
    show "\<exists>wB' evB. loop_steps (handle_packet junkB) junkB (c_id clB) (srvB, feed (c_socket clB) csB [] wB) (without (c_id clB) srvB, wB') \<and> w_ht wB' = w_ht wB \<and> w_rt wB' = w_rt wB \<and>
       trace wB' = trace wB @ evB @ [EvClose (c_socket clB)] \<and> sent_to (c_socket clB) evB = ans"
      using owner_answers_get [OF owner k(1,2) v(1) k(3) _ csB(1), of junkB "[]"] ans(2) csB(2) key(3)
      by (simp add: a)
    show "\<exists>w' e1 e2. loop_steps (handle_packet junk) junk (c_id cl) (srv, feed (c_socket cl) cs [] w) (without (c_id cl) srv, w') \<and> w_ht w' = w_ht w \<and> w_rt w' = w_rt w \<and>
       trace w' = trace w @ EvConnect p (ai_addr ai) # e1 @ [EvClose p] @ e2 @ [EvClose p, EvClose (c_socket cl)] \<and>
       sent_to p e1 = req \<and> sent_to (c_socket cl) e2 = ans"
      using proxy_serves [OF proxy(1) fl(1) k(2) fl(2) k(1) cs(1), of p ai ans junk "[]"] proxy(2) cs(2) key(3)
      by metis
    show "\<exists>wc' addr evc. client_main junk' [prog, host, prt, ''GET'', key] [] fwrites wc =
         Inr (0, case v of None \<Rightarrow> [] | Some x \<Rightarrow> nul_copy x, wc') \<and>
       trace wc' = trace wc @ EvConnect s addr # evc @ [EvClose s] \<and> sent_to s evc = req"
      using client_prints_get [of host prt s ?k v fwrites wc key junk' prog] client k(2,3) key(3) by (simp add: a)
  qed
qed

section \<open>Over the ring\<close>

text \<open>
  C5: a GET from the client program to a peer that neither owns the key nor knows the owner, on a
  ring of peers, for a key whose hash id is above the smallest peer id (for the other hash ids
  no peer ever answers the lookup, see C12). The asking peer keeps the request and sends its lookup to the ring, where the
  lookup is passed on byte for byte by fewer peers than there are, until one peer answers with
  the address of the consistent-hashing owner. When that answer reaches the asking peer on a
  new connection, in any later state of the network, the peer sends the kept request, byte for
  byte, to the owner, relays the owner's answer to the client that waits since, closes all the
  connections, and both of its tables are as before the request. The owner sends just that
  answer, and the client prints the stored value as \<open>strncpy\<close> copies it, or nothing.
\<close>

theorem end_to_end_lookup_get:
  assumes asker: "asking pr me su k h cl srv w" "reachable su s ai w" "send_ready 11 w"
    and key: "k = map of_char key" "key \<noteq> []" "length key < 2 ^ 16" "req = request_wire PKT_FLAG_GET k []"
    and cs: "\<forall>x \<in> set cs. x \<noteq> []" "concat cs = req"
    and lk: "lk = lookup_for h me (peer_get_ip me w)"
    and ring: "ring_ids (ring_of nodes)" "ring_layout nodes" "\<forall>nd \<in> set nodes. node_ready lk nd"
      "i < length nodes" "ring_of nodes ! 0 < h"
    and rp: "j < length nodes" "ring_of nodes ! j = owner (ring_of nodes) h" "rp = reply_for h (nd_self (nodes ! j)) (nd_ip (nodes ! j))"
    and reply: "distinct (map c_socket (clients srv))" "fd \<notin> c_socket ` set (clients srv)" "\<forall>x \<in> set cr. x \<noteq> []" "concat cr = wire rp"
    and owner: "serving_owner prB meB suB k clB srvB wB" "\<forall>x \<in> set csB. x \<noteq> []" "concat csB = req"
    and v: "v = ht_map (w_ht wB) k" "\<forall>x. v = Some x \<longrightarrow> length k + length x < 2 ^ 31"
    and ans: "ans = wire (case v of None \<Rightarrow> ack PKT_FLAG_GET | Some x \<Rightarrow> get_ack k x)" "send_ready (length ans) wB"
    and client: "client_env host prt sc (length req) ans fwrites wc"
  shows "(\<exists>cl1 w1 e0. loop_steps (handle_packet junk) junk (c_id cl) (srv, feed (c_socket cl) cs [] w) (put_client cl1 srv, w1) \<and>
       trace w1 = trace w @ EvConnect s (ai_addr ai) # e0 @ [EvClose s] \<and> sent_to s e0 = wire lk \<and>
       (\<forall>w2 t ait. net.more w2 = net.more w1 \<longrightarrow> proxy_env (peer_from_packet rp) fd t ait (length req) ans w2 \<longrightarrow>
         (\<exists>w3 e1 e2. loop_steps (handle_packet junk) junk (next_id srv) (server_add_client junk fd (put_client cl1 srv), feed fd cr [] w2)
             (without (c_id cl) (without (next_id srv) (server_add_client junk fd (put_client cl1 srv))), w3) \<and>
           w_ht w3 = w_ht w \<and> rt_queue (w_rt w3) = rt_queue (w_rt w) \<and>
           trace w3 = trace w2 @ EvConnect t (ai_addr ait) # e1 @ [EvClose t] @ e2 @ [EvClose t, EvClose fd, EvClose (c_socket cl)] \<and>
           sent_to t e1 = req \<and> sent_to (c_socket cl) e2 = ans))) \<and>
     (\<exists>n < length nodes. sends junk' (nodes ! ((i + n) mod length nodes)) (nd_asker_ai (nodes ! ((i + n) mod length nodes))) (wire rp) \<and>
       (\<forall>d < n. sends junk' (nodes ! ((i + d) mod length nodes)) (nd_succ_ai (nodes ! ((i + d) mod length nodes))) (wire lk))) \<and>
     (\<exists>wB' evB. loop_steps (handle_packet junkB) junkB (c_id clB) (srvB, feed (c_socket clB) csB [] wB) (without (c_id clB) srvB, wB') \<and>
       w_ht wB' = w_ht wB \<and> w_rt wB' = w_rt wB \<and>
       trace wB' = trace wB @ evB @ [EvClose (c_socket clB)] \<and> sent_to (c_socket clB) evB = ans) \<and>
     (\<exists>wc' addr evc. client_main junkC [prog, host, prt, ''GET'', key] [] fwrites wc =
         Inr (0, case v of None \<Rightarrow> [] | Some x \<Rightarrow> nul_copy x, wc') \<and>
       trace wc' = trace wc @ EvConnect sc addr # evc @ [EvClose sc] \<and> sent_to sc evc = req)"
proof (intro conjI)
  have kk: "k \<noteq> []" "length k < 2 ^ 16" using key by simp_all
  have fl: "\<not> has_flag PKT_FLAG_GET PKT_FLAG_CTRL" "length k < 2 ^ 16" "length k + length ([] :: byte list) < 2 ^ 31" "k \<noteq> []"
    using kk by (simp_all add: has_flag_def flag_defs)
  have a: "ans = wire (get_answer k v)" by (simp add: ans(1) get_answer_def)
  show "\<exists>wB' evB. loop_steps (handle_packet junkB) junkB (c_id clB) (srvB, feed (c_socket clB) csB [] wB) (without (c_id clB) srvB, wB') \<and>
       w_ht wB' = w_ht wB \<and> w_rt wB' = w_rt wB \<and>
       trace wB' = trace wB @ evB @ [EvClose (c_socket clB)] \<and> sent_to (c_socket clB) evB = ans"
    using owner_answers_get [OF owner(1) kk v(1,2) _ owner(2), of junkB "[]"] ans(2) owner(3) key(4) by (simp add: a)
  show "\<exists>wc' addr evc. client_main junkC [prog, host, prt, ''GET'', key] [] fwrites wc =
         Inr (0, case v of None \<Rightarrow> [] | Some x \<Rightarrow> nul_copy x, wc') \<and>
       trace wc' = trace wc @ EvConnect sc addr # evc @ [EvClose sc] \<and> sent_to sc evc = req"
    using client_prints_get [of host prt sc k v fwrites wc key junkC prog] client key v(2) by (simp add: a)
  show "\<exists>n < length nodes. sends junk' (nodes ! ((i + n) mod length nodes)) (nd_asker_ai (nodes ! ((i + n) mod length nodes))) (wire rp) \<and>
       (\<forall>d < n. sends junk' (nodes ! ((i + d) mod length nodes)) (nd_succ_ai (nodes ! ((i + d) mod length nodes))) (wire lk))"
    using lookup_to_owner [OF ring(1-3) _ _ ring(4) _ rp(1), of junk'] ring(5) rp(2,3) lk by simp
  show "\<exists>cl1 w1 e0. loop_steps (handle_packet junk) junk (c_id cl) (srv, feed (c_socket cl) cs [] w) (put_client cl1 srv, w1) \<and>
       trace w1 = trace w @ EvConnect s (ai_addr ai) # e0 @ [EvClose s] \<and> sent_to s e0 = wire lk \<and>
       (\<forall>w2 t ait. net.more w2 = net.more w1 \<longrightarrow> proxy_env (peer_from_packet rp) fd t ait (length req) ans w2 \<longrightarrow>
         (\<exists>w3 e1 e2. loop_steps (handle_packet junk) junk (next_id srv) (server_add_client junk fd (put_client cl1 srv), feed fd cr [] w2)
             (without (c_id cl) (without (next_id srv) (server_add_client junk fd (put_client cl1 srv))), w3) \<and>
           w_ht w3 = w_ht w \<and> rt_queue (w_rt w3) = rt_queue (w_rt w) \<and>
           trace w3 = trace w2 @ EvConnect t (ai_addr ait) # e1 @ [EvClose t] @ e2 @ [EvClose t, EvClose fd, EvClose (c_socket cl)] \<and>
           sent_to t e1 = req \<and> sent_to (c_socket cl) e2 = ans))"
    using asker_relays [OF asker fl cs(1) _ reply(1,2) rp(3) reply(3,4), of junk ans] cs(2) key(4) lk by simp
qed

section \<open>Witnesses\<close>

text \<open>The key \<open>d\<close> has hash id 100: peer 100 between peers 50 and 150 owns it.\<close>

lemma sample_owner:
  assumes "w_pred w = w_pred sample_world" "w_self w = w_self sample_world" "w_succ w = w_succ sample_world" "world_wf w"
  shows "serving_owner (ring_peer 50 4000) (ring_peer 100 4001) (ring_peer 150 4002) (map of_char ''d'') new_client one_client w"
  using assms sample_world_simps(7) one_client_simps serving_sample
  by (simp add: serving_owner_def ring_state_def pseudo_hash_def peer_is_responsible_def ring_peer_def)

definition client_side :: "byte list list \<Rightarrow> net" where
  "client_side cs = \<lparr>gai = (\<lambda>_ _. Some [sample_ai 16777343]), socket_res = [3], connect_res = [0], send_res = replicate 64 9,
     inq = (\<lambda>_. [])(3 := map RData cs @ [RData []]), trace = []\<rparr>"

lemma client_side_env:
  assumes "\<forall>c \<in> set cs. c \<noteq> []" "n \<le> 64" "length (concat cs) \<le> 64"
  shows "client_env h p 3 n (concat cs) (replicate 64 9) (client_side cs)"
  using assms by (auto simp: client_env_def client_side_def send_ready_def)

theorem end_to_end_set_witness:
  "\<exists>w' wc'.
     loop_steps (handle_packet (\<lambda>_. 0)) (\<lambda>_. 0) 0 (one_client, feed 5 [[2, 0, 1, 0, 0], [0, 2, 100, 7, 8]] [] sample_world) (without 0 one_client, w') \<and>
     ht_map (w_ht w') = [[100] \<mapsto> [7, 8]] \<and>
     client_main (\<lambda>_. 0) [''client'', ''node'', ''4001'', ''SET'', ''d''] [[7, 8]] (replicate 64 9)
       (client_side [[10, 0, 0], [0, 0, 0, 0]]) = Inr (0, [], wc')"
proof -
  let ?cs = "[[2, 0, 1, 0, 0], [0, 2, 100, 7, 8]] :: byte list list" and ?wc = "client_side [[10, 0, 0], [0, 0, 0, 0]]"
  have req: "concat ?cs = request_wire PKT_FLAG_SET (map of_char ''d'') (concat [[7, 8]])"
    by (simp add: request_wire_def PKT_FLAG_SET_def be16_def be32_def)
  have own: "serving_owner (ring_peer 50 4000) (ring_peer 100 4001) (ring_peer 150 4002) (map of_char ''d'') new_client one_client sample_world"
    by (rule sample_owner) simp_all
  have ack: "wire (packet_new\<lparr>flags := PKT_FLAG_SET OR PKT_FLAG_ACK\<rparr>) = concat [[10, 0, 0], [0, 0, 0, 0]]" by code_simp
  have env: "client_env ''node'' ''4001'' 3 (length (concat ?cs)) (concat [[10, 0, 0], [0, 0, 0, 0]]) (replicate 64 9) ?wc"
    by (rule client_side_env) simp_all
  from end_to_end_set [OF own _ _ _ _ _ _ _ req, of "\<lambda>_. 0" "[]" "''node''" "''4001''" 3 "replicate 64 9" "\<lambda>_. 0" "''client''"] ack env
  obtain w' wc' where
     "loop_steps (handle_packet (\<lambda>_. 0)) (\<lambda>_. 0) (c_id new_client) (one_client, feed (c_socket new_client) ?cs [] sample_world)
        (without (c_id new_client) one_client, w')"
     "ht_map (w_ht w') = (ht_map (w_ht sample_world))(map of_char ''d'' \<mapsto> concat [[7, 8]])"
     "client_main (\<lambda>_. 0) [''client'', ''node'', ''4001'', ''SET'', ''d''] [[7, 8]] (replicate 64 9) ?wc = Inr (0, [], wc')"
    by auto
  then show ?thesis using one_client_simps(4) new_client_socket by auto
qed

theorem end_to_end_set_then_get_witness:
  "\<exists>w1. loop_steps (handle_packet (\<lambda>_. 0)) (\<lambda>_. 0) 0 (one_client, feed 5 [[2, 0, 1, 0, 0], [0, 2, 100, 7, 8]] [] sample_world) (without 0 one_client, w1) \<and>
     (\<exists>w3 evs. loop_steps (handle_packet (\<lambda>_. 0)) (\<lambda>_. 0) 1 (server_add_client (\<lambda>_. 0) 6 (without 0 one_client),
           feed 6 [[4, 0], [1, 0, 0, 0, 0, 100]] [] (later [] w1)) (without 1 (server_add_client (\<lambda>_. 0) 6 (without 0 one_client)), w3) \<and>
       trace w3 = evs @ [EvClose 6] \<and>
       (\<forall>wc :: net. client_env ''node'' ''4001'' 3 8 (sent_to 6 evs) (replicate 64 9) wc \<longrightarrow>
         (\<exists>wc'. client_main (\<lambda>_. 0) [''client'', ''node'', ''4001'', ''GET'', ''d''] [] (replicate 64 9) wc = Inr (0, [7, 8], wc'))))"
proof -
  let ?k = "map of_char ''d'' :: byte list"
  have own: "serving_owner (ring_peer 50 4000) (ring_peer 100 4001) (ring_peer 150 4002) ?k new_client one_client sample_world"
    by (rule sample_owner) simp_all
  have set: "\<forall>x \<in> set [[2, 0, 1, 0, 0], [0, 2, 100, 7, 8 :: byte]]. x \<noteq> []"
      "concat [[2, 0, 1, 0, 0], [0, 2, 100, 7, 8]] = request_wire PKT_FLAG_SET ?k [7, 8]"
    and get: "\<forall>x \<in> set [[4, 0], [1, 0, 0, 0, 0, 100 :: byte]]. x \<noteq> []" "concat [[4, 0], [1, 0, 0, 0, 0, 100]] = request_wire PKT_FLAG_GET ?k []"
    by (simp_all add: request_wire_def PKT_FLAG_SET_def PKT_FLAG_GET_def be16_def be32_def)
  have n: "next_id one_client = 1" by (simp add: one_client_def server_add_client_def)
  have l: "net.more (later [] w1) = net.more w1" "trace (later [] w1) = []" "send_ready (7 + length ''d'' + length [7, 8 :: byte]) (later [] w1)" for w1
    by (simp_all add: later_def send_ready_def)
  have nc: "nul_copy [7, 8] = [7, 8 :: byte]" by (simp add: nul_copy_id)
  have g: "length (concat [[4, 0], [1, 0, 0, 0, 0, 100 :: byte]]) = 8" by simp
  have p: "ut_room (w_ht sample_world)" "send_ready 11 sample_world" "''d'' \<noteq> []" "length ''d'' < 2 ^ 16" "length ''d'' + length [7, 8 :: byte] < 2 ^ 31"
    by simp_all
  obtain w1 where a: "loop_steps (handle_packet (\<lambda>_. 0)) (\<lambda>_. 0) 0 (one_client, feed 5 [[2, 0, 1, 0, 0], [0, 2, 100, 7, 8]] [] sample_world) (without 0 one_client, w1)"
    and b: "\<And>w2. net.more w2 = net.more w1 \<Longrightarrow> send_ready (7 + length ''d'' + length [7, 8 :: byte]) w2 \<Longrightarrow>
       \<exists>w3 evs. loop_steps (handle_packet (\<lambda>_. 0)) (\<lambda>_. 0) 1 (server_add_client (\<lambda>_. 0) 6 (without 0 one_client), feed 6 [[4, 0], [1, 0, 0, 0, 0, 100]] [] w2)
           (without 1 (server_add_client (\<lambda>_. 0) 6 (without 0 one_client)), w3) \<and>
         trace w3 = trace w2 @ evs @ [EvClose 6] \<and>
         (\<forall>wc :: net. client_env ''node'' ''4001'' 3 8 (sent_to 6 evs) (replicate 64 9) wc \<longrightarrow>
           (\<exists>wc'. client_main (\<lambda>_. 0) [''client'', ''node'', ''4001'', ''GET'', ''d''] [] (replicate 64 9) wc = Inr (0, [7, 8], wc')))"
    using end_to_end_set_then_get [OF own p(1,2) refl p(3-5) set get, of "\<lambda>_. 0" 6 "''node''" "''4001''" 3 "replicate 64 9" "\<lambda>_. 0" "''client''"]
    unfolding n one_client_simps(4) new_client_socket nc g by blast
  show ?thesis using a b [OF l(1,3)] unfolding l(2) append_Nil by blast
qed

theorem end_to_end_get_witness:
  "\<exists>w w' wc'. ht_map (w_ht w) [100] = Some [7, 8] \<and>
     loop_steps (handle_packet (\<lambda>_. 0)) (\<lambda>_. 0) 0 (one_client, feed 5 [[4, 0], [1, 0, 0, 0, 0, 100]] [] w) (without 0 one_client, w') \<and>
     client_main (\<lambda>_. 0) [''client'', ''node'', ''4001'', ''GET'', ''d''] [] (replicate 64 9)
       (client_side [[12, 0, 1, 0], [0, 0, 2, 100, 7, 8]]) = Inr (0, [7, 8], wc')"
proof -
  let ?cs = "[[4, 0], [1, 0, 0, 0, 0, 100]] :: byte list list" and ?wc = "client_side [[12, 0, 1, 0], [0, 0, 2, 100, 7, 8]]"
  obtain t where t: "ht_wf t" "ht_map t = [[100] \<mapsto> [7, 8]]"
    using htable_set_ok [of ut_empty "Some [100]" 1 "[100]" "Some [7, 8]" 2 "[7, 8]"] by (auto simp: arg_def)
  let ?w = "sample_world\<lparr>w_ht := t\<rparr>"
  have req: "concat ?cs = request_wire PKT_FLAG_GET (map of_char ''d'') []"
    by (simp add: request_wire_def PKT_FLAG_GET_def be16_def be32_def)
  have own: "serving_owner (ring_peer 50 4000) (ring_peer 100 4001) (ring_peer 150 4002) (map of_char ''d'') new_client one_client ?w"
    by (rule sample_owner) (use t(1) in \<open>simp_all add: world_wf_def\<close>)
  have v: "Some [7, 8] = ht_map (w_ht ?w) (map of_char ''d'')" using t(2) by simp
  have sr: "send_ready n ?w \<longleftrightarrow> n \<le> 64" for n by (simp add: send_ready_def sample_world_def net.defs)
  have ans: "wire (get_ack (map of_char ''d'') [7, 8]) = concat [[12, 0, 1, 0], [0, 0, 2, 100, 7, 8]]" by code_simp
  have nc: "nul_copy [7, 8] = [7, 8 :: byte]" by (simp add: nul_copy_id)
  have env: "client_env ''node'' ''4001'' 3 (length (concat ?cs)) (concat [[12, 0, 1, 0], [0, 0, 2, 100, 7, 8]]) (replicate 64 9) ?wc"
    by (rule client_side_env) simp_all
  from end_to_end_get [OF own _ _ v _ _ _ req, of "\<lambda>_. 0" "[]" "''node''" "''4001''" 3 "replicate 64 9" "\<lambda>_. 0" "''client''"] ans nc env sr
  obtain w' wc' where
     "loop_steps (handle_packet (\<lambda>_. 0)) (\<lambda>_. 0) (c_id new_client) (one_client, feed (c_socket new_client) ?cs [] ?w)
        (without (c_id new_client) one_client, w')"
     "client_main (\<lambda>_. 0) [''client'', ''node'', ''4001'', ''GET'', ''d''] [] (replicate 64 9) ?wc = Inr (0, [7, 8], wc')"
    by auto
  then show ?thesis using t(2) one_client_simps(4) new_client_socket by (intro exI [of _ ?w] exI [of _ w'] exI [of _ wc']) simp
qed

text \<open>Peer 50 between peers 10 and 100 is the proxy for the key \<open>d\<close>; peer 100 is reached on socket 8.\<close>

definition proxy_world :: "byte list list \<Rightarrow> world" where
  "proxy_world cs = sample_world\<lparr>inq := (\<lambda>_. [])(8 := map RData cs @ [RData []]), w_pred := Some (ring_peer 10 3999),
     w_self := Some (ring_peer 50 4000), w_succ := Some (ring_peer 100 4001)\<rparr>"

lemma proxy_world_ok:
  assumes "\<forall>c \<in> set cs. c \<noteq> []" "n + length (concat cs) \<le> 64"
  shows "serving_proxy (ring_peer 10 3999) (ring_peer 50 4000) (ring_peer 100 4001) (map of_char ''d'') new_client one_client (proxy_world cs)"
    "proxy_env (ring_peer 100 4001) (c_socket new_client) 8 (sample_ai 16777343) n (concat cs) (proxy_world cs)"
proof -
  show "serving_proxy (ring_peer 10 3999) (ring_peer 50 4000) (ring_peer 100 4001) (map of_char ''d'') new_client one_client (proxy_world cs)"
    using one_client_simps serving_sample sample_world_simps(4)
    by (simp add: serving_proxy_def world_wf_def proxy_world_def ring_state_def pseudo_hash_def peer_is_responsible_def ring_peer_def)
  have "reachable (ring_peer 100 4001) 8 (sample_ai 16777343) (proxy_world cs)"
    by (simp add: reachable_def peer_lookup_def proxy_world_def sample_world_def net.defs)
  moreover have "send_ready (n + length (concat cs)) (proxy_world cs)"
    using assms(2) by (simp add: send_ready_def proxy_world_def sample_world_def net.defs)
  ultimately show "proxy_env (ring_peer 100 4001) (c_socket new_client) 8 (sample_ai 16777343) n (concat cs) (proxy_world cs)"
    using assms by (auto simp: proxy_env_def proxy_world_def new_client_socket)
qed

theorem end_to_end_proxied_get_witness:
  "\<exists>wB wB' evB w' wc'. ht_map (w_ht wB) [100] = Some [7, 8] \<and>
     loop_steps (handle_packet (\<lambda>_. 0)) (\<lambda>_. 0) 0 (one_client, feed 5 [[4], [0, 1, 0, 0, 0, 0, 100]] [] wB) (without 0 one_client, wB') \<and>
     trace wB' = evB @ [EvClose 5] \<and> sent_to 5 evB = [12, 0, 1, 0, 0, 0, 2, 100, 7, 8] \<and>
     loop_steps (handle_packet (\<lambda>_. 0)) (\<lambda>_. 0) 0 (one_client, feed 5 [[4, 0], [1, 0, 0, 0, 0, 100]]
       [] (proxy_world [[12, 0, 1], [0, 0, 0, 2, 100, 7, 8]])) (without 0 one_client, w') \<and>
     client_main (\<lambda>_. 0) [''client'', ''node'', ''4000'', ''GET'', ''d''] [] (replicate 64 9)
       (client_side [[12, 0, 1, 0], [0, 0, 2, 100, 7, 8]]) = Inr (0, [7, 8], wc')"
proof -
  let ?kd = "map of_char ''d'' :: byte list" and ?wc = "client_side [[12, 0, 1, 0], [0, 0, 2, 100, 7, 8]]"
  let ?req = "[4, 0, 1, 0, 0, 0, 0, 100] :: byte list" and ?ans = "[12, 0, 1, 0, 0, 0, 2, 100, 7, 8] :: byte list"
  obtain t where t: "ht_wf t" "ht_map t = [[100] \<mapsto> [7, 8]]"
    using htable_set_ok [of ut_empty "Some [100]" 1 "[100]" "Some [7, 8]" 2 "[7, 8]"] by (auto simp: arg_def)
  let ?w = "sample_world\<lparr>w_ht := t\<rparr>"
  have req: "?req = request_wire PKT_FLAG_GET ?kd []"
    by (simp add: request_wire_def PKT_FLAG_GET_def be16_def be32_def)
  have own: "serving_owner (ring_peer 50 4000) (ring_peer 100 4001) (ring_peer 150 4002) ?kd new_client one_client ?w"
    by (rule sample_owner) (use t(1) in \<open>simp_all add: world_wf_def\<close>)
  have v: "Some [7, 8] = ht_map (w_ht ?w) ?kd" using t(2) by simp
  have sr: "send_ready (length ?ans) ?w" by (simp add: send_ready_def sample_world_def net.defs)
  have ans: "?ans = wire (case Some [7, 8] of None \<Rightarrow> ack PKT_FLAG_GET | Some x \<Rightarrow> get_ack ?kd x)" by code_simp
  have env: "client_env ''node'' ''4000'' 3 (length ?req) (concat [[12, 0, 1, 0], [0, 0, 2, 100, 7, 8]]) (replicate 64 9) ?wc"
    by (rule client_side_env) simp_all
  have px: "serving_proxy (ring_peer 10 3999) (ring_peer 50 4000) (ring_peer 100 4001) ?kd new_client one_client
      (proxy_world [[12, 0, 1], [0, 0, 0, 2, 100, 7, 8]])"
    "proxy_env (ring_peer 100 4001) (c_socket new_client) 8 (sample_ai 16777343) (length ?req) (concat [[12, 0, 1], [0, 0, 0, 2, 100, 7, 8]])
      (proxy_world [[12, 0, 1], [0, 0, 0, 2, 100, 7, 8]])"
    using proxy_world_ok [of "[[12, 0, 1], [0, 0, 0, 2, 100, 7, 8]]" "length ?req"] by simp_all
  from end_to_end_proxied_get [OF own v _ ans sr _ _ req _ _ px(1) _ _ _ , of "[[4], [0, 1, 0, 0, 0, 0, 100]]" 8 "sample_ai 16777343"
      "[[4, 0], [1, 0, 0, 0, 0, 100]]" "''node''" "''4000''" 3 "replicate 64 9" ?wc "\<lambda>_. 0" "\<lambda>_. 0" "\<lambda>_. 0" "''client''"] px(2) env
  obtain wB' evB w' wc' where
     "loop_steps (handle_packet (\<lambda>_. 0)) (\<lambda>_. 0) 0 (one_client, feed 5 [[4], [0, 1, 0, 0, 0, 0, 100]] [] ?w) (without 0 one_client, wB')"
     "trace wB' = evB @ [EvClose 5]" "sent_to 5 evB = ?ans"
     "loop_steps (handle_packet (\<lambda>_. 0)) (\<lambda>_. 0) 0 (one_client, feed 5 [[4, 0], [1, 0, 0, 0, 0, 100]]
       [] (proxy_world [[12, 0, 1], [0, 0, 0, 2, 100, 7, 8]])) (without 0 one_client, w')"
     "client_main (\<lambda>_. 0) [''client'', ''node'', ''4000'', ''GET'', ''d''] [] (replicate 64 9) ?wc = Inr (0, [7, 8], wc')"
    by (auto simp: new_client_socket one_client_simps(4) nul_copy_id)
  moreover have "ht_map (w_ht ?w) [100] = Some [7, 8]" using t(2) by simp
  ultimately show ?thesis by blast
qed

theorem end_to_end_lookup_get_witness:
  "\<exists>wB cl1 w1 e0 w3 e1 e2 wB' evB wc'. ht_map (w_ht wB) [100] = Some [7, 8] \<and>
     loop_steps (handle_packet (\<lambda>_. 0)) (\<lambda>_. 0) 0 (one_client, feed 5 [[4], [0, 1, 0, 0, 0, 0, 100]] [] ask_world) (put_client cl1 one_client, w1) \<and>
     trace w1 = EvConnect 8 (ai_addr (sample_ai 16777343)) # e0 @ [EvClose 8] \<and>
     sent_to 8 e0 = [129, 0, 100, 0, 200, 127, 0, 0, 1, 16, 104] \<and>
     loop_steps (handle_packet (\<lambda>_. 0)) (\<lambda>_. 0) 1 (server_add_client (\<lambda>_. 0) 6 (put_client cl1 one_client),
         feed 6 [[130, 0, 100, 0, 120], [127, 0, 0, 1, 16, 24]] [] (later [[12, 0, 1], [0, 0, 0, 2, 100, 7, 8]] w1))
       (without 0 (without 1 (server_add_client (\<lambda>_. 0) 6 (put_client cl1 one_client))), w3) \<and>
     w_ht w3 = ut_empty \<and> rt_queue (w_rt w3) 100 = [] \<and>
     trace w3 = EvConnect 9 (ai_addr (sample_ai 16777343)) # e1 @ [EvClose 9] @ e2 @ [EvClose 9, EvClose 6, EvClose 5] \<and>
     sent_to 9 e1 = [4, 0, 1, 0, 0, 0, 0, 100] \<and> sent_to 5 e2 = [12, 0, 1, 0, 0, 0, 2, 100, 7, 8] \<and>
     loop_steps (handle_packet (\<lambda>_. 0)) (\<lambda>_. 0) 0 (one_client, feed 5 [[4, 0, 1, 0], [0, 0, 0, 100]] [] wB) (without 0 one_client, wB') \<and>
     sent_to 5 evB = [12, 0, 1, 0, 0, 0, 2, 100, 7, 8] \<and> trace wB' = evB @ [EvClose 5] \<and>
     client_main (\<lambda>_. 0) [''client'', ''node'', ''4200'', ''GET'', ''d''] [] (replicate 64 9)
       (client_side [[12, 0, 1, 0], [0, 0, 2, 100, 7, 8]]) = Inr (0, [7, 8], wc')"
proof -
  let ?k = "map of_char ''d'' :: byte list" and ?wc = "client_side [[12, 0, 1, 0], [0, 0, 2, 100, 7, 8]]"
  let ?req = "[4, 0, 1, 0, 0, 0, 0, 100] :: byte list" and ?ans = "[12, 0, 1, 0, 0, 0, 2, 100, 7, 8] :: byte list"
  let ?ls = "[[129, 0], [100, 0, 200, 127, 0, 0, 1], [16, 104]] :: byte list list" and ?as = "[[12, 0, 1], [0, 0, 0, 2, 100, 7, 8]] :: byte list list"
  let ?lk = "lookup_for 100 (ring_peer 200 4200) (peer_get_ip (ring_peer 200 4200) ask_world)"
  let ?rp = "reply_for 100 (nd_self (sample_nodes ?ls ! 2)) (nd_ip (sample_nodes ?ls ! 2))"
  obtain t where t: "ht_wf t" "ht_map t = [[100] \<mapsto> [7, 8]]"
    using htable_set_ok [of ut_empty "Some [100]" 1 "[100]" "Some [7, 8]" 2 "[7, 8]"] by (auto simp: arg_def)
  let ?wB = "sample_world\<lparr>w_ht := t\<rparr>"
  have req: "?req = request_wire PKT_FLAG_GET ?k []" by (simp add: request_wire_def PKT_FLAG_GET_def be16_def be32_def)
  have lk: "wire ?lk = concat ?ls" unfolding ask_world_ok(4) by code_simp
  have cs: "\<forall>c \<in> set ?ls. c \<noteq> []" "concat ?ls = wire ?lk" by (simp_all add: lk)
  note ok = sample_nodes_ok [OF cs]
  have l: "length (sample_nodes ?ls) = 4" by (simp add: sample_nodes_def)
  have r: "ring_of (sample_nodes ?ls) ! 2 = owner (ring_of (sample_nodes ?ls)) 100" "ring_of (sample_nodes ?ls) ! 0 < 100"
    unfolding ok(1) by (simp_all add: owner_def)
  have rp: "concat [[130, 0, 100, 0, 120], [127, 0, 0, 1, 16, 24]] = wire ?rp"
  proof -
    have n: "nd_self (sample_nodes ?ls ! 2) = ring_peer 120 4120" "nd_ip (sample_nodes ?ls ! 2) = 2130706433"
      by (simp_all add: sample_nodes_def sample_node_def Let_def)
    show ?thesis unfolding n by code_simp
  qed
  have own: "serving_owner (ring_peer 50 4000) (ring_peer 100 4001) (ring_peer 150 4002) ?k new_client one_client ?wB"
    by (rule sample_owner) (use t(1) in \<open>simp_all add: world_wf_def\<close>)
  have v: "Some [7, 8] = ht_map (w_ht ?wB) ?k" using t(2) by simp
  have sr: "send_ready (length ?ans) ?wB" by (simp add: send_ready_def sample_world_def net.defs)
  have ans: "?ans = wire (case Some [7, 8] of None \<Rightarrow> ack PKT_FLAG_GET | Some x \<Rightarrow> get_ack ?k x)" by code_simp
  have env: "client_env ''node'' ''4200'' 3 (length ?req) ?ans (replicate 64 9) ?wc"
    using client_side_env [of "[[12, 0, 1, 0], [0, 0, 2, 100, 7, 8]]" "length ?req"] by simp
  have socks: "distinct (map c_socket (clients one_client))" "6 \<notin> c_socket ` set (clients one_client)" "next_id one_client = 1"
    by (simp_all add: one_client_simps(1) new_client_socket) (simp add: one_client_def server_add_client_def)
  have n: "net.more (later ?as w1) = net.more w1" "trace (later ?as w1) = []"
    "proxy_env (peer_from_packet ?rp) 6 9 (sample_ai 16777343) (length ?req) ?ans (later ?as w1)" for w1
    using later_ok(1,2) [of ?as 0 w1] later_ok(3) [of ?as "length ?req" "peer_from_packet ?rp" w1] by simp_all
  have k: "''d'' \<noteq> []" "length ''d'' < 2 ^ 16" by simp_all
  have csA: "\<forall>x \<in> set [[4], [0, 1, 0, 0, 0, 0, 100 :: byte]]. x \<noteq> []" "concat [[4], [0, 1, 0, 0, 0, 0, 100]] = ?req"
    and csB: "\<forall>x \<in> set [[4, 0, 1, 0], [0, 0, 0, 100 :: byte]]. x \<noteq> []" "concat [[4, 0, 1, 0], [0, 0, 0, 100]] = ?req"
    and cr: "\<forall>x \<in> set [[130, 0, 100, 0, 120], [127, 0, 0, 1, 16, 24 :: byte]]. x \<noteq> []"
    and ij: "0 < length (sample_nodes ?ls)" "2 < length (sample_nodes ?ls)"
    and vl: "\<forall>x. Some [7, 8 :: byte] = Some x \<longrightarrow> length ?k + length x < 2 ^ 31" by (simp_all add: l)
  note e = end_to_end_lookup_get [OF ask_world_ok(1-3) refl k req csA refl ok(2-4) ij(1) r(2) ij(2) r(1) refl socks(1,2) cr rp own csB v vl ans sr env,
      of "\<lambda>_. 0" "\<lambda>_. 0" "\<lambda>_. 0" "\<lambda>_. 0" "''client''"]
  obtain cl1 w1 e0 where a: "loop_steps (handle_packet (\<lambda>_. 0)) (\<lambda>_. 0) 0 (one_client, feed 5 [[4], [0, 1, 0, 0, 0, 0, 100]] [] ask_world) (put_client cl1 one_client, w1)"
    "trace w1 = EvConnect 8 (ai_addr (sample_ai 16777343)) # e0 @ [EvClose 8]" "sent_to 8 e0 = concat ?ls"
    and b: "\<And>w2 t ait. net.more w2 = net.more w1 \<Longrightarrow> proxy_env (peer_from_packet ?rp) 6 t ait (length ?req) ?ans w2 \<Longrightarrow>
      \<exists>w3 e1 e2. loop_steps (handle_packet (\<lambda>_. 0)) (\<lambda>_. 0) 1 (server_add_client (\<lambda>_. 0) 6 (put_client cl1 one_client),
          feed 6 [[130, 0, 100, 0, 120], [127, 0, 0, 1, 16, 24]] [] w2)
          (without 0 (without 1 (server_add_client (\<lambda>_. 0) 6 (put_client cl1 one_client))), w3) \<and>
        w_ht w3 = ut_empty \<and> rt_queue (w_rt w3) = rt_queue (w_rt ask_world) \<and>
        trace w3 = trace w2 @ EvConnect t (ai_addr ait) # e1 @ [EvClose t] @ e2 @ [EvClose t, EvClose 6, EvClose 5] \<and>
        sent_to t e1 = ?req \<and> sent_to 5 e2 = ?ans"
    using conjunct1 [OF e] unfolding socks(3) one_client_simps(4) new_client_socket ask_world_ok(5,6) lk append_Nil by blast
  obtain w3 e1 e2 where c: "loop_steps (handle_packet (\<lambda>_. 0)) (\<lambda>_. 0) 1 (server_add_client (\<lambda>_. 0) 6 (put_client cl1 one_client),
        feed 6 [[130, 0, 100, 0, 120], [127, 0, 0, 1, 16, 24]] [] (later ?as w1))
      (without 0 (without 1 (server_add_client (\<lambda>_. 0) 6 (put_client cl1 one_client))), w3)"
    "w_ht w3 = ut_empty" "rt_queue (w_rt w3) = rt_queue (w_rt ask_world)"
    "trace w3 = EvConnect 9 (ai_addr (sample_ai 16777343)) # e1 @ [EvClose 9] @ e2 @ [EvClose 9, EvClose 6, EvClose 5]"
    "sent_to 9 e1 = ?req" "sent_to 5 e2 = ?ans"
    using b [OF n(1,3)] unfolding n(2) append_Nil by blast
  obtain wB' evB where d: "loop_steps (handle_packet (\<lambda>_. 0)) (\<lambda>_. 0) 0 (one_client, feed 5 [[4, 0, 1, 0], [0, 0, 0, 100]] [] ?wB) (without 0 one_client, wB')"
    "trace wB' = evB @ [EvClose 5]" "sent_to 5 evB = ?ans"
    using conjunct1 [OF conjunct2 [OF conjunct2 [OF e]]] unfolding one_client_simps(4) new_client_socket by auto
  obtain wc' where f: "client_main (\<lambda>_. 0) [''client'', ''node'', ''4200'', ''GET'', ''d''] [] (replicate 64 9) ?wc = Inr (0, [7, 8], wc')"
    using conjunct2 [OF conjunct2 [OF conjunct2 [OF e]]] by (auto simp: nul_copy_id)
  have "ht_map (w_ht ?wB) [100] = Some [7, 8]" "rt_queue (w_rt w3) 100 = []" using t(2) c(3) ask_world_ok(1) by (simp_all add: asking_def)
  moreover have "sent_to 8 e0 = [129, 0, 100, 0, 200, 127, 0, 0, 1, 16, 104]" using a(3) by simp
  ultimately show ?thesis using a(1,2) c(1,2,4-6) d f by blast
qed

end
